(* ===== verification/Prelude.thy ===== *)
theory Prelude
  imports Main "HOL-Library.Word" "HOL-Library.List_Lexorder"
begin

unbundle bit_operations_syntax

text \<open>
  Shared vocabulary of the development: bytes and machine integers, the error
  monad that models Rust's \<^verbatim>\<open>Result\<close> and its \<^verbatim>\<open>?\<close> operator, big-endian integer
  encodings (\<^verbatim>\<open>to_be_bytes\<close>, \<^verbatim>\<open>from_be_bytes\<close>), the lexicographic order of byte
  slices, and ordered maps (\<^verbatim>\<open>std::collections::BTreeMap\<close>) as association lists
  in strictly ascending key order.

  The collections: \<open>try_simps\<close> unfolds the error monad, \<open>be_simps\<close> rewrites the
  integer codecs, \<open>om_simps\<close> rewrites lookups in ordered maps.
\<close>

named_theorems try_simps
named_theorems be_simps
named_theorems om_simps

type_synonym byte = "8 word"
type_synonym bytes = "8 word list"
type_synonym u16 = "16 word"
type_synonym u32 = "32 word"
type_synonym u64 = "64 word"

section \<open>Results\<close>

text \<open>\<open>Inl\<close> is \<^verbatim>\<open>Err\<close>, \<open>Inr\<close> is \<^verbatim>\<open>Ok\<close>. \<open>attempt m f\<close> is \<^verbatim>\<open>let x = m?; f(x)\<close>, \<open>map_err\<close> is
  \<^verbatim>\<open>Result::map_err\<close>, \<open>ok_or\<close> is \<^verbatim>\<open>Option::ok_or\<close>.\<close>

definition attempt :: "'e + 'a \<Rightarrow> ('a \<Rightarrow> 'e + 'b) \<Rightarrow> 'e + 'b" where
  "attempt m f = (case m of Inl e \<Rightarrow> Inl e | Inr x \<Rightarrow> f x)"

definition map_err :: "('e \<Rightarrow> 'f) \<Rightarrow> 'e + 'a \<Rightarrow> 'f + 'a" where
  "map_err g m = (case m of Inl e \<Rightarrow> Inl (g e) | Inr x \<Rightarrow> Inr x)"

definition ok_or :: "'e \<Rightarrow> 'a option \<Rightarrow> 'e + 'a" where
  "ok_or e m = (case m of None \<Rightarrow> Inl e | Some x \<Rightarrow> Inr x)"

definition guard :: "bool \<Rightarrow> 'e \<Rightarrow> 'e + unit" where
  "guard b e = (if b then Inr () else Inl e)"

text \<open>A \<^verbatim>\<open>for\<close> loop whose body may return early with an error.\<close>

fun try_fold :: "('a \<Rightarrow> 's \<Rightarrow> 'e + 's) \<Rightarrow> 'a list \<Rightarrow> 's \<Rightarrow> 'e + 's" where
  "try_fold f [] s = Inr s"
| "try_fold f (x # xs) s = attempt (f x s) (try_fold f xs)"

fun try_map :: "('a \<Rightarrow> 'e + 'b) \<Rightarrow> 'a list \<Rightarrow> 'e + 'b list" where
  "try_map f [] = Inr []"
| "try_map f (x # xs) = attempt (f x) (\<lambda>y. attempt (try_map f xs) (\<lambda>ys. Inr (y # ys)))"

lemma attempt_simp [simp, try_simps]:
  "attempt (Inl e) f = Inl e"
  "attempt (Inr x) f = f x"
  by (simp_all add: attempt_def)

lemma map_err_simp [simp, try_simps]:
  "map_err g (Inl e) = Inl (g e)"
  "map_err g (Inr x) = Inr x"
  by (simp_all add: map_err_def)

lemma ok_or_simp [simp, try_simps]:
  "ok_or e None = Inl e"
  "ok_or e (Some x) = Inr x"
  by (simp_all add: ok_or_def)

lemma guard_simp [simp, try_simps]:
  "guard True e = Inr ()"
  "guard False e = Inl e"
  by (simp_all add: guard_def)

lemma attempt_eq_Inr [try_simps]: "attempt m f = Inr y \<longleftrightarrow> (\<exists>x. m = Inr x \<and> f x = Inr y)"
  by (cases m) simp_all

lemma attempt_eq_Inl [try_simps]:
  "attempt m f = Inl e \<longleftrightarrow> m = Inl e \<or> (\<exists>x. m = Inr x \<and> f x = Inl e)"
  by (cases m) simp_all

lemma map_err_eq_Inr [simp, try_simps]: "map_err g m = Inr x \<longleftrightarrow> m = Inr x"
  by (cases m) simp_all

lemma map_err_eq_Inl [try_simps]: "map_err g m = Inl e' \<longleftrightarrow> (\<exists>e. m = Inl e \<and> e' = g e)"
  by (cases m) auto

lemma ok_or_eq_Inr [simp, try_simps]: "ok_or e m = Inr x \<longleftrightarrow> m = Some x"
  by (cases m) simp_all

lemma guard_eq_Inr [simp, try_simps]: "guard b e = Inr u \<longleftrightarrow> b"
  by (cases b) simp_all

lemma guard_eq_Inl [simp, try_simps]: "guard b e = Inl e' \<longleftrightarrow> \<not> b \<and> e' = e"
  by (cases b) auto

lemma attempt_cong [fundef_cong]:
  "m = m' \<Longrightarrow> (\<And>x. m' = Inr x \<Longrightarrow> f x = f' x) \<Longrightarrow> attempt m f = attempt m' f'"
  by (cases m') simp_all

lemma try_fold_cong [fundef_cong]:
  assumes "xs = ys" "s = t" "\<And>x u. x \<in> set ys \<Longrightarrow> f x u = g x u"
  shows "try_fold f xs s = try_fold g ys t"
  using assms(3) unfolding assms(1,2)
  by (induction ys arbitrary: t) (auto intro: attempt_cong)

lemma try_map_cong [fundef_cong]:
  assumes "xs = ys" "\<And>x. x \<in> set ys \<Longrightarrow> f x = g x"
  shows "try_map f xs = try_map g ys"
  using assms(2) unfolding assms(1)
  by (induction ys) (auto intro: attempt_cong)

lemma try_fold_append:
  "try_fold f (xs @ ys) s = attempt (try_fold f xs s) (try_fold f ys)"
  by (induction xs arbitrary: s) (auto simp: attempt_def split: sum.splits)

lemma try_map_Inr:
  "try_map f xs = Inr ys \<longleftrightarrow> list_all2 (\<lambda>x y. f x = Inr y) xs ys"
  by (induction xs arbitrary: ys) (auto simp: try_simps list_all2_Cons1)

section \<open>Searching lists\<close>

text \<open>\<^verbatim>\<open>iter().position(..)\<close>\<close>

fun position :: "('a \<Rightarrow> bool) \<Rightarrow> 'a list \<Rightarrow> nat option" where
  "position P [] = None"
| "position P (x # xs) = (if P x then Some 0 else map_option Suc (position P xs))"

lemma position_None: "position P xs = None \<longleftrightarrow> (\<forall>x \<in> set xs. \<not> P x)"
  by (induction xs) auto

lemma position_Some:
  "position P xs = Some i \<Longrightarrow> i < length xs \<and> P (xs ! i) \<and> (\<forall>j < i. \<not> P (xs ! j))"
  by (induction xs arbitrary: i) (auto simp: nth_Cons less_Suc_eq_0_disj split: if_splits nat.splits)

lemma position_cong: "(\<And>x. x \<in> set xs \<Longrightarrow> P x = Q x) \<Longrightarrow> position P xs = position Q xs"
  by (induction xs) auto

section \<open>The lexicographic order of slices\<close>

lemma append_less_iff:
  fixes us vs :: "'a::linorder list"
  shows "length xs = length ys \<Longrightarrow> xs @ us < ys @ vs \<longleftrightarrow> xs < ys \<or> xs = ys \<and> us < vs"
  by (induction xs ys rule: list_induct2) auto

lemma take_mono_less:
  fixes xs ys :: "'a::linorder list"
  assumes "length xs = length ys" "xs \<le> ys"
  shows "take d xs \<le> take d ys"
  using append_less_iff [of "take d xs" "take d ys" "drop d xs" "drop d ys"] assms
  by (auto simp: le_less)

lemma take_squeeze:
  fixes xs ys zs :: "'a::linorder list"
  assumes "length xs = length ys" "length ys = length zs" "xs \<le> ys" "ys \<le> zs" "take d xs = take d zs"
  shows "take d ys = take d xs"
  using take_mono_less [of xs ys d] take_mono_less [of ys zs d] assms by simp

section \<open>Big-endian integers\<close>

fun be_bytes :: "nat \<Rightarrow> nat \<Rightarrow> bytes" where
  "be_bytes 0 x = []"
| "be_bytes (Suc n) x = be_bytes n (x div 256) @ [word_of_nat (x mod 256)]"

definition be_val :: "bytes \<Rightarrow> nat" where
  "be_val bs = foldl (\<lambda>a b. a * 256 + unat b) 0 bs"

text \<open>\<^verbatim>\<open>to_be_bytes\<close> and \<^verbatim>\<open>from_be_bytes\<close> at the width of the word type.\<close>

definition to_be :: "'a::len word \<Rightarrow> bytes" where
  "to_be w = be_bytes (LENGTH('a) div 8) (unat w)"

definition from_be :: "bytes \<Rightarrow> 'a::len word" where
  "from_be bs = word_of_nat (be_val bs)"

lemma length_be_bytes [simp]: "length (be_bytes n x) = n"
  by (induction n arbitrary: x) auto

lemma be_val_Nil [simp]: "be_val [] = 0"
  by (simp add: be_val_def)

lemma be_val_snoc [simp]: "be_val (bs @ [b]) = be_val bs * 256 + unat b"
  by (simp add: be_val_def)

lemma be_val_append: "be_val (xs @ ys) = be_val xs * 256 ^ length ys + be_val ys"
  by (induction ys rule: rev_induct) (auto simp: algebra_simps simp flip: append_assoc)

lemma be_val_Cons: "be_val (b # bs) = unat b * 256 ^ length bs + be_val bs"
  using be_val_append [of "[b]" bs] by (simp add: be_val_def)

lemma unat_byte_less [simp]: "unat (b :: byte) < 256"
  using unsigned_less [of b, where ?'a = nat] by simp

lemma be_val_less: "be_val bs < 256 ^ length bs"
proof (induction bs)
  case Nil
  then show ?case by simp
next
  case (Cons b bs)
  have "unat b * 256 ^ length bs + be_val bs < (unat b + 1) * 256 ^ length bs"
    using Cons by simp
  also have "\<dots> \<le> 256 * 256 ^ length bs"
    using unat_byte_less [of b] by (intro mult_right_mono) (simp_all add: Suc_le_eq)
  finally show ?case by (simp add: be_val_Cons)
qed

lemma be_val_be_bytes: "be_val (be_bytes n x) = x mod 256 ^ n"
proof (induction n arbitrary: x)
  case 0
  then show ?case by simp
next
  case (Suc n)
  have "unat (word_of_nat (x mod 256) :: byte) = x mod 256"
    by (simp add: unat_of_nat)
  then show ?case
    by (simp add: Suc mod_mult2_eq [of x 256] algebra_simps)
qed

lemma be_bytes_be_val: "length bs = n \<Longrightarrow> be_bytes n (be_val bs) = bs"
proof (induction n arbitrary: bs)
  case 0
  then show ?case by simp
next
  case (Suc n)
  then obtain cs c where bs: "bs = cs @ [c]" and "length cs = n"
    by (cases bs rule: rev_cases) auto
  have "(be_val cs * 256 + unat c) div 256 = be_val cs"
    using unat_byte_less [of c] by simp
  moreover have "(be_val cs * 256 + unat c) mod 256 = unat c"
    using unat_byte_less [of c] by simp
  ultimately show ?case
    using Suc.IH [OF \<open>length cs = n\<close>] bs by simp
qed

lemma be_bytes_inject:
  "x < 256 ^ n \<Longrightarrow> y < 256 ^ n \<Longrightarrow> be_bytes n x = be_bytes n y \<longleftrightarrow> x = y"
  by (metis be_val_be_bytes mod_less)

lemma be_val_inject: "length xs = length ys \<Longrightarrow> be_val xs = be_val ys \<longleftrightarrow> xs = ys"
  by (metis be_bytes_be_val)

lemma length_to_be [simp]: "length (to_be (w :: 'a::len word)) = LENGTH('a) div 8"
  by (simp add: to_be_def)

lemma from_be_to_be [simp]:
  assumes "8 dvd LENGTH('a::len)"
  shows "from_be (to_be w) = (w :: 'a word)"
proof -
  have "(256 :: nat) ^ (LENGTH('a) div 8) = (2 ^ 8) ^ (LENGTH('a) div 8)"
    by simp
  also have "\<dots> = 2 ^ LENGTH('a)"
    using assms unfolding power_mult [symmetric] by simp
  finally show ?thesis
    using unsigned_less [of w, where ?'a = nat] by (simp add: from_be_def to_be_def be_val_be_bytes)
qed

lemma to_be_from_be:
  assumes "length bs * 8 = LENGTH('a::len)"
  shows "to_be (from_be bs :: 'a word) = bs"
proof -
  have "(256 :: nat) ^ length bs = (2 ^ 8) ^ length bs"
    by simp
  also have "\<dots> = 2 ^ LENGTH('a)"
    unfolding power_mult [symmetric] using assms by (simp add: mult.commute)
  finally have "be_val bs < 2 ^ LENGTH('a)"
    using be_val_less [of bs] by simp
  then have "unat (from_be bs :: 'a word) = be_val bs"
    by (simp add: from_be_def unat_of_nat)
  moreover have "LENGTH('a) div 8 = length bs"
    using assms by arith
  ultimately show ?thesis
    by (simp add: to_be_def be_bytes_be_val)
qed

declare length_be_bytes [be_simps] be_val_be_bytes [be_simps] length_to_be [be_simps]
  from_be_to_be [be_simps]

text \<open>Byte strings of one length compare as the integers they encode.\<close>

lemma be_val_mono:
  "length xs = length ys \<Longrightarrow> be_val xs < be_val ys \<longleftrightarrow> xs < ys"
proof (induction xs ys rule: list_induct2)
  case Nil
  then show ?case by simp
next
  case (Cons x xs y ys)
  let ?n = "256 ^ length ys :: nat"
  have bounds: "be_val xs < ?n" "be_val ys < ?n"
    using be_val_less [of xs] be_val_less [of ys] Cons.hyps by simp_all
  consider "unat x < unat y" | "unat x = unat y" | "unat y < unat x"
    by linarith
  then show ?case
  proof cases
    case 1
    then have "(unat x + 1) * ?n \<le> unat y * ?n"
      by (intro mult_right_mono) simp_all
    then have "be_val (x # xs) < be_val (y # ys)"
      using bounds Cons.hyps by (simp add: be_val_Cons)
    moreover have "x < y"
      using 1 by (simp add: word_less_nat_alt)
    ultimately show ?thesis by simp
  next
    case 2
    then have "x = y" by (simp add: word_unat_eq_iff)
    then show ?thesis
      using Cons by (simp add: be_val_Cons)
  next
    case 3
    then have "(unat y + 1) * ?n \<le> unat x * ?n"
      by (intro mult_right_mono) simp_all
    then have "\<not> be_val (x # xs) < be_val (y # ys)"
      using bounds Cons.hyps by (simp add: be_val_Cons)
    moreover have "y < x"
      using 3 by (simp add: word_less_nat_alt)
    ultimately show ?thesis by auto
  qed
qed

lemma power_bytes: "8 dvd LENGTH('a::len) \<Longrightarrow> (256 :: nat) ^ (LENGTH('a) div 8) = 2 ^ LENGTH('a)"
proof -
  assume "8 dvd LENGTH('a)"
  then have "2 ^ LENGTH('a) = ((2 :: nat) ^ 8) ^ (LENGTH('a) div 8)"
    unfolding power_mult [symmetric] by simp
  then show ?thesis by simp
qed

lemma to_be_less:
  assumes "8 dvd LENGTH('a::len)"
  shows "to_be (v :: 'a word) < to_be w \<longleftrightarrow> v < w"
proof -
  have "be_val (to_be u) = unat u" for u :: "'a word"
    using unsigned_less [of u, where ?'a = nat] power_bytes [OF assms]
    by (simp add: to_be_def be_val_be_bytes)
  then show ?thesis
    using be_val_mono [of "to_be v" "to_be w"] by (simp add: word_less_nat_alt)
qed

lemma to_be_inject:
  "8 dvd LENGTH('a::len) \<Longrightarrow> to_be (v :: 'a word) = to_be w \<longleftrightarrow> v = w"
  by (metis from_be_to_be)

section \<open>Ordered maps\<close>

text \<open>\<^verbatim>\<open>BTreeMap\<close>: an association list in strictly ascending key order. Lookup is
  \<open>map_of\<close>; \<open>om_get\<close> is an abbreviation for it.\<close>

type_synonym ('k, 'v) omap = "('k \<times> 'v) list"

abbreviation om_get :: "('k, 'v) omap \<Rightarrow> 'k \<Rightarrow> 'v option" where
  "om_get \<equiv> map_of"

definition om_ok :: "('k::linorder, 'v) omap \<Rightarrow> bool" where
  "om_ok m \<longleftrightarrow> sorted_wrt (<) (map fst m)"

fun om_put :: "'k::linorder \<Rightarrow> 'v \<Rightarrow> ('k, 'v) omap \<Rightarrow> ('k, 'v) omap" where
  "om_put k v [] = [(k, v)]"
| "om_put k v ((k', v') # m) =
    (if k < k' then (k, v) # (k', v') # m
     else if k = k' then (k, v) # m
     else (k', v') # om_put k v m)"

definition om_del :: "'k \<Rightarrow> ('k, 'v) omap \<Rightarrow> ('k, 'v) omap" where
  "om_del k m = filter (\<lambda>e. fst e \<noteq> k) m"

lemma om_ok_Nil [simp, intro]: "om_ok []"
  by (simp add: om_ok_def)

lemma om_ok_Cons: "om_ok ((k, v) # m) \<longleftrightarrow> (\<forall>k' \<in> fst ` set m. k < k') \<and> om_ok m"
  by (simp add: om_ok_def)

lemma om_get_put [simp, om_simps]: "om_get (om_put k v m) = (om_get m)(k \<mapsto> v)"
  by (induction k v m rule: om_put.induct) (auto simp: fun_eq_iff)

lemma om_get_del [simp, om_simps]: "om_get (om_del k m) = (om_get m)(k := None)"
  by (induction m) (auto simp: fun_eq_iff om_del_def)

lemma om_put_keys [simp]: "fst ` set (om_put k v m) = insert k (fst ` set m)"
  by (induction k v m rule: om_put.induct) auto

lemma om_ok_put [simp, intro]: "om_ok m \<Longrightarrow> om_ok (om_put k v m)"
  by (induction k v m rule: om_put.induct) (force simp: om_ok_Cons)+

lemma om_ok_filter [simp, intro]: "om_ok m \<Longrightarrow> om_ok (filter P m)"
  by (induction m) (auto simp: om_ok_Cons split: prod.splits)

lemma om_ok_del [simp, intro]: "om_ok m \<Longrightarrow> om_ok (om_del k m)"
  by (simp add: om_del_def)

lemma om_ok_distinct: "om_ok m \<Longrightarrow> distinct (map fst m)"
  by (simp add: om_ok_def strict_sorted_iff)

lemma om_get_iff: "om_ok m \<Longrightarrow> om_get m k = Some v \<longleftrightarrow> (k, v) \<in> set m"
  using om_ok_distinct by (auto dest: map_of_SomeD)

text \<open>An ordered map is determined by its lookups.\<close>

lemma om_eqI:
  assumes "om_ok m" "om_ok n" "om_get m = om_get n"
  shows "m = n"
proof -
  have mem: "e \<in> set m \<longleftrightarrow> e \<in> set n" for e
    using assms om_get_iff [of m "fst e" "snd e"] om_get_iff [of n "fst e" "snd e"] by simp
  then have "map fst m = map fst n"
    using assms(1,2) unfolding om_ok_def
    by (intro strict_sorted_equal) auto
  moreover have "m = map (\<lambda>k. (k, the (om_get m k))) (map fst m)" if "om_ok m" for m :: "('a, 'b) omap"
    using om_get_iff [OF that] by (auto intro!: map_idI [symmetric]) (metis option.sel)
  ultimately show ?thesis
    using assms by metis
qed

declare be_val_mono [be_simps]

end
