(* ===== verification/Storage.thy ===== *)
theory Storage
  imports Prelude "HOL-Library.Char_ord"
begin

text \<open>
  The storage crate (\<^verbatim>\<open>crates/storage\<close>): table names, storage errors, the
  transaction and cursor traits, and the in-memory backend with its bidirectional
  cursor. A trait is a record of operations; \<^verbatim>\<open>WriteTransaction: ReadTransaction\<close> is
  record extension. A mutation that fails returns its error only: the memory
  backend leaves its rows unchanged then, and every caller but the one of
  \<^verbatim>\<open>AlreadyExists\<close> drops the transaction. The locales \<open>read_tx\<close> and \<open>write_tx\<close> are the
  contract of the traits; the memory transactions are their first interpretation.
\<close>

section \<open>Tables and errors\<close>

type_synonym table = string

datatype storage_error =
    AlreadyExists
  | Full
  | InvalidTableName table
  | InvalidRange
  | KeyTooLarge nat nat
  | ValueTooLarge nat nat
  | Poisoned string
  | Backend string

definition table_ok :: "table \<Rightarrow> bool" where
  "table_ok t \<longleftrightarrow> t \<noteq> [] \<and> CHR 0x00 \<notin> set t"

definition table_validate :: "table \<Rightarrow> storage_error + unit" where
  "table_validate t =
    (if t = [] \<or> CHR 0x00 \<in> set t then Inl (InvalidTableName t) else Inr ())"

lemma table_validate_ok [simp]: "table_ok t \<Longrightarrow> table_validate t = Inr ()"
  by (simp add: table_ok_def table_validate_def)

lemma table_validate_Inr [try_simps]: "table_validate t = Inr u \<longleftrightarrow> table_ok t"
  by (simp add: table_ok_def table_validate_def)

lemma table_validate_Inl [try_simps]:
  "table_validate t = Inl e \<longleftrightarrow> \<not> table_ok t \<and> e = InvalidTableName t"
  by (auto simp: table_ok_def table_validate_def)

section \<open>The traits\<close>

type_synonym entry = "bytes \<times> bytes"
type_synonym rows = "(bytes, bytes) omap"

record ('tx, 'cur) read_ops =
  tx_get :: "'tx \<Rightarrow> table \<Rightarrow> bytes \<Rightarrow> storage_error + bytes option"
  tx_cursor :: "'tx \<Rightarrow> table \<Rightarrow> bytes \<Rightarrow> storage_error + 'cur"
  cur_next :: "'cur \<Rightarrow> storage_error + (entry option \<times> 'cur)"
  cur_prev :: "'cur \<Rightarrow> storage_error + (entry option \<times> 'cur)"

record ('tx, 'cur) write_ops = "('tx, 'cur) read_ops" +
  tx_is_empty :: "'tx \<Rightarrow> storage_error + bool"
  tx_put :: "'tx \<Rightarrow> table \<Rightarrow> bytes \<Rightarrow> bytes \<Rightarrow> storage_error + 'tx"
  tx_insert :: "'tx \<Rightarrow> table \<Rightarrow> bytes \<Rightarrow> bytes \<Rightarrow> storage_error + 'tx"
  tx_delete :: "'tx \<Rightarrow> table \<Rightarrow> bytes \<Rightarrow> storage_error + (bool \<times> 'tx)"

section \<open>The memory store\<close>

type_synonym mem_state = "(table, rows) omap"

text \<open>\<^verbatim>\<open>Inner\<close>: the published state, the writer lock, and whether a panic poisoned
  one of the two mutexes.\<close>

record memory_store =
  committed :: mem_state
  writer_held :: bool
  committed_poisoned :: bool
  writer_poisoned :: bool

definition new_store :: memory_store where
  "new_store = \<lparr>committed = [], writer_held = False, committed_poisoned = False,
    writer_poisoned = False\<rparr>"

record mem_tx =
  tx_state :: mem_state

text \<open>\<open>begin_read\<close> clones the pointer to the published state. \<open>begin_write\<close> takes the
  writer lock first: \<open>None\<close> is a caller that waits for it.\<close>

definition begin_read :: "memory_store \<Rightarrow> storage_error + mem_tx" where
  "begin_read s =
    (if committed_poisoned s then Inl (Poisoned ''publication'')
     else Inr \<lparr>tx_state = committed s\<rparr>)"

definition begin_write ::
  "memory_store \<Rightarrow> (storage_error + (memory_store \<times> mem_tx)) option" where
  "begin_write s =
    (if writer_held s then None
     else if writer_poisoned s then Some (Inl (Poisoned ''writer''))
     else Some (attempt (begin_read s) (\<lambda>snapshot. Inr (s\<lparr>writer_held := True\<rparr>, snapshot))))"

definition mem_rows :: "mem_state \<Rightarrow> table \<Rightarrow> storage_error + rows option" where
  "mem_rows st t = attempt (table_validate t) (\<lambda>_. Inr (om_get st t))"

datatype cursor_position = Key bytes | Before | At bytes | After

record mem_cursor =
  cur_rows :: "rows option"
  cur_position :: cursor_position

definition mem_get :: "mem_tx \<Rightarrow> table \<Rightarrow> bytes \<Rightarrow> storage_error + bytes option" where
  "mem_get tx t k = attempt (mem_rows (tx_state tx) t) (\<lambda>rs.
     Inr (case rs of None \<Rightarrow> None | Some r \<Rightarrow> om_get r k))"

definition cursor_new :: "rows option \<Rightarrow> bytes \<Rightarrow> mem_cursor" where
  "cursor_new rs k = \<lparr>cur_rows = rs, cur_position = Key k\<rparr>"

definition mem_open_cursor :: "mem_tx \<Rightarrow> table \<Rightarrow> bytes \<Rightarrow> storage_error + mem_cursor" where
  "mem_open_cursor tx t k = attempt (mem_rows (tx_state tx) t) (\<lambda>rs. Inr (cursor_new rs k))"

definition cursor_to ::
  "mem_cursor \<Rightarrow> entry option \<Rightarrow> cursor_position \<Rightarrow> entry option \<times> mem_cursor" where
  "cursor_to c row bound =
    (case row of
       Some (k, v) \<Rightarrow> (Some (k, v), c\<lparr>cur_position := At k\<rparr>)
     | None \<Rightarrow> (None, c\<lparr>cur_position := bound\<rparr>))"

text \<open>\<^verbatim>\<open>range(..).next()\<close> and \<^verbatim>\<open>range(..).next_back()\<close>: the first and the last entry
  with a key that meets the bound.\<close>

definition om_next :: "('k \<Rightarrow> bool) \<Rightarrow> ('k, 'v) omap \<Rightarrow> ('k \<times> 'v) option" where
  "om_next P m = find (\<lambda>e. P (fst e)) m"

definition om_last :: "('k \<Rightarrow> bool) \<Rightarrow> ('k, 'v) omap \<Rightarrow> ('k \<times> 'v) option" where
  "om_last P m = find (\<lambda>e. P (fst e)) (rev m)"

fun after_position :: "cursor_position \<Rightarrow> bytes \<Rightarrow> bool" where
  "after_position Before k' = True"
| "after_position (Key k) k' = (k \<le> k')"
| "after_position (At k) k' = (k < k')"
| "after_position After k' = False"

fun before_position :: "cursor_position \<Rightarrow> bytes \<Rightarrow> bool" where
  "before_position After k' = True"
| "before_position (Key k) k' = (k' \<le> k)"
| "before_position (At k) k' = (k' < k)"
| "before_position Before k' = False"

definition mem_next :: "mem_cursor \<Rightarrow> storage_error + (entry option \<times> mem_cursor)" where
  "mem_next c =
    (case cur_rows c of
       None \<Rightarrow> Inr (None, c)
     | Some rs \<Rightarrow> Inr (cursor_to c (om_next (after_position (cur_position c)) rs) After))"

definition mem_prev :: "mem_cursor \<Rightarrow> storage_error + (entry option \<times> mem_cursor)" where
  "mem_prev c =
    (case cur_rows c of
       None \<Rightarrow> Inr (None, c)
     | Some rs \<Rightarrow> Inr (cursor_to c (om_last (before_position (cur_position c)) rs) Before))"

definition mem_is_empty :: "mem_tx \<Rightarrow> storage_error + bool" where
  "mem_is_empty tx = Inr (tx_state tx = [])"

text \<open>\<^verbatim>\<open>entry(table).or_default()\<close>\<close>

definition table_rows :: "mem_state \<Rightarrow> table \<Rightarrow> rows" where
  "table_rows st t = (case om_get st t of None \<Rightarrow> [] | Some r \<Rightarrow> r)"

definition mem_put :: "mem_tx \<Rightarrow> table \<Rightarrow> bytes \<Rightarrow> bytes \<Rightarrow> storage_error + mem_tx" where
  "mem_put tx t k v = attempt (table_validate t) (\<lambda>_.
     Inr (tx\<lparr>tx_state := om_put t (om_put k v (table_rows (tx_state tx) t)) (tx_state tx)\<rparr>))"

definition mem_insert :: "mem_tx \<Rightarrow> table \<Rightarrow> bytes \<Rightarrow> bytes \<Rightarrow> storage_error + mem_tx" where
  "mem_insert tx t k v = attempt (table_validate t) (\<lambda>_.
     let rs = table_rows (tx_state tx) t in
     case om_get rs k of
       Some _ \<Rightarrow> Inl AlreadyExists
     | None \<Rightarrow> Inr (tx\<lparr>tx_state := om_put t (om_put k v rs) (tx_state tx)\<rparr>))"

definition mem_delete :: "mem_tx \<Rightarrow> table \<Rightarrow> bytes \<Rightarrow> storage_error + (bool \<times> mem_tx)" where
  "mem_delete tx t k = attempt (table_validate t) (\<lambda>_.
     case om_get (tx_state tx) t of
       None \<Rightarrow> Inr (False, tx)
     | Some rs \<Rightarrow> Inr (om_get rs k \<noteq> None,
         tx\<lparr>tx_state := om_put t (om_del k rs) (tx_state tx)\<rparr>))"

text \<open>\<^verbatim>\<open>commit(self)\<close> publishes the state and releases the writer lock; dropping the
  transaction (\<^verbatim>\<open>abort\<close>, or an error) only releases the lock.\<close>

definition mem_commit :: "memory_store \<Rightarrow> mem_tx \<Rightarrow> storage_error + memory_store" where
  "mem_commit s tx =
    (if committed_poisoned s then Inl (Poisoned ''publication'')
     else Inr (s\<lparr>committed := tx_state tx, writer_held := False\<rparr>))"

definition mem_abort :: "memory_store \<Rightarrow> memory_store" where
  "mem_abort s = s\<lparr>writer_held := False\<rparr>"

definition mem_read_ops :: "(mem_tx, mem_cursor) read_ops" where
  "mem_read_ops = \<lparr>tx_get = mem_get, tx_cursor = mem_open_cursor,
    cur_next = mem_next, cur_prev = mem_prev\<rparr>"

definition mem_ops :: "(mem_tx, mem_cursor) write_ops" where
  "mem_ops = \<lparr>tx_get = mem_get, tx_cursor = mem_open_cursor,
    cur_next = mem_next, cur_prev = mem_prev, tx_is_empty = mem_is_empty,
    tx_put = mem_put, tx_insert = mem_insert, tx_delete = mem_delete\<rparr>"

section \<open>First and last entries\<close>

lemma om_next_Some:
  assumes "om_ok m"
  shows "om_next P m = Some (k, v) \<longleftrightarrow>
    om_get m k = Some v \<and> P k \<and> (\<forall>k' \<in> dom (om_get m). P k' \<longrightarrow> k \<le> k')"
  using assms
proof (induction m)
  case Nil
  then show ?case by (simp add: om_next_def)
next
  case (Cons e m)
  obtain k0 v0 where e: "e = (k0, v0)" by (cases e)
  have less: "k0 < k'" if "k' \<in> dom (om_get m)" for k'
    using Cons.prems that by (auto simp: e om_ok_Cons dom_map_of_conv_image_fst)
  have dom: "dom (om_get (e # m)) = insert k0 (dom (om_get m))"
    by (auto simp: e)
  have IH: "om_next P m = Some (k, v) \<longleftrightarrow>
    om_get m k = Some v \<and> P k \<and> (\<forall>k' \<in> dom (om_get m). P k' \<longrightarrow> k \<le> k')"
    using Cons by (simp add: e om_ok_Cons)
  show ?case
  proof (cases "P k0")
    case True
    then show ?thesis
      unfolding dom using less
      by (auto simp: e om_next_def intro: order.strict_implies_order dest: leD)
  next
    case False
    then have "om_next P (e # m) = om_next P m"
      by (simp add: e om_next_def)
    then show ?thesis
      unfolding dom using False less IH by (auto simp: e)
  qed
qed

lemma om_next_None: "om_next P m = None \<longleftrightarrow> (\<forall>k \<in> dom (om_get m). \<not> P k)"
  by (auto simp: om_next_def find_None_iff dom_map_of_conv_image_fst)

lemma om_last_None: "om_last P m = None \<longleftrightarrow> (\<forall>k \<in> dom (om_get m). \<not> P k)"
  by (auto simp: om_last_def find_None_iff dom_map_of_conv_image_fst)

lemma find_append_option:
  "find P (xs @ ys) = (case find P xs of Some x \<Rightarrow> Some x | None \<Rightarrow> find P ys)"
  by (induction xs) auto

lemma om_last_Cons: "om_last P (e # m) =
  (case om_last P m of Some e' \<Rightarrow> Some e' | None \<Rightarrow> if P (fst e) then Some e else None)"
  by (auto simp: om_last_def find_append_option split: option.splits)

lemma om_last_Some:
  assumes "om_ok m"
  shows "om_last P m = Some (k, v) \<longleftrightarrow>
    om_get m k = Some v \<and> P k \<and> (\<forall>k' \<in> dom (om_get m). P k' \<longrightarrow> k' \<le> k)"
  using assms
proof (induction m)
  case Nil
  then show ?case by (simp add: om_last_def)
next
  case (Cons e m)
  obtain k0 v0 where e: "e = (k0, v0)" by (cases e)
  have less: "k0 < k'" if "k' \<in> dom (om_get m)" for k'
    using Cons.prems that by (auto simp: e om_ok_Cons dom_map_of_conv_image_fst)
  have dom: "dom (om_get (e # m)) = insert k0 (dom (om_get m))"
    by (auto simp: e)
  have IH: "om_last P m = Some (k, v) \<longleftrightarrow>
    om_get m k = Some v \<and> P k \<and> (\<forall>k' \<in> dom (om_get m). P k' \<longrightarrow> k' \<le> k)"
    using Cons by (simp add: e om_ok_Cons)
  show ?case
  proof (cases "om_last P m")
    case None
    then have "\<forall>k' \<in> dom (om_get m). \<not> P k'"
      by (simp add: om_last_None)
    then show ?thesis
      unfolding dom using None by (auto simp: e om_last_Cons)
  next
    case (Some e')
    then have "om_last P (e # m) = om_last P m"
      by (simp add: om_last_Cons)
    moreover obtain k1 where "k1 \<in> dom (om_get m)" "P k1"
      using om_last_None [of P m] Some by auto
    ultimately show ?thesis
      unfolding dom using less IH
      by (auto simp: e intro: order.strict_implies_order dest: leD)
  qed
qed

section \<open>The contract of the traits\<close>

text \<open>What the documentation of the traits promises, for a backend that does not
  fail: \<open>view tx t\<close> are the rows of a table, \<open>cur_view c\<close> the rows a cursor walks and
  its position. In an empty table the position carries no information.\<close>

definition cursor_move :: "entry option \<Rightarrow> cursor_position \<Rightarrow> cursor_position" where
  "cursor_move row bound = (case row of Some e \<Rightarrow> At (fst e) | None \<Rightarrow> bound)"

locale read_tx =
  fixes ops :: "('tx, 'cur, 'z) read_ops_scheme"
    and view :: "'tx \<Rightarrow> table \<Rightarrow> rows"
    and tx_ok :: "'tx \<Rightarrow> bool"
    and cur_view :: "'cur \<Rightarrow> rows \<times> cursor_position"
    and cur_ok :: "'cur \<Rightarrow> bool"
  assumes view_ok: "tx_ok tx \<Longrightarrow> om_ok (view tx t)"
    and get_law: "tx_ok tx \<Longrightarrow> table_ok t \<Longrightarrow> tx_get ops tx t k = Inr (om_get (view tx t) k)"
    and cursor_law: "tx_ok tx \<Longrightarrow> table_ok t \<Longrightarrow>
      \<exists>c. tx_cursor ops tx t k = Inr c \<and> cur_ok c \<and> cur_view c = (view tx t, Key k)"
    and next_law: "cur_ok c \<Longrightarrow> cur_view c = (rs, pos) \<Longrightarrow>
      \<exists>c' pos'. cur_next ops c = Inr (om_next (after_position pos) rs, c') \<and> cur_ok c' \<and>
        cur_view c' = (rs, pos') \<and>
        (rs \<noteq> [] \<longrightarrow> pos' = cursor_move (om_next (after_position pos) rs) After)"
    and prev_law: "cur_ok c \<Longrightarrow> cur_view c = (rs, pos) \<Longrightarrow>
      \<exists>c' pos'. cur_prev ops c = Inr (om_last (before_position pos) rs, c') \<and> cur_ok c' \<and>
        cur_view c' = (rs, pos') \<and>
        (rs \<noteq> [] \<longrightarrow> pos' = cursor_move (om_last (before_position pos) rs) Before)"

locale write_tx = read_tx ops view tx_ok cur_view cur_ok
  for ops :: "('tx, 'cur, 'z) write_ops_scheme"
    and view :: "'tx \<Rightarrow> table \<Rightarrow> rows"
    and tx_ok :: "'tx \<Rightarrow> bool"
    and cur_view :: "'cur \<Rightarrow> rows \<times> cursor_position"
    and cur_ok :: "'cur \<Rightarrow> bool" +
  assumes put_law: "tx_ok tx \<Longrightarrow> table_ok t \<Longrightarrow>
      \<exists>tx'. tx_put ops tx t k v = Inr tx' \<and> tx_ok tx' \<and>
        view tx' = (view tx)(t := om_put k v (view tx t))"
    and insert_law: "tx_ok tx \<Longrightarrow> table_ok t \<Longrightarrow> om_get (view tx t) k = None \<Longrightarrow>
      \<exists>tx'. tx_insert ops tx t k v = Inr tx' \<and> tx_ok tx' \<and>
        view tx' = (view tx)(t := om_put k v (view tx t))"
    and insert_exists_law: "tx_ok tx \<Longrightarrow> table_ok t \<Longrightarrow> om_get (view tx t) k \<noteq> None \<Longrightarrow>
      tx_insert ops tx t k v = Inl AlreadyExists"
    and delete_law: "tx_ok tx \<Longrightarrow> table_ok t \<Longrightarrow>
      \<exists>tx'. tx_delete ops tx t k = Inr (om_get (view tx t) k \<noteq> None, tx') \<and> tx_ok tx' \<and>
        view tx' = (view tx)(t := om_del k (view tx t))"

section \<open>The memory backend meets the contract\<close>

definition mem_view :: "mem_tx \<Rightarrow> table \<Rightarrow> rows" where
  "mem_view tx = table_rows (tx_state tx)"

definition mem_state_ok :: "mem_state \<Rightarrow> bool" where
  "mem_state_ok st \<longleftrightarrow> om_ok st \<and> (\<forall>e \<in> set st. om_ok (snd e))"

definition mem_ok :: "mem_tx \<Rightarrow> bool" where
  "mem_ok tx \<longleftrightarrow> mem_state_ok (tx_state tx)"

definition mem_cur_view :: "mem_cursor \<Rightarrow> rows \<times> cursor_position" where
  "mem_cur_view c = (case cur_rows c of None \<Rightarrow> [] | Some rs \<Rightarrow> rs, cur_position c)"

lemma om_ok_table_rows: "mem_state_ok st \<Longrightarrow> om_ok (table_rows st t)"
  by (auto simp: table_rows_def mem_state_ok_def dest!: map_of_SomeD split: option.splits)

lemma set_om_put: "set (om_put k v m) \<subseteq> insert (k, v) (set m)"
  by (induction k v m rule: om_put.induct) auto

lemma mem_state_ok_put: "mem_state_ok st \<Longrightarrow> om_ok rs \<Longrightarrow> mem_state_ok (om_put t rs st)"
  using set_om_put [of t rs st] by (auto simp: mem_state_ok_def)

lemma table_rows_put [simp]: "table_rows (om_put t rs st) = (table_rows st)(t := rs)"
  by (simp add: table_rows_def fun_eq_iff)

lemmas mem_op_defs = mem_ops_def mem_read_ops_def mem_get_def mem_open_cursor_def mem_next_def
  mem_prev_def mem_put_def mem_insert_def mem_delete_def mem_rows_def cursor_new_def
  mem_view_def mem_ok_def mem_cur_view_def

lemma cursor_to_parts:
  "fst (cursor_to c row bound) = row"
  "cur_rows (snd (cursor_to c row bound)) = cur_rows c"
  "cur_position (snd (cursor_to c row bound)) = cursor_move row bound"
  by (auto simp: cursor_to_def cursor_move_def split: option.splits)

lemma cursor_to_view:
  "cur_rows c = Some rs \<Longrightarrow> \<exists>c'. cursor_to c row bound = (row, c') \<and>
    mem_cur_view c' = (rs, cursor_move row bound)"
  by (rule exI [of _ "snd (cursor_to c row bound)"])
    (simp add: prod_eq_iff cursor_to_parts mem_cur_view_def)

lemma om_next_Nil [simp]: "om_next P [] = None" "om_last P [] = None"
  by (simp_all add: om_next_def om_last_def)

lemma mem_view_ok: "mem_ok tx \<Longrightarrow> om_ok (mem_view tx t)"
  by (simp add: mem_view_def mem_ok_def om_ok_table_rows)

lemma mem_read_laws:
  "table_ok t \<Longrightarrow> mem_get tx t k = Inr (om_get (mem_view tx t) k)"
  "table_ok t \<Longrightarrow> \<exists>c. mem_open_cursor tx t k = Inr c \<and> mem_cur_view c = (mem_view tx t, Key k)"
  by (auto simp: mem_op_defs table_rows_def split: option.splits)

lemma mem_next_view:
  assumes "mem_cur_view c = (rs, pos)"
  shows "\<exists>c' pos'. mem_next c = Inr (om_next (after_position pos) rs, c') \<and>
    mem_cur_view c' = (rs, pos') \<and>
    (rs \<noteq> [] \<longrightarrow> pos' = cursor_move (om_next (after_position pos) rs) After)"
proof (cases "cur_rows c")
  case None
  then show ?thesis
    using assms by (auto simp: mem_next_def mem_cur_view_def)
next
  case (Some r)
  then have "r = rs" "cur_position c = pos"
    using assms by (simp_all add: mem_cur_view_def)
  with Some show ?thesis
    using cursor_to_view [of c rs "om_next (after_position pos) rs" After]
    by (auto simp: mem_next_def)
qed

lemma mem_prev_view:
  assumes "mem_cur_view c = (rs, pos)"
  shows "\<exists>c' pos'. mem_prev c = Inr (om_last (before_position pos) rs, c') \<and>
    mem_cur_view c' = (rs, pos') \<and>
    (rs \<noteq> [] \<longrightarrow> pos' = cursor_move (om_last (before_position pos) rs) Before)"
proof (cases "cur_rows c")
  case None
  then show ?thesis
    using assms by (auto simp: mem_prev_def mem_cur_view_def)
next
  case (Some r)
  then have "r = rs" "cur_position c = pos"
    using assms by (simp_all add: mem_cur_view_def)
  with Some show ?thesis
    using cursor_to_view [of c rs "om_last (before_position pos) rs" Before]
    by (auto simp: mem_prev_def)
qed

interpretation memr: read_tx mem_read_ops mem_view mem_ok mem_cur_view "\<lambda>_. True"
  by unfold_locales
    (use mem_view_ok mem_read_laws mem_next_view mem_prev_view in \<open>auto simp: mem_read_ops_def\<close>)

interpretation mem: write_tx mem_ops mem_view mem_ok mem_cur_view "\<lambda>_. True"
proof unfold_locales
  fix tx :: mem_tx and t k v
  assume ok: "mem_ok tx" and t: "table_ok t"
  then have rs: "om_ok (table_rows (tx_state tx) t)" and st: "mem_state_ok (tx_state tx)"
    by (simp_all add: om_ok_table_rows mem_ok_def)
  show "\<exists>tx'. tx_put mem_ops tx t k v = Inr tx' \<and> mem_ok tx' \<and>
      mem_view tx' = (mem_view tx)(t := om_put k v (mem_view tx t))"
    using t rs st by (simp add: mem_op_defs mem_state_ok_put)
  show "\<exists>tx'. tx_insert mem_ops tx t k v = Inr tx' \<and> mem_ok tx' \<and>
      mem_view tx' = (mem_view tx)(t := om_put k v (mem_view tx t))"
    if "om_get (mem_view tx t) k = None"
    using that t rs st by (simp add: mem_op_defs Let_def mem_state_ok_put)
  show "tx_insert mem_ops tx t k v = Inl AlreadyExists"
    if "om_get (mem_view tx t) k \<noteq> None"
    using that t by (auto simp: mem_op_defs Let_def)
  show "\<exists>tx'. tx_delete mem_ops tx t k = Inr (om_get (mem_view tx t) k \<noteq> None, tx') \<and>
      mem_ok tx' \<and> mem_view tx' = (mem_view tx)(t := om_del k (mem_view tx t))"
  proof (cases "om_get (tx_state tx) t")
    case None
    then show ?thesis
      using t ok by (auto simp: mem_op_defs table_rows_def om_del_def fun_eq_iff)
  next
    case (Some r)
    then have "table_rows (tx_state tx) t = r"
      by (simp add: table_rows_def)
    then show ?thesis
      using Some t rs st by (simp add: mem_op_defs mem_state_ok_put)
  qed
qed (use mem_view_ok mem_read_laws mem_next_view mem_prev_view in \<open>auto simp: mem_ops_def\<close>)

end
