(* ===== verification/Storage_Scan.thy ===== *)
theory Storage_Scan
  imports Storage "HOL-Library.Sublist"
begin

text \<open>
  The lazy forward scans of \<^verbatim>\<open>crates/storage/src/scan.rs\<close>, over any cursor. A scan is
  collected by calling \<open>scan_next\<close> until it returns \<open>None\<close>; the loop is a
  \<open>partial_function\<close>, so that the theorems show that it ends. Proved once in the locale
  \<open>read_tx\<close>: a range or prefix scan yields exactly the matching rows in key order.
\<close>

datatype 'k bound = Included (bound_key: 'k) | Excluded (bound_key: 'k) | Unbounded

record 'cur scan =
  sc_cursor :: 'cur
  excluded_start :: "bytes option"
  upper :: "bytes bound"
  sc_prefix :: "bytes option"
  sc_done :: bool

definition is_included :: "'k bound \<Rightarrow> bool" where
  "is_included b = (case b of Included _ \<Rightarrow> True | _ \<Rightarrow> False)"

definition scan_open ::
  "('tx, 'cur, 'z) read_ops_scheme \<Rightarrow> 'tx \<Rightarrow> table \<Rightarrow> bytes bound \<Rightarrow> bytes bound \<Rightarrow>
    storage_error + 'cur scan" where
  "scan_open ops tx t lower upr =
    attempt
      (if lower \<noteq> Unbounded \<and> upr \<noteq> Unbounded
       then if bound_key lower > bound_key upr then Inl InvalidRange
            else Inr (bound_key lower = bound_key upr \<and> (\<not> is_included lower \<or> \<not> is_included upr))
       else Inr False)
      (\<lambda>empty.
        let start = (case lower of Unbounded \<Rightarrow> [] | Included k \<Rightarrow> k | Excluded k \<Rightarrow> k) in
        attempt (tx_cursor ops tx t start) (\<lambda>c.
          Inr \<lparr>sc_cursor = c,
               excluded_start = (case lower of Excluded k \<Rightarrow> Some k | _ \<Rightarrow> None),
               upper = upr, sc_prefix = None, sc_done = empty\<rparr>))"

definition scan_prefix ::
  "('tx, 'cur, 'z) read_ops_scheme \<Rightarrow> 'tx \<Rightarrow> table \<Rightarrow> bytes \<Rightarrow> storage_error + 'cur scan" where
  "scan_prefix ops tx t pre =
    attempt (tx_cursor ops tx t pre) (\<lambda>c.
      Inr \<lparr>sc_cursor = c, excluded_start = None, upper = Unbounded,
           sc_prefix = Some pre, sc_done = False\<rparr>)"

text \<open>\<^verbatim>\<open>Scan::advance\<close>: the first row is skipped when it is the excluded lower bound.\<close>

definition scan_advance ::
  "('tx, 'cur, 'z) read_ops_scheme \<Rightarrow> 'cur scan \<Rightarrow> storage_error + (entry option \<times> 'cur scan)" where
  "scan_advance ops s =
    attempt (cur_next ops (sc_cursor s)) (\<lambda>(row, c).
      let s' = s\<lparr>sc_cursor := c, excluded_start := None\<rparr> in
      if excluded_start s \<noteq> None \<and> map_option fst row = excluded_start s
      then attempt (cur_next ops c) (\<lambda>(row', c'). Inr (row', s'\<lparr>sc_cursor := c'\<rparr>))
      else Inr (row, s'))"

definition below_bound :: "'k::linorder bound \<Rightarrow> 'k \<Rightarrow> bool" where
  "below_bound b k = (case b of Unbounded \<Rightarrow> True | Included e \<Rightarrow> k \<le> e | Excluded e \<Rightarrow> k < e)"

definition scan_within :: "'cur scan \<Rightarrow> bytes \<Rightarrow> bool" where
  "scan_within s k \<longleftrightarrow> below_bound (upper s) k \<and>
    (case sc_prefix s of None \<Rightarrow> True | Some p \<Rightarrow> prefix p k)"

definition scan_next ::
  "('tx, 'cur, 'z) read_ops_scheme \<Rightarrow> 'cur scan \<Rightarrow> (storage_error + entry) option \<times> 'cur scan" where
  "scan_next ops s =
    (if sc_done s then (None, s)
     else case scan_advance ops s of
       Inl e \<Rightarrow> (Some (Inl e), s\<lparr>sc_done := True\<rparr>)
     | Inr (None, s') \<Rightarrow> (None, s'\<lparr>sc_done := True\<rparr>)
     | Inr (Some (k, v), s') \<Rightarrow>
         if scan_within s' k then (Some (Inr (k, v)), s') else (None, s'\<lparr>sc_done := True\<rparr>))"

text \<open>\<^verbatim>\<open>collect::<Result<Vec<_>>>()\<close>\<close>

partial_function (option) scan_collect ::
  "('tx, 'cur, 'z) read_ops_scheme \<Rightarrow> 'cur scan \<Rightarrow> (storage_error + entry list) option" where
  "scan_collect ops s =
    (case scan_next ops s of
       (None, _) \<Rightarrow> Some (Inr [])
     | (Some (Inl e), _) \<Rightarrow> Some (Inl e)
     | (Some (Inr row), s') \<Rightarrow>
         Option.bind (scan_collect ops s') (\<lambda>r. Some (attempt r (\<lambda>rs. Inr (row # rs)))))"

declare scan_collect.simps [code]

section \<open>Walking an ordered map\<close>

definition rows_after :: "cursor_position \<Rightarrow> rows \<Rightarrow> rows" where
  "rows_after pos rs = filter (\<lambda>e. after_position pos (fst e)) rs"

lemma rows_after_ok [simp]: "om_ok rs \<Longrightarrow> om_ok (rows_after pos rs)"
  by (simp add: rows_after_def)

lemma after_position_mono: "after_position pos k \<Longrightarrow> k \<le> k' \<Longrightarrow> after_position pos k'"
  by (cases pos) auto

lemma om_next_filter: "om_next P m = (case filter (\<lambda>e. P (fst e)) m of [] \<Rightarrow> None | e # _ \<Rightarrow> Some e)"
  by (induction m) (auto simp: om_next_def)

lemma om_next_rows_after:
  "om_next (after_position pos) rs = (case rows_after pos rs of [] \<Rightarrow> None | e # _ \<Rightarrow> Some e)"
  by (simp add: om_next_filter rows_after_def)

lemma rows_after_step:
  assumes "om_ok rs" "rows_after pos rs = e # es"
  shows "rows_after (At (fst e)) rs = es"
proof -
  obtain us vs where rs: "rs = us @ e # vs" and us: "\<forall>u \<in> set us. \<not> after_position pos (fst u)"
    and e: "after_position pos (fst e)" and es: "es = filter (\<lambda>e. after_position pos (fst e)) vs"
    using assms(2) unfolding rows_after_def filter_eq_Cons_iff by blast
  have "\<forall>v \<in> set vs. fst e < fst v" and us': "\<forall>u \<in> set us. fst u < fst e"
    using assms(1) by (auto simp: rs om_ok_def sorted_wrt_append)
  then have vs: "\<forall>v \<in> set vs. fst e < fst v \<and> after_position pos (fst v)"
    using after_position_mono [OF e] by (auto intro: order.strict_implies_order)
  have "rows_after (At (fst e)) rs = filter (\<lambda>v. fst e < fst v) vs"
    using us' by (auto simp: rows_after_def rs filter_empty_conv)
  also have "\<dots> = es"
    using vs es by (auto intro!: filter_cong)
  finally show ?thesis .
qed

lemma takeWhile_filter_sorted:
  assumes "om_ok rs" "\<And>k k'. k \<in> fst ` set rs \<Longrightarrow> k' \<in> fst ` set rs \<Longrightarrow> k \<le> k' \<Longrightarrow> P k' \<Longrightarrow> P k"
  shows "takeWhile (\<lambda>e. P (fst e)) rs = filter (\<lambda>e. P (fst e)) rs"
  using assms
proof (induction rs)
  case (Cons e rs)
  have less: "fst e < fst u" if "u \<in> set rs" for u
    using Cons.prems(1) that by (cases e) (auto simp: om_ok_Cons)
  show ?case
  proof (cases "P (fst e)")
    case True
    have "om_ok rs"
      using Cons.prems(1) by (cases e) (simp add: om_ok_Cons)
    then have "takeWhile (\<lambda>e. P (fst e)) rs = filter (\<lambda>e. P (fst e)) rs"
      using Cons.prems(2) by (intro Cons.IH) auto
    then show ?thesis
      using True by simp
  next
    case False
    then have "\<not> P (fst u)" if "u \<in> set rs" for u
      using Cons.prems(2) [of "fst e" "fst u"] less [OF that] that by (auto dest: order.strict_implies_order)
    then show ?thesis
      using False by (auto simp: filter_empty_conv)
  qed
qed simp

section \<open>What a scan has left to yield\<close>

fun skip_key :: "bytes option \<Rightarrow> rows \<Rightarrow> rows" where
  "skip_key (Some k) (e # es) = (if fst e = k then es else e # es)"
| "skip_key _ es = es"

definition scan_rows :: "'cur scan \<Rightarrow> rows \<times> cursor_position \<Rightarrow> rows" where
  "scan_rows s c =
    (if sc_done s then []
     else takeWhile (\<lambda>e. scan_within s (fst e)) (skip_key (excluded_start s) (rows_after (snd c) (fst c))))"

text \<open>The rows a range selects, and the ranges that are not reversed.\<close>

definition above_bound :: "'k::linorder bound \<Rightarrow> 'k \<Rightarrow> bool" where
  "above_bound b k = (case b of Unbounded \<Rightarrow> True | Included e \<Rightarrow> e \<le> k | Excluded e \<Rightarrow> e < k)"

definition in_range :: "'k::linorder bound \<Rightarrow> 'k bound \<Rightarrow> 'k \<Rightarrow> bool" where
  "in_range lo hi k \<longleftrightarrow> above_bound lo k \<and> below_bound hi k"

definition range_ok :: "'k::linorder bound \<Rightarrow> 'k bound \<Rightarrow> bool" where
  "range_ok lo hi \<longleftrightarrow> lo = Unbounded \<or> hi = Unbounded \<or> bound_key lo \<le> bound_key hi"

definition start_key :: "bytes bound \<Rightarrow> bytes" where
  "start_key lo = (case lo of Unbounded \<Rightarrow> [] | Included k \<Rightarrow> k | Excluded k \<Rightarrow> k)"

lemma skip_lower_bound:
  assumes "om_ok rs"
  shows "skip_key (case lo of Excluded k \<Rightarrow> Some k | _ \<Rightarrow> None) (rows_after (Key (start_key lo)) rs) =
    filter (\<lambda>e. above_bound lo (fst e)) rs"
proof (cases lo)
  case (Excluded k)
  let ?xs = "rows_after (Key k) rs"
  have strict: "filter (\<lambda>e. k < fst e) rs = filter (\<lambda>e. k < fst e) ?xs"
    by (auto simp: rows_after_def intro!: filter_cong)
  have xs: "om_ok ?xs" "\<forall>e \<in> set ?xs. k \<le> fst e"
    using assms by (auto simp: rows_after_def)
  have "skip_key (Some k) ?xs = filter (\<lambda>e. k < fst e) ?xs"
    using xs
  proof (cases ?xs)
    case (Cons e es)
    then have "\<forall>u \<in> set es. fst e < fst u"
      using xs(1) by (cases e) (auto simp: om_ok_Cons)
    then show ?thesis
      using xs(2) Cons by (auto intro!: filter_True [symmetric])
  qed simp
  then show ?thesis
    using Excluded strict by (simp add: above_bound_def start_key_def)
qed (auto simp: rows_after_def above_bound_def start_key_def)

lemma prefix_below: "k \<le> k' \<Longrightarrow> prefix p k' \<Longrightarrow> p \<le> k \<Longrightarrow> prefix p (k :: bytes)"
proof (induction p arbitrary: k k')
  case (Cons b p)
  then obtain c ks d ks' where k: "k = c # ks" "k' = d # ks'"
    by (cases k; cases k') auto
  then have "c = b" "d = b"
    using Cons.prems by (auto simp: Cons_le_Cons)
  then show ?case
    using Cons.IH [of ks ks'] Cons.prems k by simp
qed simp

lemma prefix_le: "prefix p k \<Longrightarrow> p \<le> (k :: bytes)"
  by (induction p arbitrary: k) (auto simp: prefix_def)

context read_tx
begin

lemma next_walk:
  assumes "cur_ok c" "cur_view c = (rs, pos)" "om_ok rs"
  shows "\<exists>c' pos'. cur_next ops c = Inr (case rows_after pos rs of [] \<Rightarrow> None | e # _ \<Rightarrow> Some e, c') \<and>
    cur_ok c' \<and> cur_view c' = (rs, pos') \<and> rows_after pos' rs = tl (rows_after pos rs)"
proof -
  obtain c' pos' where c': "cur_next ops c = Inr (om_next (after_position pos) rs, c')"
      "cur_ok c'" "cur_view c' = (rs, pos')"
    and pos': "rs \<noteq> [] \<longrightarrow> pos' = cursor_move (om_next (after_position pos) rs) After"
    using next_law [OF assms(1,2)] by blast
  have "rows_after pos' rs = tl (rows_after pos rs)"
  proof (cases "rows_after pos rs")
    case Nil
    then show ?thesis
      using pos' by (cases "rs = []") (auto simp: om_next_rows_after cursor_move_def rows_after_def)
  next
    case (Cons e es)
    then have "rs \<noteq> []"
      by (auto simp: rows_after_def)
    then show ?thesis
      using Cons pos' rows_after_step [OF assms(3) Cons]
      by (simp add: om_next_rows_after cursor_move_def)
  qed
  then show ?thesis
    using c' by (auto simp: om_next_rows_after)
qed

lemma advance_walk:
  assumes "cur_ok (sc_cursor s)" "cur_view (sc_cursor s) = (rs, pos)" "om_ok rs"
  defines "xs \<equiv> skip_key (excluded_start s) (rows_after pos rs)"
  shows "\<exists>c' pos'. scan_advance ops s =
      Inr (case xs of [] \<Rightarrow> None | e # _ \<Rightarrow> Some e, s\<lparr>sc_cursor := c', excluded_start := None\<rparr>) \<and>
    cur_ok c' \<and> cur_view c' = (rs, pos') \<and> rows_after pos' rs = tl xs"
proof -
  obtain c1 p1 where c1: "cur_next ops (sc_cursor s) =
      Inr (case rows_after pos rs of [] \<Rightarrow> None | e # _ \<Rightarrow> Some e, c1)" "cur_ok c1"
      "cur_view c1 = (rs, p1)" "rows_after p1 rs = tl (rows_after pos rs)"
    using next_walk [OF assms(1-3)] by blast
  show ?thesis
  proof (cases "\<exists>e es. rows_after pos rs = e # es \<and> excluded_start s = Some (fst e)")
    case True
    then obtain e es where e: "rows_after pos rs = e # es" "excluded_start s = Some (fst e)"
      by blast
    obtain c2 p2 where "cur_next ops c1 = Inr (case es of [] \<Rightarrow> None | e # _ \<Rightarrow> Some e, c2)"
        "cur_ok c2" "cur_view c2 = (rs, p2)" "rows_after p2 rs = tl es"
      using next_walk [OF c1(2,3) assms(3)] c1(4) e(1) by auto
    then show ?thesis
      using c1(1) e
      by (intro exI [of _ c2] exI [of _ p2]) (cases e; simp add: scan_advance_def xs_def Let_def)
  next
    case False
    then have xs: "xs = rows_after pos rs"
      unfolding xs_def by (cases "excluded_start s"; cases "rows_after pos rs") auto
    have "\<not> (excluded_start s \<noteq> None \<and>
        map_option fst (case xs of [] \<Rightarrow> None | e # _ \<Rightarrow> Some e) = excluded_start s)"
      using False by (cases xs) (auto simp: xs)
    then show ?thesis
      using c1 by (auto simp: scan_advance_def Let_def xs)
  qed
qed

lemma scan_next_walk:
  assumes "cur_ok (sc_cursor s)" "cur_view (sc_cursor s) = (rs, pos)" "om_ok rs"
  shows "case scan_rows s (rs, pos) of
      [] \<Rightarrow> fst (scan_next ops s) = None
    | e # es \<Rightarrow> \<exists>s' pos'. scan_next ops s = (Some (Inr e), s') \<and> cur_ok (sc_cursor s') \<and>
        cur_view (sc_cursor s') = (rs, pos') \<and> scan_rows s' (rs, pos') = es"
proof (cases "sc_done s")
  case True
  then show ?thesis
    by (simp add: scan_rows_def scan_next_def)
next
  case False
  let ?xs = "skip_key (excluded_start s) (rows_after pos rs)"
  obtain c' pos' where adv: "scan_advance ops s =
      Inr (case ?xs of [] \<Rightarrow> None | e # _ \<Rightarrow> Some e, s\<lparr>sc_cursor := c', excluded_start := None\<rparr>)"
    and c': "cur_ok c'" "cur_view c' = (rs, pos')" "rows_after pos' rs = tl ?xs"
    using advance_walk [OF assms] by blast
  have within: "scan_within (s\<lparr>sc_cursor := c', excluded_start := None\<rparr>) = scan_within s"
    by (simp add: fun_eq_iff scan_within_def)
  show ?thesis
  proof (cases ?xs)
    case Nil
    then show ?thesis
      using adv False by (simp add: scan_rows_def scan_next_def)
  next
    case (Cons e es)
    then show ?thesis
      using adv False c' within
      by (cases e) (auto simp: scan_rows_def scan_next_def)
  qed
qed

lemma scan_collect_rows:
  assumes "cur_ok (sc_cursor s)" "cur_view (sc_cursor s) = (rs, pos)" "om_ok rs"
  shows "scan_collect ops s = Some (Inr (scan_rows s (rs, pos)))"
  using assms
proof (induction "scan_rows s (rs, pos)" arbitrary: s pos)
  case Nil
  then show ?case
    using scan_next_walk [OF Nil.prems] by (subst scan_collect.simps) (auto split: prod.splits)
next
  case (Cons e es)
  then obtain s' pos' where s': "scan_next ops s = (Some (Inr e), s')" "cur_ok (sc_cursor s')"
      "cur_view (sc_cursor s') = (rs, pos')" "scan_rows s' (rs, pos') = es"
    using scan_next_walk [OF Cons.prems] by (auto split: list.splits)
  then have "scan_collect ops s' = Some (Inr es)"
    using Cons.hyps(1) [of s' pos'] assms(3) by simp
  then show ?case
    using s' Cons.hyps(2) by (subst scan_collect.simps) simp
qed

lemma scan_open_rows:
  assumes "tx_ok tx" "table_ok t" "range_ok lo hi"
  shows "\<exists>s. scan_open ops tx t lo hi = Inr s \<and>
    scan_collect ops s = Some (Inr (filter (\<lambda>e. in_range lo hi (fst e)) (view tx t)))"
proof -
  let ?empty = "lo \<noteq> Unbounded \<and> hi \<noteq> Unbounded \<and> bound_key lo = bound_key hi \<and>
    (\<not> is_included lo \<or> \<not> is_included hi)"
  obtain c where c: "tx_cursor ops tx t (start_key lo) = Inr c" "cur_ok c"
      "cur_view c = (view tx t, Key (start_key lo))"
    using cursor_law [OF assms(1,2)] by blast
  let ?s = "\<lparr>sc_cursor = c, excluded_start = (case lo of Excluded k \<Rightarrow> Some k | _ \<Rightarrow> None),
    upper = hi, sc_prefix = None, sc_done = ?empty\<rparr>"
  have opened: "scan_open ops tx t lo hi = Inr ?s"
    using assms(3) c(1)
    by (auto simp: scan_open_def range_ok_def Let_def start_key_def not_less)
  let ?lo = "filter (\<lambda>e. above_bound lo (fst e)) (view tx t)"
  have within: "scan_within ?s = below_bound hi"
    by (simp add: fun_eq_iff scan_within_def)
  have "scan_rows ?s (view tx t, Key (start_key lo)) = filter (\<lambda>e. in_range lo hi (fst e)) (view tx t)"
  proof (cases ?empty)
    case True
    then have "\<not> in_range lo hi k" for k
      by (cases lo; cases hi) (auto simp: in_range_def above_bound_def below_bound_def is_included_def)
    then show ?thesis
      using True by (auto simp: scan_rows_def)
  next
    case False
    then have "scan_rows ?s (view tx t, Key (start_key lo)) = takeWhile (\<lambda>e. below_bound hi (fst e)) ?lo"
      using skip_lower_bound [OF view_ok [OF assms(1), of t], of lo] within
      by (auto simp: scan_rows_def)
    also have "\<dots> = filter (\<lambda>e. below_bound hi (fst e)) ?lo"
      using view_ok [OF assms(1)]
      by (intro takeWhile_filter_sorted) (auto simp: below_bound_def split: bound.splits)
    finally show ?thesis
      by (simp add: in_range_def conj_commute)
  qed
  then show ?thesis
    using opened scan_collect_rows [of ?s] c view_ok [OF assms(1)] by simp
qed

lemma scan_open_reversed: "\<not> range_ok lo hi \<Longrightarrow> scan_open ops tx t lo hi = Inl InvalidRange"
  by (auto simp: scan_open_def range_ok_def not_le)

lemma scan_prefix_rows:
  assumes "tx_ok tx" "table_ok t"
  shows "\<exists>s. scan_prefix ops tx t p = Inr s \<and>
    scan_collect ops s = Some (Inr (filter (\<lambda>e. prefix p (fst e)) (view tx t)))"
proof -
  obtain c where c: "tx_cursor ops tx t p = Inr c" "cur_ok c" "cur_view c = (view tx t, Key p)"
    using cursor_law [OF assms] by blast
  let ?s = "\<lparr>sc_cursor = c, excluded_start = None, upper = Unbounded, sc_prefix = Some p,
    sc_done = False\<rparr>"
  have "scan_rows ?s (view tx t, Key p) = takeWhile (\<lambda>e. prefix p (fst e)) (rows_after (Key p) (view tx t))"
    by (simp add: scan_rows_def scan_within_def below_bound_def)
  also have "\<dots> = filter (\<lambda>e. prefix p (fst e)) (rows_after (Key p) (view tx t))"
    using view_ok [OF assms(1)]
    by (intro takeWhile_filter_sorted) (auto simp: rows_after_def intro: prefix_below)
  also have "\<dots> = filter (\<lambda>e. prefix p (fst e)) (view tx t)"
    by (auto simp: rows_after_def prefix_le intro!: filter_cong)
  finally show ?thesis
    using c scan_collect_rows [of ?s] view_ok [OF assms(1)] by (simp add: scan_prefix_def)
qed

end

end
