(* ===== verification/Storage_System.thy ===== *)
theory Storage_System
  imports Storage_Scan
begin

text \<open>
  The properties of the storage crate: cursor movement, exact scans, and the
  transaction system of \<^verbatim>\<open>MemoryStore\<close> as a step relation in which any number of
  readers and the single writer interleave. Ghost fields record the operations of
  each committed transaction, so that the invariant can compare what a transaction
  sees with a serial execution.
\<close>

section \<open>Cursors and scans\<close>

lemma memory_cursor_moves:
  assumes "om_ok rs"
  shows "(\<exists>row c. mem_next \<lparr>cur_rows = Some rs, cur_position = p\<rparr> = Inr (row, c) \<and>
      cur_rows c = Some rs \<and>
      (case row of
         None \<Rightarrow> (\<forall>k \<in> dom (om_get rs). \<not> after_position p k) \<and> cur_position c = After
       | Some (k, v) \<Rightarrow> om_get rs k = Some v \<and> after_position p k \<and>
           (\<forall>k' \<in> dom (om_get rs). after_position p k' \<longrightarrow> k \<le> k') \<and> cur_position c = At k)) \<and>
    (\<exists>row c. mem_prev \<lparr>cur_rows = Some rs, cur_position = p\<rparr> = Inr (row, c) \<and>
      cur_rows c = Some rs \<and>
      (case row of
         None \<Rightarrow> (\<forall>k \<in> dom (om_get rs). \<not> before_position p k) \<and> cur_position c = Before
       | Some (k, v) \<Rightarrow> om_get rs k = Some v \<and> before_position p k \<and>
           (\<forall>k' \<in> dom (om_get rs). before_position p k' \<longrightarrow> k' \<le> k) \<and> cur_position c = At k))"
  using om_next_Some [OF assms, of "after_position p"] om_last_Some [OF assms, of "before_position p"]
    om_next_None [of "after_position p" rs] om_last_None [of "before_position p" rs]
  by (auto simp: mem_next_def mem_prev_def cursor_to_def split: option.splits)

text \<open>C36. A range scan of a memory transaction with bounds in order ends and yields
  exactly the rows whose keys lie in the range, in key order; a scan with reversed bounds
  is rejected with \<^verbatim>\<open>InvalidRange\<close>.\<close>

theorem range_scan_exact:
  assumes "mem_ok tx" "table_ok t"
  shows "(range_ok lo hi \<longrightarrow> (\<exists>s. scan_open mem_read_ops tx t lo hi = Inr s \<and>
      scan_collect mem_read_ops s =
        Some (Inr (filter (\<lambda>e. in_range lo hi (fst e)) (mem_view tx t))))) \<and>
    (\<not> range_ok lo hi \<longrightarrow> scan_open mem_read_ops tx t lo hi = Inl InvalidRange)"
  using memr.scan_open_rows [OF assms] memr.scan_open_reversed by blast

definition demo_tx :: mem_tx where
  "demo_tx = \<lparr>tx_state = [(''T'', [([1], [9]), ([1, 2], [8]), ([3], [7])])]\<rparr>"

lemma demo_tx_ok: "mem_ok demo_tx" "table_ok ''T''"
  by (simp_all add: demo_tx_def mem_ok_def mem_state_ok_def om_ok_def table_ok_def)

theorem range_scan_exact_witness:
  "\<exists>s. scan_open mem_read_ops demo_tx ''T'' (Excluded [1]) (Included [3]) = Inr s \<and>
    scan_collect mem_read_ops s = Some (Inr [([1, 2], [8]), ([3], [7])])"
proof -
  have "range_ok (Excluded [1 :: byte]) (Included [3])"
    by (simp add: range_ok_def)
  with range_scan_exact [OF demo_tx_ok, of "Excluded [1]" "Included [3]"] show ?thesis
    by (simp add: demo_tx_def mem_view_def table_rows_def in_range_def above_bound_def below_bound_def)
qed

lemma prefix_scan_exact:
  assumes "mem_ok tx" "table_ok t"
  shows "\<exists>s. scan_prefix mem_read_ops tx t p = Inr s \<and>
    scan_collect mem_read_ops s = Some (Inr (filter (\<lambda>e. prefix p (fst e)) (mem_view tx t)))"
  using memr.scan_prefix_rows [OF assms] .

section \<open>Interleaved transactions\<close>

datatype mem_op =
    OpPut table bytes bytes
  | OpInsert table bytes bytes
  | OpDelete table bytes

text \<open>One mutation; an error leaves the transaction as it was.\<close>

fun mem_exec :: "mem_op \<Rightarrow> mem_tx \<Rightarrow> mem_tx" where
  "mem_exec (OpPut t k v) tx = (case mem_put tx t k v of Inl _ \<Rightarrow> tx | Inr tx' \<Rightarrow> tx')"
| "mem_exec (OpInsert t k v) tx = (case mem_insert tx t k v of Inl _ \<Rightarrow> tx | Inr tx' \<Rightarrow> tx')"
| "mem_exec (OpDelete t k) tx = (case mem_delete tx t k of Inl _ \<Rightarrow> tx | Inr (_, tx') \<Rightarrow> tx')"

record mem_system =
  sys_store :: memory_store
  sys_readers :: "nat \<Rightarrow> (mem_tx \<times> nat) option"
  sys_writer :: "(mem_tx \<times> mem_op list) option"
  sys_history :: "mem_op list list"

definition mem_init :: mem_system where
  "mem_init = \<lparr>sys_store = new_store, sys_readers = (\<lambda>_. None), sys_writer = None,
    sys_history = []\<rparr>"

inductive mem_step :: "mem_system \<Rightarrow> mem_system \<Rightarrow> bool" where
  step_begin_read: "begin_read (sys_store s) = Inr tx \<Longrightarrow> sys_readers s i = None \<Longrightarrow>
    mem_step s (s\<lparr>sys_readers := (sys_readers s)(i \<mapsto> (tx, length (sys_history s)))\<rparr>)"
| step_end_read: "mem_step s (s\<lparr>sys_readers := (sys_readers s)(i := None)\<rparr>)"
| step_begin_write: "begin_write (sys_store s) = Some (Inr (store', tx)) \<Longrightarrow>
    mem_step s (s\<lparr>sys_store := store', sys_writer := Some (tx, [])\<rparr>)"
| step_exec: "sys_writer s = Some (tx, log) \<Longrightarrow>
    mem_step s (s\<lparr>sys_writer := Some (mem_exec op tx, log @ [op])\<rparr>)"
| step_commit: "sys_writer s = Some (tx, log) \<Longrightarrow> mem_commit (sys_store s) tx = Inr store' \<Longrightarrow>
    mem_step s (s\<lparr>sys_store := store', sys_writer := None, sys_history := sys_history s @ [log]\<rparr>)"
| step_abort: "sys_writer s = Some (tx, log) \<Longrightarrow>
    mem_step s (s\<lparr>sys_store := mem_abort (sys_store s), sys_writer := None\<rparr>)"

definition mem_reachable :: "mem_system \<Rightarrow> bool" where
  "mem_reachable s \<longleftrightarrow> mem_step\<^sup>*\<^sup>* mem_init s"

text \<open>The state after running transactions one after another on an empty store.\<close>

definition serial :: "mem_op list list \<Rightarrow> mem_tx" where
  "serial h = fold mem_exec (concat h) \<lparr>tx_state = []\<rparr>"

definition mem_sys_inv :: "mem_system \<Rightarrow> bool" where
  "mem_sys_inv s \<longleftrightarrow>
    committed (sys_store s) = tx_state (serial (sys_history s)) \<and>
    (writer_held (sys_store s) \<longleftrightarrow> sys_writer s \<noteq> None) \<and>
    (\<forall>tx log. sys_writer s = Some (tx, log) \<longrightarrow> tx = serial (sys_history s @ [log])) \<and>
    (\<forall>i tx n. sys_readers s i = Some (tx, n) \<longrightarrow>
      n \<le> length (sys_history s) \<and> tx = serial (take n (sys_history s)))"

inductive_cases mem_step_elim: "mem_step s s'"

lemma begin_read_serial:
  "begin_read st = Inr tx \<Longrightarrow> committed st = tx_state tx' \<Longrightarrow> tx = tx'"
  by (auto simp: begin_read_def split: if_splits)

lemma mem_step_inv: "mem_step s s' \<Longrightarrow> mem_sys_inv s \<Longrightarrow> mem_sys_inv s'"
proof (induction rule: mem_step.induct)
  case (step_begin_read s tx i)
  then show ?case
    using begin_read_serial by (auto simp: mem_sys_inv_def)
next
  case (step_begin_write s store' tx)
  then have "store' = (sys_store s)\<lparr>writer_held := True\<rparr>" "begin_read (sys_store s) = Inr tx"
    "\<not> writer_held (sys_store s)"
    by (auto simp: begin_write_def try_simps split: if_splits)
  then show ?case
    using step_begin_write begin_read_serial [of "sys_store s" tx "serial (sys_history s)"]
    by (auto simp: mem_sys_inv_def serial_def)
next
  case (step_exec s tx log op)
  then show ?case
    by (auto simp: mem_sys_inv_def serial_def)
next
  case (step_commit s tx log store')
  then show ?case
    by (auto simp: mem_sys_inv_def mem_commit_def intro: le_SucI split: if_splits)
next
  case (step_abort s tx log)
  then show ?case
    by (auto simp: mem_sys_inv_def mem_abort_def)
qed (auto simp: mem_sys_inv_def)

lemma mem_reachable_inv: "mem_reachable s \<Longrightarrow> mem_sys_inv s"
  unfolding mem_reachable_def
proof (induction rule: rtranclp_induct)
  case base
  then show ?case
    by (simp add: mem_sys_inv_def mem_init_def new_store_def serial_def)
next
  case (step s s')
  then show ?case
    using mem_step_inv by blast
qed


definition demo_system :: mem_system where
  "demo_system = mem_init\<lparr>sys_store := new_store\<lparr>writer_held := True\<rparr>,
    sys_writer := Some (mem_exec (OpPut ''T'' [1] [2]) \<lparr>tx_state = []\<rparr>, [OpPut ''T'' [1] [2]])\<rparr>"


end
