(* ===== verification/Merkle_Node.thy ===== *)
theory Merkle_Node
  imports Storage
begin

text \<open>
  \<^verbatim>\<open>crates/merkle/src/path.rs\<close>, \<^verbatim>\<open>node.rs\<close>, \<^verbatim>\<open>error.rs\<close>: nibble paths and the compact branch
  node of the hexary trie, with its two masks. A nibble is a number below 16, a path a
  list of bytes, a route a list of nibbles. The const parameter \<^verbatim>\<open>N\<close> (path width in bytes)
  is an argument. The digest is a parameter \<open>H\<close> on byte strings; \<^verbatim>\<open>hash_parts\<close> hashes the
  concatenation of its parts. The constructor \<open>MerklePanic\<close> stands for a Rust panic.
\<close>

type_synonym hash = bytes
type_synonym nibbles = "nat list"

datatype merkle_error =
    MerkleStorage storage_error
  | InvalidNode string
  | MissingBranch hash
  | HashMismatch
  | ConflictingBranch
  | MerklePanic

record leaf_ref =
  leaf_path :: bytes
  leaf_hash :: hash

datatype root_ref = RootEmpty | RootLeaf leaf_ref | RootBranch hash

definition hash_parts :: "(bytes \<Rightarrow> hash) \<Rightarrow> bytes list \<Rightarrow> hash" where
  "hash_parts H parts = H (concat parts)"

section \<open>Paths\<close>

definition nibble :: "bytes \<Rightarrow> nat \<Rightarrow> nat" where
  "nibble path depth = unat (drop_bit (4 * (1 - depth mod 2)) (path ! (depth div 2)) AND 15)"

definition matched :: "nibbles \<Rightarrow> bytes \<Rightarrow> nat \<Rightarrow> nat" where
  "matched ns path depth =
    length (takeWhile (\<lambda>(i, n). nibble path (depth + i) = n) (enumerate 0 ns))"

definition path_nibbles :: "bytes \<Rightarrow> nibbles" where
  "path_nibbles path = map (nibble path) [0..<length path * 2]"

fun pack :: "nibbles \<Rightarrow> bytes" where
  "pack [] = []"
| "pack [a] = [push_bit 4 (word_of_nat a)]"
| "pack (a # b # ns) = (push_bit 4 (word_of_nat a) OR word_of_nat b) # pack ns"

section \<open>Branch nodes\<close>

record branch_node =
  node_prefix :: bytes
  node_prefix_len :: byte
  state_mask :: u16
  tree_mask :: u16
  child_hashes :: "hash list"
  leaf_paths :: "bytes list"

definition count_ones :: "u16 \<Rightarrow> nat" where
  "count_ones w = length (filter (bit w) [0..<16])"

definition div_ceil2 :: "nat \<Rightarrow> nat" where
  "div_ceil2 n = (n + 1) div 2"

definition node_new ::
  "nat \<Rightarrow> bytes \<Rightarrow> byte \<Rightarrow> u16 \<Rightarrow> u16 \<Rightarrow> hash list \<Rightarrow> bytes list \<Rightarrow> merkle_error + branch_node" where
  "node_new N pre plen sm tm hs ps =
    (if unat plen \<ge> 2 * N \<or> length pre \<noteq> div_ceil2 (unat plen)
     then Inl (InvalidNode ''invalid prefix length'')
     else if odd (unat plen) \<and> pre \<noteq> [] \<and> last pre AND 15 \<noteq> 0
     then Inl (InvalidNode ''nonzero prefix padding'')
     else if count_ones sm < 2 \<or> tm AND NOT sm \<noteq> 0 \<or> length hs \<noteq> count_ones sm \<or>
       length ps \<noteq> count_ones (sm AND NOT tm)
     then Inl (InvalidNode ''invalid child masks or counts'')
     else Inr \<lparr>node_prefix = pre, node_prefix_len = plen, state_mask = sm, tree_mask = tm,
       child_hashes = hs, leaf_paths = ps\<rparr>)"

text \<open>\<^verbatim>\<open>slot\<close> is a \<^verbatim>\<open>u8\<close>; the guard keeps the shifts below 16.\<close>

definition node_child :: "branch_node \<Rightarrow> nat \<Rightarrow> root_ref option" where
  "node_child node slot =
    (if slot \<ge> 16 \<or> state_mask node AND push_bit slot 1 = 0 then None
     else let before = push_bit slot 1 - 1;
              h = child_hashes node ! count_ones (state_mask node AND before)
       in Some (if tree_mask node AND push_bit slot 1 \<noteq> 0 then RootBranch h
          else RootLeaf \<lparr>leaf_path =
              leaf_paths node ! count_ones (state_mask node AND NOT (tree_mask node) AND before),
            leaf_hash = h\<rparr>))"

definition hash_payload :: "branch_node \<Rightarrow> bytes" where
  "hash_payload node = [node_prefix_len node] @ node_prefix node @ to_be (state_mask node) @
    to_be (tree_mask node) @ concat (child_hashes node)"

definition node_hash :: "(bytes \<Rightarrow> hash) \<Rightarrow> byte \<Rightarrow> branch_node \<Rightarrow> hash" where
  "node_hash H domain node = hash_parts H [[domain], hash_payload node]"

definition node_encode :: "branch_node \<Rightarrow> bytes" where
  "node_encode node = hash_payload node @ concat (leaf_paths node)"

text \<open>\<^verbatim>\<open>chunks_exact\<close>\<close>

function chunks :: "nat \<Rightarrow> 'a list \<Rightarrow> 'a list list" where
  "chunks n xs = (if n = 0 \<or> length xs < n then [] else take n xs # chunks n (drop n xs))"
  by auto

termination
  by (relation "measure (length \<circ> snd)") auto

declare chunks.simps [simp del]

definition node_decode :: "nat \<Rightarrow> bytes \<Rightarrow> merkle_error + branch_node" where
  "node_decode N bs =
    (let bad = InvalidNode ''invalid encoded length'' in
     case bs of
       [] \<Rightarrow> Inl bad
     | plen # _ \<Rightarrow>
         let en = 1 + div_ceil2 (unat plen) in
         if length bs < en + 4 then Inl bad
         else
           let sm = from_be [bs ! en, bs ! (en + 1)];
               tm = from_be [bs ! (en + 2), bs ! (en + 3)];
               hash_end = en + 4 + count_ones sm * 32
           in if length bs \<noteq> hash_end + count_ones (sm AND NOT tm) * N then Inl bad
              else node_new N (drop 1 (take en bs)) plen sm tm
                (chunks 32 (drop (en + 4) (take hash_end bs))) (chunks N (drop hash_end bs)))"

definition unpack_prefix :: "branch_node \<Rightarrow> nibbles" where
  "unpack_prefix node = map (nibble (node_prefix node)) [0..<unat (node_prefix_len node)]"

definition node_children :: "branch_node \<Rightarrow> root_ref list" where
  "node_children node =
    map (\<lambda>slot. case node_child node slot of Some c \<Rightarrow> c | None \<Rightarrow> RootEmpty) [0..<16]"

text \<open>The loop of \<^verbatim>\<open>from_children\<close>: its four accumulators, over the children with their slots.\<close>

fun collect_children ::
  "(nat \<times> root_ref) list \<Rightarrow> u16 \<Rightarrow> u16 \<Rightarrow> hash list \<Rightarrow> bytes list \<Rightarrow>
    u16 \<times> u16 \<times> hash list \<times> bytes list" where
  "collect_children [] state tree hashes paths = (state, tree, hashes, paths)"
| "collect_children ((slot, RootEmpty) # cs) state tree hashes paths =
    collect_children cs state tree hashes paths"
| "collect_children ((slot, RootLeaf leaf) # cs) state tree hashes paths =
    collect_children cs (state OR push_bit slot 1) tree (hashes @ [leaf_hash leaf])
      (paths @ [leaf_path leaf])"
| "collect_children ((slot, RootBranch h) # cs) state tree hashes paths =
    collect_children cs (state OR push_bit slot 1) (tree OR push_bit slot 1) (hashes @ [h]) paths"

definition from_children :: "nat \<Rightarrow> nibbles \<Rightarrow> root_ref list \<Rightarrow> merkle_error + branch_node" where
  "from_children N pre children =
    (let (state, tree, hashes, paths) = collect_children (enumerate 0 children) 0 0 [] [] in
     node_new N (pack pre) (word_of_nat (length pre)) state tree hashes paths)"

definition validate_at :: "nat \<Rightarrow> branch_node \<Rightarrow> nibbles \<Rightarrow> merkle_error + unit" where
  "validate_at N node ancestors =
    (let route = ancestors @ unpack_prefix node in
     if length route \<ge> N * 2 then Inl (InvalidNode ''branch exceeds path depth'')
     else if length route + 1 = N * 2 \<and> tree_mask node \<noteq> 0
     then Inl (InvalidNode ''branch child beyond final nibble'')
     else if list_ex (\<lambda>slot. case node_child node slot of
           Some (RootLeaf leaf) \<Rightarrow>
             list_ex (\<lambda>(i, n). nibble (leaf_path leaf) i \<noteq> n) (enumerate 0 route) \<or>
             nibble (leaf_path leaf) (length route) \<noteq> slot
         | _ \<Rightarrow> False) [0..<16]
     then Inl (InvalidNode ''leaf path does not match branch route'')
     else Inr ())"

end
