(* ===== verification/Merkle_Node_Laws.thy ===== *)
theory Merkle_Node_Laws
  imports Merkle_Node "HOL-Library.Sublist"
begin

text \<open>
  Laws of the compact branch node: nibble paths, masks and child slots, the bijection
  between valid nodes and pairs of a prefix and a children array, and the stored encoding.
\<close>

section \<open>Nibbles\<close>

lemma unat_and_15: "unat ((b :: byte) AND 15) = unat b mod 16"
proof -
  have "b AND 15 = take_bit 4 b"
    by (simp add: take_bit_eq_mask mask_eq_exp_minus_1)
  then show ?thesis
    by (simp only: unsigned_take_bit_eq) (simp add: take_bit_eq_mod)
qed

lemma nibble_eq:
  "nibble p d = (if even d then unat (p ! (d div 2)) div 16 else unat (p ! (d div 2)) mod 16)"
proof -
  have "unat (p ! (d div 2)) div 16 mod 16 = unat (p ! (d div 2)) div 16"
    using unat_byte_less [of "p ! (d div 2)"] by (simp add: less_mult_imp_div_less del: unat_byte_less)
  moreover have "unat (drop_bit 4 (p ! (d div 2))) = unat (p ! (d div 2)) div 16"
    unfolding unat_drop_bit_eq by (simp add: drop_bit_eq_div)
  ultimately show ?thesis
    by (cases "even d") (simp_all add: nibble_def unat_and_15 odd_iff_mod_2_eq_one [THEN iffD1])
qed

lemma nibble_less [simp]: "nibble p d < 16"
  unfolding nibble_def unat_and_15 by simp

lemma nibble_Cons_Suc [simp]: "nibble (b # bs) (Suc (Suc d)) = nibble bs d"
  by (simp add: nibble_eq)

lemma upt_two: "[0..<Suc (Suc n)] = [0, Suc 0] @ map (\<lambda>i. Suc (Suc i)) [0..<n]"
  by (induction n) simp_all

lemma path_nibbles_Cons: "path_nibbles (b # bs) = [unat b div 16, unat b mod 16] @ path_nibbles bs"
  by (simp add: path_nibbles_def upt_two nibble_eq [of _ 0] nibble_eq [of _ "Suc 0"] comp_def
      del: upt_Suc)

lemma length_path_nibbles [simp]: "length (path_nibbles p) = length p * 2"
  by (simp add: path_nibbles_def)

lemma path_nibbles_nth: "d < length p * 2 \<Longrightarrow> path_nibbles p ! d = nibble p d"
  by (simp add: path_nibbles_def)

lemma path_nibbles_inject [simp]: "path_nibbles p = path_nibbles q \<longleftrightarrow> p = q"
proof (induction p arbitrary: q)
  case Nil
  then show ?case by (cases q) (simp_all add: path_nibbles_def)
next
  case (Cons b p)
  show ?case
  proof (cases q)
    case Nil
    then show ?thesis by (simp add: path_nibbles_def)
  next
    case c: (Cons c q')
    have "b = c" if "unat b div 16 = unat c div 16" "unat b mod 16 = unat c mod 16"
      using that by (metis div_mult_mod_eq word_unat_eq_iff)
    then show ?thesis
      using Cons.IH [of q'] by (auto simp: c path_nibbles_Cons)
  qed
qed

lemma less_div_mod:
  fixes x y :: nat
  shows "x < y \<longleftrightarrow> x div 16 < y div 16 \<or> x div 16 = y div 16 \<and> x mod 16 < y mod 16"
proof -
  define a r b s where "a = x div 16" "r = x mod 16" "b = y div 16" "s = y mod 16"
  then have "x = 16 * a + r" "y = 16 * b + s" "r < 16" "s < 16"
    by simp_all
  then show ?thesis
    unfolding a_r_b_s_def [symmetric] by linarith
qed

lemma path_nibbles_less: "length p = length q \<Longrightarrow> path_nibbles p < path_nibbles q \<longleftrightarrow> p < q"
proof (induction p q rule: list_induct2)
  case (Cons b p c q)
  have "unat b < unat c \<longleftrightarrow> unat b div 16 < unat c div 16 \<or>
      unat b div 16 = unat c div 16 \<and> unat b mod 16 < unat c mod 16"
    by (rule less_div_mod)
  moreover have "b = c \<longleftrightarrow> unat b div 16 = unat c div 16 \<and> unat b mod 16 = unat c mod 16"
    by (metis div_mult_mod_eq word_unat_eq_iff)
  ultimately show ?case
    using Cons by (auto simp: path_nibbles_Cons word_less_nat_alt)
qed (simp add: path_nibbles_def)

section \<open>Packing\<close>

lemma unat_of_nibble: "a < 16 \<Longrightarrow> unat (word_of_nat a :: byte) = a"
  by (simp add: unat_of_nat)

lemma pack_pair:
  assumes "a < 16" "b < 16"
  shows "unat (push_bit 4 (word_of_nat a) OR word_of_nat b :: byte) = 16 * a + b"
proof -
  have "unat (push_bit 4 (word_of_nat a) :: byte) = 16 * a"
    using assms by (simp add: push_bit_eq_mult unat_word_ariths unat_of_nibble)
  moreover have "(push_bit 4 (word_of_nat a) :: byte) AND word_of_nat b = 0"
  proof (rule bit_eqI)
    fix n
    have "\<not> bit (word_of_nat b :: byte) n" if "4 \<le> n"
    proof -
      have "b = take_bit 4 b"
        using assms(2) by (simp add: take_bit_eq_mod)
      then have "\<not> bit b n"
        using that by (metis bit_take_bit_iff not_less)
      then show ?thesis
        using bit_unsigned_iff [of "word_of_nat b :: byte" n, where ?'a = nat] assms(2)
        by (simp add: unat_of_nibble)
    qed
    then show "bit ((push_bit 4 (word_of_nat a) :: byte) AND word_of_nat b) n \<longleftrightarrow> bit (0 :: byte) n"
      by (auto simp: bit_and_iff bit_push_bit_iff)
  qed
  then have "(push_bit 4 (word_of_nat a) :: byte) OR word_of_nat b =
      push_bit 4 (word_of_nat a) + word_of_nat b"
    by (simp add: disjunctive_add_eq_or)
  ultimately show ?thesis
    using assms by (simp add: unat_word_ariths unat_of_nibble)
qed

lemma length_pack: "length (pack ns) = div_ceil2 (length ns)"
  by (induction ns rule: pack.induct) (simp_all add: div_ceil2_def)

lemma nibble_pack: "i < length ns \<Longrightarrow> \<forall>n \<in> set ns. n < 16 \<Longrightarrow> nibble (pack ns) i = ns ! i"
proof (induction ns arbitrary: i rule: pack.induct)
  case (2 a)
  then show ?case
    using pack_pair [of a 0] by (simp add: nibble_eq)
next
  case (3 a b ns)
  then have "a < 16" "b < 16"
    by simp_all
  then have "nibble (pack (a # b # ns)) 0 = a" "nibble (pack (a # b # ns)) (Suc 0) = b"
    using pack_pair [of a b] by (simp_all add: nibble_eq)
  moreover have "nibble (pack (a # b # ns)) (Suc (Suc j)) = nibble (pack ns) j" for j
    by simp
  ultimately show ?case
    using 3 by (cases i rule: nat.exhaust; cases "i - 1") (auto simp del: pack.simps)
qed simp

lemma pack_nibbles:
  assumes "length pre = div_ceil2 k" "odd k \<longrightarrow> pre = [] \<or> last pre AND 15 = 0"
  shows "pack (map (nibble pre) [0..<k]) = pre"
  using assms
proof (induction pre arbitrary: k)
  case Nil
  then show ?case by (simp add: div_ceil2_def)
next
  case (Cons b pre)
  have b: "16 * (unat b div 16) + unat b mod 16 = unat b" "unat b div 16 < 16"
    using unat_byte_less [of b] by (simp_all add: less_mult_imp_div_less del: unat_byte_less)
  consider "k = 1" | j where "k = Suc (Suc j)"
    using Cons.prems(1) by (cases k rule: nat.exhaust; cases "k - 1") (auto simp: div_ceil2_def)
  then show ?case
  proof cases
    case 1
    then have "pre = []" "unat b mod 16 = 0"
      using Cons.prems unat_and_15 [of b] by (auto simp: div_ceil2_def)
    then show ?thesis
      using 1 b pack_pair [of "unat b div 16" 0]
      by (simp add: nibble_eq word_unat_eq_iff)
  next
    case 2
    have up: "[0..<k] = [0, Suc 0] @ map (\<lambda>i. Suc (Suc i)) [0..<j]"
      unfolding 2 by (rule upt_two)
    have "pack (map (nibble pre) [0..<j]) = pre"
      using Cons.prems 2 by (intro Cons.IH) (auto simp: div_ceil2_def split: if_splits)
    moreover have "push_bit 4 (word_of_nat (unat b div 16)) OR word_of_nat (unat b mod 16) = b"
      using b pack_pair [of "unat b div 16" "unat b mod 16"] by (simp add: word_unat_eq_iff)
    ultimately show ?thesis
      by (simp add: up comp_def nibble_eq [of _ 0] nibble_eq [of _ "Suc 0"])
  qed
qed

section \<open>Masks\<close>

lemma bit_test: "(w :: u16) AND push_bit s 1 = 0 \<longleftrightarrow> \<not> bit w s"
  by (simp add: push_bit_of_1 and_exp_eq_0_iff_not_bit)

lemma bit_slot: "s < 16 \<Longrightarrow> bit (push_bit s 1 :: u16) i \<longleftrightarrow> i = s"
  by (auto simp: push_bit_of_1 bit_exp_iff)

lemma count_ones_before:
  assumes "s \<le> 16"
  shows "count_ones (w AND (push_bit s 1 - 1)) = length (filter (bit w) [0..<s])"
proof -
  have "(push_bit s 1 - 1 :: u16) = mask s"
    by (simp add: push_bit_of_1 mask_eq_exp_minus_1)
  then have "bit (w AND (push_bit s 1 - 1)) i \<longleftrightarrow> bit w i \<and> i < s" for i
    by (auto simp: bit_and_iff bit_mask_iff dest: bit_imp_le_length)
  then have "count_ones (w AND (push_bit s 1 - 1)) = length (filter (\<lambda>i. bit w i \<and> i < s) [0..<16])"
    unfolding count_ones_def by presburger
  also have "[0..<16] = [0..<s] @ [s..<16]"
    using assms upt_add_eq_append [of 0 s "16 - s"] by simp
  also have "filter (\<lambda>i. bit w i \<and> i < s) ([0..<s] @ [s..<16]) = filter (bit w) [0..<s]"
    by (auto simp: filter_empty_conv intro!: filter_cong)
  finally show ?thesis .
qed

section \<open>Children arrays\<close>

fun ref_hash_list :: "root_ref \<Rightarrow> hash list" where
  "ref_hash_list RootEmpty = []"
| "ref_hash_list (RootLeaf l) = [leaf_hash l]"
| "ref_hash_list (RootBranch h) = [h]"

fun ref_path_list :: "root_ref \<Rightarrow> bytes list" where
  "ref_path_list (RootLeaf l) = [leaf_path l]"
| "ref_path_list _ = []"

fun is_branch_ref :: "root_ref \<Rightarrow> bool" where
  "is_branch_ref (RootBranch h) = True"
| "is_branch_ref _ = False"

definition occupied :: "root_ref list \<Rightarrow> nat" where
  "occupied cs = length (filter (\<lambda>c. c \<noteq> RootEmpty) cs)"

lemma collect_children_spec:
  assumes "k + length cs \<le> 16"
  shows "\<exists>sm tm. collect_children (enumerate k cs) s t hs ps =
      (sm, tm, hs @ concat (map ref_hash_list cs), ps @ concat (map ref_path_list cs)) \<and>
    (\<forall>i. bit sm i \<longleftrightarrow> bit s i \<or> k \<le> i \<and> i < k + length cs \<and> cs ! (i - k) \<noteq> RootEmpty) \<and>
    (\<forall>i. bit tm i \<longleftrightarrow> bit t i \<or> k \<le> i \<and> i < k + length cs \<and> is_branch_ref (cs ! (i - k)))"
  using assms
proof (induction cs arbitrary: k s t hs ps)
  case Nil
  then show ?case by auto
next
  case (Cons c cs)
  let ?s = "if c = RootEmpty then s else s OR push_bit k 1"
  let ?t = "if is_branch_ref c then t OR push_bit k 1 else t"
  have "Suc k + length cs \<le> 16" "k < 16"
    using Cons.prems by simp_all
  then obtain sm tm where c: "collect_children (enumerate (Suc k) cs) ?s ?t (hs @ ref_hash_list c) (ps @ ref_path_list c) =
      (sm, tm, (hs @ ref_hash_list c) @ concat (map ref_hash_list cs), (ps @ ref_path_list c) @ concat (map ref_path_list cs))"
    and sm: "\<And>i. bit sm i \<longleftrightarrow> bit ?s i \<or> Suc k \<le> i \<and> i < Suc k + length cs \<and> cs ! (i - Suc k) \<noteq> RootEmpty"
    and tm: "\<And>i. bit tm i \<longleftrightarrow> bit ?t i \<or> Suc k \<le> i \<and> i < Suc k + length cs \<and> is_branch_ref (cs ! (i - Suc k))"
    using Cons.IH [of "Suc k" ?s ?t "hs @ ref_hash_list c" "ps @ ref_path_list c"] by blast
  have "collect_children (enumerate k (c # cs)) s t hs ps =
      collect_children (enumerate (Suc k) cs) ?s ?t (hs @ ref_hash_list c) (ps @ ref_path_list c)"
    by (cases c) simp_all
  then have "collect_children (enumerate k (c # cs)) s t hs ps =
      (sm, tm, hs @ concat (map ref_hash_list (c # cs)), ps @ concat (map ref_path_list (c # cs)))"
    using c by simp
  moreover have bits: "bit ?s i \<longleftrightarrow> bit s i \<or> i = k \<and> c \<noteq> RootEmpty"
    "bit ?t i \<longleftrightarrow> bit t i \<or> i = k \<and> is_branch_ref c" for i
    using bit_slot [OF \<open>k < 16\<close>, of i] by (auto simp: bit_or_iff)
  moreover have range: "k \<le> i \<and> i < k + length (c # cs) \<and> P ((c # cs) ! (i - k)) \<longleftrightarrow>
      i = k \<and> P c \<or> Suc k \<le> i \<and> i < Suc k + length cs \<and> P (cs ! (i - Suc k))" for i P
    by (cases "i = k") (auto simp: Suc_le_eq nth_Cons')
  have "bit sm i \<longleftrightarrow> bit s i \<or> k \<le> i \<and> i < k + length (c # cs) \<and> (c # cs) ! (i - k) \<noteq> RootEmpty" for i
    unfolding sm bits range [of i "\<lambda>c. c \<noteq> RootEmpty"] by (simp only: disj_assoc)
  moreover have "bit tm i \<longleftrightarrow> bit t i \<or> k \<le> i \<and> i < k + length (c # cs) \<and> is_branch_ref ((c # cs) ! (i - k))" for i
    unfolding tm bits range [of i is_branch_ref] by (simp only: disj_assoc)
  ultimately show ?case
    by blast
qed

lemma length_hash_lists:
  "s \<le> length cs \<Longrightarrow> length (concat (map ref_hash_list (take s cs))) =
    length (filter (\<lambda>i. cs ! i \<noteq> RootEmpty) [0..<s])"
proof (induction s)
  case (Suc s)
  then show ?case
    by (cases "cs ! s") (simp_all add: take_Suc_conv_app_nth)
qed simp

lemma length_path_lists:
  "s \<le> length cs \<Longrightarrow> length (concat (map ref_path_list (take s cs))) =
    length (filter (\<lambda>i. cs ! i \<noteq> RootEmpty \<and> \<not> is_branch_ref (cs ! i)) [0..<s])"
proof (induction s)
  case (Suc s)
  then show ?case
    by (cases "cs ! s") (simp_all add: take_Suc_conv_app_nth)
qed simp

lemma occupied_eq: "occupied cs = length (concat (map ref_hash_list cs))"
  unfolding occupied_def
proof (induction cs)
  case (Cons c cs)
  then show ?case by (cases c) simp_all
qed simp

lemma nth_concat_map:
  assumes "i < length cs" "f (cs ! i) = [x]"
  shows "concat (map f cs) ! length (concat (map f (take i cs))) = x"
proof -
  have "map f cs = map f (take i cs) @ [x] # map f (drop (Suc i) cs)"
    using assms by (metis id_take_nth_drop list.simps(9) map_append)
  then have "concat (map f cs) = concat (map f (take i cs)) @ x # concat (map f (drop (Suc i) cs))"
    by simp
  then show ?thesis
    by (simp add: nth_append)
qed

section \<open>Nodes and their children\<close>

definition node_ok :: "nat \<Rightarrow> branch_node \<Rightarrow> bool" where
  "node_ok N node \<longleftrightarrow>
    node_new N (node_prefix node) (node_prefix_len node) (state_mask node) (tree_mask node)
      (child_hashes node) (leaf_paths node) = Inr node"

text \<open>A prefix and a children array that a node can hold.\<close>

definition parts_ok :: "nat \<Rightarrow> nibbles \<Rightarrow> root_ref list \<Rightarrow> bool" where
  "parts_ok N pre cs \<longleftrightarrow> length pre < 2 * N \<and> (\<forall>n \<in> set pre. n < 16) \<and> length cs = 16 \<and>
    2 \<le> occupied cs"

lemma node_new_ok: "node_new N a b c d e f = Inr node \<Longrightarrow> node_ok N node"
  by (auto simp: node_new_def node_ok_def split: if_splits)

lemma node_ok_iff: "node_ok N node \<longleftrightarrow>
    unat (node_prefix_len node) < 2 * N \<and>
    length (node_prefix node) = div_ceil2 (unat (node_prefix_len node)) \<and>
    (odd (unat (node_prefix_len node)) \<longrightarrow> node_prefix node = [] \<or> last (node_prefix node) AND 15 = 0) \<and>
    2 \<le> count_ones (state_mask node) \<and> tree_mask node AND NOT (state_mask node) = 0 \<and>
    length (child_hashes node) = count_ones (state_mask node) \<and>
    length (leaf_paths node) = count_ones (state_mask node AND NOT (tree_mask node))"
  by (auto simp: node_new_def node_ok_def)

lemma node_children_length [simp]: "length (node_children node) = 16"
  by (simp add: node_children_def)

lemma node_children_nth:
  "s < 16 \<Longrightarrow> node_children node ! s = (case node_child node s of Some c \<Rightarrow> c | None \<Rightarrow> RootEmpty)"
  by (simp add: node_children_def)

lemma node_child_eq:
  assumes "s < 16"
  shows "node_child node s =
    (if \<not> bit (state_mask node) s then None
     else Some (if bit (tree_mask node) s
       then RootBranch (child_hashes node ! length (filter (bit (state_mask node)) [0..<s]))
       else RootLeaf \<lparr>leaf_path = leaf_paths node !
           length (filter (\<lambda>i. bit (state_mask node) i \<and> \<not> bit (tree_mask node) i) [0..<s]),
         leaf_hash = child_hashes node ! length (filter (bit (state_mask node)) [0..<s])\<rparr>))"
proof -
  have "count_ones (state_mask node AND NOT (tree_mask node) AND (push_bit s 1 - 1)) =
      length (filter (bit (state_mask node AND NOT (tree_mask node))) [0..<s])"
    using assms by (simp only: and.assoc [symmetric]) (rule count_ones_before, simp)
  also have "filter (bit (state_mask node AND NOT (tree_mask node))) [0..<s] =
      filter (\<lambda>i. bit (state_mask node) i \<and> \<not> bit (tree_mask node) i) [0..<s]"
    using assms by (intro filter_cong) (auto simp: bit_and_iff bit_not_iff)
  finally show ?thesis
    using assms count_ones_before [of s "state_mask node"]
    unfolding node_child_def Let_def bit_test by simp
qed

lemma length_unpack_prefix [simp]: "length (unpack_prefix node) = unat (node_prefix_len node)"
  by (simp add: unpack_prefix_def)

lemma unpack_prefix_less: "\<forall>n \<in> set (unpack_prefix node). n < 16"
  by (simp add: unpack_prefix_def)

lemma child_slot:
  assumes "s < 16"
  shows "node_children node ! s \<noteq> RootEmpty \<longleftrightarrow> bit (state_mask node) s"
    "is_branch_ref (node_children node ! s) \<longleftrightarrow> bit (state_mask node) s \<and> bit (tree_mask node) s"
    "ref_hash_list (node_children node ! s) = (if bit (state_mask node) s
      then [child_hashes node ! length (filter (bit (state_mask node)) [0..<s])] else [])"
    "ref_path_list (node_children node ! s) = (if bit (state_mask node) s \<and> \<not> bit (tree_mask node) s
      then [leaf_paths node !
        length (filter (\<lambda>i. bit (state_mask node) i \<and> \<not> bit (tree_mask node) i) [0..<s])] else [])"
  using assms by (simp_all add: node_children_nth node_child_eq)

lemma filter_upt_less:
  assumes "s < n" "P s"
  shows "length (filter P [0..<s]) < length (filter P [0..<n])"
proof -
  have "[0..<n] = [0..<s] @ s # [Suc s..<n]"
    using assms(1) by (metis le_add_same_cancel1 less_imp_le_nat upt_add_eq_append upt_conv_Cons
        le_add_diff_inverse zero_le)
  then show ?thesis
    using assms(2) by simp
qed

lemma take_slots:
  assumes "length xs = length (filter P [0..<n])" "length cs = n"
    "\<And>s. s < n \<Longrightarrow> f (cs ! s) = (if P s then [xs ! length (filter P [0..<s])] else [])"
  shows "concat (map f cs) = xs"
proof -
  have "concat (map f (take s cs)) = take (length (filter P [0..<s])) xs" if "s \<le> n" for s
    using that
  proof (induction s)
    case (Suc s)
    then show ?case
      using assms filter_upt_less [of s n P] by (simp add: take_Suc_conv_app_nth)
  qed simp
  from this [of n] show ?thesis
    using assms(1,2) by simp
qed

lemma count_ones_and_not:
  "count_ones (a AND NOT b) = length (filter (\<lambda>i. bit a i \<and> \<not> bit b i) [0..<16])"
  unfolding count_ones_def
  by (intro arg_cong [where f = length] filter_cong) (auto simp: bit_and_iff bit_not_iff)

lemma node_ok_lists:
  assumes "node_ok N node"
  shows "concat (map ref_hash_list (node_children node)) = child_hashes node"
    "concat (map ref_path_list (node_children node)) = leaf_paths node"
  using assms unfolding node_ok_iff count_ones_and_not
  by (auto intro!: take_slots [where n = 16] simp: child_slot count_ones_def)

lemma tree_in_state:
  assumes "node_ok N node" "bit (tree_mask node) s"
  shows "bit (state_mask node) s"
proof (rule ccontr)
  assume "\<not> bit (state_mask node) s"
  then have "bit (tree_mask node AND NOT (state_mask node)) s"
    using assms(2) bit_imp_le_length [OF assms(2)] by (simp add: bit_and_iff bit_not_iff)
  then show False
    using assms(1) by (simp add: node_ok_iff)
qed

text \<open>A valid node is determined by its prefix and its children.\<close>

lemma node_eqI:
  assumes "node_ok N a" "node_ok N b" "unpack_prefix a = unpack_prefix b"
    "node_children a = node_children b"
  shows "a = b"
proof -
  have "node_prefix_len a = node_prefix_len b"
    using arg_cong [OF assms(3), of length] by (simp add: word_unat_eq_iff)
  moreover have "node_prefix n = pack (unpack_prefix n)" if "node_ok N n" for n
    using that unfolding unpack_prefix_def node_ok_iff
    by (intro pack_nibbles [symmetric]) auto
  moreover have "state_mask a = state_mask b"
  proof (rule bit_eqI)
    fix s
    show "bit (state_mask a) s \<longleftrightarrow> bit (state_mask b) s"
      using child_slot(1) [of s a] child_slot(1) [of s b] assms(4)
      by (cases "s < 16") (auto dest: bit_imp_le_length)
  qed
  moreover have "tree_mask a = tree_mask b"
  proof (rule bit_eqI)
    fix s
    show "bit (tree_mask a) s \<longleftrightarrow> bit (tree_mask b) s"
      using child_slot(2) [of s a] child_slot(2) [of s b] assms(4)
        tree_in_state [OF assms(1), of s] tree_in_state [OF assms(2), of s]
      by (cases "s < 16") (auto dest: bit_imp_le_length)
  qed
  moreover have "child_hashes a = child_hashes b" "leaf_paths a = leaf_paths b"
    using node_ok_lists [OF assms(1)] node_ok_lists [OF assms(2)] assms(4) by simp_all
  ultimately show ?thesis
    using assms by simp
qed

lemma pack_padding: "odd (length ns) \<Longrightarrow> \<forall>n \<in> set ns. n < 16 \<Longrightarrow> last (pack ns) AND 15 = 0"
proof (induction ns rule: pack.induct)
  case (2 a)
  then show ?case
    using pack_pair [of a 0] unat_and_15 [of "push_bit 4 (word_of_nat a)"]
    by (simp add: word_unat_eq_iff)
next
  case (3 a b ns)
  then have "pack ns \<noteq> []"
    by (cases ns rule: pack.cases) auto
  then show ?case
    using 3 by simp
qed simp

lemma from_children_ok:
  assumes "parts_ok N pre cs" "N \<le> 32"
  shows "\<exists>node. from_children N pre cs = Inr node \<and> node_ok N node \<and>
    unpack_prefix node = pre \<and> node_children node = cs"
proof -
  have pre: "length pre < 2 * N" "\<forall>n \<in> set pre. n < 16" and cs: "length cs = 16" "2 \<le> occupied cs"
    using assms(1) by (simp_all add: parts_ok_def)
  have plen: "unat (word_of_nat (length pre) :: byte) = length pre"
    using pre(1) assms(2) by (simp add: unat_of_nat)
  obtain sm tm where collect: "collect_children (enumerate 0 cs) 0 0 [] [] =
      (sm, tm, concat (map ref_hash_list cs), concat (map ref_path_list cs))"
    and sm: "\<And>i. bit sm i \<longleftrightarrow> i < 16 \<and> cs ! i \<noteq> RootEmpty"
    and tm: "\<And>i. bit tm i \<longleftrightarrow> i < 16 \<and> is_branch_ref (cs ! i)"
    using collect_children_spec [of 0 cs 0 0 "[]" "[]"] cs(1) by auto
  let ?node = "\<lparr>node_prefix = pack pre, node_prefix_len = word_of_nat (length pre), state_mask = sm,
    tree_mask = tm, child_hashes = concat (map ref_hash_list cs), leaf_paths = concat (map ref_path_list cs)\<rparr>"
  have hashes: "length (filter (bit sm) [0..<s]) = length (concat (map ref_hash_list (take s cs)))"
    if "s \<le> 16" for s
  proof -
    have "filter (bit sm) [0..<s] = filter (\<lambda>i. cs ! i \<noteq> RootEmpty) [0..<s]"
      using that by (intro filter_cong) (auto simp: sm)
    then show ?thesis
      using length_hash_lists [of s cs] that cs(1) by simp
  qed
  have paths: "length (filter (\<lambda>i. bit sm i \<and> \<not> bit tm i) [0..<s]) =
      length (concat (map ref_path_list (take s cs)))" if "s \<le> 16" for s
  proof -
    have "filter (\<lambda>i. bit sm i \<and> \<not> bit tm i) [0..<s] =
        filter (\<lambda>i. cs ! i \<noteq> RootEmpty \<and> \<not> is_branch_ref (cs ! i)) [0..<s]"
      using that by (intro filter_cong) (auto simp: sm tm)
    then show ?thesis
      using length_path_lists [of s cs] that cs(1) by simp
  qed
  have "tm AND NOT sm = 0"
    by (rule bit_eqI) (auto simp: bit_and_iff bit_not_iff sm tm)
  moreover have "odd (unat (word_of_nat (length pre) :: byte)) \<longleftrightarrow> odd (length pre)"
    using plen by simp
  ultimately have ok: "node_ok N ?node"
    using pre cs hashes [of 16] paths [of 16] pack_padding [of pre] occupied_eq [of cs]
    by (simp add: node_ok_iff plen length_pack count_ones_and_not) (simp add: count_ones_def)
  then have "from_children N pre cs = Inr ?node"
    by (simp add: from_children_def collect node_ok_def)
  moreover have "unpack_prefix ?node = pre"
    using pre(2) by (intro nth_equalityI) (simp_all add: unpack_prefix_def plen nibble_pack)
  moreover have "node_children ?node = cs"
  proof (intro nth_equalityI)
    fix s assume "s < length (node_children ?node)"
    then have s: "s < 16" by simp
    show "node_children ?node ! s = cs ! s"
      using s hashes [of s] paths [of s] cs(1) nth_concat_map [of s cs ref_hash_list]
        nth_concat_map [of s cs ref_path_list]
      by (cases "cs ! s") (simp_all add: node_children_nth node_child_eq sm tm)
  qed (simp add: cs(1))
  ultimately show ?thesis
    using ok by blast
qed

lemma node_parts:
  assumes "node_ok N node"
  shows "parts_ok N (unpack_prefix node) (node_children node)"
proof -
  have "occupied (node_children node) = count_ones (state_mask node)"
    using assms node_ok_lists(1) [OF assms] by (simp add: occupied_eq node_ok_iff)
  then show ?thesis
    using assms unpack_prefix_less [of node] by (simp add: parts_ok_def node_ok_iff)
qed

lemma node_rebuild:
  assumes "node_ok N node" "N \<le> 32"
  shows "from_children N (unpack_prefix node) (node_children node) = Inr node"
  using from_children_ok [OF node_parts [OF assms(1)] assms(2)] node_eqI assms(1) by metis

lemma from_children_Inr:
  assumes "from_children N pre cs = Inr node" "length cs = 16" "\<forall>n \<in> set pre. n < 16" "N \<le> 32"
    "length pre < 2 * N"
  shows "parts_ok N pre cs \<and> node_ok N node \<and> unpack_prefix node = pre \<and> node_children node = cs"
proof -
  obtain sm tm where "collect_children (enumerate 0 cs) 0 0 [] [] =
      (sm, tm, concat (map ref_hash_list cs), concat (map ref_path_list cs))"
    using collect_children_spec [of 0 cs 0 0 "[]" "[]"] assms(2) by auto
  then have "2 \<le> occupied cs"
    using assms(1) by (auto simp: from_children_def node_new_def occupied_eq split: if_splits)
  then have "parts_ok N pre cs"
    using assms(2-5) by (simp add: parts_ok_def)
  then show ?thesis
    using from_children_ok [of N pre cs] assms(1,4) by auto
qed

section \<open>The stored encoding\<close>

definition ref_sized :: "nat \<Rightarrow> root_ref \<Rightarrow> bool" where
  "ref_sized N c \<longleftrightarrow> (case c of RootEmpty \<Rightarrow> True | RootBranch h \<Rightarrow> length h = 32
    | RootLeaf l \<Rightarrow> length (leaf_hash l) = 32 \<and> length (leaf_path l) = N)"

definition node_sized :: "nat \<Rightarrow> branch_node \<Rightarrow> bool" where
  "node_sized N node \<longleftrightarrow> (\<forall>h \<in> set (child_hashes node). length h = 32) \<and>
    (\<forall>p \<in> set (leaf_paths node). length p = N)"

lemma node_sized_children:
  assumes "node_ok N node"
  shows "node_sized N node \<longleftrightarrow> (\<forall>c \<in> set (node_children node). ref_sized N c)"
proof -
  have "ref_sized N c \<longleftrightarrow> (\<forall>h \<in> set (ref_hash_list c). length h = 32) \<and>
      (\<forall>p \<in> set (ref_path_list c). length p = N)" for c
    by (cases c) (auto simp: ref_sized_def)
  then show ?thesis
    unfolding node_sized_def node_ok_lists [OF assms, symmetric] by auto
qed

lemma chunks_concat: "0 < n \<Longrightarrow> \<forall>x \<in> set xss. length x = n \<Longrightarrow> chunks n (concat xss) = xss"
  by (induction xss) (simp_all add: chunks.simps)

lemma chunks_step: "0 < n \<Longrightarrow> n \<le> length xs \<Longrightarrow> chunks n xs = take n xs # chunks n (drop n xs)"
  by (subst chunks.simps) simp

lemma concat_chunks:
  "length xs = k * n \<Longrightarrow> 0 < n \<Longrightarrow> concat (chunks n xs) = xs \<and> list_all (\<lambda>x. length x = n) (chunks n xs)"
proof (induction k arbitrary: xs)
  case 0
  then show ?case by (simp add: chunks.simps)
next
  case (Suc k)
  have long: "n \<le> length xs" "length (drop n xs) = k * n"
    using Suc.prems by simp_all
  then show ?case
    using Suc.IH [OF long(2) Suc.prems(2)] chunks_step [OF Suc.prems(2) long(1)] by simp
qed

lemma drop_take_middle:
  "length xs = n \<Longrightarrow> drop n (take (n + length ys) (xs @ ys @ zs)) = ys"
  "length xs = n \<Longrightarrow> drop (n + length ys) (xs @ ys @ zs) = zs"
  by simp_all

lemma drop_take_drop: "m \<le> e \<Longrightarrow> drop m (take e xs) @ drop e xs = drop m xs"
  by (metis append_take_drop_id drop_drop drop_take le_add_diff_inverse2)

lemma take4: "4 \<le> length ys \<Longrightarrow> take 4 ys = [ys ! 0, ys ! 1, ys ! 2, ys ! 3]"
  by (auto simp: numeral_eq_Suc Suc_le_length_iff)

lemma if_Inr_iff: "(if A then Inl e else if B then Inl e else X) = Inr y \<longleftrightarrow> \<not> A \<and> \<not> B \<and> X = Inr y"
  by simp

lemma to_be_16: "\<exists>a b. to_be (w :: u16) = [a, b]"
proof -
  have "length (to_be w) = Suc (Suc 0)"
    by simp
  then show ?thesis
    unfolding length_Suc_conv by auto
qed

lemma node_decode_at:
  assumes "bs \<noteq> []" "k = div_ceil2 (unat (hd bs))" "sm = from_be [bs ! (1 + k), bs ! (1 + k + 1)]"
    "tm = from_be [bs ! (1 + k + 2), bs ! (1 + k + 3)]" "e = 1 + k + 4 + count_ones sm * 32"
  shows "node_decode N bs =
    (if length bs < 1 + k + 4 then Inl (InvalidNode ''invalid encoded length'')
     else if length bs \<noteq> e + count_ones (sm AND NOT tm) * N
     then Inl (InvalidNode ''invalid encoded length'')
     else node_new N (drop 1 (take (1 + k) bs)) (hd bs) sm tm
       (chunks 32 (drop (1 + k + 4) (take e bs))) (chunks N (drop e bs)))"
  using assms(1) unfolding assms(2-5) node_decode_def Let_def
  by (cases bs) (simp_all only: list.case list.sel)

lemma node_decode_encode:
  assumes "node_ok N node" "node_sized N node" "0 < N"
  shows "node_decode N (node_encode node) = Inr node"
proof -
  let ?pre = "node_prefix node" and ?sm = "state_mask node" and ?tm = "tree_mask node"
  have len: "length ?pre = div_ceil2 (unat (node_prefix_len node))"
      "length (child_hashes node) = count_ones ?sm"
      "length (leaf_paths node) = count_ones (?sm AND NOT ?tm)"
    using assms(1) by (simp_all add: node_ok_iff)
  obtain a b where ab: "to_be ?sm = [a, b]"
    using to_be_16 by blast
  obtain c d where cd: "to_be ?tm = [c, d]"
    using to_be_16 by blast
  have masks: "from_be [a, b] = ?sm" "from_be [c, d] = ?tm"
    using from_be_to_be [of ?sm] from_be_to_be [of ?tm] ab cd by simp_all
  have sizes: "length (concat (child_hashes node)) = count_ones ?sm * 32"
      "length (concat (leaf_paths node)) = count_ones (?sm AND NOT ?tm) * N"
    using assms(2) len unfolding node_sized_def
    by (simp_all add: length_concat sum_list_triv cong: map_cong)
  have enc: "node_encode node = node_prefix_len node # ?pre @ [a, b, c, d] @
      concat (child_hashes node) @ concat (leaf_paths node)"
    by (simp add: node_encode_def hash_payload_def ab cd)
  define k where "k = div_ceil2 (unat (node_prefix_len node))"
  define bs where "bs = node_encode node"
  define e where "e = 1 + k + 4 + count_ones ?sm * 32"
  let ?xs = "node_prefix_len node # ?pre @ [a, b, c, d]"
  have xs: "length ?xs = 1 + k + 4" and bs: "bs = ?xs @ concat (child_hashes node) @ concat (leaf_paths node)"
    by (simp_all add: len(1) k_def bs_def enc)
  have parts: "drop (1 + k + 4) (take e bs) = concat (child_hashes node)" "drop e bs = concat (leaf_paths node)"
      "length bs = e + count_ones (?sm AND NOT ?tm) * N"
    unfolding bs e_def length_append xs sizes(2)
    by (unfold sizes(1) [symmetric]) (rule drop_take_middle [OF xs], rule drop_take_middle [OF xs], simp)
  have pos: "drop 1 (take (1 + k) bs) = ?pre" "[bs ! (1 + k), bs ! (1 + k + 1)] = [a, b]"
      "[bs ! (1 + k + 2), bs ! (1 + k + 3)] = [c, d]"
    using len(1) unfolding k_def [symmetric] by (simp_all add: bs_def enc nth_append)
  have head: "bs \<noteq> []" "k = div_ceil2 (unat (hd bs))"
    by (simp_all add: bs k_def)
  have "\<not> length bs < 1 + k + 4"
    using parts(3) by (simp add: e_def)
  then have "node_decode N bs = node_new N ?pre (hd bs) ?sm ?tm
      (chunks 32 (concat (child_hashes node))) (chunks N (concat (leaf_paths node)))"
    using node_decode_at [OF head, of ?sm ?tm e N] parts unfolding pos masks
    by (simp only: e_def if_False not_True_eq_False refl)
  moreover have "hd bs = node_prefix_len node"
    by (simp add: bs)
  ultimately have "node_decode N bs = node_new N ?pre (node_prefix_len node) ?sm ?tm
      (chunks 32 (concat (child_hashes node))) (chunks N (concat (leaf_paths node)))"
    by simp
  then show ?thesis
    using assms chunks_concat [of 32 "child_hashes node"] chunks_concat [of N "leaf_paths node"]
    by (simp add: node_ok_def node_sized_def bs_def)
qed

lemma node_encode_decode:
  assumes "node_decode N bs = Inr node" "0 < N"
  shows "node_ok N node \<and> node_sized N node \<and> node_encode node = bs"
proof -
  obtain plen rest where bs: "bs = plen # rest"
    using assms(1) by (cases bs) (auto simp: node_decode_def)
  define k where "k = div_ceil2 (unat plen)"
  obtain sm tm :: u16 where masks: "sm = from_be [bs ! (1 + k), bs ! (1 + k + 1)]"
      "tm = from_be [bs ! (1 + k + 2), bs ! (1 + k + 3)]"
    by blast
  define e where "e = 1 + k + 4 + count_ones sm * 32"
  have long: "1 + k + 4 \<le> length bs"
    and len: "length bs = e + count_ones (sm AND NOT tm) * N"
    and new: "node_new N (drop 1 (take (1 + k) bs)) plen sm tm
      (chunks 32 (drop (1 + k + 4) (take e bs))) (chunks N (drop e bs)) = Inr node"
  proof -
    have "bs \<noteq> []" "k = div_ceil2 (unat (hd bs))"
      by (simp_all add: bs k_def)
    note dec = node_decode_at [OF this masks e_def, of N]
    note parts = trans [OF dec [symmetric] assms(1), unfolded if_Inr_iff not_less not_not]
    show "1 + k + 4 \<le> length bs" "length bs = e + count_ones (sm AND NOT tm) * N"
      by (rule parts [THEN conjunct1], rule parts [THEN conjunct2, THEN conjunct1])
    show "node_new N (drop 1 (take (1 + k) bs)) plen sm tm
        (chunks 32 (drop (1 + k + 4) (take e bs))) (chunks N (drop e bs)) = Inr node"
      using parts [THEN conjunct2, THEN conjunct2] by (simp only: bs list.sel)
  qed
  let ?hs = "drop (1 + k + 4) (take e bs)" and ?ps = "drop e bs"
  have hs: "concat (chunks 32 ?hs) = ?hs \<and> (\<forall>x \<in> set (chunks 32 ?hs). length x = 32)"
  proof -
    have "length ?hs = count_ones sm * 32"
      using len by (simp add: e_def)
    from concat_chunks [OF this zero_less_numeral] show ?thesis
      unfolding list_all_iff .
  qed
  have ps: "concat (chunks N ?ps) = ?ps \<and> (\<forall>x \<in> set (chunks N ?ps). length x = N)"
  proof -
    have "length ?ps = count_ones (sm AND NOT tm) * N"
      using len by simp
    from concat_chunks [OF this assms(2)] show ?thesis
      unfolding list_all_iff .
  qed
  have node: "node = \<lparr>node_prefix = drop 1 (take (1 + k) bs), node_prefix_len = plen, state_mask = sm,
      tree_mask = tm, child_hashes = chunks 32 ?hs, leaf_paths = chunks N ?ps\<rparr>"
    using new by (auto simp: node_new_def split: if_splits)
  have masks': "to_be sm = [bs ! (1 + k), bs ! (1 + k + 1)]" "to_be tm = [bs ! (1 + k + 2), bs ! (1 + k + 3)]"
    unfolding masks by (simp_all add: to_be_from_be)
  have fields: "node_prefix_len node = plen" "node_prefix node = take k rest" "state_mask node = sm"
      "tree_mask node = tm" "concat (child_hashes node) = ?hs" "concat (leaf_paths node) = ?ps"
    using hs [THEN conjunct1] ps [THEN conjunct1] unfolding node branch_node.simps
    by (simp_all only: bs) simp_all
  have "node_encode node = (plen # take k rest) @ [bs ! (1 + k), bs ! (1 + k + 1), bs ! (1 + k + 2), bs ! (1 + k + 3)] @ ?hs @ ?ps"
    unfolding node_encode_def hash_payload_def fields masks' by (simp only: append.simps append_assoc)
  also have "[bs ! (1 + k), bs ! (1 + k + 1), bs ! (1 + k + 2), bs ! (1 + k + 3)] = take 4 (drop (1 + k) bs)"
    using take4 [of "drop (1 + k) bs"] long by (simp add: add.assoc)
  also have "plen # take k rest = take (1 + k) bs"
    by (simp add: bs)
  also have "take (1 + k) bs @ take 4 (drop (1 + k) bs) @ ?hs @ ?ps = bs"
  proof -
    have "?hs @ ?ps = drop (1 + k + 4) bs"
      by (rule drop_take_drop) (simp add: e_def)
    then show ?thesis
      using append_take_drop_id [of 4 "drop (1 + k) bs"] append_take_drop_id [of "1 + k" bs]
      by (simp only: drop_drop add.commute)
  qed
  finally show ?thesis
    using node_new_ok [OF new] hs [THEN conjunct2] ps [THEN conjunct2]
    unfolding node_sized_def node branch_node.simps by blast
qed

lemma node_decode_iff:
  "0 < N \<Longrightarrow> node_decode N bs = Inr node \<longleftrightarrow> node_ok N node \<and> node_sized N node \<and> bs = node_encode node"
  using node_encode_decode node_decode_encode by blast

text \<open>C27. The stored form of a branch node is strict and canonical: decoding accepts exactly
  the encodings of valid nodes (masks, counts and padding right, hashes of 32 and paths of
  \<open>N\<close> bytes) and returns the node that was encoded.\<close>

theorem branch_node_codec:
  assumes "0 < N"
  shows "node_decode N bs = Inr node \<longleftrightarrow> node_ok N node \<and> node_sized N node \<and> bs = node_encode node"
  by (rule node_decode_iff [OF assms])

text \<open>A two-leaf branch for 1-byte paths.\<close>

definition demo_node :: branch_node where
  "demo_node = \<lparr>node_prefix = [], node_prefix_len = 0, state_mask = 3, tree_mask = 0,
    child_hashes = [replicate 32 1, replicate 32 2], leaf_paths = [[0x05], [0x15]]\<rparr>"

lemma demo_node_ok: "node_ok 1 demo_node" "node_sized 1 demo_node"
proof -
  have "[0..<16] = [0, 1, 2, 3, 4, 5, 6, 7, 8, 9, 10, 11, 12, 13, 14, 15 :: nat]"
    by (simp add: upt_rec)
  moreover have "bit (3 :: u16) n \<longleftrightarrow> n = 0 \<or> n = 1" for n
    by (cases n; cases "n - 1") (auto simp: bit_0 bit_Suc)
  ultimately have "count_ones 3 = 2"
    by (simp add: count_ones_def)
  then show "node_ok 1 demo_node"
    by (simp add: node_ok_iff demo_node_def div_ceil2_def)
qed (simp add: node_sized_def demo_node_def)

theorem branch_node_codec_witness:
  "node_decode 1 (node_encode demo_node) = Inr demo_node"
  using branch_node_codec [of 1 "node_encode demo_node" demo_node] demo_node_ok by simp

section \<open>Routing\<close>

text \<open>What \<open>validate_at\<close> checks, on the children array of a node whose route and prefix are
  \<open>route\<close>: leaves lie on their route, and a branch never sits past the last nibble.\<close>

definition children_at :: "nat \<Rightarrow> nibbles \<Rightarrow> root_ref list \<Rightarrow> bool" where
  "children_at N route cs \<longleftrightarrow> length route < 2 * N \<and>
    (\<forall>s < 16. case cs ! s of
       RootEmpty \<Rightarrow> True
     | RootLeaf l \<Rightarrow> prefix (route @ [s]) (path_nibbles (leaf_path l))
     | RootBranch h \<Rightarrow> length route + 1 < 2 * N)"

lemma children_at_iff: "children_at N route cs \<longleftrightarrow> length route < 2 * N \<and>
    (length route + 1 = 2 * N \<longrightarrow> (\<forall>s < 16. \<not> is_branch_ref (cs ! s))) \<and>
    \<not> (\<exists>s < 16. \<exists>l. cs ! s = RootLeaf l \<and> \<not> prefix (route @ [s]) (path_nibbles (leaf_path l)))"
proof -
  have "(case c of RootEmpty \<Rightarrow> True | RootLeaf l \<Rightarrow> P l | RootBranch h \<Rightarrow> Q) \<longleftrightarrow>
      (is_branch_ref c \<longrightarrow> Q) \<and> (\<forall>l. c = RootLeaf l \<longrightarrow> P l)" for c P Q
    by (cases c) simp_all
  then show ?thesis
    unfolding children_at_def by (simp only:) (metis Suc_eq_plus1 Suc_lessI less_irrefl)
qed

lemma prefix_nibbles:
  assumes "length route < length p * 2"
  shows "prefix (route @ [s]) (path_nibbles p) \<longleftrightarrow>
    (\<forall>i < length route. nibble p i = route ! i) \<and> nibble p (length route) = s"
proof -
  have "prefix (route @ [s]) (path_nibbles p) \<longleftrightarrow> take (length route + 1) (path_nibbles p) = route @ [s]"
    using append_eq_conv_conj [of "route @ [s]" _ "path_nibbles p"] by (auto simp: prefix_def) metis
  also have "\<dots> \<longleftrightarrow> (\<forall>i < length route + 1. nibble p i = (route @ [s]) ! i)"
    using assms by (auto simp: list_eq_iff_nth_eq path_nibbles_nth)
  also have "\<dots> \<longleftrightarrow> (\<forall>i < length route. nibble p i = route ! i) \<and> nibble p (length route) = s"
    by (auto simp: nth_append less_Suc_eq)
  finally show ?thesis .
qed

lemma node_child_nth:
  "s < 16 \<Longrightarrow> node_child node s = (if node_children node ! s = RootEmpty then None else Some (node_children node ! s))"
  by (simp add: node_children_nth node_child_eq)

lemma tree_mask_zero:
  assumes "node_ok N node"
  shows "tree_mask node = 0 \<longleftrightarrow> (\<forall>s < 16. \<not> is_branch_ref (node_children node ! s))"
proof -
  have "tree_mask node = 0 \<longleftrightarrow> (\<forall>s < 16. \<not> bit (tree_mask node) s)"
    by (auto simp: bit_eq_iff dest: bit_imp_le_length)
  also have "\<dots> \<longleftrightarrow> (\<forall>s < 16. \<not> is_branch_ref (node_children node ! s))"
    using child_slot(2) tree_in_state [OF assms] by blast
  finally show ?thesis .
qed

lemma validate_at_iff:
  assumes "node_ok N node" "node_sized N node"
  shows "validate_at N node route = Inr u \<longleftrightarrow>
    children_at N (route @ unpack_prefix node) (node_children node)"
proof -
  let ?r = "route @ unpack_prefix node" and ?cs = "node_children node"
  have leaf: "(list_ex (\<lambda>(i, n). nibble (leaf_path l) i \<noteq> n) (enumerate 0 ?r) \<or>
      nibble (leaf_path l) (length ?r) \<noteq> s) \<longleftrightarrow> \<not> prefix (?r @ [s]) (path_nibbles (leaf_path l))"
    if "length ?r < 2 * N" "length (leaf_path l) = N" for l s
  proof -
    have "list_ex (\<lambda>(i, n). nibble (leaf_path l) i \<noteq> n) (enumerate 0 ?r) \<longleftrightarrow>
        (\<exists>i < length ?r. nibble (leaf_path l) i \<noteq> ?r ! i)"
      unfolding list_ex_iff Bex_def by (auto simp: in_set_enumerate_eq)
    then show ?thesis
      using prefix_nibbles [of ?r "leaf_path l" s] that by (auto simp: mult.commute)
  qed
  have sized: "length (leaf_path l) = N" if "s < 16" "?cs ! s = RootLeaf l" for s l
    using assms node_sized_children [OF assms(1)] that nth_mem [of s ?cs] by (force simp: ref_sized_def)
  have "list_ex (\<lambda>slot. case node_child node slot of
           Some (RootLeaf l) \<Rightarrow>
             list_ex (\<lambda>(i, n). nibble (leaf_path l) i \<noteq> n) (enumerate 0 ?r) \<or>
             nibble (leaf_path l) (length ?r) \<noteq> slot
         | _ \<Rightarrow> False) [0..<16] \<longleftrightarrow>
      (\<exists>s < 16. \<exists>l. ?cs ! s = RootLeaf l \<and> \<not> prefix (?r @ [s]) (path_nibbles (leaf_path l)))"
    if "length ?r < 2 * N"
  proof -
    have "(case node_child node s of
           Some (RootLeaf l) \<Rightarrow>
             list_ex (\<lambda>(i, n). nibble (leaf_path l) i \<noteq> n) (enumerate 0 ?r) \<or>
             nibble (leaf_path l) (length ?r) \<noteq> s
         | _ \<Rightarrow> False) \<longleftrightarrow> (\<exists>l. ?cs ! s = RootLeaf l \<and> \<not> prefix (?r @ [s]) (path_nibbles (leaf_path l)))"
      if "s < 16" for s
      using leaf [OF \<open>length ?r < 2 * N\<close> sized, OF that]
      by (cases "?cs ! s") (simp_all only: node_child_nth [OF that] root_ref.distinct if_False if_True
          option.case root_ref.case root_ref.inject simp_thms HOL.ex_simps)
    moreover have "list_ex P [0..<16] \<longleftrightarrow> (\<exists>s < 16. P s)" for P :: "nat \<Rightarrow> bool"
      by (auto simp: list_ex_iff)
    ultimately show ?thesis
      by (simp only: cong: conj_cong)
  qed
  then have routes: "length ?r < 2 * N \<Longrightarrow> list_ex (\<lambda>slot. case node_child node slot of
           Some (RootLeaf l) \<Rightarrow>
             list_ex (\<lambda>(i, n). nibble (leaf_path l) i \<noteq> n) (enumerate 0 ?r) \<or>
             nibble (leaf_path l) (length ?r) \<noteq> slot
         | _ \<Rightarrow> False) [0..<16] \<longleftrightarrow>
      (\<exists>s < 16. \<exists>l. ?cs ! s = RootLeaf l \<and> \<not> prefix (?r @ [s]) (path_nibbles (leaf_path l)))" .
  show ?thesis
  proof (cases "length ?r < 2 * N")
    case True
    then show ?thesis
      unfolding validate_at_def Let_def children_at_iff routes [OF True] tree_mask_zero [OF assms(1)]
        not_less [symmetric] mult.commute [of N 2]
      by (simp only: simp_thms split: if_splits) auto
  next
    case False
    then show ?thesis
      by (simp add: validate_at_def Let_def children_at_def)
  qed
qed

end
