(* ===== verification/Merkle_Trie.thy ===== *)
theory Merkle_Trie
  imports Merkle_Node_Laws
begin

text \<open>
  \<^verbatim>\<open>crates/merkle/src/trie.rs\<close>: the branch-only compressed hexary trie over the caller's
  storage transaction. A function that writes takes the transaction and returns it with
  its result. Every recursion is on a route that grows and stays below the path depth, so
  the functions are total: a loaded node has been checked by \<open>validate_at\<close>, and the slice
  accesses that Rust bounds-checks are explicit where a recursion depends on them
  (\<open>MerklePanic\<close>).
\<close>

record trie =
  tr_table :: table
  tr_domain :: byte
  tr_hasher :: "bytes \<Rightarrow> hash"
  tr_width :: nat

definition root_hash :: "(bytes \<Rightarrow> hash) \<Rightarrow> root_ref \<Rightarrow> hash" where
  "root_hash H root = (case root of RootEmpty \<Rightarrow> hash_parts H [[]] | RootLeaf leaf \<Rightarrow> leaf_hash leaf
     | RootBranch h \<Rightarrow> h)"

section \<open>Reading\<close>

definition trie_load ::
  "('tx, 'cur, 'z) read_ops_scheme \<Rightarrow> trie \<Rightarrow> 'tx \<Rightarrow> hash \<Rightarrow> nibbles \<Rightarrow> merkle_error + branch_node" where
  "trie_load ops tr tx h route =
    attempt (map_err MerkleStorage (tx_get ops tx (tr_table tr) h)) (\<lambda>row.
    attempt (ok_or (MissingBranch h) row) (\<lambda>bs.
    attempt (node_decode (tr_width tr) bs) (\<lambda>node.
    if node_hash (tr_hasher tr) (tr_domain tr) node \<noteq> h then Inl HashMismatch
    else attempt (validate_at (tr_width tr) node route) (\<lambda>_. Inr node))))"

lemma trie_load_depth:
  "trie_load ops tr tx h route = Inr node \<Longrightarrow>
    length route + length (unpack_prefix node) < 2 * tr_width tr"
  by (auto simp: trie_load_def try_simps validate_at_def Let_def split: if_splits)

definition validate_root ::
  "('tx, 'cur, 'z) read_ops_scheme \<Rightarrow> trie \<Rightarrow> 'tx \<Rightarrow> root_ref \<Rightarrow> merkle_error + unit" where
  "validate_root ops tr tx root =
    (case root of RootBranch h \<Rightarrow> attempt (trie_load ops tr tx h []) (\<lambda>_. Inr ()) | _ \<Rightarrow> Inr ())"

definition child_or_empty :: "branch_node \<Rightarrow> nat \<Rightarrow> root_ref" where
  "child_or_empty node slot = (case node_child node slot of Some c \<Rightarrow> c | None \<Rightarrow> RootEmpty)"

text \<open>The loop of \<^verbatim>\<open>get\<close>.\<close>

function trie_get_at ::
  "('tx, 'cur, 'z) read_ops_scheme \<Rightarrow> trie \<Rightarrow> 'tx \<Rightarrow> root_ref \<Rightarrow> bytes \<Rightarrow> nibbles \<Rightarrow>
    merkle_error + leaf_ref option" where
  "trie_get_at ops tr tx RootEmpty path route = Inr None"
| "trie_get_at ops tr tx (RootLeaf leaf) path route =
    Inr (if leaf_path leaf = path then Some leaf else None)"
| "trie_get_at ops tr tx (RootBranch h) path route =
    attempt (trie_load ops tr tx h route) (\<lambda>node.
      let target = path_nibbles path; route' = route @ unpack_prefix node in
      if \<not> prefix route' target then Inr None
      else let slot = target ! length route' in
        trie_get_at ops tr tx (child_or_empty node slot) path (route' @ [slot]))"
  by pat_completeness auto

termination
  by (relation "measure (\<lambda>(ops, tr, tx, root, path, route). 2 * tr_width tr - length route)")
    (auto dest: trie_load_depth)

definition trie_get ::
  "('tx, 'cur, 'z) read_ops_scheme \<Rightarrow> trie \<Rightarrow> 'tx \<Rightarrow> root_ref \<Rightarrow> bytes \<Rightarrow>
    merkle_error + leaf_ref option" where
  "trie_get ops tr tx root path = trie_get_at ops tr tx root path []"

section \<open>Single edits\<close>

definition trie_store ::
  "('tx, 'cur, 'z) write_ops_scheme \<Rightarrow> trie \<Rightarrow> 'tx \<Rightarrow> branch_node \<Rightarrow> nibbles \<Rightarrow>
    merkle_error + (root_ref \<times> 'tx)" where
  "trie_store ops tr tx node route =
    attempt (validate_at (tr_width tr) node route) (\<lambda>_.
      let h = node_hash (tr_hasher tr) (tr_domain tr) node; bs = node_encode node in
      case tx_insert ops tx (tr_table tr) h bs of
        Inr tx' \<Rightarrow> Inr (RootBranch h, tx')
      | Inl AlreadyExists \<Rightarrow>
          attempt (map_err MerkleStorage (tx_get ops tx (tr_table tr) h)) (\<lambda>row.
            if row \<noteq> Some bs then Inl ConflictingBranch else Inr (RootBranch h, tx))
      | Inl e \<Rightarrow> Inl (MerkleStorage e))"

text \<open>\<^verbatim>\<open>BranchNodeCompact::from_children(..)?\<close> and \<^verbatim>\<open>store\<close>, which the callers always combine.\<close>

definition store_children ::
  "('tx, 'cur, 'z) write_ops_scheme \<Rightarrow> trie \<Rightarrow> 'tx \<Rightarrow> nibbles \<Rightarrow> root_ref list \<Rightarrow> nibbles \<Rightarrow>
    merkle_error + (root_ref \<times> 'tx)" where
  "store_children ops tr tx pre children route =
    attempt (from_children (tr_width tr) pre children) (\<lambda>node. trie_store ops tr tx node route)"

text \<open>\<^verbatim>\<open>(from..N * 2).find(|&i| a[i] != b[i]).unwrap()\<close>\<close>

fun first_diff :: "nibbles \<Rightarrow> nibbles \<Rightarrow> nat list \<Rightarrow> merkle_error + nat" where
  "first_diff a b [] = Inl MerklePanic"
| "first_diff a b (i # is) =
    (if i \<ge> length a \<or> i \<ge> length b then Inl MerklePanic
     else if a ! i \<noteq> b ! i then Inr i
     else first_diff a b is)"

definition no_children :: "root_ref list" where
  "no_children = replicate 16 RootEmpty"

definition leaf_or_empty :: "leaf_ref option \<Rightarrow> root_ref" where
  "leaf_or_empty replacement = (case replacement of Some leaf \<Rightarrow> RootLeaf leaf | None \<Rightarrow> RootEmpty)"

definition edit_leaf ::
  "('tx, 'cur, 'z) write_ops_scheme \<Rightarrow> trie \<Rightarrow> 'tx \<Rightarrow> leaf_ref \<Rightarrow> bytes \<Rightarrow> leaf_ref option \<Rightarrow>
    nibbles \<Rightarrow> merkle_error + (root_ref \<times> 'tx)" where
  "edit_leaf ops tr tx old target replacement route =
    (if leaf_path old = target then Inr (leaf_or_empty replacement, tx)
     else case replacement of
       None \<Rightarrow> Inr (RootLeaf old, tx)
     | Some new \<Rightarrow>
         let old_path = path_nibbles (leaf_path old); new_path = path_nibbles target in
         attempt (first_diff old_path new_path [length route..<tr_width tr * 2]) (\<lambda>depth.
           store_children ops tr tx (drop (length route) (take depth new_path))
             (no_children[old_path ! depth := RootLeaf old, new_path ! depth := RootLeaf new]) route))"

definition split_branch ::
  "('tx, 'cur, 'z) write_ops_scheme \<Rightarrow> trie \<Rightarrow> 'tx \<Rightarrow> branch_node \<Rightarrow> nibbles \<Rightarrow> leaf_ref \<Rightarrow> nat \<Rightarrow>
    nibbles \<Rightarrow> merkle_error + (root_ref \<times> 'tx)" where
  "split_branch ops tr tx node pre new shared route =
    attempt (store_children ops tr tx (drop (shared + 1) pre) (node_children node)
        (route @ take (shared + 1) pre)) (\<lambda>(old, tx').
      store_children ops tr tx' (take shared pre)
        (no_children[pre ! shared := old,
           nibble (leaf_path new) (length route + shared) := RootLeaf new]) route)"

definition rebuild_branch ::
  "('tx, 'cur, 'z) write_ops_scheme \<Rightarrow> trie \<Rightarrow> 'tx \<Rightarrow> nibbles \<Rightarrow> root_ref list \<Rightarrow> nibbles \<Rightarrow>
    merkle_error + (root_ref \<times> 'tx)" where
  "rebuild_branch ops tr tx pre children route =
    (case filter (\<lambda>(slot, child). child \<noteq> RootEmpty) (enumerate 0 children) of
       [(slot, only)] \<Rightarrow>
         (case only of
            RootBranch h \<Rightarrow>
              attempt (trie_load ops tr tx h (route @ pre @ [slot])) (\<lambda>child.
                store_children ops tr tx (pre @ [slot] @ unpack_prefix child) (node_children child) route)
          | _ \<Rightarrow> Inr (only, tx))
     | _ \<Rightarrow> store_children ops tr tx pre children route)"

definition shared_prefix :: "nibbles \<Rightarrow> nibbles \<Rightarrow> nat" where
  "shared_prefix a b = length (takeWhile (\<lambda>(x, y). x = y) (zip a b))"

function edit ::
    "('tx, 'cur, 'z) write_ops_scheme \<Rightarrow> trie \<Rightarrow> 'tx \<Rightarrow> root_ref \<Rightarrow> bytes \<Rightarrow> leaf_ref option \<Rightarrow>
      nibbles \<Rightarrow> merkle_error + (root_ref \<times> 'tx)"
  and edit_branch ::
    "('tx, 'cur, 'z) write_ops_scheme \<Rightarrow> trie \<Rightarrow> 'tx \<Rightarrow> hash \<Rightarrow> bytes \<Rightarrow> leaf_ref option \<Rightarrow>
      nibbles \<Rightarrow> merkle_error + (root_ref \<times> 'tx)" where
  "edit ops tr tx RootEmpty target replacement route = Inr (leaf_or_empty replacement, tx)"
| "edit ops tr tx (RootLeaf leaf) target replacement route =
    edit_leaf ops tr tx leaf target replacement route"
| "edit ops tr tx (RootBranch h) target replacement route =
    edit_branch ops tr tx h target replacement route"
| "edit_branch ops tr tx h target replacement route =
    attempt (trie_load ops tr tx h route) (\<lambda>node.
      let pre = unpack_prefix node; target_path = path_nibbles target;
          shared = shared_prefix pre (drop (length route) target_path) in
      if shared \<noteq> length pre then
        (case replacement of
           None \<Rightarrow> Inr (RootBranch h, tx)
         | Some new \<Rightarrow> split_branch ops tr tx node pre new shared route)
      else
        let slot = target_path ! length (route @ pre); children = node_children node in
        attempt (edit ops tr tx (children ! slot) target replacement (route @ pre @ [slot])) (\<lambda>(changed, tx').
          if changed = children ! slot then Inr (RootBranch h, tx')
          else rebuild_branch ops tr tx' pre (children[slot := changed]) route))"
  by pat_completeness auto

termination
  by (relation "measure (\<lambda>x. case x of
      Inl (ops, tr, tx, root, target, replacement, route) \<Rightarrow> 2 * (2 * tr_width tr - length route) + 1
    | Inr (ops, tr, tx, h, target, replacement, route) \<Rightarrow> 2 * (2 * tr_width tr - length route))")
    (auto dest: trie_load_depth)

definition trie_insert ::
  "('tx, 'cur, 'z) write_ops_scheme \<Rightarrow> trie \<Rightarrow> 'tx \<Rightarrow> root_ref \<Rightarrow> leaf_ref \<Rightarrow>
    merkle_error + (root_ref \<times> 'tx)" where
  "trie_insert ops tr tx root leaf = edit ops tr tx root (leaf_path leaf) (Some leaf) []"

definition trie_remove ::
  "('tx, 'cur, 'z) write_ops_scheme \<Rightarrow> trie \<Rightarrow> 'tx \<Rightarrow> root_ref \<Rightarrow> bytes \<Rightarrow>
    merkle_error + (root_ref \<times> 'tx)" where
  "trie_remove ops tr tx root path = edit ops tr tx root path None []"

end
