(* ===== verification/Merkle_Map.thy ===== *)
theory Merkle_Map
  imports Merkle_Trie
begin

text \<open>
  What a trie means: the relation \<open>represents tr T route root m\<close> says that, in the branch
  table \<open>T\<close>, the reference \<open>root\<close> below \<open>route\<close> holds exactly the leaf map \<open>m\<close> from paths to
  leaf hashes. It is a function in both directions: a reference has one map, and a map
  has one reference whatever edits led to it. The trie operations are proved against it
  in the locales of the storage contract.
\<close>

section \<open>The relation\<close>

definition trie_ok :: "trie \<Rightarrow> bool" where
  "trie_ok tr \<longleftrightarrow> table_ok (tr_table tr) \<and> 1 \<le> tr_width tr \<and> tr_width tr \<le> 32 \<and>
    (\<forall>x. length (tr_hasher tr x) = 32)"

definition holds_node :: "trie \<Rightarrow> (bytes \<rightharpoonup> bytes) \<Rightarrow> hash \<Rightarrow> branch_node \<Rightarrow> bool" where
  "holds_node tr T h node \<longleftrightarrow> T h = Some (node_encode node) \<and> node_ok (tr_width tr) node \<and>
    node_sized (tr_width tr) node \<and> node_hash (tr_hasher tr) (tr_domain tr) node = h"

text \<open>The part of a leaf map below a route.\<close>

definition under :: "nibbles \<Rightarrow> (bytes \<rightharpoonup> hash) \<Rightarrow> bytes \<rightharpoonup> hash" where
  "under r m = m |` {p. prefix r (path_nibbles p)}"

definition on_route :: "nat \<Rightarrow> nibbles \<Rightarrow> (bytes \<rightharpoonup> hash) \<Rightarrow> bool" where
  "on_route N r m \<longleftrightarrow> (\<forall>p \<in> dom m. length p = N \<and> prefix r (path_nibbles p))"

inductive represents :: "trie \<Rightarrow> (bytes \<rightharpoonup> bytes) \<Rightarrow> nibbles \<Rightarrow> root_ref \<Rightarrow> (bytes \<rightharpoonup> hash) \<Rightarrow> bool"
  for tr :: trie and T :: "bytes \<rightharpoonup> bytes" where
  rep_empty: "represents tr T route RootEmpty Map.empty"
| rep_leaf: "length (leaf_path l) = tr_width tr \<Longrightarrow> length (leaf_hash l) = 32 \<Longrightarrow>
    prefix route (path_nibbles (leaf_path l)) \<Longrightarrow>
    represents tr T route (RootLeaf l) [leaf_path l \<mapsto> leaf_hash l]"
| rep_branch: "holds_node tr T h node \<Longrightarrow>
    children_at (tr_width tr) (route @ unpack_prefix node) (node_children node) \<Longrightarrow>
    on_route (tr_width tr) (route @ unpack_prefix node) m \<Longrightarrow>
    (\<And>s. s < 16 \<Longrightarrow> represents tr T ((route @ unpack_prefix node) @ [s]) (node_children node ! s)
      (under ((route @ unpack_prefix node) @ [s]) m)) \<Longrightarrow>
    represents tr T route (RootBranch h) m"

inductive_cases represents_EmptyE: "represents tr T route RootEmpty m"
inductive_cases represents_LeafE: "represents tr T route (RootLeaf l) m"
inductive_cases represents_BranchE: "represents tr T route (RootBranch h) m"

lemma represents_branch_iff: "represents tr T route (RootBranch h) m \<longleftrightarrow>
  (\<exists>node. holds_node tr T h node \<and>
    children_at (tr_width tr) (route @ unpack_prefix node) (node_children node) \<and>
    on_route (tr_width tr) (route @ unpack_prefix node) m \<and>
    (\<forall>s < 16. represents tr T ((route @ unpack_prefix node) @ [s]) (node_children node ! s)
      (under ((route @ unpack_prefix node) @ [s]) m)))"
  by (subst represents.simps) simp

lemma under_apply: "under r m p = (if prefix r (path_nibbles p) then m p else None)"
  by (simp add: under_def restrict_map_def)

lemma dom_under: "dom (under r m) = {p \<in> dom m. prefix r (path_nibbles p)}"
  by (auto simp: under_apply split: if_splits)

lemma on_route_prefix: "on_route N r m \<Longrightarrow> prefix q r \<Longrightarrow> on_route N q m"
  by (auto simp: on_route_def intro: prefix_order.trans)

lemma on_route_under: "on_route N r m \<Longrightarrow> on_route N (r @ [s]) (under (r @ [s]) m)"
  by (auto simp: on_route_def dom_under)

lemma represents_on_route: "represents tr T route ref m \<Longrightarrow> on_route (tr_width tr) route m"
proof (induction rule: represents.induct)
  case (rep_branch h node route m)
  then show ?case
    using on_route_prefix [of _ "route @ unpack_prefix node" m route] by simp
qed (auto simp: on_route_def split: if_splits)

lemma represents_mono: "represents tr T route ref m \<Longrightarrow> T \<subseteq>\<^sub>m T' \<Longrightarrow> represents tr T' route ref m"
proof (induction rule: represents.induct)
  case (rep_branch h node route m)
  have "holds_node tr T' h node"
    using rep_branch.hyps(1) rep_branch.prems
    by (auto simp: holds_node_def map_le_def dest: bspec [where x = h])
  then show ?case
    using rep_branch by (intro represents.rep_branch) auto
qed (auto intro: represents.intros)

lemma represents_sized: "represents tr T route ref m \<Longrightarrow> trie_ok tr \<Longrightarrow> ref_sized (tr_width tr) ref"
  by (induction rule: represents.induct)
    (auto simp: ref_sized_def holds_node_def node_hash_def hash_parts_def trie_ok_def)

section \<open>Slots\<close>

lemma occupied_two:
  assumes "i < length cs" "j < length cs" "i \<noteq> j" "cs ! i \<noteq> RootEmpty" "cs ! j \<noteq> RootEmpty"
  shows "2 \<le> occupied cs"
proof -
  have "occupied cs = card {k. k < length cs \<and> cs ! k \<noteq> RootEmpty}"
    unfolding occupied_def by (rule length_filter_conv_card)
  moreover have "card {i, j} \<le> card {k. k < length cs \<and> cs ! k \<noteq> RootEmpty}"
    using assms by (intro card_mono) auto
  ultimately show ?thesis
    using assms(3) by simp
qed

lemma occupied_slots:
  assumes "2 \<le> occupied cs"
  shows "\<exists>i j. i < length cs \<and> j < length cs \<and> i \<noteq> j \<and> cs ! i \<noteq> RootEmpty \<and> cs ! j \<noteq> RootEmpty"
proof -
  let ?S = "{k. k < length cs \<and> cs ! k \<noteq> RootEmpty}"
  have "2 \<le> card ?S"
    using assms unfolding occupied_def length_filter_conv_card .
  then have "\<not> card ?S \<le> Suc 0"
    by simp
  then have "\<not> (\<forall>i \<in> ?S. \<forall>j \<in> ?S. i = j)"
    using card_le_Suc0_iff_eq [of ?S] by simp
  then show ?thesis
    by blast
qed

lemma represents_nonempty: "represents tr T route ref m \<Longrightarrow> ref \<noteq> RootEmpty \<Longrightarrow> m \<noteq> Map.empty"
proof (induction rule: represents.induct)
  case (rep_branch h node route m)
  have "2 \<le> occupied (node_children node)"
    using rep_branch.hyps(1) node_parts by (auto simp: holds_node_def parts_ok_def)
  then obtain i where "i < 16" "node_children node ! i \<noteq> RootEmpty"
    using occupied_slots by force
  then have "under ((route @ unpack_prefix node) @ [i]) m \<noteq> Map.empty"
    using rep_branch.IH by blast
  then show ?case
    by (auto simp: under_def)
qed auto

lemma represents_empty_iff: "represents tr T route ref m \<Longrightarrow> ref = RootEmpty \<longleftrightarrow> m = Map.empty"
  using represents_nonempty represents_EmptyE by metis

text \<open>The two paths below a branch that diverge right after its prefix.\<close>

lemma branch_diverges:
  assumes "holds_node tr T h node"
    "\<And>s. s < 16 \<Longrightarrow> represents tr T (r @ [s]) (node_children node ! s) (under (r @ [s]) m)"
  shows "\<exists>i j p q. i \<noteq> j \<and> p \<in> dom m \<and> q \<in> dom m \<and> prefix (r @ [i]) (path_nibbles p) \<and>
    prefix (r @ [j]) (path_nibbles q)"
proof -
  have "2 \<le> occupied (node_children node)"
    using assms(1) node_parts by (auto simp: holds_node_def parts_ok_def)
  then obtain i j where ij: "i < 16" "j < 16" "i \<noteq> j" "node_children node ! i \<noteq> RootEmpty"
      "node_children node ! j \<noteq> RootEmpty"
    using occupied_slots by force
  then have "under (r @ [i]) m \<noteq> Map.empty" "under (r @ [j]) m \<noteq> Map.empty"
    using represents_nonempty assms(2) by blast+
  then have "dom (under (r @ [i]) m) \<noteq> {}" "dom (under (r @ [j]) m) \<noteq> {}"
    by simp_all
  then show ?thesis
    using ij(3) unfolding dom_under by blast
qed

lemma prefix_next:
  assumes "prefix r xs" "length r < length xs"
  shows "prefix (r @ [xs ! length r]) xs"
proof -
  obtain ys where "xs = r @ ys"
    using assms(1) by (auto simp: prefix_def)
  then show ?thesis
    using assms(2) by (cases ys) (auto simp: nth_append)
qed

lemma next_slot:
  assumes "length p = N" "prefix r (path_nibbles p)" "length r < 2 * N"
  shows "prefix (r @ [nibble p (length r)]) (path_nibbles p)"
  using prefix_next [OF assms(2)] assms(1,3) by (simp add: path_nibbles_nth)

lemma prefix_take: "prefix r xs \<Longrightarrow> r = take (length r) xs"
  by (auto simp: prefix_def)

lemma prefix_snoc_unique: "prefix (r @ [i]) xs \<Longrightarrow> prefix (r @ [j]) xs \<Longrightarrow> i = j"
  by (auto simp: prefix_def)

lemma map_by_slots:
  assumes "on_route N r m" "on_route N r m'" "length r < 2 * N"
    "\<And>s. s < 16 \<Longrightarrow> under (r @ [s]) m = under (r @ [s]) m'"
  shows "m = m'"
proof (rule ext)
  fix p
  show "m p = m' p"
  proof (cases "length p = N \<and> prefix r (path_nibbles p)")
    case True
    then show ?thesis
      using fun_cong [OF assms(4), of "nibble p (length r)" p] next_slot [of p N r] assms(3)
      by (simp add: under_apply)
  next
    case False
    then have "p \<notin> dom m" "p \<notin> dom m'"
      using assms(1,2) by (auto simp: on_route_def)
    then show ?thesis
      by (simp add: domIff)
  qed
qed

lemma holds_node_unique:
  assumes "trie_ok tr" "holds_node tr T h node" "holds_node tr T h node'"
  shows "node = node'"
proof -
  have N: "0 < tr_width tr"
    using assms(1) by (simp add: trie_ok_def)
  have "node_decode (tr_width tr) (node_encode n) = Inr n" if "holds_node tr T h n" for n
    using that N by (simp add: holds_node_def node_decode_encode)
  then show ?thesis
    using assms(2,3) by (metis (no_types) holds_node_def option.inject sum.inject(2))
qed

text \<open>A reference has one leaf map.\<close>

lemma represents_functional:
  "represents tr T route ref m \<Longrightarrow> represents tr T route ref m' \<Longrightarrow> trie_ok tr \<Longrightarrow> m = m'"
proof (induction arbitrary: m' rule: represents.induct)
  case (rep_branch h node route m)
  obtain node' where node': "holds_node tr T h node'"
      "on_route (tr_width tr) (route @ unpack_prefix node') m'"
      "\<And>s. s < 16 \<Longrightarrow> represents tr T ((route @ unpack_prefix node') @ [s]) (node_children node' ! s)
        (under ((route @ unpack_prefix node') @ [s]) m')"
    using rep_branch.prems(1) unfolding represents_branch_iff by auto
  have eq: "node' = node"
    using holds_node_unique [OF rep_branch.prems(2) node'(1) rep_branch.hyps(1)] .
  show ?case
  proof (rule map_by_slots)
    show "length (route @ unpack_prefix node) < 2 * tr_width tr"
      using rep_branch.hyps(2) by (simp add: children_at_def)
    show "under ((route @ unpack_prefix node) @ [s]) m = under ((route @ unpack_prefix node) @ [s]) m'"
      if "s < 16" for s
      using rep_branch.IH [OF that node'(3) [OF that, unfolded eq] rep_branch.prems(2)] .
  qed (use rep_branch.hyps(3) node'(2) eq in auto)
qed (auto elim: represents_EmptyE represents_LeafE)

text \<open>The prefix of a branch is the longest route its leaves share, so two branches of one
  map have the same prefix.\<close>

lemma longest_route:
  assumes "p \<in> dom m" "q \<in> dom m" "i \<noteq> j" "prefix (r @ [i]) (path_nibbles p)"
    "prefix (r @ [j]) (path_nibbles q)" "on_route N r' m"
  shows "length r' \<le> length r"
proof (rule ccontr)
  assume long: "\<not> length r' \<le> length r"
  have "prefix r' (path_nibbles p)" "prefix r' (path_nibbles q)"
    using assms(1,2,6) by (auto simp: on_route_def)
  then have "prefix (r @ [i]) r'" "prefix (r @ [j]) r'"
    using long prefix_length_prefix [OF assms(4)] prefix_length_prefix [OF assms(5)] by simp_all
  from prefix_snoc_unique [OF this] show False
    using assms(3) by simp
qed

lemma same_route:
  assumes "on_route N r m" "on_route N r' m" "p \<in> dom m" "length r = length r'"
  shows "r = r'"
proof -
  have "prefix r (path_nibbles p)" "prefix r' (path_nibbles p)"
    using assms(1-3) by (auto simp: on_route_def)
  then have "r = take (length r) (path_nibbles p)" "r' = take (length r') (path_nibbles p)"
    using prefix_take by blast+
  then show ?thesis
    using assms(4) by metis
qed

lemma singleton_map_eq: "[a \<mapsto> b] = [c \<mapsto> d] \<longleftrightarrow> a = c \<and> b = d"
  by (auto simp: fun_eq_iff split: if_splits)

lemma represents_canonical:
  "represents tr T route ref m \<Longrightarrow> represents tr T' route ref' m \<Longrightarrow> trie_ok tr \<Longrightarrow> ref = ref'"
proof (induction arbitrary: ref' rule: represents.induct)
  case (rep_empty route)
  then show ?case
    using represents_empty_iff by blast
next
  case (rep_leaf l route)
  show ?case
  proof (cases ref')
    case RootEmpty
    then show ?thesis
      using rep_leaf.prems(1) represents_empty_iff by (metis map_upd_nonempty)
  next
    case (RootLeaf l')
    have "[leaf_path l \<mapsto> leaf_hash l] = [leaf_path l' \<mapsto> leaf_hash l']"
      using rep_leaf.prems(1) unfolding RootLeaf by (rule represents_LeafE)
    then show ?thesis
      unfolding singleton_map_eq RootLeaf by (cases l; cases l') simp
  next
    case (RootBranch h)
    obtain node where "holds_node tr T' h node"
        "\<And>s. s < 16 \<Longrightarrow> represents tr T' ((route @ unpack_prefix node) @ [s]) (node_children node ! s)
          (under ((route @ unpack_prefix node) @ [s]) [leaf_path l \<mapsto> leaf_hash l])"
      using rep_leaf.prems(1) unfolding RootBranch represents_branch_iff by auto
    from branch_diverges [OF this] obtain i j where "i \<noteq> j"
        "prefix ((route @ unpack_prefix node) @ [i]) (path_nibbles (leaf_path l))"
        "prefix ((route @ unpack_prefix node) @ [j]) (path_nibbles (leaf_path l))"
      by (auto split: if_splits)
    then show ?thesis
      using prefix_snoc_unique [of "route @ unpack_prefix node" i _ j] by blast
  qed
next
  case (rep_branch h node route m)
  let ?r = "route @ unpack_prefix node"
  have here: "represents tr T route (RootBranch h) m"
    using rep_branch.hyps by (intro represents.rep_branch) auto
  obtain i j p q where div: "i \<noteq> j" "p \<in> dom m" "q \<in> dom m" "prefix (?r @ [i]) (path_nibbles p)"
      "prefix (?r @ [j]) (path_nibbles q)"
    using branch_diverges [OF rep_branch.hyps(1), of ?r m] rep_branch.hyps(4) by blast
  then have "p \<noteq> q"
    using prefix_snoc_unique [of ?r i "path_nibbles p" j] by auto
  show ?case
  proof (cases ref')
    case RootEmpty
    then show ?thesis
      using rep_branch.prems(1) div(2) by (auto elim: represents_EmptyE)
  next
    case (RootLeaf l)
    then show ?thesis
      using rep_branch.prems(1) div(2,3) \<open>p \<noteq> q\<close> by (auto elim!: represents_LeafE split: if_splits)
  next
    case (RootBranch h')
    obtain node' where node': "holds_node tr T' h' node'"
        "on_route (tr_width tr) (route @ unpack_prefix node') m"
        "\<And>s. s < 16 \<Longrightarrow> represents tr T' ((route @ unpack_prefix node') @ [s]) (node_children node' ! s)
          (under ((route @ unpack_prefix node') @ [s]) m)"
      using rep_branch.prems(1) unfolding RootBranch represents_branch_iff by auto
    let ?r' = "route @ unpack_prefix node'"
    obtain i' j' p' q' where div': "i' \<noteq> j'" "p' \<in> dom m" "q' \<in> dom m"
        "prefix (?r' @ [i']) (path_nibbles p')" "prefix (?r' @ [j']) (path_nibbles q')"
      using branch_diverges [OF node'(1,3)] by blast
    have "length ?r' \<le> length ?r" "length ?r \<le> length ?r'"
      using longest_route [OF div(2,3,1,4,5) node'(2)]
        longest_route [OF div'(2,3,1,4,5) rep_branch.hyps(3)] by blast+
    then have r: "?r = ?r'"
      using same_route [OF rep_branch.hyps(3) node'(2) div(2)] by simp
    then have "unpack_prefix node = unpack_prefix node'"
      by simp
    moreover have "node_children node = node_children node'"
    proof (rule nth_equalityI)
      fix s assume "s < length (node_children node)"
      then show "node_children node ! s = node_children node' ! s"
        using rep_branch.IH [of s "node_children node' ! s"] node'(3) [of s] rep_branch.prems(2) r by simp
    qed simp
    ultimately have "node = node'"
      using node_eqI rep_branch.hyps(1) node'(1) by (auto simp: holds_node_def)
    then show ?thesis
      using rep_branch.hyps(1) node'(1) by (simp add: RootBranch holds_node_def)
  qed
qed

end
