(* ===== verification/Merkle_Edit.thy ===== *)
theory Merkle_Edit
  imports Merkle_Map
begin

text \<open>
  Correctness of reading and of single edits, proved in the storage contract: on a
  transaction that does not fail, \<open>trie_get\<close> reads the leaf map of a root, and \<open>edit\<close> returns
  a root of the updated map, keeping every row that was there, unless the table already
  holds different bytes under a new node's hash (\<open>ConflictingBranch\<close>).
\<close>

section \<open>Outcomes of writes\<close>

abbreviation branch_rows :: "('tx \<Rightarrow> table \<Rightarrow> rows) \<Rightarrow> trie \<Rightarrow> 'tx \<Rightarrow> bytes \<rightharpoonup> bytes" where
  "branch_rows view tr tx \<equiv> om_get (view tx (tr_table tr))"

text \<open>\<open>extends\<close>: only rows of the branch table were added.\<close>

definition extends :: "('tx \<Rightarrow> table \<Rightarrow> rows) \<Rightarrow> trie \<Rightarrow> 'tx \<Rightarrow> 'tx \<Rightarrow> bool" where
  "extends view tr tx tx' \<longleftrightarrow> branch_rows view tr tx \<subseteq>\<^sub>m branch_rows view tr tx' \<and>
    (\<forall>t. t \<noteq> tr_table tr \<longrightarrow> view tx' t = view tx t)"

definition write_outcome ::
  "('tx \<Rightarrow> table \<Rightarrow> rows) \<Rightarrow> ('tx \<Rightarrow> bool) \<Rightarrow> trie \<Rightarrow> 'tx \<Rightarrow> ('r \<Rightarrow> (bytes \<rightharpoonup> bytes) \<Rightarrow> bool) \<Rightarrow>
    merkle_error + ('r \<times> 'tx) \<Rightarrow> bool" where
  "write_outcome view ok tr tx P res \<longleftrightarrow> res = Inl ConflictingBranch \<or>
    (\<exists>r tx'. res = Inr (r, tx') \<and> ok tx' \<and> extends view tr tx tx' \<and> P r (branch_rows view tr tx'))"

lemma outcome_cases: "write_outcome view ok tr tx P res \<longleftrightarrow>
  (case res of Inl e \<Rightarrow> e = ConflictingBranch
   | Inr (r, tx') \<Rightarrow> ok tx' \<and> extends view tr tx tx' \<and> P r (branch_rows view tr tx'))"
  by (auto simp: write_outcome_def split: sum.splits)

lemma extends_refl [simp]: "extends view tr tx tx"
  by (simp add: extends_def)

lemma extends_trans: "extends view tr a b \<Longrightarrow> extends view tr b c \<Longrightarrow> extends view tr a c"
  by (auto simp: extends_def intro: map_le_trans)

lemma extends_rows: "extends view tr a b \<Longrightarrow> branch_rows view tr a \<subseteq>\<^sub>m branch_rows view tr b"
  by (simp add: extends_def)

lemma outcome_done: "ok tx \<Longrightarrow> P r (branch_rows view tr tx) \<Longrightarrow> write_outcome view ok tr tx P (Inr (r, tx))"
  by (auto simp: write_outcome_def)

lemma outcome_attempt:
  assumes "write_outcome view ok tr tx P m"
    "\<And>r tx'. ok tx' \<Longrightarrow> extends view tr tx tx' \<Longrightarrow> P r (branch_rows view tr tx') \<Longrightarrow>
      write_outcome view ok tr tx' Q (f (r, tx'))"
  shows "write_outcome view ok tr tx Q (attempt m f)"
  using assms unfolding write_outcome_def by (auto intro: extends_trans simp: try_simps) (metis extends_trans)+

lemma outcome_grow:
  "write_outcome view ok tr tx P res \<Longrightarrow>
    (\<And>r T. branch_rows view tr tx \<subseteq>\<^sub>m T \<Longrightarrow> P r T \<Longrightarrow> Q r T) \<Longrightarrow> write_outcome view ok tr tx Q res"
  by (auto simp: write_outcome_def extends_def)

lemma outcome_mono:
  "write_outcome view ok tr tx P res \<Longrightarrow> (\<And>r T. P r T \<Longrightarrow> Q r T) \<Longrightarrow> write_outcome view ok tr tx Q res"
  by (auto simp: write_outcome_def)

text \<open>What a caller needs to store a branch below \<open>route\<close> for a leaf map.\<close>

definition fits :: "trie \<Rightarrow> (bytes \<rightharpoonup> bytes) \<Rightarrow> nibbles \<Rightarrow> nibbles \<Rightarrow> root_ref list \<Rightarrow> (bytes \<rightharpoonup> hash) \<Rightarrow> bool" where
  "fits tr T route pre cs m \<longleftrightarrow> (\<forall>n \<in> set pre. n < 16) \<and> length cs = 16 \<and>
    on_route (tr_width tr) (route @ pre) m \<and>
    (\<forall>s < 16. represents tr T ((route @ pre) @ [s]) (cs ! s) (under ((route @ pre) @ [s]) m))"

lemma fits_mono: "fits tr T route pre cs m \<Longrightarrow> T \<subseteq>\<^sub>m T' \<Longrightarrow> fits tr T' route pre cs m"
  by (auto simp: fits_def intro: represents_mono)

lemma fits_depth:
  assumes "fits tr T route pre cs m" "s < 16" "cs ! s \<noteq> RootEmpty"
  shows "length (route @ pre) < 2 * tr_width tr"
proof -
  have rep: "represents tr T ((route @ pre) @ [s]) (cs ! s) (under ((route @ pre) @ [s]) m)"
    using assms(1,2) by (simp add: fits_def)
  then obtain p where "p \<in> dom (under ((route @ pre) @ [s]) m)"
    using represents_nonempty [OF rep assms(3)] by auto
  then have "length p = tr_width tr" "prefix ((route @ pre) @ [s]) (path_nibbles p)"
    using represents_on_route [OF rep] by (auto simp: on_route_def)
  then show ?thesis
    using prefix_length_le by fastforce
qed

lemma fits_children_at:
  assumes "fits tr T route pre cs m" "s < 16" "cs ! s \<noteq> RootEmpty"
  shows "children_at (tr_width tr) (route @ pre) cs"
  unfolding children_at_def
proof (intro conjI allI impI)
  show "length (route @ pre) < 2 * tr_width tr"
    by (rule fits_depth [OF assms])
  fix t :: nat assume "t < 16"
  then have rep: "represents tr T ((route @ pre) @ [t]) (cs ! t) (under ((route @ pre) @ [t]) m)"
    using assms(1) by (simp add: fits_def)
  show "case cs ! t of RootEmpty \<Rightarrow> True
      | RootLeaf l \<Rightarrow> prefix ((route @ pre) @ [t]) (path_nibbles (leaf_path l))
      | RootBranch h \<Rightarrow> length (route @ pre) + 1 < 2 * tr_width tr"
  proof (cases "cs ! t")
    case (RootLeaf l)
    then show ?thesis
      using rep by (auto elim: represents_LeafE)
  next
    case (RootBranch h)
    then show ?thesis
      using rep by (auto elim!: represents_BranchE simp: children_at_def)
  qed simp
qed

lemma fits_node:
  assumes "trie_ok tr" "holds_node tr T h node" "children_at (tr_width tr) (route @ unpack_prefix node) (node_children node)"
    "fits tr T route (unpack_prefix node) (node_children node) m"
  shows "represents tr T route (RootBranch h) m"
  using assms unfolding represents_branch_iff fits_def by blast

section \<open>Reading\<close>

context read_tx
begin

lemma load_iff:
  assumes "trie_ok tr" "tx_ok tx"
  shows "trie_load ops tr tx h route = Inr node \<longleftrightarrow> holds_node tr (branch_rows view tr tx) h node \<and>
    children_at (tr_width tr) (route @ unpack_prefix node) (node_children node)"
proof -
  have N: "0 < tr_width tr" and t: "table_ok (tr_table tr)"
    using assms(1) by (simp_all add: trie_ok_def)
  have "trie_load ops tr tx h route = Inr node \<longleftrightarrow>
      (\<exists>bs. branch_rows view tr tx h = Some bs \<and> node_decode (tr_width tr) bs = Inr node) \<and>
      node_hash (tr_hasher tr) (tr_domain tr) node = h \<and> validate_at (tr_width tr) node route = Inr ()"
    by (auto simp: trie_load_def get_law [OF assms(2) t] try_simps split: if_splits)
  then show ?thesis
    using validate_at_iff [of "tr_width tr" node route "()"]
    by (auto simp: node_decode_iff [OF N] holds_node_def)
qed

lemma load_represented:
  assumes "trie_ok tr" "tx_ok tx" "represents tr (branch_rows view tr tx) route (RootBranch h) m"
  shows "\<exists>node. trie_load ops tr tx h route = Inr node \<and>
    children_at (tr_width tr) (route @ unpack_prefix node) (node_children node) \<and>
    fits tr (branch_rows view tr tx) route (unpack_prefix node) (node_children node) m"
  using assms(3) load_iff [OF assms(1,2)] unpack_prefix_less
  unfolding represents_branch_iff fits_def by auto

lemma get_at:
  assumes "trie_ok tr" "tx_ok tx"
  shows "represents tr (branch_rows view tr tx) route root m \<Longrightarrow> length path = tr_width tr \<Longrightarrow>
    prefix route (path_nibbles path) \<Longrightarrow>
    trie_get_at ops tr tx root path route =
      Inr (map_option (\<lambda>h. \<lparr>leaf_path = path, leaf_hash = h\<rparr>) (m path))"
proof (induction rule: represents.induct)
  case (rep_branch h node route m)
  let ?r = "route @ unpack_prefix node" and ?t = "path_nibbles path"
  have load: "trie_load ops tr tx h route = Inr node"
    using load_iff [OF assms] rep_branch.hyps(1,2) by blast
  show ?case
  proof (cases "prefix ?r ?t")
    case False
    then have "m path = None"
      using rep_branch.hyps(3) by (auto simp: on_route_def domIff)
    then show ?thesis
      using False load by (simp add: Let_def)
  next
    case True
    let ?s = "?t ! length ?r"
    have depth: "length ?r < 2 * tr_width tr"
      using rep_branch.hyps(2) by (simp add: children_at_def)
    then have s: "?s < 16" "prefix (?r @ [?s]) ?t"
      using prefix_next [OF True] rep_branch.prems(1) by (simp_all add: path_nibbles_nth)
    have "child_or_empty node ?s = node_children node ! ?s"
      using s(1) by (simp add: child_or_empty_def node_children_nth)
    then have "trie_get_at ops tr tx (RootBranch h) path route =
        trie_get_at ops tr tx (node_children node ! ?s) path (?r @ [?s])"
      using load True by (simp add: Let_def)
    also have "\<dots> = Inr (map_option (\<lambda>h. \<lparr>leaf_path = path, leaf_hash = h\<rparr>) (under (?r @ [?s]) m path))"
      using rep_branch.IH [OF s(1) rep_branch.prems(1) s(2)] .
    finally show ?thesis
      using s(2) by (simp add: under_apply)
  qed
qed auto

lemma get_represented:
  assumes "trie_ok tr" "tx_ok tx" "represents tr (branch_rows view tr tx) [] root m"
    "length path = tr_width tr"
  shows "trie_get ops tr tx root path =
    Inr (map_option (\<lambda>h. \<lparr>leaf_path = path, leaf_hash = h\<rparr>) (m path))"
  unfolding trie_get_def by (rule get_at [OF assms]) simp

end

section \<open>Writing\<close>

context write_tx
begin

lemma store_outcome:
  assumes "trie_ok tr" "tx_ok tx" "node_ok (tr_width tr) node" "node_sized (tr_width tr) node"
    "children_at (tr_width tr) (route @ unpack_prefix node) (node_children node)"
  shows "write_outcome view tx_ok tr tx (\<lambda>r T. \<exists>h. r = RootBranch h \<and> holds_node tr T h node)
    (trie_store ops tr tx node route)"
proof -
  let ?h = "node_hash (tr_hasher tr) (tr_domain tr) node" and ?bs = "node_encode node"
  have t: "table_ok (tr_table tr)"
    using assms(1) by (simp add: trie_ok_def)
  have valid: "validate_at (tr_width tr) node route = Inr ()"
    using validate_at_iff [OF assms(3,4)] assms(5) by blast
  show ?thesis
  proof (cases "branch_rows view tr tx ?h")
    case None
    then obtain tx' where "tx_insert ops tx (tr_table tr) ?h ?bs = Inr tx'" "tx_ok tx'"
        "view tx' = (view tx)(tr_table tr := om_put ?h ?bs (view tx (tr_table tr)))"
      using insert_law [OF assms(2) t] by blast
    then show ?thesis
      using None valid assms(3,4)
      by (auto simp: trie_store_def write_outcome_def extends_def holds_node_def map_le_def)
  next
    case (Some bs)
    then have "tx_insert ops tx (tr_table tr) ?h ?bs = Inl AlreadyExists"
      using insert_exists_law [OF assms(2) t] by simp
    then show ?thesis
      using Some valid assms(2-4) get_law [OF assms(2) t]
      by (auto simp: trie_store_def write_outcome_def holds_node_def)
  qed
qed

lemma store_children_outcome:
  assumes "trie_ok tr" "tx_ok tx" "fits tr (branch_rows view tr tx) route pre cs m" "2 \<le> occupied cs"
  shows "write_outcome view tx_ok tr tx (\<lambda>r T. represents tr T route r m)
    (store_children ops tr tx pre cs route)"
proof -
  have N: "tr_width tr \<le> 32"
    using assms(1) by (simp add: trie_ok_def)
  obtain s where s: "s < 16" "cs ! s \<noteq> RootEmpty"
    using occupied_slots [OF assms(4)] assms(3) by (auto simp: fits_def)
  have at: "children_at (tr_width tr) (route @ pre) cs"
    by (rule fits_children_at [OF assms(3) s])
  have "parts_ok (tr_width tr) pre cs"
    using fits_depth [OF assms(3) s] assms(3,4) by (simp add: parts_ok_def fits_def)
  then obtain node where node: "from_children (tr_width tr) pre cs = Inr node" "node_ok (tr_width tr) node"
      "unpack_prefix node = pre" "node_children node = cs"
    using from_children_ok N by blast
  have "\<forall>c \<in> set cs. ref_sized (tr_width tr) c"
    using assms(1,3) represents_sized unfolding fits_def by (metis in_set_conv_nth)
  then have sized: "node_sized (tr_width tr) node"
    using node_sized_children [OF node(2)] node(4) by simp
  have "represents tr T route r m"
    if "\<exists>h. r = RootBranch h \<and> holds_node tr T h node" "branch_rows view tr tx \<subseteq>\<^sub>m T" for r T
    using that fits_node [OF assms(1)] fits_mono [OF assms(3)] node(3,4) at by blast
  then show ?thesis
    using store_outcome [OF assms(1,2) node(2) sized, of route] at node
    by (auto simp: store_children_def write_outcome_def extends_def)
qed

end

section \<open>Building children arrays\<close>

lemma on_route_None: "on_route N r m \<Longrightarrow> \<not> prefix r (path_nibbles p) \<Longrightarrow> m p = None"
  by (cases "m p") (auto simp: on_route_def)

lemma under_self: "on_route N r m \<Longrightarrow> under r m = m"
  by (rule ext) (simp add: under_apply on_route_None)

lemma under_other: "on_route N (r @ [j]) m \<Longrightarrow> i \<noteq> j \<Longrightarrow> under (r @ [i]) m = Map.empty"
  using prefix_snoc_unique [of r i _ j] by (intro ext) (auto simp: under_apply on_route_def domIff)

lemma under_add: "under r (a ++ b) = under r a ++ under r b"
  by (rule ext) (auto simp: under_apply map_add_def split: option.splits)

lemma on_route_add: "on_route N r a \<Longrightarrow> on_route N r b \<Longrightarrow> on_route N r (a ++ b)"
  by (auto simp: on_route_def)

lemma prefix_snoc: "prefix r (r @ [i])"
  by simp

lemma fits_two:
  assumes "\<forall>n \<in> set pre. n < 16" "i < 16" "j < 16" "i \<noteq> j"
    "represents tr T ((route @ pre) @ [i]) a ma" "represents tr T ((route @ pre) @ [j]) b mb"
  shows "fits tr T route pre (no_children[i := a, j := b]) (ma ++ mb)"
proof -
  let ?r = "route @ pre"
  have on: "on_route (tr_width tr) (?r @ [i]) ma" "on_route (tr_width tr) (?r @ [j]) mb"
    using assms(5,6) represents_on_route by blast+
  have "represents tr T (?r @ [s]) (no_children[i := a, j := b] ! s) (under (?r @ [s]) (ma ++ mb))"
    if "s < 16" for s
  proof -
    consider "s = j" | "s = i" "s \<noteq> j" | "s \<noteq> i" "s \<noteq> j"
      by blast
    then show ?thesis
    proof cases
      case 1
      then show ?thesis
        using assms under_self [OF on(2)] under_other [OF on(1), of j]
        by (simp only: under_add) (simp add: no_children_def)
    next
      case 2
      then show ?thesis
        using assms under_self [OF on(1)] under_other [OF on(2), of i]
        by (simp only: under_add) (simp add: no_children_def)
    next
      case 3
      then show ?thesis
        using that under_other [OF on(1), of s] under_other [OF on(2), of s]
        by (simp only: under_add) (simp add: no_children_def rep_empty)
    qed
  qed
  then show ?thesis
    using assms(1) on_route_add [of "tr_width tr" ?r ma mb] on_route_prefix [OF on(1) prefix_snoc]
      on_route_prefix [OF on(2) prefix_snoc]
    by (simp add: fits_def no_children_def)
qed

lemma occupied_pair:
  "i < 16 \<Longrightarrow> j < 16 \<Longrightarrow> i \<noteq> j \<Longrightarrow> a \<noteq> RootEmpty \<Longrightarrow> b \<noteq> RootEmpty \<Longrightarrow>
    2 \<le> occupied (no_children[i := a, j := b])"
  by (rule occupied_two [of i _ j]) (simp_all add: no_children_def)

lemma first_diff_ok:
  assumes "n \<le> length a" "n \<le> length b" "k \<le> i" "i < n" "a ! i \<noteq> b ! i"
  shows "\<exists>d. first_diff a b [k..<n] = Inr d \<and> k \<le> d \<and> d < n \<and> a ! d \<noteq> b ! d \<and> (\<forall>j. k \<le> j \<longrightarrow> j < d \<longrightarrow> a ! j = b ! j)"
  using assms
proof (induction "n - k" arbitrary: k)
  case (Suc x)
  then have up: "[k..<n] = k # [Suc k..<n]"
    by (simp add: upt_conv_Cons)
  show ?case
  proof (cases "a ! k = b ! k")
    case True
    then have "Suc k \<le> i"
      using Suc.prems by (metis le_neq_implies_less Suc_leI)
    moreover have "x = n - Suc k"
      using Suc.hyps(2) by simp
    ultimately obtain d where "first_diff a b [Suc k..<n] = Inr d" "Suc k \<le> d" "d < n" "a ! d \<noteq> b ! d"
        "\<forall>j. Suc k \<le> j \<longrightarrow> j < d \<longrightarrow> a ! j = b ! j"
      using Suc.hyps(1) [of "Suc k"] Suc.prems by auto
    moreover have "first_diff a b [k..<n] = first_diff a b [Suc k..<n]"
      using True Suc.prems up by simp
    moreover have "a ! j = b ! j" if "k \<le> j" "j < d" for j
      using that True calculation(5) by (cases "j = k") auto
    ultimately show ?thesis
      by (intro exI [of _ d]) simp
  next
    case False
    then show ?thesis
      using Suc.prems up by (auto intro!: exI [of _ k])
  qed
qed simp

text \<open>Where two different paths on one route part.\<close>

lemma paths_part:
  assumes "length p = N" "length q = N" "p \<noteq> q" "prefix route (path_nibbles p)" "prefix route (path_nibbles q)"
  defines "a \<equiv> path_nibbles p" and "b \<equiv> path_nibbles q"
  shows "\<exists>d. first_diff a b [length route..<N * 2] = Inr d \<and> length route \<le> d \<and> d < 2 * N \<and> a ! d \<noteq> b ! d \<and>
    take d a = take d b \<and> route @ drop (length route) (take d b) = take d b"
proof -
  have len: "length a = N * 2" "length b = N * 2"
    using assms(1,2) by (simp_all add: a_def b_def)
  have route: "route = take (length route) a" "route = take (length route) b"
    using assms(4,5) prefix_take unfolding a_def b_def by blast+
  have "a \<noteq> b"
    using assms(3) by (simp add: a_def b_def)
  then obtain i where i: "i < N * 2" "a ! i \<noteq> b ! i"
    using len nth_equalityI [of a b] by auto
  have same: "a ! j = b ! j" if "j < length route" for j
    using that route by (metis nth_take)
  then have "length route \<le> i"
    using i(2) by (meson not_le)
  then obtain d where d: "first_diff a b [length route..<N * 2] = Inr d" "length route \<le> d" "d < N * 2"
      "a ! d \<noteq> b ! d" "\<forall>j. length route \<le> j \<longrightarrow> j < d \<longrightarrow> a ! j = b ! j"
    using first_diff_ok [of "N * 2" a b "length route" i] i len by auto
  have "a ! j = b ! j" if "j < d" for j
    using that d(5) same by (cases "j < length route") auto
  then have "take d a = take d b"
    using d(3) len by (intro nth_take_lemma) auto
  moreover have "route @ drop (length route) (take d b) = take d b"
  proof -
    have "take (length route) (take d b) = route"
      using route(2) d(2) by (simp add: min_def)
    then show ?thesis
      using append_take_drop_id [of "length route" "take d b"] by simp
  qed
  ultimately show ?thesis
    using d by (auto simp: mult.commute)
qed

lemma take_snoc_prefix: "d < length xs \<Longrightarrow> prefix (take d xs @ [xs ! d]) xs"
  by (metis take_Suc_conv_app_nth take_is_prefix)

context write_tx
begin

lemma edit_leaf_outcome:
  assumes "trie_ok tr" "tx_ok tx" "represents tr (branch_rows view tr tx) route (RootLeaf old) m"
    "length target = tr_width tr" "prefix route (path_nibbles target)"
    "\<And>l. replacement = Some l \<Longrightarrow> leaf_path l = target \<and> length (leaf_hash l) = 32"
  shows "write_outcome view tx_ok tr tx
    (\<lambda>r T. represents tr T route r (m(target := map_option leaf_hash replacement)))
    (edit_leaf ops tr tx old target replacement route)"
proof -
  have old: "length (leaf_path old) = tr_width tr" "length (leaf_hash old) = 32"
      "prefix route (path_nibbles (leaf_path old))" "m = [leaf_path old \<mapsto> leaf_hash old]"
    using assms(3) by (auto elim: represents_LeafE)
  show ?thesis
  proof (cases replacement)
    case None
    show ?thesis
    proof (cases "leaf_path old = target")
      case True
      then show ?thesis
        using None old(4) assms(2) by (auto simp: edit_leaf_def leaf_or_empty_def intro!: outcome_done rep_empty)
    next
      case False
      then have "m(target := None) = m"
        by (simp add: old(4) fun_upd_idem)
      then show ?thesis
        using None False assms(2,3) by (auto simp: edit_leaf_def intro!: outcome_done)
    qed
  next
    case (Some new)
    then have new: "leaf_path new = target" "length (leaf_hash new) = 32"
      using assms(6) by auto
    have rep: "represents tr T r (RootLeaf new) [target \<mapsto> leaf_hash new]" if "prefix r (path_nibbles target)" for T r
      using rep_leaf [of new tr r T] new assms(4) that by simp
    show ?thesis
    proof (cases "leaf_path old = target")
      case True
      then show ?thesis
        using Some old(4) rep [OF assms(5)] assms(2)
        by (auto simp: edit_leaf_def leaf_or_empty_def intro!: outcome_done)
    next
      case False
      let ?a = "path_nibbles (leaf_path old)" and ?b = "path_nibbles target"
      obtain d where d: "first_diff ?a ?b [length route..<tr_width tr * 2] = Inr d" "d < 2 * tr_width tr"
          "?a ! d \<noteq> ?b ! d" "take d ?a = take d ?b" "route @ drop (length route) (take d ?b) = take d ?b"
        using paths_part [OF old(1) assms(4) False old(3) assms(5)] by blast
      let ?pre = "drop (length route) (take d ?b)"
      have nib: "?a ! d < 16" "?b ! d < 16" "\<forall>n \<in> set ?pre. n < 16"
        using d(2) old(1) assms(4)
        by (auto simp: path_nibbles_nth path_nibbles_def dest!: in_set_dropD in_set_takeD)
      have "prefix (take d ?b @ [?a ! d]) ?a" "prefix (take d ?b @ [?b ! d]) ?b"
        using take_snoc_prefix [of d ?a] take_snoc_prefix [of d ?b] d(2,4) old(1) assms(4) by simp_all
      then have "represents tr (branch_rows view tr tx) ((route @ ?pre) @ [?a ! d]) (RootLeaf old) m"
          "represents tr (branch_rows view tr tx) ((route @ ?pre) @ [?b ! d]) (RootLeaf new) [target \<mapsto> leaf_hash new]"
        using rep rep_leaf [of old tr _ "branch_rows view tr tx"] old unfolding d(5) by auto
      from fits_two [OF nib(3,1,2) d(3) this] occupied_pair [OF nib(1,2) d(3)]
      show ?thesis
        using store_children_outcome [OF assms(1,2)] False Some d(1)
        by (simp add: edit_leaf_def Let_def)
    qed
  qed
qed

end

section \<open>Shared prefixes\<close>

lemma shared_prefix_le: "shared_prefix a b \<le> length a"
  unfolding shared_prefix_def by (metis length_takeWhile_le length_zip min.boundedE)

lemma shared_prefix_full: "shared_prefix a b = length a \<longleftrightarrow> prefix a b"
proof (induction a arbitrary: b)
  case (Cons x a)
  then show ?case by (cases b) (auto simp: shared_prefix_def)
qed (simp add: shared_prefix_def)

lemma shared_prefix_split:
  assumes "length a < length b" "shared_prefix a b < length a"
  defines "k \<equiv> shared_prefix a b"
  shows "take k a = take k b \<and> a ! k \<noteq> b ! k"
  using assms(1,2) unfolding k_def
proof (induction a arbitrary: b)
  case (Cons x a)
  then obtain y b' where b: "b = y # b'"
    by (cases b) auto
  show ?case
  proof (cases "x = y")
    case True
    then have "shared_prefix (x # a) b = Suc (shared_prefix a b')"
      by (simp add: b shared_prefix_def)
    then show ?thesis
      using Cons True b by auto
  next
    case False
    then show ?thesis
      by (simp add: b shared_prefix_def)
  qed
qed (simp add: shared_prefix_def)

text \<open>A subtrie below a longer route is a subtrie with a longer prefix.\<close>

lemma fits_join:
  assumes "fits tr T (route @ p) q cs m" "\<forall>n \<in> set p. n < 16"
  shows "fits tr T route (p @ q) cs m"
  using assms by (auto simp: fits_def)

lemma fits_split:
  assumes "fits tr T route (p @ q) cs m"
  shows "fits tr T (route @ p) q cs m"
  using assms by (auto simp: fits_def)

lemma represents_leaf_shorter:
  "represents tr T (r @ q) (RootLeaf l) m \<Longrightarrow> represents tr T r (RootLeaf l) m"
  by (auto elim!: represents_LeafE intro!: rep_leaf dest: append_prefixD)

lemma active_one:
  assumes "filter (\<lambda>(slot, child). child \<noteq> RootEmpty) (enumerate 0 cs) = [(i, c)]"
  shows "i < length cs \<and> cs ! i = c \<and> c \<noteq> RootEmpty \<and> (\<forall>j < length cs. j \<noteq> i \<longrightarrow> cs ! j = RootEmpty)"
proof -
  have "set (filter (\<lambda>(slot, child). child \<noteq> RootEmpty) (enumerate 0 cs)) = {(i, c)}"
    using assms by simp
  then have "(j, d) \<in> set (enumerate 0 cs) \<and> d \<noteq> RootEmpty \<longleftrightarrow> j = i \<and> d = c" for j d
    by auto
  then show ?thesis
    by (auto simp: in_set_enumerate_eq)
qed

lemma length_active: "length (filter (\<lambda>(slot, child). child \<noteq> RootEmpty) (enumerate k cs)) = occupied cs"
  by (induction cs arbitrary: k) (auto simp: occupied_def)

lemma fits_single:
  assumes "fits tr T route pre cs m" "i < 16" "\<forall>j < 16. j \<noteq> i \<longrightarrow> cs ! j = RootEmpty" "cs ! i \<noteq> RootEmpty"
  shows "represents tr T ((route @ pre) @ [i]) (cs ! i) m"
proof -
  have "under ((route @ pre) @ [i]) m = m"
  proof (rule map_by_slots)
    show "length (route @ pre) < 2 * tr_width tr"
      by (rule fits_depth [OF assms(1,2,4)])
    show on: "on_route (tr_width tr) (route @ pre) m"
      using assms(1) by (simp add: fits_def)
    show "on_route (tr_width tr) (route @ pre) (under ((route @ pre) @ [i]) m)"
      using on_route_prefix [OF on_route_under [OF on, of i], of "route @ pre"] by simp
    fix s :: nat assume s: "s < 16"
    show "under ((route @ pre) @ [s]) (under ((route @ pre) @ [i]) m) = under ((route @ pre) @ [s]) m"
    proof (cases "s = i")
      case True
      then show ?thesis
        by (auto simp: fun_eq_iff under_apply)
    next
      case False
      then have "represents tr T ((route @ pre) @ [s]) RootEmpty (under ((route @ pre) @ [s]) m)"
        using assms(1,3) s by (metis fits_def)
      then have "under ((route @ pre) @ [s]) m = Map.empty"
        by (auto elim: represents_EmptyE)
      then show ?thesis
        using under_other [OF on_route_under [OF on], of s i] False by simp
    qed
  qed
  then show ?thesis
    using assms(1,2) by (auto simp: fits_def)
qed

context write_tx
begin

lemma split_branch_outcome:
  assumes "trie_ok tr" "tx_ok tx" "fits tr (branch_rows view tr tx) route pre (node_children node) m"
    "2 \<le> occupied (node_children node)" "k < length pre"
    "length (leaf_path new) = tr_width tr" "length (leaf_hash new) = 32"
    "prefix (route @ take k pre) (path_nibbles (leaf_path new))"
    "nibble (leaf_path new) (length route + k) \<noteq> pre ! k"
  shows "write_outcome view tx_ok tr tx (\<lambda>r T. represents tr T route r (m(leaf_path new \<mapsto> leaf_hash new)))
    (split_branch ops tr tx node pre new k route)"
  unfolding split_branch_def
proof (rule outcome_attempt)
  have pre: "pre = take (k + 1) pre @ drop (k + 1) pre" "\<forall>n \<in> set pre. n < 16"
    using assms(3) by (simp_all add: fits_def)
  have "fits tr (branch_rows view tr tx) (route @ take (k + 1) pre) (drop (k + 1) pre) (node_children node) m"
    using assms(3) pre(1) fits_split by metis
  then show "write_outcome view tx_ok tr tx (\<lambda>r T. represents tr T (route @ take (k + 1) pre) r m)
      (store_children ops tr tx (drop (k + 1) pre) (node_children node) (route @ take (k + 1) pre))"
    using store_children_outcome assms(1,2,4) by blast
  fix old tx'
  let ?T = "branch_rows view tr tx'" and ?nib = "nibble (leaf_path new) (length route + k)"
  assume tx': "tx_ok tx'" "extends view tr tx tx'" and old: "represents tr ?T (route @ take (k + 1) pre) old m"
  have nib: "pre ! k < 16" "?nib < 16" "pre ! k \<noteq> ?nib" "\<forall>n \<in> set (take k pre). n < 16"
    using pre(2) assms(5,9) by (auto dest: in_set_takeD)
  have old': "represents tr ?T ((route @ take k pre) @ [pre ! k]) old m"
    using old assms(5) by (simp add: take_Suc_conv_app_nth)
  have "length (route @ take k pre) < 2 * tr_width tr"
    using assms(4) fits_depth [OF assms(3)] occupied_slots assms(5) by (fastforce simp: fits_def)
  then have "prefix ((route @ take k pre) @ [?nib]) (path_nibbles (leaf_path new))"
    using next_slot [OF assms(6,8)] assms(5) by simp
  then have new: "represents tr ?T ((route @ take k pre) @ [?nib]) (RootLeaf new) [leaf_path new \<mapsto> leaf_hash new]"
    using rep_leaf assms(6,7) by blast
  have "old \<noteq> RootEmpty"
  proof
    assume "old = RootEmpty"
    then have "m = Map.empty"
      using old by (auto elim: represents_EmptyE)
    moreover obtain s where s: "s < 16" "node_children node ! s \<noteq> RootEmpty"
      using occupied_slots [OF assms(4)] by auto
    ultimately show False
      using represents_nonempty [OF _ s(2)] assms(3) s(1) unfolding fits_def under_def by fastforce
  qed
  then show "write_outcome view tx_ok tr tx' (\<lambda>r T. represents tr T route r (m(leaf_path new \<mapsto> leaf_hash new)))
      (case (old, tx') of (old, tx') \<Rightarrow> store_children ops tr tx' (take k pre)
        (no_children[pre ! k := old, ?nib := RootLeaf new]) route)"
    using store_children_outcome [OF assms(1) tx'(1) fits_two [OF nib(4,1,2,3) old' new]]
      occupied_pair [OF nib(1,2,3), of old "RootLeaf new"]
    by simp
qed

lemma rebuild_branch_outcome:
  assumes "trie_ok tr" "tx_ok tx" "fits tr (branch_rows view tr tx) route pre cs m" "1 \<le> occupied cs"
  shows "write_outcome view tx_ok tr tx (\<lambda>r T. represents tr T route r m)
    (rebuild_branch ops tr tx pre cs route)"
proof -
  let ?active = "filter (\<lambda>(slot, child). child \<noteq> RootEmpty) (enumerate 0 cs)"
  have pre: "\<forall>n \<in> set pre. n < 16" and cs: "length cs = 16"
    using assms(3) by (simp_all add: fits_def)
  show ?thesis
  proof (cases "\<exists>i c. ?active = [(i, c)]")
    case False
    then have "length ?active \<noteq> 1"
      by (auto simp: length_Suc_conv)
    then have two: "2 \<le> occupied cs"
      using assms(4) by (simp add: length_active)
    have "rebuild_branch ops tr tx pre cs route = store_children ops tr tx pre cs route"
      using False unfolding rebuild_branch_def by (auto split: list.splits)
    then show ?thesis
      using store_children_outcome [OF assms(1-3) two] by simp
  next
    case True
    then obtain i c where act: "?active = [(i, c)]"
      by blast
    note i = active_one [OF act]
    have rep: "represents tr (branch_rows view tr tx) ((route @ pre) @ [i]) c m"
      using fits_single [OF assms(3), of i] i cs by auto
    show ?thesis
    proof (cases c)
      case (RootLeaf l)
      then show ?thesis
        using act rep represents_leaf_shorter [of tr _ route "pre @ [i]"] assms(2)
        by (auto simp: rebuild_branch_def intro!: outcome_done)
    next
      case (RootBranch h)
      have "represents tr (branch_rows view tr tx) (route @ pre @ [i]) (RootBranch h) m"
        using rep RootBranch by simp
      then obtain child where child: "trie_load ops tr tx h (route @ pre @ [i]) = Inr child"
          "fits tr (branch_rows view tr tx) (route @ pre @ [i]) (unpack_prefix child) (node_children child) m"
        using load_represented [OF assms(1,2)] by blast
      then have "fits tr (branch_rows view tr tx) route (pre @ [i] @ unpack_prefix child) (node_children child) m"
        using fits_join [of tr _ route "pre @ [i]"] pre i cs by auto
      moreover have "2 \<le> occupied (node_children child)"
        using child(1) load_iff [OF assms(1,2)] node_parts by (auto simp: holds_node_def parts_ok_def)
      ultimately show ?thesis
        using act RootBranch child(1) store_children_outcome [OF assms(1,2)]
        by (simp add: rebuild_branch_def)
    qed (use i in simp)
  qed
qed

lemma fits_update:
  assumes "fits tr T route pre cs m" "T \<subseteq>\<^sub>m T'" "length target = tr_width tr"
    "prefix ((route @ pre) @ [slot]) (path_nibbles target)" "slot < 16"
    "represents tr T' ((route @ pre) @ [slot]) c ((under ((route @ pre) @ [slot]) m)(target := x))"
  shows "fits tr T' route pre (cs[slot := c]) (m(target := x))"
proof -
  have cs: "length cs = 16" and on: "on_route (tr_width tr) (route @ pre) m"
    using assms(1) by (simp_all add: fits_def)
  have "represents tr T' ((route @ pre) @ [s]) (cs[slot := c] ! s) (under ((route @ pre) @ [s]) (m(target := x)))"
    if "s < 16" for s
  proof (cases "s = slot")
    case True
    moreover have "under ((route @ pre) @ [slot]) (m(target := x)) = (under ((route @ pre) @ [slot]) m)(target := x)"
      using assms(4) by (auto simp: fun_eq_iff under_apply)
    ultimately show ?thesis
      using assms(6) cs that by simp
  next
    case False
    then have "\<not> prefix ((route @ pre) @ [s]) (path_nibbles target)"
      using prefix_snoc_unique [OF assms(4), of s] by blast
    then have "under ((route @ pre) @ [s]) (m(target := x)) = under ((route @ pre) @ [s]) m"
      by (auto simp: fun_eq_iff under_apply)
    then show ?thesis
      using False that fits_mono [OF assms(1,2)] by (simp add: fits_def)
  qed
  moreover have "on_route (tr_width tr) (route @ pre) (m(target := x))"
    using on assms(3) append_prefixD [OF assms(4)] by (auto simp: on_route_def split: if_splits)
  ultimately show ?thesis
    using assms(1) by (simp add: fits_def)
qed

lemma edit_outcome:
  assumes "trie_ok tr" "tx_ok tx"
  shows "represents tr (branch_rows view tr tx) route root m \<Longrightarrow> length target = tr_width tr \<Longrightarrow>
    prefix route (path_nibbles target) \<Longrightarrow>
    (\<And>l. replacement = Some l \<Longrightarrow> leaf_path l = target \<and> length (leaf_hash l) = 32) \<Longrightarrow>
    write_outcome view tx_ok tr tx
      (\<lambda>r T. represents tr T route r (m(target := map_option leaf_hash replacement)))
      (edit ops tr tx root target replacement route)"
proof (induction rule: represents.induct)
  case (rep_empty route)
  show ?case
  proof (cases replacement)
    case None
    then show ?thesis
      using assms(2) by (auto simp: leaf_or_empty_def intro!: outcome_done represents.rep_empty)
  next
    case (Some l)
    then have "represents tr (branch_rows view tr tx) route (RootLeaf l) [target \<mapsto> leaf_hash l]"
      using rep_empty represents.rep_leaf [of l tr route] by blast
    then show ?thesis
      unfolding Some edit.simps leaf_or_empty_def option.case option.map
      by (intro outcome_done assms(2))
  qed
next
  case (rep_leaf l route)
  show ?case
    unfolding edit.simps
    by (rule edit_leaf_outcome [OF assms represents.rep_leaf]) (use rep_leaf in blast)+
next
  case (rep_branch h node route m)
  let ?T = "branch_rows view tr tx" and ?pre = "unpack_prefix node" and ?t = "path_nibbles target"
  let ?k = "shared_prefix ?pre (drop (length route) ?t)" and ?new = "m(target := map_option leaf_hash replacement)"
  have load: "trie_load ops tr tx h route = Inr node"
    using load_iff [OF assms] rep_branch.hyps(1,2) by blast
  have here: "represents tr ?T route (RootBranch h) m"
    using rep_branch.hyps unfolding represents_branch_iff by blast
  have fits: "fits tr ?T route ?pre (node_children node) m"
    using rep_branch.hyps unpack_prefix_less by (auto simp: fits_def)
  have two: "2 \<le> occupied (node_children node)"
    using rep_branch.hyps(1) node_parts by (auto simp: holds_node_def parts_ok_def)
  have depth: "length (route @ ?pre) < 2 * tr_width tr"
    using rep_branch.hyps(2) by (simp add: children_at_def)
  have t: "?t = route @ drop (length route) ?t"
    using rep_branch.prems(2) by (auto simp: prefix_def)
  show ?case
  proof (cases "?k = length ?pre")
    case False
    then have k: "?k < length ?pre"
      using shared_prefix_le [of ?pre "drop (length route) ?t"] by simp
    then have off: "\<not> prefix (route @ ?pre) ?t"
      using shared_prefix_full [of ?pre "drop (length route) ?t"] t by (metis False same_prefix_prefix)
    show ?thesis
    proof (cases replacement)
      case None
      have "?new = m"
        using None on_route_None [OF rep_branch.hyps(3) off] by (simp add: fun_upd_idem)
      then show ?thesis
        using load False None here assms(2) by (simp add: Let_def outcome_done)
    next
      case (Some new)
      have len: "length ?pre < length (drop (length route) ?t)"
        using depth rep_branch.prems(1) by simp
      have part: "take ?k ?pre = take ?k (drop (length route) ?t)" "?pre ! ?k \<noteq> drop (length route) ?t ! ?k"
        using shared_prefix_split [OF len k] by blast+
      have "prefix (route @ take ?k ?pre) ?t"
        using t part(1) by (metis same_prefix_prefix take_is_prefix)
      moreover have "drop (length route) ?t ! ?k = nibble target (length route + ?k)"
        using depth k rep_branch.prems(1) by (simp add: path_nibbles_nth)
      ultimately show ?thesis
        using split_branch_outcome [OF assms fits two k, of new] rep_branch.prems(1,3) part(2) load False Some
        by (auto simp: Let_def simp del: fun_upd_apply)
    qed
  next
    case True
    then have on: "prefix (route @ ?pre) ?t"
      using shared_prefix_full [of ?pre "drop (length route) ?t"] t by (metis same_prefix_prefix)
    let ?s = "?t ! length (route @ ?pre)"
    have s: "?s < 16" "prefix ((route @ ?pre) @ [?s]) ?t"
      using prefix_next [OF on] depth rep_branch.prems(1) by (simp_all add: path_nibbles_nth)
    let ?c = "node_children node ! ?s" and ?m = "under ((route @ ?pre) @ [?s]) m"
    have "edit ops tr tx (RootBranch h) target replacement route =
        attempt (edit ops tr tx ?c target replacement ((route @ ?pre) @ [?s])) (\<lambda>(changed, tx').
          if changed = ?c then Inr (RootBranch h, tx')
          else rebuild_branch ops tr tx' ?pre ((node_children node)[?s := changed]) route)"
      unfolding edit.simps edit_branch.simps Let_def
      by (simp only: load attempt_simp True simp_thms if_False append_assoc)
    moreover have "write_outcome view tx_ok tr tx (\<lambda>r T. represents tr T route r ?new)
        (attempt (edit ops tr tx ?c target replacement ((route @ ?pre) @ [?s])) (\<lambda>(changed, tx').
          if changed = ?c then Inr (RootBranch h, tx')
          else rebuild_branch ops tr tx' ?pre ((node_children node)[?s := changed]) route))"
    proof (rule outcome_attempt [OF rep_branch.IH [OF s(1) rep_branch.prems(1) s(2) rep_branch.prems(3)]])
      fix c tx'
      let ?T' = "branch_rows view tr tx'"
      assume tx': "tx_ok tx'" "extends view tr tx tx'"
        and c: "represents tr ?T' ((route @ ?pre) @ [?s]) c (?m(target := map_option leaf_hash replacement))"
      have le: "?T \<subseteq>\<^sub>m ?T'"
        by (rule extends_rows [OF tx'(2)])
      note upd = fits_update [OF fits le rep_branch.prems(1) s(2,1) c]
      have "write_outcome view tx_ok tr tx' (\<lambda>r T. represents tr T route r ?new) (Inr (RootBranch h, tx'))"
        if "c = ?c"
      proof -
        have "represents tr ?T' ((route @ ?pre) @ [?s]) c ?m"
          using represents_mono [OF rep_branch.hyps(4) [OF s(1)] le] that by simp
        then have "?m(target := map_option leaf_hash replacement) = ?m"
          using represents_functional [OF c _ assms(1)] by blast
        then have "?new = m"
          using s(2) by (metis fun_upd_idem_iff under_apply)
        then show ?thesis
          using outcome_done tx'(1) represents_mono [OF here le] by simp
      qed
      moreover have "1 \<le> occupied ((node_children node)[?s := c])"
      proof -
        obtain i where "i < 16" "i \<noteq> ?s" "node_children node ! i \<noteq> RootEmpty"
          using occupied_slots [OF two] by (metis node_children_length)
        then have "node_children node ! i \<in> set (filter (\<lambda>c. c \<noteq> RootEmpty) ((node_children node)[?s := c]))"
          using nth_mem [of i "(node_children node)[?s := c]"] by simp
        then show ?thesis
          unfolding occupied_def by (metis One_nat_def Suc_leI length_pos_if_in_set)
      qed
      ultimately show "write_outcome view tx_ok tr tx' (\<lambda>r T. represents tr T route r ?new)
          (case (c, tx') of (changed, tx') \<Rightarrow> if changed = ?c then Inr (RootBranch h, tx')
            else rebuild_branch ops tr tx' ?pre ((node_children node)[?s := changed]) route)"
        using rebuild_branch_outcome [OF assms(1) tx'(1) upd] by simp
    qed
    ultimately show ?thesis
      by (simp only:)
  qed
qed

end

end
