(* ===== verification/Merkle_Batch.thy ===== *)
theory Merkle_Batch
  imports Merkle_Edit
begin

text \<open>
  The batch edit of \<^verbatim>\<open>crates/merkle/src/trie.rs\<close> (\<^verbatim>\<open>Trie::apply\<close> and its helpers), which
  rebuilds every touched branch once. \<^verbatim>\<open>Vec\<close> and slice methods are list functions:
  \<open>chunk_by\<close> groups consecutive elements, \<open>sort_key\<close> is the stable sort. The slice access of
  \<^verbatim>\<open>path::nibble\<close> panics at the end of a path; \<open>apply_rest\<close> makes that check explicit, since
  its recursion depends on it.
\<close>

section \<open>Slices\<close>

fun chunk_by :: "('a \<Rightarrow> 'a \<Rightarrow> bool) \<Rightarrow> 'a list \<Rightarrow> 'a list list" where
  "chunk_by R [] = []"
| "chunk_by R [x] = [[x]]"
| "chunk_by R (x # y # ys) =
    (if R x y then (x # hd (chunk_by R (y # ys))) # tl (chunk_by R (y # ys))
     else [x] # chunk_by R (y # ys))"

definition rposition :: "('a \<Rightarrow> bool) \<Rightarrow> 'a list \<Rightarrow> nat option" where
  "rposition P xs = map_option (\<lambda>i. length xs - 1 - i) (position P (rev xs))"

section \<open>Operations\<close>

type_synonym edit_entry = "bytes \<times> hash option"

datatype edited = Stored root_ref | New nibbles "root_ref list"

definition store_edited ::
  "('tx, 'cur, 'z) write_ops_scheme \<Rightarrow> trie \<Rightarrow> 'tx \<Rightarrow> edited \<Rightarrow> nibbles \<Rightarrow>
    merkle_error + (root_ref \<times> 'tx)" where
  "store_edited ops tr tx e route =
    (case e of Stored root \<Rightarrow> Inr (root, tx)
     | New pre children \<Rightarrow> store_children ops tr tx pre children route)"

definition split_prefix ::
  "nibbles \<Rightarrow> root_ref list \<Rightarrow> edit_entry list \<Rightarrow> nat \<Rightarrow> nat \<times> edited list" where
  "split_prefix pre children edits depth =
    (let kept = (case map (\<lambda>(path, _). matched pre path depth) (filter (\<lambda>(_, h). h \<noteq> None) edits) of
         [] \<Rightarrow> length pre | k # ks \<Rightarrow> fold min ks k) in
     if kept = length pre then (kept, map Stored children)
     else (kept, (replicate 16 (Stored RootEmpty))[pre ! kept := New (drop (kept + 1) pre) children]))"

definition following :: "edit_entry list \<Rightarrow> nibbles \<Rightarrow> nat \<Rightarrow> edit_entry list" where
  "following edits pre depth =
    (let follows = (\<lambda>(path, _). matched pre path depth = length pre);
         start = (case position follows edits of Some i \<Rightarrow> i | None \<Rightarrow> length edits);
         en = (case rposition follows edits of Some l \<Rightarrow> l + 1 | None \<Rightarrow> start)
     in drop start (take en edits))"

lemma first_diff_range:
  "first_diff a b is = Inr d \<Longrightarrow> d \<in> set is \<and> d < length a \<and> d < length b \<and> a ! d \<noteq> b ! d"
  by (induction a b "is" rule: first_diff.induct) (auto split: if_splits)

function trie_build ::
  "('tx, 'cur, 'z) write_ops_scheme \<Rightarrow> trie \<Rightarrow> 'tx \<Rightarrow> leaf_ref list \<Rightarrow> nibbles \<Rightarrow>
    merkle_error + (edited \<times> 'tx)" where
  "trie_build ops tr tx leaves route =
    (case leaves of
       [] \<Rightarrow> Inr (Stored RootEmpty, tx)
     | [only] \<Rightarrow> Inr (Stored (RootLeaf only), tx)
     | _ \<Rightarrow>
         let first = path_nibbles (leaf_path (hd leaves)); lst = path_nibbles (leaf_path (last leaves)) in
         attempt (first_diff first lst [length route..<tr_width tr * 2]) (\<lambda>depth.
         attempt (try_fold (\<lambda>group st.
             let slot = nibble (leaf_path (hd group)) depth; child_route = take depth first @ [slot] in
             attempt (trie_build ops tr (snd st) group child_route) (\<lambda>child.
             attempt (store_edited ops tr (snd child) (fst child) child_route) (\<lambda>c.
               Inr ((fst st)[slot := fst c], snd c))))
           (chunk_by (\<lambda>a b. nibble (leaf_path a) depth = nibble (leaf_path b) depth) leaves)
           (no_children, tx)) (\<lambda>st.
         Inr (New (drop (length route) (take depth first)) (fst st), snd st))))"
  by pat_completeness auto

termination
  by (relation "measure (\<lambda>(ops, tr, tx, leaves, route). 2 * tr_width tr - length route)")
    (auto dest!: first_diff_range)

declare trie_build.simps [simp del]

definition trie_rebuild ::
  "('tx, 'cur, 'z) write_ops_scheme \<Rightarrow> trie \<Rightarrow> 'tx \<Rightarrow> leaf_ref option \<Rightarrow> edit_entry list \<Rightarrow> nibbles \<Rightarrow>
    merkle_error + (edited \<times> 'tx)" where
  "trie_rebuild ops tr tx old edits route =
    (let leaves = List.map_filter (\<lambda>(path, h). map_option (\<lambda>h. \<lparr>leaf_path = path, leaf_hash = h\<rparr>) h) edits;
         leaves' = (case old of
             Some l \<Rightarrow> if list_all (\<lambda>(path, _). path \<noteq> leaf_path l) edits
               then sort_key leaf_path (leaves @ [l]) else leaves
           | None \<Rightarrow> leaves)
     in trie_build ops tr tx leaves' route)"

definition trie_collapse ::
  "('tx, 'cur, 'z) write_ops_scheme \<Rightarrow> trie \<Rightarrow> 'tx \<Rightarrow> nibbles \<Rightarrow> edited list \<Rightarrow> nibbles \<Rightarrow>
    merkle_error + (edited \<times> 'tx)" where
  "trie_collapse ops tr tx pre ecs child_route =
    (case filter (\<lambda>slot. ecs ! slot \<noteq> Stored RootEmpty) [0..<16] of
       [] \<Rightarrow> Inr (Stored RootEmpty, tx)
     | [slot] \<Rightarrow>
         (case ecs ! slot of
            New child_pre grandchildren \<Rightarrow> Inr (New (pre @ [slot] @ child_pre) grandchildren, tx)
          | Stored (RootBranch h) \<Rightarrow>
              attempt (trie_load ops tr tx h (child_route @ [slot])) (\<lambda>child.
                Inr (New (pre @ [slot] @ unpack_prefix child) (node_children child), tx))
          | leaf \<Rightarrow> Inr (leaf, tx))
     | _ \<Rightarrow>
         attempt (try_fold (\<lambda>(slot, e) st.
             attempt (store_edited ops tr (snd st) e (child_route @ [slot])) (\<lambda>c.
               Inr ((fst st)[slot := fst c], snd c)))
           (enumerate 0 ecs) (no_children, tx)) (\<lambda>st.
         Inr (New pre (fst st), snd st)))"

function apply_at ::
    "('tx, 'cur, 'z) write_ops_scheme \<Rightarrow> trie \<Rightarrow> 'tx \<Rightarrow> edited \<Rightarrow> edit_entry list \<Rightarrow> nibbles \<Rightarrow>
      merkle_error + (edited \<times> 'tx)"
  and apply_rest ::
    "('tx, 'cur, 'z) write_ops_scheme \<Rightarrow> trie \<Rightarrow> 'tx \<Rightarrow> hash option \<Rightarrow> nibbles \<Rightarrow> root_ref list \<Rightarrow>
      edit_entry list \<Rightarrow> nibbles \<Rightarrow> merkle_error + (edited \<times> 'tx)" where
  "apply_at ops tr tx subtrie edits route =
    (case subtrie of
       Stored RootEmpty \<Rightarrow> trie_rebuild ops tr tx None edits route
     | Stored (RootLeaf leaf) \<Rightarrow> trie_rebuild ops tr tx (Some leaf) edits route
     | Stored (RootBranch h) \<Rightarrow>
         attempt (trie_load ops tr tx h route) (\<lambda>node.
           apply_rest ops tr tx (Some h) (unpack_prefix node) (node_children node) edits route)
     | New pre children \<Rightarrow> apply_rest ops tr tx None pre children edits route)"
| "apply_rest ops tr tx stored pre children edits route =
    (let (kept, ecs) = split_prefix pre children edits (length route);
         edits' = following edits (take kept pre) (length route);
         was_split = kept < length pre;
         pre' = take kept pre;
         child_route = route @ pre';
         depth = length child_route in
     attempt (try_fold (\<lambda>group st.
           let slot = nibble (fst (hd group)) depth in
           if depth \<ge> 2 * tr_width tr then Inl MerklePanic
           else attempt (apply_at ops tr (snd st) (fst st ! slot) group (child_route @ [slot])) (\<lambda>c.
             Inr ((fst st)[slot := fst c], snd c)))
         (chunk_by (\<lambda>a b. nibble (fst a) depth = nibble (fst b) depth) edits') (ecs, tx)) (\<lambda>st.
       if \<not> was_split \<and> list_all2 (\<lambda>e child. e = Stored child) (fst st) children
       then Inr (case stored of Some h \<Rightarrow> Stored (RootBranch h) | None \<Rightarrow> New pre' children, snd st)
       else trie_collapse ops tr (snd st) pre' (fst st) child_route))"
  by pat_completeness auto

termination
  by (relation "measure (\<lambda>x. case x of
      Inl (ops, tr, tx, subtrie, edits, route) \<Rightarrow> 2 * (2 * tr_width tr + 1 - length route) + 1
    | Inr (ops, tr, tx, stored, pre, children, edits, route) \<Rightarrow> 2 * (2 * tr_width tr + 1 - length route))")
    auto

declare apply_at.simps [simp del] apply_rest.simps [simp del]

text \<open>The \<^verbatim>\<open>dedup_by\<close> of \<^verbatim>\<open>apply\<close> on a sorted batch: an entry takes the value of the next one with its
  key. The cell store and the index deduplicate their batches the same way.\<close>

fun dedup_edits :: "('k \<times> 'v) list \<Rightarrow> ('k \<times> 'v) list" where
  "dedup_edits (a # b # es) =
    (if fst b = fst a then dedup_edits ((fst a, snd b) # es) else a # dedup_edits (b # es))"
| "dedup_edits es = es"

definition trie_apply ::
  "('tx, 'cur, 'z) write_ops_scheme \<Rightarrow> trie \<Rightarrow> 'tx \<Rightarrow> root_ref \<Rightarrow> edit_entry list \<Rightarrow>
    merkle_error + (root_ref \<times> 'tx)" where
  "trie_apply ops tr tx root edits =
    attempt (apply_at ops tr tx (Stored root) (dedup_edits (sort_key fst edits)) []) (\<lambda>e.
      store_edited ops tr (snd e) (fst e) [])"

end
