(* ===== verification/Merkle_Apply.thy ===== *)
theory Merkle_Apply
  imports Merkle_Batch
begin

text \<open>
  Correctness of the batch edit: \<open>trie_apply\<close> returns a root of the leaf map with every edit
  applied, the last edit of a path winning. With the canonicity of roots this makes it
  equal to the sequence of single edits.
\<close>

section \<open>Groups\<close>

lemma chunk_by_hd: "xs \<noteq> [] \<Longrightarrow> chunk_by R xs \<noteq> [] \<and> hd (chunk_by R xs) \<noteq> [] \<and> hd (hd (chunk_by R xs)) = hd xs"
  by (induction xs rule: induct_list012) auto

lemma chunk_by_concat [simp]: "concat (chunk_by R xs) = xs"
proof (induction xs rule: induct_list012)
  case (3 x y ys)
  then show ?case
    using chunk_by_hd [of "y # ys" R] by (cases "chunk_by R (y # ys)") auto
qed simp_all

lemma chunk_by_nonempty: "g \<in> set (chunk_by R xs) \<Longrightarrow> g \<noteq> []"
proof (induction xs arbitrary: g rule: induct_list012)
  case (3 x y ys)
  then show ?case
    using chunk_by_hd [of "y # ys" R] by (auto split: if_splits dest: list.set_sel(2))
qed auto

text \<open>The groups of equal keys of a list whose keys ascend.\<close>

abbreviation groups :: "('a \<Rightarrow> 'k) \<Rightarrow> 'a list \<Rightarrow> 'a list list" where
  "groups f xs \<equiv> chunk_by (\<lambda>a b. f a = f b) xs"

lemma groups_Cons:
  "\<exists>g gs. groups f (y # ys) = g # gs \<and> g \<noteq> [] \<and> hd g = y"
  using chunk_by_hd [of "y # ys" "\<lambda>a b. f a = f b"] by (cases "groups f (y # ys)") auto

lemma groups_same: "g \<in> set (groups f xs) \<Longrightarrow> a \<in> set g \<Longrightarrow> f a = f (hd g)"
proof (induction xs arbitrary: g a rule: induct_list012)
  case (3 x y ys)
  obtain h hs where h: "groups f (y # ys) = h # hs" "h \<noteq> []" "hd h = y"
    using groups_Cons [of f y ys] by (elim exE conjE) (rule that)
  show ?case
  proof (cases "f x = f y")
    case True
    then have "groups f (x # y # ys) = (x # h) # hs"
      using h by simp
    then consider "g = x # h" | "g \<in> set hs"
      using 3(3) by auto
    then show ?thesis
    proof cases
      case 1
      then show ?thesis
        using 3(2) [of h] 3(4) h True by auto
    next
      case 2
      then show ?thesis
        using 3(2) [of g] 3(4) h by simp
    qed
  next
    case False
    then have "groups f (x # y # ys) = [x] # groups f (y # ys)"
      by simp
    then consider "g = [x]" | "g \<in> set (groups f (y # ys))"
      using 3(3) by (metis set_ConsD)
    then show ?thesis
    proof cases
      case 2
      show ?thesis
        by (rule 3(2) [OF 2 3(4)])
    qed (use 3(4) in simp)
  qed
qed auto

lemma groups_sorted: "sorted (map f xs) \<Longrightarrow> sorted_wrt (<) (map (\<lambda>g. f (hd g)) (groups f xs))"
proof (induction xs rule: induct_list012)
  case (3 x y ys)
  obtain h hs where h: "groups f (y # ys) = h # hs" "hd h = y"
    using groups_Cons [of f y ys] by (elim exE conjE) (rule that)
  have "sorted_wrt (<) (map (\<lambda>g. f (hd g)) (h # hs))"
    using 3 h(1) by simp
  moreover have "f x \<le> f y"
    using 3(3) by simp
  ultimately show ?case
    using h by (cases "f x = f y") auto
qed auto

lemma groups_mem:
  assumes "sorted (map f xs)" "g \<in> set (groups f xs)"
  shows "a \<in> set g \<longleftrightarrow> a \<in> set xs \<and> f a = f (hd g)"
proof
  assume "a \<in> set g"
  moreover have "set g \<subseteq> set xs"
    using assms(2) chunk_by_concat [of "\<lambda>a b. f a = f b" xs] by (metis UN_upper set_concat)
  ultimately show "a \<in> set xs \<and> f a = f (hd g)"
    using groups_same [OF assms(2)] by auto
next
  assume a: "a \<in> set xs \<and> f a = f (hd g)"
  then have "a \<in> set (concat (groups f xs))"
    by simp
  then obtain h where h: "h \<in> set (groups f xs)" "a \<in> set h"
    unfolding set_concat by (elim UN_E) (rule that)
  then have "f (hd h) = f (hd g)"
    using groups_same [OF h] a by simp
  moreover have "inj_on (\<lambda>g. f (hd g)) (set (groups f xs))"
    using groups_sorted [OF assms(1)] by (simp add: strict_sorted_iff distinct_map)
  ultimately have "h = g"
    using h(1) assms(2) by (simp add: inj_on_def)
  then show "a \<in> set g"
    using h(2) by simp
qed

lemma chunk_by_sublist:
  "g \<in> set (chunk_by R xs) \<Longrightarrow> \<exists>us vs. xs = us @ g @ vs"
  by (metis chunk_by_concat concat.simps(2) concat_append in_set_conv_decomp)

lemma groups_filter:
  assumes "sorted (map f xs)" "g \<in> set (groups f xs)"
  shows "filter (\<lambda>a. f a = f (hd g)) xs = g"
proof -
  obtain A B where AB: "groups f xs = A @ g # B"
    using assms(2) by (meson split_list)
  have distinct: "distinct (map (\<lambda>g. f (hd g)) (groups f xs))"
    using groups_sorted [OF assms(1)] by (simp add: strict_sorted_iff)
  have "f a \<noteq> f (hd g)" if "h \<in> set A \<union> set B" "a \<in> set h" for h a
    using groups_same [of h f xs a] that distinct unfolding AB by force
  then have "filter (\<lambda>a. f a = f (hd g)) (concat A) = []" "filter (\<lambda>a. f a = f (hd g)) (concat B) = []"
    by (auto simp: filter_empty_conv)
  moreover have "filter (\<lambda>a. f a = f (hd g)) g = g"
    using groups_same [OF assms(2)] by simp
  moreover have "xs = concat A @ g @ concat B"
    using chunk_by_concat [of "\<lambda>a b. f a = f b" xs] unfolding AB by simp
  ultimately show ?thesis
    by (metis append_Nil append_Nil2 filter_append)
qed

lemma groups_distinct: "sorted (map f xs) \<Longrightarrow> distinct (map (\<lambda>g. f (hd g)) (groups f xs))"
  using groups_sorted by (auto simp: strict_sorted_iff)

section \<open>Loops over slots\<close>

text \<open>A loop that edits the slot of each of its items: the result of every item holds at the
  end, and the other slots keep their values.\<close>

lemma fold_outcome:
  assumes "distinct (map slot gs)" "\<forall>g \<in> set gs. slot g < length arr"
    "\<And>g tx' a. g \<in> set gs \<Longrightarrow> ok tx' \<Longrightarrow> extends view tr tx tx' \<Longrightarrow> length a = length arr \<Longrightarrow>
      a ! slot g = arr ! slot g \<Longrightarrow>
      write_outcome view ok tr tx' (\<lambda>a' T. \<exists>c. a' = a[slot g := c] \<and> Q T g c) (f g (a, tx'))"
    "\<And>T T' g c. g \<in> set gs \<Longrightarrow> Q T g c \<Longrightarrow> T \<subseteq>\<^sub>m T' \<Longrightarrow> Q T' g c" "ok tx"
  shows "write_outcome view ok tr tx (\<lambda>a T. length a = length arr \<and>
      (\<forall>g \<in> set gs. Q T g (a ! slot g)) \<and> (\<forall>s. s \<notin> slot ` set gs \<longrightarrow> a ! s = arr ! s))
    (try_fold f gs (arr, tx))"
  using assms
proof (induction gs arbitrary: arr tx)
  case Nil
  then show ?case by (simp add: outcome_done)
next
  case (Cons g gs)
  show ?case
    unfolding try_fold.simps
  proof (rule outcome_attempt [OF Cons.prems(3)])
    fix a tx'
    assume tx': "ok tx'" "extends view tr tx tx'"
      and "\<exists>c. a = arr[slot g := c] \<and> Q (branch_rows view tr tx') g c"
    then obtain c where c: "a = arr[slot g := c]" "Q (branch_rows view tr tx') g c"
      by blast
    have fresh: "slot h \<noteq> slot g" if "h \<in> set gs" for h
      using Cons.prems(1) that by (metis distinct.simps(2) image_eqI list.simps(9) list.set_map)
    have "write_outcome view ok tr tx' (\<lambda>b T. (length b = length a \<and> (\<forall>h \<in> set gs. Q T h (b ! slot h)) \<and>
        (\<forall>s. s \<notin> slot ` set gs \<longrightarrow> b ! s = a ! s))) (try_fold f gs (a, tx'))"
    proof (rule Cons.IH)
      fix h tx2 b
      assume h: "h \<in> set gs" and tx2: "ok tx2" "extends view tr tx' tx2" and b: "length b = length a" "b ! slot h = a ! slot h"
      then have "b ! slot h = arr ! slot h"
        using fresh [OF h] c(1) by simp
      then show "write_outcome view ok tr tx2 (\<lambda>a' T. \<exists>c. a' = b[slot h := c] \<and> Q T h c) (f h (b, tx2))"
        using Cons.prems(3) [of h tx2 b] h tx2 b c(1) extends_trans [OF tx'(2) tx2(2)] by simp
    qed (use Cons.prems(1,2,4) c tx' in auto)
    then show "write_outcome view ok tr tx' (\<lambda>a T. length a = length arr \<and>
        (\<forall>g \<in> set (g # gs). Q T g (a ! slot g)) \<and> (\<forall>s. s \<notin> slot ` set (g # gs) \<longrightarrow> a ! s = arr ! s))
      (try_fold f gs (a, tx'))"
    proof (rule outcome_grow)
      fix b T
      assume le: "branch_rows view tr tx' \<subseteq>\<^sub>m T" and b: "length b = length a \<and> (\<forall>h \<in> set gs. Q T h (b ! slot h)) \<and>
        (\<forall>s. s \<notin> slot ` set gs \<longrightarrow> b ! s = a ! s)"
      have g: "slot g \<notin> slot ` set gs" "slot g < length arr"
        using Cons.prems(1,2) by simp_all
      then have "b ! slot g = c"
        using b c(1) by simp
      moreover have "Q T g c"
        by (rule Cons.prems(4) [OF _ c(2) le]) simp
      moreover have "b ! s = arr ! s" if "s \<notin> slot ` set (g # gs)" for s
        using that b c(1) by simp
      ultimately show "length b = length arr \<and> (\<forall>g \<in> set (g # gs). Q T g (b ! slot g)) \<and>
        (\<forall>s. s \<notin> slot ` set (g # gs) \<longrightarrow> b ! s = arr ! s)"
        using b c(1) by (simp del: set_simps add: list.set)
    qed
  qed (use Cons.prems in auto)
qed

section \<open>Edited subtries\<close>

definition edited_rep :: "trie \<Rightarrow> (bytes \<rightharpoonup> bytes) \<Rightarrow> nibbles \<Rightarrow> edited \<Rightarrow> (bytes \<rightharpoonup> hash) \<Rightarrow> bool" where
  "edited_rep tr T route e m = (case e of Stored r \<Rightarrow> represents tr T route r m
    | New pre cs \<Rightarrow> fits tr T route pre cs m \<and> 2 \<le> occupied cs)"

lemma edited_rep_mono: "edited_rep tr T route e m \<Longrightarrow> T \<subseteq>\<^sub>m T' \<Longrightarrow> edited_rep tr T' route e m"
  by (auto simp: edited_rep_def intro: represents_mono fits_mono split: edited.splits)

lemma edited_rep_on_route: "edited_rep tr T route e m \<Longrightarrow> on_route (tr_width tr) route m"
  by (auto simp: edited_rep_def fits_def dest: represents_on_route intro: on_route_prefix split: edited.splits)

lemma edited_rep_empty: "edited_rep tr T route e m \<Longrightarrow> e = Stored RootEmpty \<longleftrightarrow> m = Map.empty"
proof (cases e)
  case (Stored r)
  then show "edited_rep tr T route e m \<Longrightarrow> ?thesis"
    using represents_empty_iff by (auto simp: edited_rep_def)
next
  case (New pre cs)
  assume rep: "edited_rep tr T route e m"
  then obtain s where s: "s < 16" "cs ! s \<noteq> RootEmpty"
    using occupied_slots [of cs] by (auto simp: edited_rep_def New fits_def)
  then have "under ((route @ pre) @ [s]) m \<noteq> Map.empty"
    using rep represents_nonempty unfolding edited_rep_def New fits_def by fastforce
  then have "m \<noteq> Map.empty"
    by (auto simp: under_def)
  then show ?thesis
    by (simp add: New)
qed

section \<open>Sorted leaves\<close>

definition leaves_map :: "leaf_ref list \<Rightarrow> bytes \<rightharpoonup> hash" where
  "leaves_map ls = map_of (map (\<lambda>l. (leaf_path l, leaf_hash l)) ls)"

definition leaves_ok :: "nat \<Rightarrow> nibbles \<Rightarrow> leaf_ref list \<Rightarrow> bool" where
  "leaves_ok N route ls \<longleftrightarrow> sorted_wrt (<) (map leaf_path ls) \<and>
    (\<forall>l \<in> set ls. length (leaf_path l) = N \<and> length (leaf_hash l) = 32 \<and>
      prefix route (path_nibbles (leaf_path l)))"

lemma leaves_map_iff:
  "leaves_ok N route ls \<Longrightarrow> leaves_map ls p = Some h \<longleftrightarrow> \<lparr>leaf_path = p, leaf_hash = h\<rparr> \<in> set ls"
proof -
  assume "leaves_ok N route ls"
  then have "distinct (map fst (map (\<lambda>l. (leaf_path l, leaf_hash l)) ls))"
    by (simp add: leaves_ok_def strict_sorted_iff comp_def)
  then have "leaves_map ls p = Some h \<longleftrightarrow> (p, h) \<in> set (map (\<lambda>l. (leaf_path l, leaf_hash l)) ls)"
    unfolding leaves_map_def by (rule map_of_eq_Some_iff)
  also have "\<dots> \<longleftrightarrow> \<lparr>leaf_path = p, leaf_hash = h\<rparr> \<in> set ls"
  proof
    assume "(p, h) \<in> set (map (\<lambda>l. (leaf_path l, leaf_hash l)) ls)"
    then obtain l where "l \<in> set ls" "p = leaf_path l" "h = leaf_hash l"
      by auto
    moreover have "\<lparr>leaf_path = leaf_path l, leaf_hash = leaf_hash l\<rparr> = l"
      by simp
    ultimately show "\<lparr>leaf_path = p, leaf_hash = h\<rparr> \<in> set ls"
      by (simp only:)
  next
    assume "\<lparr>leaf_path = p, leaf_hash = h\<rparr> \<in> set ls"
    then show "(p, h) \<in> set (map (\<lambda>l. (leaf_path l, leaf_hash l)) ls)"
      by (auto simp: image_iff intro!: bexI [of _ "\<lparr>leaf_path = p, leaf_hash = h\<rparr>"])
  qed
  finally show ?thesis .
qed

lemma leaves_map_eqI:
  assumes "leaves_ok N r ls" "\<And>p h. m p = Some h \<longleftrightarrow> \<lparr>leaf_path = p, leaf_hash = h\<rparr> \<in> set ls"
  shows "leaves_map ls = m"
proof (rule ext)
  fix p
  show "leaves_map ls p = m p"
    using leaves_map_iff [OF assms(1), of p] assms(2) [of p] by (metis option.exhaust)
qed

text \<open>Paths that share their first \<open>d\<close> nibbles ascend in nibble \<open>d\<close>.\<close>

lemma nibble_ascends:
  assumes "length p = N" "length q = N" "d < 2 * N" "take d (path_nibbles p) = take d (path_nibbles q)" "p < q"
  shows "nibble p d \<le> nibble q d"
proof -
  let ?a = "path_nibbles p" and ?b = "path_nibbles q"
  have "?a < ?b"
    using path_nibbles_less assms(1,2,5) by simp
  then have "take d ?a @ drop d ?a < take d ?a @ drop d ?b"
    by (metis append_take_drop_id assms(4))
  then have "drop d ?a < drop d ?b"
    unfolding append_less_iff [OF refl] by simp
  moreover have "drop d ?a = nibble p d # drop (Suc d) ?a" "drop d ?b = nibble q d # drop (Suc d) ?b"
    using assms(1-3) by (simp_all add: Cons_nth_drop_Suc [symmetric] path_nibbles_nth)
  ultimately show ?thesis
    by auto
qed

lemma sorted_nibbles:
  assumes "sorted_wrt (<) ps" "\<forall>p \<in> set ps. length p = N \<and> take d (path_nibbles p) = c" "d < 2 * N"
  shows "sorted (map (\<lambda>p. nibble p d) ps)"
  using assms
proof (induction ps)
  case (Cons p ps)
  then show ?case
    using nibble_ascends [of p N _ d] by auto
qed simp

text \<open>Sorted leaves below a route, from the first nibble where the first and the last differ.\<close>

lemma leaves_share:
  assumes "leaves_ok N route ls" "l \<in> set ls"
    "take d (path_nibbles (leaf_path (hd ls))) = take d (path_nibbles (leaf_path (last ls)))"
  shows "take d (path_nibbles (leaf_path l)) = take d (path_nibbles (leaf_path (hd ls)))"
proof -
  have ne: "ls \<noteq> []"
    using assms(2) by auto
  have len: "length (leaf_path x) = N" if "x \<in> set ls" for x
    using assms(1) that by (simp add: leaves_ok_def)
  have sorted: "sorted (map leaf_path ls)"
    using assms(1) by (simp add: leaves_ok_def strict_sorted_iff)
  obtain i where i: "i < length ls" "l = ls ! i"
    using assms(2) by (auto simp: in_set_conv_nth)
  have "leaf_path (hd ls) \<le> leaf_path l" "leaf_path l \<le> leaf_path (last ls)"
    using sorted_nth_mono [OF sorted, of 0 i] sorted_nth_mono [OF sorted, of i "length ls - 1"] i ne
    by (simp_all add: hd_conv_nth last_conv_nth)
  then have "path_nibbles (leaf_path (hd ls)) \<le> path_nibbles (leaf_path l)"
      "path_nibbles (leaf_path l) \<le> path_nibbles (leaf_path (last ls))"
    using path_nibbles_less len assms(2) ne by (simp_all add: le_less)
  then show ?thesis
    using take_squeeze [of "path_nibbles (leaf_path (hd ls))" "path_nibbles (leaf_path l)"] assms(2,3) len ne by simp
qed

lemma leaves_group:
  assumes "leaves_ok N route ls" "\<forall>l \<in> set ls. take d (path_nibbles (leaf_path l)) = r" "d < 2 * N"
    "g \<in> set (groups (\<lambda>l. nibble (leaf_path l) d) ls)"
  defines "s \<equiv> nibble (leaf_path (hd g)) d"
  shows "leaves_ok N (r @ [s]) g \<and> leaves_map g = under (r @ [s]) (leaves_map ls)"
proof -
  have len: "\<forall>l \<in> set ls. length (leaf_path l) = N"
    using assms(1) by (simp add: leaves_ok_def)
  have "sorted (map (\<lambda>p. nibble p d) (map leaf_path ls))"
    using assms(1-3) by (intro sorted_nibbles [where N = N and c = r]) (auto simp: leaves_ok_def)
  then have mem: "l \<in> set g \<longleftrightarrow> l \<in> set ls \<and> nibble (leaf_path l) d = s" for l
    unfolding s_def using groups_mem [OF _ assms(4)] by (simp add: comp_def)
  have pre: "prefix (r @ [s']) (path_nibbles (leaf_path l)) \<longleftrightarrow> s' = nibble (leaf_path l) d" if "l \<in> set ls" for l s'
  proof -
    have "prefix (r @ [nibble (leaf_path l) d]) (path_nibbles (leaf_path l))"
      using take_snoc_prefix [of d "path_nibbles (leaf_path l)"] assms(2,3) that len
      by (simp add: path_nibbles_nth)
    then show ?thesis
      using prefix_snoc_unique [of r s' "path_nibbles (leaf_path l)"] by auto
  qed
  obtain us vs where "ls = us @ g @ vs"
    using chunk_by_sublist [OF assms(4)] by blast
  then have "sorted_wrt (<) (map leaf_path g)"
    using assms(1) by (simp add: leaves_ok_def sorted_wrt_append)
  then have ok: "leaves_ok N (r @ [s]) g"
    using assms(1) mem pre by (auto simp: leaves_ok_def)
  moreover have "leaves_map g = under (r @ [s]) (leaves_map ls)"
  proof (rule leaves_map_eqI [OF ok])
    fix p h
    let ?l = "\<lparr>leaf_path = p, leaf_hash = h\<rparr>"
    show "under (r @ [s]) (leaves_map ls) p = Some h \<longleftrightarrow> ?l \<in> set g"
      using leaves_map_iff [OF assms(1), of p h] mem [of ?l] pre [of ?l s]
      by (auto simp: under_apply)
  qed
  ultimately show ?thesis ..
qed

lemma leaves_no_group:
  assumes "leaves_ok N route ls" "\<forall>l \<in> set ls. take d (path_nibbles (leaf_path l)) = r" "d < 2 * N"
    "s \<notin> (\<lambda>g. nibble (leaf_path (hd g)) d) ` set (groups (\<lambda>l. nibble (leaf_path l) d) ls)"
  shows "under (r @ [s]) (leaves_map ls) = Map.empty"
proof (rule ext, rule ccontr)
  fix p
  assume "under (r @ [s]) (leaves_map ls) p \<noteq> None"
  then obtain h where h: "leaves_map ls p = Some h" "prefix (r @ [s]) (path_nibbles p)"
    by (auto simp: under_apply split: if_splits)
  let ?l = "\<lparr>leaf_path = p, leaf_hash = h\<rparr>"
  have l: "?l \<in> set ls"
    using leaves_map_iff [OF assms(1)] h(1) by blast
  then have "?l \<in> set (concat (groups (\<lambda>l. nibble (leaf_path l) d) ls))"
    by simp
  then obtain g where g: "g \<in> set (groups (\<lambda>l. nibble (leaf_path l) d) ls)" "?l \<in> set g"
    unfolding set_concat by (elim UN_E) (rule that)
  then have "nibble (leaf_path (hd g)) d = nibble p d"
    using groups_same [OF g] by simp
  moreover have "take d (path_nibbles p) = r" "length p = N"
    using assms(1,2) l by (auto simp: leaves_ok_def)
  moreover from this have "s = nibble p d"
    using h(2) take_snoc_prefix [of d "path_nibbles p"] assms(3) prefix_snoc_unique
    by (metis length_path_nibbles mult.commute path_nibbles_nth)
  ultimately show False
    using assms(4) rev_image_eqI [OF g(1)] by metis
qed

lemma leaves_on_route: "leaves_ok N route ls \<Longrightarrow> on_route N route (leaves_map ls)"
  using leaves_map_iff unfolding on_route_def leaves_ok_def by fastforce

lemma leaves_hd_slot:
  assumes "leaves_ok N route ls" "l \<in> set ls" "prefix r (path_nibbles (leaf_path l))"
  shows "under r (leaves_map ls) \<noteq> Map.empty"
proof -
  have "\<lparr>leaf_path = leaf_path l, leaf_hash = leaf_hash l\<rparr> = l"
    by simp
  then have "leaves_map ls (leaf_path l) = Some (leaf_hash l)"
    using leaves_map_iff [OF assms(1), of "leaf_path l" "leaf_hash l"] assms(2) by (simp only:)
  then show ?thesis
    using assms(3) by (metis option.distinct(1) under_apply)
qed

context write_tx
begin

lemma store_edited_outcome:
  assumes "trie_ok tr" "tx_ok tx" "edited_rep tr (branch_rows view tr tx) route e m"
  shows "write_outcome view tx_ok tr tx (\<lambda>r T. represents tr T route r m) (store_edited ops tr tx e route)"
proof (cases e)
  case (New pre cs)
  then show ?thesis
    using store_children_outcome [OF assms(1,2)] assms(3) by (simp add: store_edited_def edited_rep_def)
qed (use assms in \<open>simp add: store_edited_def edited_rep_def outcome_done\<close>)

lemma build_slots:
  assumes "trie_ok tr" "tx_ok tx" "leaves_ok (tr_width tr) route ls"
    "\<forall>l \<in> set ls. take d (path_nibbles (leaf_path l)) = r" "d < 2 * tr_width tr"
    "\<And>g tx'. leaves_ok (tr_width tr) (r @ [nibble (leaf_path (hd g)) d]) g \<Longrightarrow> tx_ok tx' \<Longrightarrow>
      write_outcome view tx_ok tr tx' (\<lambda>e T. edited_rep tr T (r @ [nibble (leaf_path (hd g)) d]) e (leaves_map g))
        (trie_build ops tr tx' g (r @ [nibble (leaf_path (hd g)) d]))"
  shows "write_outcome view tx_ok tr tx (\<lambda>cs T. length cs = 16 \<and>
      (\<forall>s < 16. represents tr T (r @ [s]) (cs ! s) (under (r @ [s]) (leaves_map ls))))
    (try_fold (\<lambda>group st. let slot = nibble (leaf_path (hd group)) d; child_route = r @ [slot] in
        attempt (trie_build ops tr (snd st) group child_route) (\<lambda>child.
        attempt (store_edited ops tr (snd child) (fst child) child_route) (\<lambda>c.
          Inr ((fst st)[slot := fst c], snd c))))
      (groups (\<lambda>l. nibble (leaf_path l) d) ls) (no_children, tx))"
    (is "write_outcome _ _ _ _ _ (try_fold ?f ?gs _)")
proof -
  let ?slot = "\<lambda>g. nibble (leaf_path (hd g)) d" and ?m = "leaves_map ls"
  let ?Q = "\<lambda>T g c. represents tr T (r @ [?slot g]) c (under (r @ [?slot g]) ?m)"
  have "sorted (map (\<lambda>p. nibble p d) (map leaf_path ls))"
    using assms(3-5) by (intro sorted_nibbles [where N = "tr_width tr" and c = r]) (auto simp: leaves_ok_def)
  then have "distinct (map ?slot ?gs)"
    using groups_sorted [of "\<lambda>l. nibble (leaf_path l) d" ls] by (simp add: comp_def strict_sorted_iff)
  then have "write_outcome view tx_ok tr tx (\<lambda>a T. length a = length no_children \<and>
      (\<forall>g \<in> set ?gs. ?Q T g (a ! ?slot g)) \<and> (\<forall>s. s \<notin> ?slot ` set ?gs \<longrightarrow> a ! s = no_children ! s))
    (try_fold ?f ?gs (no_children, tx))"
  proof (rule fold_outcome)
    fix g tx' a
    assume g: "g \<in> set ?gs" and tx': "tx_ok tx'"
    note grp = leaves_group [OF assms(3-5) g]
    have store: "write_outcome view tx_ok tr tx2 (\<lambda>a' T. \<exists>c. a' = a[?slot g := c] \<and> ?Q T g c)
        (attempt (store_edited ops tr tx2 e (r @ [?slot g])) (\<lambda>c. Inr (a[?slot g := fst c], snd c)))"
      if "tx_ok tx2" "edited_rep tr (branch_rows view tr tx2) (r @ [?slot g]) e (leaves_map g)" for e tx2
      by (rule outcome_attempt [OF store_edited_outcome [OF assms(1) that]])
        (use grp in \<open>auto intro!: outcome_done\<close>)
    show "write_outcome view tx_ok tr tx' (\<lambda>a' T. \<exists>c. a' = a[?slot g := c] \<and> ?Q T g c) (?f g (a, tx'))"
      unfolding Let_def fst_conv snd_conv
      by (rule outcome_attempt [OF assms(6) [OF conjunct1 [OF grp]]]) (use tx' store in auto)
  qed (auto simp: no_children_def assms(2) intro: represents_mono)
  then show ?thesis
  proof (rule outcome_mono)
    fix cs T
    assume cs: "length cs = length no_children \<and> (\<forall>g \<in> set ?gs. ?Q T g (cs ! ?slot g)) \<and>
      (\<forall>s. s \<notin> ?slot ` set ?gs \<longrightarrow> cs ! s = no_children ! s)"
    have "represents tr T (r @ [s]) (cs ! s) (under (r @ [s]) ?m)" if "s < 16" for s
    proof (cases "s \<in> ?slot ` set ?gs")
      case False
      then have "cs ! s = RootEmpty"
        using cs that by (simp add: no_children_def)
      then show ?thesis
        using leaves_no_group [OF assms(3-5) False] by (simp add: rep_empty)
    qed (use cs in auto)
    then show "length cs = 16 \<and> (\<forall>s < 16. represents tr T (r @ [s]) (cs ! s) (under (r @ [s]) ?m))"
      using cs by (simp add: no_children_def)
  qed
qed

lemma build_outcome:
  assumes "trie_ok tr"
  shows "tx_ok tx \<Longrightarrow> leaves_ok (tr_width tr) route ls \<Longrightarrow>
    write_outcome view tx_ok tr tx (\<lambda>e T. edited_rep tr T route e (leaves_map ls)) (trie_build ops tr tx ls route)"
proof (induction "2 * tr_width tr - length route" arbitrary: tx route ls rule: less_induct)
  case less
  consider "ls = []" | l where "ls = [l]" | a b rest where "ls = a # b # rest"
    by (metis list.exhaust)
  then show ?case
  proof cases
    case 1
    then show ?thesis
      using less.prems by (auto simp: trie_build.simps edited_rep_def leaves_map_def intro!: outcome_done rep_empty)
  next
    case 2
    have "leaves_map ls = [leaf_path l \<mapsto> leaf_hash l]"
      by (simp add: 2 leaves_map_def)
    then have "represents tr (branch_rows view tr tx) route (RootLeaf l) (leaves_map ls)"
      using less.prems(2) rep_leaf [of l tr route "branch_rows view tr tx"] by (simp only: 2) (simp add: leaves_ok_def)
    then have "edited_rep tr (branch_rows view tr tx) route (Stored (RootLeaf l)) (leaves_map ls)"
      by (simp add: edited_rep_def)
    moreover have "trie_build ops tr tx ls route = Inr (Stored (RootLeaf l), tx)"
      by (subst trie_build.simps) (simp add: 2)
    ultimately show ?thesis
      using less.prems(1) by (simp only: outcome_done)
  next
    case 3
    let ?a = "path_nibbles (leaf_path (hd ls))" and ?b = "path_nibbles (leaf_path (last ls))"
    let ?N = "tr_width tr" and ?m = "leaves_map ls"
    have in_ls: "hd ls \<in> set ls" "last ls \<in> set ls" and hl: "leaf_path (hd ls) < leaf_path (last ls)"
      using less.prems(2) 3 by (auto simp: leaves_ok_def)
    then have ends: "length (leaf_path (hd ls)) = ?N" "length (leaf_path (last ls)) = ?N"
        "prefix route ?a" "prefix route ?b"
      using less.prems(2) by (auto simp: leaves_ok_def)
    obtain d where d: "first_diff ?a ?b [length route..<?N * 2] = Inr d" "length route \<le> d" "d < 2 * ?N"
        "?a ! d \<noteq> ?b ! d" "take d ?a = take d ?b" "route @ drop (length route) (take d ?b) = take d ?b"
      using paths_part [OF ends(1,2) less_imp_neq [OF hl] ends(3,4)] by (elim exE conjE) (rule that)
    let ?r = "take d ?a" and ?pre = "drop (length route) (take d ?a)"
    have share: "\<forall>l \<in> set ls. take d (path_nibbles (leaf_path l)) = ?r"
      using leaves_share [OF less.prems(2) _ d(5)] by blast
    have r: "route @ ?pre = ?r" "length ?r = d"
      using d(3,6) ends(1,2) unfolding d(5) by simp_all
    have ne: "?a ! d < 16" "?b ! d < 16" "under (?r @ [?a ! d]) ?m \<noteq> Map.empty" "under (?r @ [?b ! d]) ?m \<noteq> Map.empty"
      using leaves_hd_slot [OF less.prems(2) in_ls(1), of "?r @ [?a ! d]"]
        leaves_hd_slot [OF less.prems(2) in_ls(2), of "?r @ [?b ! d]"]
        take_snoc_prefix [of d ?a] take_snoc_prefix [of d ?b] d(3,5) ends(1,2)
      by (auto simp: path_nibbles_nth)
    have "\<forall>n \<in> set ?pre. n < 16"
      by (auto simp: path_nibbles_def dest!: in_set_dropD in_set_takeD)
    moreover have "on_route ?N ?r ?m"
      unfolding on_route_def
    proof
      fix p assume "p \<in> dom ?m"
      then obtain h where h: "\<lparr>leaf_path = p, leaf_hash = h\<rparr> \<in> set ls"
        using leaves_map_iff [OF less.prems(2)] by blast
      then have "length p = ?N" "take d (path_nibbles p) = ?r"
        using less.prems(2) bspec [OF share h] by (auto simp: leaves_ok_def)
      then show "length p = ?N \<and> prefix ?r (path_nibbles p)"
        using take_is_prefix [of d "path_nibbles p"] by (simp only: simp_thms)
    qed
    ultimately have fits: "edited_rep tr T route (New ?pre cs) ?m"
      if cs: "length cs = 16 \<and> (\<forall>s < 16. represents tr T (?r @ [s]) (cs ! s) (under (?r @ [s]) ?m))" for cs T
    proof -
      have "cs ! (?a ! d) \<noteq> RootEmpty" "cs ! (?b ! d) \<noteq> RootEmpty"
        using represents_empty_iff [of tr T "?r @ [?a ! d]" "cs ! (?a ! d)"]
          represents_empty_iff [of tr T "?r @ [?b ! d]" "cs ! (?b ! d)"] cs ne by blast+
      then have "2 \<le> occupied cs"
        using occupied_two [of "?a ! d" cs "?b ! d"] cs ne(1,2) d(4) by metis
      then show ?thesis
        using cs \<open>\<forall>n \<in> set ?pre. n < 16\<close> \<open>on_route ?N ?r ?m\<close>
        unfolding edited_rep_def fits_def edited.case r(1) by metis
    qed
    have "write_outcome view tx_ok tr tx' (\<lambda>e T. edited_rep tr T (?r @ [s]) e (leaves_map g))
        (trie_build ops tr tx' g (?r @ [s]))" if "leaves_ok ?N (?r @ [s]) g" "tx_ok tx'" for g tx' s
      using that d(2,3) r(2) by (intro less.hyps) auto
    from outcome_attempt [OF build_slots [OF assms less.prems share d(3) this],
        where Q = "\<lambda>e T. edited_rep tr T route e ?m" and f = "\<lambda>st. Inr (New ?pre (fst st), snd st)"]
    show ?thesis
      using 3 d(1) fits by (simp add: trie_build.simps outcome_done Let_def)
  qed
qed

end

end
