(* ===== verification/Merkle_Batch_Laws.thy ===== *)
theory Merkle_Batch_Laws
  imports Merkle_Apply
begin

text \<open>
  The batch edit, continued: which edits follow a prefix, the split of a branch whose prefix an
  insertion leaves, the collapse of a branch that lost its children, and the net effect of a
  sorted batch. The result is \<open>apply_outcome\<close>: a batch does to the leaf map what its edits do
  one after another.
\<close>

section \<open>The net effect of edits\<close>

text \<open>The leaf map after edits in sequence, and the shape of an edit.\<close>

definition edits_map :: "(bytes \<rightharpoonup> hash) \<Rightarrow> edit_entry list \<Rightarrow> bytes \<rightharpoonup> hash" where
  "edits_map m edits = fold (\<lambda>(p, h) m. m(p := h)) edits m"

definition edit_sized :: "trie \<Rightarrow> edit_entry \<Rightarrow> bool" where
  "edit_sized tr e \<longleftrightarrow> length (fst e) = tr_width tr \<and> (\<forall>h. snd e = Some h \<longrightarrow> length h = 32)"

text \<open>Edits of distinct paths laid over a map.\<close>

definition edits_over :: "(bytes \<rightharpoonup> hash) \<Rightarrow> edit_entry list \<Rightarrow> bytes \<rightharpoonup> hash" where
  "edits_over m es = (\<lambda>p. case map_of es p of Some x \<Rightarrow> x | None \<Rightarrow> m p)"

definition edits_ok :: "trie \<Rightarrow> nibbles \<Rightarrow> edit_entry list \<Rightarrow> bool" where
  "edits_ok tr route es \<longleftrightarrow> sorted_wrt (<) (map fst es) \<and>
    (\<forall>e \<in> set es. edit_sized tr e \<and> prefix route (path_nibbles (fst e)))"

lemma map_of_filter_last: "map_of es p = (case filter (\<lambda>e. fst e = p) es of [] \<Rightarrow> None | e # _ \<Rightarrow> Some (snd e))"
  by (induction es) auto

lemma edits_map_last:
  "edits_map m es p = (case rev (filter (\<lambda>e. fst e = p) es) of [] \<Rightarrow> m p | e # _ \<Rightarrow> snd e)"
  by (induction es rule: rev_induct) (auto simp: edits_map_def split: prod.splits)

lemma dedup_hd: "es \<noteq> [] \<Longrightarrow> dedup_edits es \<noteq> [] \<and> fst (hd (dedup_edits es)) = fst (hd es)"
  by (induction es rule: dedup_edits.induct) auto

lemma dedup_set: "fst ` set (dedup_edits es) = fst ` set es"
  by (induction es rule: dedup_edits.induct) auto

lemma dedup_entries: "set (dedup_edits es) \<subseteq> fst ` set es \<times> snd ` set es"
proof (induction es rule: dedup_edits.induct)
  case (1 a b es)
  show ?case
  proof (cases "fst b = fst a")
    case True
    then have "set (dedup_edits ((fst a, snd b) # es)) \<subseteq> fst ` set ((fst a, snd b) # es) \<times> snd ` set ((fst a, snd b) # es)"
      by (rule 1)
    then show ?thesis
      using True by fastforce
  next
    case False
    then have "set (dedup_edits (b # es)) \<subseteq> fst ` set (b # es) \<times> snd ` set (b # es)"
      by (rule 1)
    then show ?thesis
      using False by fastforce
  qed
qed auto

lemma dedup_sorted: "sorted (map fst es) \<Longrightarrow> sorted_wrt (<) (map fst (dedup_edits es))"
proof (induction es rule: dedup_edits.induct)
  case (1 a b es)
  show ?case
  proof (cases "fst b = fst a")
    case True
    then show ?thesis
      using 1 by simp
  next
    case False
    then have "\<forall>x \<in> set (b # es). fst a < fst x"
      using 1(3) by auto
    then have "\<forall>x \<in> fst ` set (dedup_edits (b # es)). fst a < x"
      unfolding dedup_set by blast
    then show ?thesis
      using 1 False by simp
  qed
qed auto

lemma dedup_last:
  "sorted (map fst es) \<Longrightarrow> map_of (dedup_edits es) p =
    (case rev (filter (\<lambda>e. fst e = p) es) of [] \<Rightarrow> None | e # _ \<Rightarrow> Some (snd e))"
proof (induction es rule: dedup_edits.induct)
  case (1 a b es)
  show ?case
  proof (cases "fst b = fst a")
    case True
    then show ?thesis
      using 1 by (cases "rev (filter (\<lambda>e. fst e = p) es)") auto
  next
    case False
    then have less: "\<forall>x \<in> set (b # es). fst a < fst x"
      using 1(3) by auto
    show ?thesis
    proof (cases "p = fst a")
      case True
      then have "filter (\<lambda>e. fst e = p) (b # es) = []"
        using less by (auto simp: filter_empty_conv)
      then show ?thesis
        using False True by (cases a) auto
    next
      case pa: False
      then show ?thesis
        using False 1(2) [OF False] 1(3) by (cases a) auto
    qed
  qed
qed auto

text \<open>Sorting and removing all but the last edit of a path keeps the net effect.\<close>

lemma net_edits:
  assumes "\<forall>e \<in> set es. edit_sized tr e"
  defines "net \<equiv> dedup_edits (sort_key fst es)"
  shows "edits_ok tr [] net" "edits_over m net = edits_map m es"
proof -
  have "edit_sized tr e" if "e \<in> set net" for e
  proof -
    have "fst e \<in> fst ` set es" "snd e \<in> snd ` set es"
      using subsetD [OF dedup_entries that [unfolded net_def]] by (simp_all add: mem_Times_iff)
    then show ?thesis
      using assms(1) by (auto simp: edit_sized_def)
  qed
  then show "edits_ok tr [] net"
    using dedup_sorted [of "sort_key fst es"] by (simp add: edits_ok_def net_def)
  show "edits_over m net = edits_map m es"
  proof (rule ext)
    fix p
    have "filter (\<lambda>e. fst e = p) (sort_key fst es) = filter (\<lambda>e. fst e = p) es"
      by (rule sort_key_stable)
    then show "edits_over m net p = edits_map m es p"
      using dedup_last [of "sort_key fst es" p]
      by (auto simp: edits_over_def edits_map_last net_def split: list.splits)
  qed
qed

section \<open>Matching a prefix\<close>

lemma matched_shift:
  "matched (n # ns) path d = (if nibble path d = n then Suc (matched ns path (Suc d)) else 0)"
proof -
  have "enumerate 0 (n # ns) = (0, n) # map (\<lambda>(i, x). (Suc i, x)) (enumerate 0 ns)"
    by (simp add: enumerate_Suc_eq case_prod_unfold apfst_def map_prod_def)
  then have "takeWhile (\<lambda>(i, n). nibble path (d + i) = n) (enumerate 0 (n # ns)) =
      (if nibble path d = n then (0, n) # map (\<lambda>(i, x). (Suc i, x))
        (takeWhile (\<lambda>(i, n). nibble path (Suc d + i) = n) (enumerate 0 ns)) else [])"
    by (simp add: takeWhile_map comp_def case_prod_unfold)
  then show ?thesis
    by (simp add: matched_def)
qed

lemma matched_eq:
  "d + length ns \<le> length path * 2 \<Longrightarrow> matched ns path d = shared_prefix ns (drop d (path_nibbles path))"
proof (induction ns arbitrary: d)
  case (Cons n ns)
  then have "drop d (path_nibbles path) = nibble path d # drop (Suc d) (path_nibbles path)"
    by (simp add: Cons_nth_drop_Suc [symmetric] path_nibbles_nth)
  then show ?case
    using Cons by (auto simp: matched_shift shared_prefix_def)
qed (simp add: matched_def shared_prefix_def)

lemma shared_prefix_take: "k \<le> shared_prefix a b \<Longrightarrow> prefix (take k a) b"
proof (induction a arbitrary: b k)
  case (Cons x a)
  show ?case
  proof (cases b)
    case Nil
    then show ?thesis
      using Cons.prems by (simp add: shared_prefix_def)
  next
    case (Cons y b')
    then show ?thesis
      using Cons.prems Cons.IH [of "k - 1" b'] by (cases k) (auto simp: shared_prefix_def split: if_splits)
  qed
qed simp

lemma prefix_route_drop:
  "prefix route xs \<Longrightarrow> prefix (route @ q) xs \<longleftrightarrow> prefix q (drop (length route) xs)"
  by (auto simp: prefix_def)

text \<open>The edits that match a prefix are contiguous in a sorted batch.\<close>

lemma convex_slice:
  assumes "\<forall>i j k. i < j \<longrightarrow> j < k \<longrightarrow> k < length xs \<longrightarrow> P (xs ! i) \<longrightarrow> P (xs ! k) \<longrightarrow> P (xs ! j)"
  defines "start \<equiv> case position P xs of Some i \<Rightarrow> i | None \<Rightarrow> length xs"
  shows "drop start (take (case rposition P xs of Some l \<Rightarrow> l + 1 | None \<Rightarrow> start) xs) = filter P xs"
proof (cases "position P xs")
  case None
  then have "\<forall>x \<in> set xs. \<not> P x"
    by (simp add: position_None)
  then show ?thesis
    using None by (auto simp: start_def rposition_def filter_empty_conv)
next
  case (Some i)
  then have i: "i < length xs" "P (xs ! i)" "\<forall>j < i. \<not> P (xs ! j)"
    using position_Some by blast+
  then obtain k where k: "position P (rev xs) = Some k"
    using position_None [of P "rev xs"] by (cases "position P (rev xs)") auto
  define l where "l = length xs - 1 - k"
  have kk: "k < length xs" "P (rev xs ! k)" "\<forall>j < k. \<not> P (rev xs ! j)"
    using position_Some [OF k] by auto
  then have l: "l < length xs" "P (xs ! l)"
    by (auto simp: l_def rev_nth)
  have after: "\<not> P (xs ! j)" if "l < j" "j < length xs" for j
    using kk(3) [rule_format, of "length xs - 1 - j"] that kk(1) by (auto simp: l_def rev_nth)
  have "i \<le> l"
    using i(2) after [of i] i(1) by (meson not_le)
  then have split: "xs = take i xs @ drop i (take (l + 1) xs) @ drop (l + 1) xs"
    by (simp add: drop_take_drop)
  have mid: "\<forall>x \<in> set (drop i (take (l + 1) xs)). P x"
  proof
    fix x assume "x \<in> set (drop i (take (l + 1) xs))"
    then obtain j where j: "j < length (drop i (take (l + 1) xs))" "x = drop i (take (l + 1) xs) ! j"
      by (auto simp: in_set_conv_nth)
    then have "x = xs ! (i + j)" "i + j \<le> l"
      using l(1) by auto
    then show "P x"
      using assms(1) i(2) l by (metis le_neq_implies_less less_add_same_cancel1 add.right_neutral neq0_conv)
  qed
  have "filter P xs = filter P (take i xs) @ filter P (drop i (take (l + 1) xs)) @ filter P (drop (l + 1) xs)"
    by (subst split) (simp only: filter_append)
  moreover have "filter P (take i xs) = []"
    using i by (auto simp: filter_empty_conv in_set_conv_nth)
  moreover have "filter P (drop (l + 1) xs) = []"
    using after by (auto simp: filter_empty_conv in_set_conv_nth)
  moreover have "filter P (drop i (take (l + 1) xs)) = drop i (take (l + 1) xs)"
    using mid by (simp add: filter_id_conv)
  ultimately show ?thesis
    using Some k by (simp add: start_def rposition_def l_def)
qed

lemma following_filter:
  assumes "edits_ok tr route es" "length route + length pre \<le> 2 * tr_width tr"
  shows "following es pre (length route) = filter (\<lambda>e. prefix (route @ pre) (path_nibbles (fst e))) es"
proof -
  let ?P = "\<lambda>e. prefix (route @ pre) (path_nibbles (fst e))"
  have len: "length (fst e) = tr_width tr" if "e \<in> set es" for e
    using assms(1) that by (auto simp: edits_ok_def edit_sized_def)
  have follows: "(case e of (path, _) \<Rightarrow> matched pre path (length route) = length pre) \<longleftrightarrow> ?P e" if "e \<in> set es" for e
    using that assms len [OF that]
    by (auto simp: matched_eq shared_prefix_full prefix_route_drop edits_ok_def split: prod.splits)
  have convex: "?P (es ! j)" if "i < j" "j < k" "k < length es" "?P (es ! i)" "?P (es ! k)" for i j k
  proof -
    let ?n = "\<lambda>i. path_nibbles (fst (es ! i))"
    have mem: "es ! i \<in> set es" "es ! j \<in> set es" "es ! k \<in> set es"
      using that by simp_all
    have "fst (es ! i) < fst (es ! j)" "fst (es ! j) < fst (es ! k)"
      using assms(1) that sorted_wrt_nth_less [of "(<)" "map fst es"] by (auto simp: edits_ok_def)
    then have "?n i \<le> ?n j" "?n j \<le> ?n k"
      using path_nibbles_less len mem by (simp_all add: less_imp_le)
    moreover have "take (length (route @ pre)) (?n i) = route @ pre" "take (length (route @ pre)) (?n k) = route @ pre"
      using prefix_take that(4,5) by metis+
    ultimately have "take (length (route @ pre)) (?n j) = route @ pre"
      using take_squeeze [of "?n i" "?n j" "?n k" "length (route @ pre)"] len mem by (simp only: length_path_nibbles)
    then show ?thesis
      using take_is_prefix [of "length (route @ pre)" "?n j"] by (simp only:)
  qed
  have slice: "drop (case position ?P es of Some i \<Rightarrow> i | None \<Rightarrow> length es)
      (take (case rposition ?P es of Some l \<Rightarrow> l + 1 | None \<Rightarrow> case position ?P es of Some i \<Rightarrow> i | None \<Rightarrow> length es) es) = filter ?P es"
    by (rule convex_slice) (use convex in blast)
  have pos: "position (\<lambda>(path, _). matched pre path (length route) = length pre) es = position ?P es"
    by (rule position_cong) (rule follows)
  have rpos: "rposition (\<lambda>(path, _). matched pre path (length route) = length pre) es = rposition ?P es"
    unfolding rposition_def
    by (rule arg_cong [where f = "map_option _"], rule position_cong, rule follows, simp)
  show ?thesis
    unfolding following_def Let_def pos rpos by (rule slice)
qed

section \<open>Splitting a prefix\<close>

lemma fold_min_le: "fold min ks k \<le> (k :: nat) \<and> (\<forall>x \<in> set ks. fold min ks k \<le> x) \<and> fold min ks k \<in> insert k (set ks)"
proof (induction ks arbitrary: k)
  case (Cons a ks)
  show ?case
    using Cons [of "min a k"] by (auto simp: min_def split: if_splits)
qed simp

lemma split_prefix_kept:
  assumes "edits_ok tr route es" "length route + length pre \<le> 2 * tr_width tr" "split_prefix pre cs es (length route) = (kept, ecs)"
  shows "kept \<le> length pre"
    "\<And>e. e \<in> set es \<Longrightarrow> snd e \<noteq> None \<Longrightarrow> prefix (route @ take kept pre) (path_nibbles (fst e))"
    "ecs = (if kept = length pre then map Stored cs
      else (replicate 16 (Stored RootEmpty))[pre ! kept := New (drop (kept + 1) pre) cs])"
proof -
  let ?ms = "map (\<lambda>(path, _). matched pre path (length route)) (filter (\<lambda>(_, h). h \<noteq> None) es)"
  have kept: "kept = (case ?ms of [] \<Rightarrow> length pre | k # ks \<Rightarrow> fold min ks k)"
    using assms(3) by (auto simp: split_prefix_def Let_def split: if_splits)
  show "ecs = (if kept = length pre then map Stored cs
      else (replicate 16 (Stored RootEmpty))[pre ! kept := New (drop (kept + 1) pre) cs])"
    using assms(3) by (auto simp: split_prefix_def Let_def split: if_splits)
  have eq: "matched pre (fst e) (length route) = shared_prefix pre (drop (length route) (path_nibbles (fst e)))"
    if "e \<in> set es" for e
    using that assms(1,2) by (intro matched_eq) (auto simp: edits_ok_def edit_sized_def)
  have le: "x \<le> length pre" if "x \<in> set ?ms" for x
    using that eq shared_prefix_le by (fastforce split: prod.splits)
  show "kept \<le> length pre"
  proof (cases ?ms)
    case (Cons k ks)
    then have "k \<in> set ?ms"
      by (simp only: list.set_intros)
    then show ?thesis
      using fold_min_le [of ks k] le [of k] unfolding kept Cons list.case by linarith
  qed (simp add: kept)
  fix e assume e: "e \<in> set es" "snd e \<noteq> None"
  then have "e \<in> set (filter (\<lambda>(_, h). h \<noteq> None) es)"
    by (simp add: case_prod_unfold)
  then have mem: "matched pre (fst e) (length route) \<in> set ?ms"
    unfolding set_map by (rule rev_image_eqI) (simp add: case_prod_unfold)
  have "kept \<le> matched pre (fst e) (length route)"
  proof (cases ?ms)
    case Nil
    then show ?thesis
      using mem by (simp only: list.set empty_iff)
  next
    case (Cons k ks)
    then have "matched pre (fst e) (length route) = k \<or> matched pre (fst e) (length route) \<in> set ks"
      using mem unfolding Cons by simp
    then show ?thesis
      using fold_min_le [of ks k] unfolding kept Cons list.case by blast
  qed
  then have "prefix (take kept pre) (drop (length route) (path_nibbles (fst e)))"
    using shared_prefix_take eq [OF e(1)] by simp
  then show "prefix (route @ take kept pre) (path_nibbles (fst e))"
    using assms(1) e(1) prefix_route_drop by (auto simp: edits_ok_def)
qed

lemma split_prefix_slots:
  assumes "fits tr T route pre cs m" "2 \<le> occupied cs" "kept \<le> length pre"
    "ecs = (if kept = length pre then map Stored cs
      else (replicate 16 (Stored RootEmpty))[pre ! kept := New (drop (kept + 1) pre) cs])"
  defines "r \<equiv> route @ take kept pre"
  shows "length ecs = 16 \<and> on_route (tr_width tr) r m \<and> length r < 2 * tr_width tr \<and>
    (\<forall>s < 16. edited_rep tr T (r @ [s]) (ecs ! s) (under (r @ [s]) m))"
proof -
  have cs: "length cs = 16" and on: "on_route (tr_width tr) (route @ pre) m" and nib: "\<forall>n \<in> set pre. n < 16"
    using assms(1) by (auto simp: fits_def)
  obtain i where "i < 16" "cs ! i \<noteq> RootEmpty"
    using occupied_slots [OF assms(2)] cs by auto
  then have depth: "length (route @ pre) < 2 * tr_width tr"
    using fits_depth [OF assms(1)] by blast
  have "prefix r (route @ pre)"
    by (simp add: r_def take_is_prefix)
  then have onr: "on_route (tr_width tr) r m"
    by (rule on_route_prefix [OF on])
  have "edited_rep tr T (r @ [s]) (ecs ! s) (under (r @ [s]) m)" if s: "s < 16" for s
  proof (cases "kept = length pre")
    case True
    then show ?thesis
      using assms(1,4) s cs by (simp add: fits_def edited_rep_def r_def)
  next
    case False
    then have k: "kept < length pre"
      using assms(3) by simp
    then have pk: "pre = take kept pre @ [pre ! kept] @ drop (kept + 1) pre"
      by (simp add: id_take_nth_drop)
    have on_k: "on_route (tr_width tr) (r @ [pre ! kept]) m"
      using on_route_prefix [OF on, of "r @ [pre ! kept]"] k
      by (simp add: r_def take_Suc_conv_app_nth [symmetric] take_is_prefix)
    show ?thesis
    proof (cases "s = pre ! kept")
      case True
      have "fits tr T (r @ [pre ! kept]) (drop (kept + 1) pre) cs m"
        using fits_split [of tr T route "take kept pre @ [pre ! kept]" "drop (kept + 1) pre" cs m] assms(1) pk
        by (simp add: r_def)
      then show ?thesis
        using False True assms(2,4) s under_self [OF on_k] by (simp add: edited_rep_def)
    next
      case other: False
      then have "under (r @ [s]) m = Map.empty"
        using under_other [OF on_k] by blast
      then show ?thesis
        using False other assms(4) s by (simp add: edited_rep_def rep_empty)
    qed
  qed
  moreover have "length ecs = 16"
    using assms(4) cs by simp
  moreover have "length r < 2 * tr_width tr"
    using depth by (simp add: r_def)
  ultimately show ?thesis
    using onr by blast
qed

section \<open>Groups of edits\<close>

lemma edits_ok_get: "edits_ok tr route es \<Longrightarrow> map_of es p = Some x \<longleftrightarrow> (p, x) \<in> set es"
  by (simp add: edits_ok_def strict_sorted_iff)

lemma edits_ok_filter: "edits_ok tr route es \<Longrightarrow> edits_ok tr r (filter (\<lambda>e. prefix r (path_nibbles (fst e))) es)"
  by (auto simp: edits_ok_def sorted_wrt_filter sorted_wrt_map)

lemma edits_group:
  assumes "edits_ok tr r es" "length r < 2 * tr_width tr" "g \<in> set (groups (\<lambda>e. nibble (fst e) (length r)) es)"
  defines "s \<equiv> nibble (fst (hd g)) (length r)"
  shows "edits_ok tr (r @ [s]) g" "edits_over (under (r @ [s]) m) g = under (r @ [s]) (edits_over m es)"
proof -
  have shape: "length (fst e) = tr_width tr" "prefix r (path_nibbles (fst e))" if "e \<in> set es" for e
    using assms(1) that by (auto simp: edits_ok_def edit_sized_def)
  have "take (length r) (path_nibbles (fst e)) = r" if "e \<in> set es" for e
    using prefix_take shape(2) [OF that] by metis
  then have "sorted (map (\<lambda>p. nibble p (length r)) (map fst es))"
    using assms(1,2) shape(1)
    by (intro sorted_nibbles [where N = "tr_width tr" and c = r]) (auto simp: edits_ok_def)
  then have mem: "e \<in> set g \<longleftrightarrow> e \<in> set es \<and> nibble (fst e) (length r) = s" for e
    unfolding s_def using groups_mem [OF _ assms(3)] by (simp add: comp_def)
  have slot: "prefix (r @ [s]) (path_nibbles (fst e)) \<longleftrightarrow> nibble (fst e) (length r) = s" if "e \<in> set es" for e
    using next_slot [OF shape [OF that] assms(2)] prefix_snoc_unique [of r s "path_nibbles (fst e)"] by auto
  obtain us vs where "es = us @ g @ vs"
    using chunk_by_sublist [OF assms(3)] by blast
  then have "sorted_wrt (<) (map fst g)"
    using assms(1) by (simp add: edits_ok_def sorted_wrt_append)
  then show g: "edits_ok tr (r @ [s]) g"
    using assms(1) mem slot by (auto simp: edits_ok_def)
  show "edits_over (under (r @ [s]) m) g = under (r @ [s]) (edits_over m es)"
  proof (rule ext)
    fix p
    show "edits_over (under (r @ [s]) m) g p = under (r @ [s]) (edits_over m es) p"
    proof (cases "prefix (r @ [s]) (path_nibbles p)")
      case True
      have "(p, x) \<in> set g \<longleftrightarrow> (p, x) \<in> set es" for x
        using mem slot True by fastforce
      then have "map_of g p = map_of es p"
        using edits_ok_get [OF g] edits_ok_get [OF assms(1)] by (metis option.exhaust)
      then show ?thesis
        using True by (simp add: edits_over_def under_apply split: option.splits)
    next
      case False
      then have "map_of g p = None"
        using edits_ok_get [OF g] g by (cases "map_of g p") (auto simp: edits_ok_def)
      then show ?thesis
        using False by (simp add: edits_over_def under_apply)
    qed
  qed
qed

lemma edits_no_group:
  assumes "edits_ok tr r es" "length r < 2 * tr_width tr"
    "s \<notin> (\<lambda>g. nibble (fst (hd g)) (length r)) ` set (groups (\<lambda>e. nibble (fst e) (length r)) es)"
  shows "under (r @ [s]) (edits_over m es) = under (r @ [s]) m"
proof (rule ext)
  fix p
  show "under (r @ [s]) (edits_over m es) p = under (r @ [s]) m p"
  proof (cases "map_of es p")
    case None
    then show ?thesis
      by (simp add: under_apply edits_over_def)
  next
    case (Some x)
    then have es: "(p, x) \<in> set es"
      using edits_ok_get [OF assms(1)] by blast
    then have "(p, x) \<in> set (concat (groups (\<lambda>e. nibble (fst e) (length r)) es))"
      by simp
    then obtain g where g: "g \<in> set (groups (\<lambda>e. nibble (fst e) (length r)) es)" "(p, x) \<in> set g"
      unfolding set_concat by (elim UN_E) (rule that)
    have "nibble (fst (hd g)) (length r) = nibble p (length r)"
      using groups_same [OF g] by simp
    then have "s \<noteq> nibble p (length r)"
      using assms(3) rev_image_eqI [OF g(1)] by metis
    moreover have "prefix (r @ [nibble p (length r)]) (path_nibbles p)"
      using next_slot [of p "tr_width tr" r] assms(1,2) es by (auto simp: edits_ok_def edit_sized_def)
    ultimately have "\<not> prefix (r @ [s]) (path_nibbles p)"
      using prefix_snoc_unique [of r s "path_nibbles p"] by metis
    then show ?thesis
      by (simp add: under_apply)
  qed
qed

text \<open>Edits that leave a prefix only remove, and remove nothing.\<close>

lemma edits_drop:
  assumes "edits_ok tr route es" "on_route N r m"
    "\<And>e. e \<in> set es \<Longrightarrow> snd e \<noteq> None \<Longrightarrow> prefix r (path_nibbles (fst e))"
  shows "edits_over m (filter (\<lambda>e. prefix r (path_nibbles (fst e))) es) = edits_over m es" (is "edits_over m ?es = _")
proof (rule ext)
  fix p
  have ok: "edits_ok tr r ?es"
    by (rule edits_ok_filter [OF assms(1)])
  show "edits_over m ?es p = edits_over m es p"
  proof (cases "prefix r (path_nibbles p)")
    case True
    then have "(p, x) \<in> set ?es \<longleftrightarrow> (p, x) \<in> set es" for x
      by simp
    then have "map_of ?es p = map_of es p"
      using edits_ok_get [OF ok] edits_ok_get [OF assms(1)] by (metis option.exhaust)
    then show ?thesis
      by (simp add: edits_over_def)
  next
    case False
    then have "m p = None"
      by (rule on_route_None [OF assms(2)])
    moreover have "map_of ?es p = None"
      using False edits_ok_get [OF ok] by (cases "map_of ?es p") auto
    moreover have "x = None" if "map_of es p = Some x" for x
      using edits_ok_get [OF assms(1), of p x] that assms(3) [of "(p, x)"] False by (cases x) auto
    ultimately show ?thesis
      by (auto simp: edits_over_def split: option.splits)
  qed
qed

lemma edits_on_route:
  assumes "edits_ok tr r es" "on_route (tr_width tr) r m"
  shows "on_route (tr_width tr) r (edits_over m es)"
  unfolding on_route_def
proof
  fix p assume "p \<in> dom (edits_over m es)"
  then consider x where "map_of es p = Some x" | "p \<in> dom m"
    by (cases "map_of es p") (auto simp: edits_over_def domIff)
  then show "length p = tr_width tr \<and> prefix r (path_nibbles p)"
  proof cases
    case 1
    then show ?thesis
      using edits_ok_get [OF assms(1)] assms(1) by (auto simp: edits_ok_def edit_sized_def)
  qed (use assms(2) in \<open>simp add: on_route_def\<close>)
qed

section \<open>Rebuilding below a leaf\<close>

definition edit_leaves :: "edit_entry list \<Rightarrow> leaf_ref list" where
  "edit_leaves es = List.map_filter (\<lambda>(path, h). map_option (\<lambda>h. \<lparr>leaf_path = path, leaf_hash = h\<rparr>) h) es"

lemma edit_leaves_Cons [simp]:
  "edit_leaves [] = []"
  "edit_leaves ((p, None) # es) = edit_leaves es"
  "edit_leaves ((p, Some h) # es) = \<lparr>leaf_path = p, leaf_hash = h\<rparr> # edit_leaves es"
  by (simp_all add: edit_leaves_def map_filter_simps)

lemma set_edit_leaves: "set (edit_leaves es) = {l. (leaf_path l, Some (leaf_hash l)) \<in> set es}"
proof (induction es)
  case (Cons e es)
  show ?case
  proof (cases "snd e")
    case None
    then show ?thesis
      using Cons by (cases e) auto
  next
    case (Some h)
    have "l = \<lparr>leaf_path = fst e, leaf_hash = h\<rparr> \<longleftrightarrow> leaf_path l = fst e \<and> leaf_hash l = h" for l :: leaf_ref
      by (cases l) auto
    then show ?thesis
      using Cons Some by (cases e) auto
  qed
qed simp

lemma edit_leaves_sorted: "sorted_wrt (<) (map fst es) \<Longrightarrow> sorted_wrt (<) (map leaf_path (edit_leaves es))"
proof (induction es)
  case (Cons e es)
  then show ?case
    by (cases e; cases "snd e") (auto simp: set_edit_leaves)
qed simp

lemma edit_leaves_ok: "edits_ok tr route es \<Longrightarrow> leaves_ok (tr_width tr) route (edit_leaves es)"
  using edit_leaves_sorted
  by (fastforce simp: leaves_ok_def edits_ok_def edit_sized_def set_edit_leaves)

text \<open>The leaves that remain below a route with at most one old leaf.\<close>

lemma rebuild_leaves_empty:
  assumes "edits_ok tr route es"
  shows "leaves_map (edit_leaves es) = edits_over Map.empty es"
proof (rule leaves_map_eqI [OF edit_leaves_ok [OF assms]])
  fix p h
  show "edits_over Map.empty es p = Some h \<longleftrightarrow> \<lparr>leaf_path = p, leaf_hash = h\<rparr> \<in> set (edit_leaves es)"
    by (simp add: set_edit_leaves edits_ok_get [OF assms, symmetric] edits_over_def split: option.splits)
qed

lemma rebuild_leaves_edited:
  assumes "edits_ok tr route es" "(leaf_path l, x) \<in> set es"
  shows "edits_over [leaf_path l \<mapsto> leaf_hash l] es = edits_over Map.empty es"
proof (rule ext)
  fix p
  show "edits_over [leaf_path l \<mapsto> leaf_hash l] es p = edits_over Map.empty es p"
    using edits_ok_get [OF assms(1), of p x] assms(2) by (auto simp: edits_over_def split: option.splits)
qed

lemma rebuild_leaves_kept:
  assumes "edits_ok tr route es" "\<forall>e \<in> set es. fst e \<noteq> leaf_path l"
    "length (leaf_path l) = tr_width tr" "length (leaf_hash l) = 32" "prefix route (path_nibbles (leaf_path l))"
  defines "ls \<equiv> sort_key leaf_path (edit_leaves es @ [l])"
  shows "leaves_ok (tr_width tr) route ls" "leaves_map ls = edits_over [leaf_path l \<mapsto> leaf_hash l] es"
proof -
  have set: "set ls = insert l (set (edit_leaves es))"
    by (simp add: ls_def)
  have "leaf_path l \<notin> leaf_path ` set (edit_leaves es)"
    using assms(2) by (auto simp: set_edit_leaves)
  moreover have "distinct (map leaf_path (edit_leaves es))"
    using edit_leaves_ok [OF assms(1)] by (simp add: leaves_ok_def strict_sorted_iff)
  ultimately have "distinct (map leaf_path (edit_leaves es @ [l]))"
    by simp
  then have "distinct (map leaf_path ls)"
    unfolding ls_def distinct_map distinct_sort set_sort .
  then show ok: "leaves_ok (tr_width tr) route ls"
    using edit_leaves_ok [OF assms(1)] assms(3-5) set
    by (simp add: leaves_ok_def strict_sorted_iff) (simp add: ls_def)
  show "leaves_map ls = edits_over [leaf_path l \<mapsto> leaf_hash l] es"
  proof (rule leaves_map_eqI [OF ok])
    fix p h
    have l: "\<lparr>leaf_path = p, leaf_hash = h\<rparr> = l \<longleftrightarrow> leaf_path l = p \<and> leaf_hash l = h"
      by (cases l) auto
    have "map_of es (leaf_path l) = None"
      using assms(2) by (auto simp: map_of_eq_None_iff)
    then show "edits_over [leaf_path l \<mapsto> leaf_hash l] es p = Some h \<longleftrightarrow> \<lparr>leaf_path = p, leaf_hash = h\<rparr> \<in> set ls"
      by (auto simp: set l edits_over_def set_edit_leaves edits_ok_get [OF assms(1), symmetric] split: option.splits if_splits)
  qed
qed

context write_tx
begin

lemma rebuild_outcome:
  assumes "trie_ok tr" "tx_ok tx" "edits_ok tr route es"
    "represents tr (branch_rows view tr tx) route (leaf_or_empty old) m"
  shows "write_outcome view tx_ok tr tx (\<lambda>e T. edited_rep tr T route e (edits_over m es))
    (trie_rebuild ops tr tx old es route)"
proof -
  note build = build_outcome [OF assms(1,2)]
  have fresh: "write_outcome view tx_ok tr tx (\<lambda>e T. edited_rep tr T route e (edits_over Map.empty es))
      (trie_build ops tr tx (edit_leaves es) route)"
    using build [OF edit_leaves_ok [OF assms(3)]] rebuild_leaves_empty [OF assms(3)] by simp
  show ?thesis
  proof (cases old)
    case None
    then have "m = Map.empty"
      using assms(4) by (auto simp: leaf_or_empty_def elim: represents_EmptyE)
    then show ?thesis
      using None fresh by (simp add: trie_rebuild_def edit_leaves_def)
  next
    case (Some l)
    then have l: "length (leaf_path l) = tr_width tr" "length (leaf_hash l) = 32"
        "prefix route (path_nibbles (leaf_path l))" "m = [leaf_path l \<mapsto> leaf_hash l]"
      using assms(4) by (auto simp: leaf_or_empty_def elim: represents_LeafE)
    show ?thesis
    proof (cases "\<forall>e \<in> set es. fst e \<noteq> leaf_path l")
      case True
      have "list_all (\<lambda>(path, _). path \<noteq> leaf_path l) es"
        using True by (auto simp: list_all_iff)
      then show ?thesis
        using build [OF rebuild_leaves_kept(1) [OF assms(3) True l(1-3)]]
          rebuild_leaves_kept(2) [OF assms(3) True l(1-3)] l(4) Some
        by (simp add: trie_rebuild_def edit_leaves_def)
    next
      case False
      then obtain x where x: "(leaf_path l, x) \<in> set es"
        by auto
      then have "\<not> list_all (\<lambda>(path, _). path \<noteq> leaf_path l) es"
        by (auto simp: list_all_iff)
      then show ?thesis
        using fresh rebuild_leaves_edited [OF assms(3) x] l(4) Some by (simp add: trie_rebuild_def edit_leaves_def)
    qed
  qed
qed

lemma collapse_single:
  assumes "trie_ok tr" "tx_ok tx" "\<forall>n \<in> set pre. n < 16" "slot < 16"
    "edited_rep tr (branch_rows view tr tx) ((route @ pre) @ [slot]) e m"
  shows "write_outcome view tx_ok tr tx (\<lambda>e T. edited_rep tr T route e m)
    (case e of
       New child_pre grandchildren \<Rightarrow> Inr (New (pre @ [slot] @ child_pre) grandchildren, tx)
     | Stored (RootBranch h) \<Rightarrow>
         attempt (trie_load ops tr tx h ((route @ pre) @ [slot])) (\<lambda>child.
           Inr (New (pre @ [slot] @ unpack_prefix child) (node_children child), tx))
     | leaf \<Rightarrow> Inr (leaf, tx))"
proof -
  have nib: "\<forall>n \<in> set (pre @ [slot]). n < 16"
    using assms(3,4) by auto
  have join: "edited_rep tr T route (New (pre @ [slot] @ q) cs) m"
    if "fits tr T ((route @ pre) @ [slot]) q cs m" "2 \<le> occupied cs" for T q cs
    using fits_join [of tr T route "pre @ [slot]" q cs m] that nib by (simp add: edited_rep_def)
  show ?thesis
  proof (cases e)
    case (New q cs)
    then show ?thesis
      using assms(2,5) join by (simp add: edited_rep_def outcome_done)
  next
    case (Stored r)
    then have rep: "represents tr (branch_rows view tr tx) ((route @ pre) @ [slot]) r m"
      using assms(5) by (simp add: edited_rep_def)
    show ?thesis
    proof (cases r)
      case RootEmpty
      then show ?thesis
        using rep Stored assms(2) by (auto simp: edited_rep_def elim!: represents_EmptyE intro!: outcome_done rep_empty)
    next
      case (RootLeaf l)
      then have "represents tr (branch_rows view tr tx) route (RootLeaf l) m"
        using rep represents_leaf_shorter [of tr _ route "pre @ [slot]" l m] by simp
      then show ?thesis
        using Stored RootLeaf assms(2) by (simp add: edited_rep_def outcome_done)
    next
      case (RootBranch h)
      obtain child where child: "trie_load ops tr tx h ((route @ pre) @ [slot]) = Inr child"
          "fits tr (branch_rows view tr tx) ((route @ pre) @ [slot]) (unpack_prefix child) (node_children child) m"
        using load_represented [OF assms(1,2) rep [unfolded RootBranch]] by blast
      moreover have "2 \<le> occupied (node_children child)"
        using child(1) load_iff [OF assms(1,2)] node_parts by (auto simp: holds_node_def parts_ok_def)
      ultimately show ?thesis
        using Stored RootBranch assms(2) join by (simp add: outcome_done)
    qed
  qed
qed

lemma collapse_many:
  assumes "trie_ok tr" "tx_ok tx" "length ecs = 16"
    "\<forall>s < 16. edited_rep tr (branch_rows view tr tx) (r @ [s]) (ecs ! s) (under (r @ [s]) m)"
  shows "write_outcome view tx_ok tr tx
    (\<lambda>cs T. length cs = 16 \<and> (\<forall>s < 16. represents tr T (r @ [s]) (cs ! s) (under (r @ [s]) m)))
    (try_fold (\<lambda>(slot, e) st.
        attempt (store_edited ops tr (snd st) e (r @ [slot])) (\<lambda>c. Inr ((fst st)[slot := fst c], snd c)))
      (enumerate 0 ecs) (no_children, tx))"
    (is "write_outcome _ _ _ _ _ (try_fold ?f ?gs _)")
proof -
  let ?Q = "\<lambda>T g c. represents tr T (r @ [fst g]) c (under (r @ [fst g]) m)"
  have "write_outcome view tx_ok tr tx (\<lambda>a T. length a = length no_children \<and>
      (\<forall>g \<in> set ?gs. ?Q T g (a ! fst g)) \<and> (\<forall>s. s \<notin> fst ` set ?gs \<longrightarrow> a ! s = no_children ! s))
    (try_fold ?f ?gs (no_children, tx))"
  proof (rule fold_outcome)
    fix g tx' a
    assume g: "g \<in> set ?gs" and tx': "tx_ok tx'" "extends view tr tx tx'"
    obtain s e where se: "g = (s, e)"
      by (cases g)
    then have "s < 16" "e = ecs ! s"
      using g assms(3) by (auto simp: in_set_enumerate_eq)
    then have e: "edited_rep tr (branch_rows view tr tx') (r @ [s]) e (under (r @ [s]) m)"
      using assms(4) edited_rep_mono extends_rows [OF tx'(2)] by blast
    show "write_outcome view tx_ok tr tx' (\<lambda>a' T. \<exists>c. a' = a[fst g := c] \<and> ?Q T g c) (?f g (a, tx'))"
      unfolding se case_prod_conv fst_conv snd_conv
      by (rule outcome_attempt [OF store_edited_outcome [OF assms(1) tx'(1) e]]) (auto intro!: outcome_done)
  qed (auto simp: no_children_def assms(2,3) in_set_enumerate_eq intro: represents_mono)
  then show ?thesis
  proof (rule outcome_mono)
    fix cs T
    assume cs: "length cs = length no_children \<and> (\<forall>g \<in> set ?gs. ?Q T g (cs ! fst g)) \<and>
      (\<forall>s. s \<notin> fst ` set ?gs \<longrightarrow> cs ! s = no_children ! s)"
    have "?Q T (s, ecs ! s) (cs ! s)" if "s < 16" for s
      using cs bspec [of "set ?gs" "\<lambda>g. ?Q T g (cs ! fst g)" "(s, ecs ! s)"] that assms(3) by (simp add: in_set_enumerate_eq)
    then show "length cs = 16 \<and> (\<forall>s < 16. represents tr T (r @ [s]) (cs ! s) (under (r @ [s]) m))"
      using cs by (simp add: no_children_def)
  qed
qed

lemma collapse_outcome:
  assumes "trie_ok tr" "tx_ok tx" "\<forall>n \<in> set pre. n < 16" "length ecs = 16"
    "on_route (tr_width tr) (route @ pre) m" "length (route @ pre) < 2 * tr_width tr"
    "\<forall>s < 16. edited_rep tr (branch_rows view tr tx) ((route @ pre) @ [s]) (ecs ! s) (under ((route @ pre) @ [s]) m)"
  shows "write_outcome view tx_ok tr tx (\<lambda>e T. edited_rep tr T route e m)
    (trie_collapse ops tr tx pre ecs (route @ pre))"
proof -
  let ?r = "route @ pre" and ?L = "filter (\<lambda>slot. ecs ! slot \<noteq> Stored RootEmpty) [0..<16]"
  have empty: "under (?r @ [s]) m = Map.empty" if "s < 16" "s \<notin> set ?L" for s
    using assms(7) that edited_rep_empty by auto
  have nonempty: "under (?r @ [s]) m \<noteq> Map.empty" "s < 16" if "s \<in> set ?L" for s
    using assms(7) that edited_rep_empty by auto
  note by_slots = map_by_slots [OF assms(5) _ assms(6)]
  consider "?L = []" | i where "?L = [i]" | i j rest where "?L = i # j # rest"
    by (metis list.exhaust)
  then show ?thesis
  proof cases
    case 1
    have "m = Map.empty"
    proof (rule by_slots)
      fix s :: nat assume s: "s < 16"
      then have "under (?r @ [s]) m = Map.empty"
        using empty [OF s] 1 by (metis empty_iff list.set(1))
      then show "under (?r @ [s]) m = under (?r @ [s]) Map.empty"
        by (simp add: under_def)
    qed (simp add: on_route_def)
    then show ?thesis
      using 1 assms(2) by (simp add: trie_collapse_def edited_rep_def outcome_done rep_empty)
  next
    case (2 i)
    then have i: "i < 16"
      using nonempty(2) [of i] by simp
    have "m = under (?r @ [i]) m"
    proof (rule by_slots)
      show "on_route (tr_width tr) ?r (under (?r @ [i]) m)"
        by (rule on_route_prefix [OF on_route_under [OF assms(5)]]) simp
      fix s :: nat assume s: "s < 16"
      show "under (?r @ [s]) m = under (?r @ [s]) (under (?r @ [i]) m)"
      proof (cases "s = i")
        case False
        then show ?thesis
          using empty [OF s] 2 under_other [OF on_route_under [OF assms(5)], of s i] by simp
      qed (auto simp: fun_eq_iff under_apply)
    qed
    then have "edited_rep tr (branch_rows view tr tx) (?r @ [i]) (ecs ! i) m"
      using assms(7) i by metis
    from collapse_single [OF assms(1-3) i this] show ?thesis
      using 2 by (simp add: trie_collapse_def)
  next
    case (3 i j rest)
    then have ij: "i \<in> set ?L" "j \<in> set ?L" "i \<noteq> j"
      using distinct_filter [of "[0..<16]" "\<lambda>slot. ecs ! slot \<noteq> Stored RootEmpty"] by simp_all
    have fits: "edited_rep tr T route (New pre cs) m"
      if cs: "length cs = 16 \<and> (\<forall>s < 16. represents tr T (?r @ [s]) (cs ! s) (under (?r @ [s]) m))" for cs T
    proof -
      have "cs ! s \<noteq> RootEmpty" if "s \<in> set ?L" for s
        using cs nonempty [OF that] represents_empty_iff [of tr T "?r @ [s]" "cs ! s"] by blast
      then have "2 \<le> occupied cs"
        using occupied_two [of i cs j] cs nonempty(2) ij by metis
      then show ?thesis
        using cs assms(3,5) unfolding edited_rep_def fits_def edited.case by metis
    qed
    have "trie_collapse ops tr tx pre ecs ?r = attempt (try_fold (\<lambda>(slot, e) st.
        attempt (store_edited ops tr (snd st) e (?r @ [slot])) (\<lambda>c. Inr ((fst st)[slot := fst c], snd c)))
        (enumerate 0 ecs) (no_children, tx)) (\<lambda>st. Inr (New pre (fst st), snd st))"
      unfolding trie_collapse_def 3 by simp
    then show ?thesis
      using outcome_attempt [OF collapse_many [OF assms(1,2,4,7)],
          where Q = "\<lambda>e T. edited_rep tr T route e m" and f = "\<lambda>st. Inr (New pre (fst st), snd st)"]
        fits by (simp add: outcome_done)
  qed
qed

lemma apply_slots:
  assumes "tx_ok tx" "length ecs = 16" "length r < 2 * tr_width tr" "edits_ok tr r es"
    "\<forall>s < 16. edited_rep tr (branch_rows view tr tx) (r @ [s]) (ecs ! s) (under (r @ [s]) m)"
    "\<And>s sub g m' tx'. tx_ok tx' \<Longrightarrow> edited_rep tr (branch_rows view tr tx') (r @ [s]) sub m' \<Longrightarrow>
      edits_ok tr (r @ [s]) g \<Longrightarrow>
      write_outcome view tx_ok tr tx' (\<lambda>e T. edited_rep tr T (r @ [s]) e (edits_over m' g))
        (apply_at ops tr tx' sub g (r @ [s]))"
  shows "write_outcome view tx_ok tr tx (\<lambda>a T. length a = 16 \<and>
      (\<forall>s < 16. edited_rep tr T (r @ [s]) (a ! s) (under (r @ [s]) (edits_over m es))))
    (try_fold (\<lambda>group st.
        let slot = nibble (fst (hd group)) (length r) in
        if length r \<ge> 2 * tr_width tr then Inl MerklePanic
        else attempt (apply_at ops tr (snd st) (fst st ! slot) group (r @ [slot])) (\<lambda>c.
          Inr ((fst st)[slot := fst c], snd c)))
      (groups (\<lambda>e. nibble (fst e) (length r)) es) (ecs, tx))"
    (is "write_outcome _ _ _ _ _ (try_fold ?f ?gs _)")
proof -
  let ?slot = "\<lambda>g. nibble (fst (hd g)) (length r)" and ?m = "edits_over m es"
  let ?Q = "\<lambda>T g e. edited_rep tr T (r @ [?slot g]) e (under (r @ [?slot g]) ?m)"
  have "take (length r) (path_nibbles (fst e)) = r" if "e \<in> set es" for e
    using prefix_take assms(4) that unfolding edits_ok_def by metis
  then have "sorted (map (\<lambda>p. nibble p (length r)) (map fst es))"
    using assms(3,4)
    by (intro sorted_nibbles [where N = "tr_width tr" and c = r]) (auto simp: edits_ok_def edit_sized_def)
  then have "distinct (map ?slot ?gs)"
    using groups_sorted [of "\<lambda>e. nibble (fst e) (length r)" es] by (simp add: comp_def strict_sorted_iff)
  then have "write_outcome view tx_ok tr tx (\<lambda>a T. length a = length ecs \<and>
      (\<forall>g \<in> set ?gs. ?Q T g (a ! ?slot g)) \<and> (\<forall>s. s \<notin> ?slot ` set ?gs \<longrightarrow> a ! s = ecs ! s))
    (try_fold ?f ?gs (ecs, tx))"
  proof (rule fold_outcome)
    fix g tx' a
    assume g: "g \<in> set ?gs" and tx': "tx_ok tx'" "extends view tr tx tx'" and a: "a ! ?slot g = ecs ! ?slot g"
    note grp = edits_group [OF assms(4,3) g]
    have "edited_rep tr (branch_rows view tr tx') (r @ [?slot g]) (a ! ?slot g) (under (r @ [?slot g]) m)"
      unfolding a using assms(5) edited_rep_mono extends_rows [OF tx'(2)] by (meson nibble_less)
    from assms(6) [OF tx'(1) this grp(1)]
    have "write_outcome view tx_ok tr tx' (\<lambda>e T. ?Q T g e) (apply_at ops tr tx' (a ! ?slot g) g (r @ [?slot g]))"
      unfolding grp(2) .
    then have "write_outcome view tx_ok tr tx' (\<lambda>a' T. \<exists>c. a' = a[?slot g := c] \<and> ?Q T g c)
        (attempt (apply_at ops tr tx' (a ! ?slot g) g (r @ [?slot g])) (\<lambda>c. Inr (a[?slot g := fst c], snd c)))"
      by (rule outcome_attempt) (auto intro!: outcome_done)
    then show "write_outcome view tx_ok tr tx' (\<lambda>a' T. \<exists>c. a' = a[?slot g := c] \<and> ?Q T g c) (?f g (a, tx'))"
      using assms(3) by (simp add: Let_def)
  qed (auto simp: assms(1,2) intro: edited_rep_mono)
  then show ?thesis
  proof (rule outcome_grow)
    fix a T
    assume T: "branch_rows view tr tx \<subseteq>\<^sub>m T" and a: "length a = length ecs \<and> (\<forall>g \<in> set ?gs. ?Q T g (a ! ?slot g)) \<and>
      (\<forall>s. s \<notin> ?slot ` set ?gs \<longrightarrow> a ! s = ecs ! s)"
    have "edited_rep tr T (r @ [s]) (a ! s) (under (r @ [s]) ?m)" if "s < 16" for s
    proof (cases "s \<in> ?slot ` set ?gs")
      case False
      then show ?thesis
        using a edits_no_group [OF assms(4,3) False, of m] edited_rep_mono [OF _ T] assms(5) that by simp
    qed (use a in auto)
    then show "length a = 16 \<and> (\<forall>s < 16. edited_rep tr T (r @ [s]) (a ! s) (under (r @ [s]) ?m))"
      using a assms(2) by simp
  qed
qed

lemma apply_rest_outcome:
  assumes "trie_ok tr" "tx_ok tx" "fits tr (branch_rows view tr tx) route pre cs m" "2 \<le> occupied cs" "edits_ok tr route es"
    "\<And>h. stored = Some h \<Longrightarrow> represents tr (branch_rows view tr tx) route (RootBranch h) m"
    "\<And>r s sub g m' tx'. length route \<le> length r \<Longrightarrow> length r < 2 * tr_width tr \<Longrightarrow> tx_ok tx' \<Longrightarrow>
      edited_rep tr (branch_rows view tr tx') (r @ [s]) sub m' \<Longrightarrow> edits_ok tr (r @ [s]) g \<Longrightarrow>
      write_outcome view tx_ok tr tx' (\<lambda>e T. edited_rep tr T (r @ [s]) e (edits_over m' g))
        (apply_at ops tr tx' sub g (r @ [s]))"
  shows "write_outcome view tx_ok tr tx (\<lambda>e T. edited_rep tr T route e (edits_over m es))
    (apply_rest ops tr tx stored pre cs es route)"
proof -
  obtain kept ecs where split: "split_prefix pre cs es (length route) = (kept, ecs)"
    by (cases "split_prefix pre cs es (length route)")
  have cs: "length cs = 16" and nib: "\<forall>n \<in> set pre. n < 16"
    using assms(3) by (auto simp: fits_def)
  obtain i where "i < 16" "cs ! i \<noteq> RootEmpty"
    using occupied_slots [OF assms(4)] cs by auto
  then have depth: "length route + length pre \<le> 2 * tr_width tr"
    using fits_depth [OF assms(3)] by fastforce
  note kept = split_prefix_kept [OF assms(5) depth split]
  define r where "r = route @ take kept pre"
  define es' where "es' = filter (\<lambda>e. prefix r (path_nibbles (fst e))) es"
  let ?m = "edits_over m es" and ?T = "branch_rows view tr tx"
  have slots: "length ecs = 16" "on_route (tr_width tr) r m" "length r < 2 * tr_width tr"
      "\<forall>s < 16. edited_rep tr ?T (r @ [s]) (ecs ! s) (under (r @ [s]) m)"
    using split_prefix_slots [OF assms(3,4) kept(1,3)] unfolding r_def by blast+
  have follow: "following es (take kept pre) (length route) = es'"
    using following_filter [OF assms(5), of "take kept pre"] depth by (simp add: es'_def r_def)
  have es': "edits_ok tr r es'" "edits_over m es' = ?m"
    unfolding es'_def using edits_ok_filter [OF assms(5)] edits_drop [OF assms(5) slots(2)] kept(2) r_def by auto
  have on: "on_route (tr_width tr) r ?m"
    using edits_on_route [OF es'(1) slots(2)] es'(2) by simp
  let ?done = "\<lambda>st. if kept = length pre \<and> list_all2 (\<lambda>e child. e = Stored child) (fst st) cs
      then Inr (case stored of Some h \<Rightarrow> Stored (RootBranch h) | None \<Rightarrow> New (take kept pre) cs, snd st)
      else trie_collapse ops tr (snd st) (take kept pre) (fst st) r"
  have "apply_rest ops tr tx stored pre cs es route = attempt (try_fold (\<lambda>group st.
        let slot = nibble (fst (hd group)) (length r) in
        if length r \<ge> 2 * tr_width tr then Inl MerklePanic
        else attempt (apply_at ops tr (snd st) (fst st ! slot) group (r @ [slot])) (\<lambda>c.
          Inr ((fst st)[slot := fst c], snd c)))
      (groups (\<lambda>e. nibble (fst e) (length r)) es') (ecs, tx)) ?done"
    using kept(1) unfolding apply_rest.simps [of ops tr tx stored pre cs es route] split Let_def case_prod_conv follow r_def [symmetric]
    by (simp only: not_less le_antisym order.refl eq_iff simp_thms)
  moreover have "write_outcome view tx_ok tr tx (\<lambda>e T. edited_rep tr T route e ?m) \<dots>"
  proof (rule outcome_attempt [OF apply_slots [OF assms(2) slots(1,3) es'(1) slots(4)]])
    fix s sub g m' tx'
    have le: "length route \<le> length r"
      by (simp add: r_def)
    assume "tx_ok tx'" "edited_rep tr (branch_rows view tr tx') (r @ [s]) sub m'" "edits_ok tr (r @ [s]) g"
    then show "write_outcome view tx_ok tr tx' (\<lambda>e T. edited_rep tr T (r @ [s]) e (edits_over m' g))
        (apply_at ops tr tx' sub g (r @ [s]))"
      by (rule assms(7) [OF le slots(3)])
  next
    fix a tx'
    let ?T' = "branch_rows view tr tx'"
    assume tx': "tx_ok tx'" "extends view tr tx tx'"
      and "length a = 16 \<and> (\<forall>s < 16. edited_rep tr ?T' (r @ [s]) (a ! s) (under (r @ [s]) (edits_over m es')))"
    then have a: "length a = 16" "\<forall>s < 16. edited_rep tr ?T' (r @ [s]) (a ! s) (under (r @ [s]) ?m)"
      unfolding es'(2) by blast+
    show "write_outcome view tx_ok tr tx' (\<lambda>e T. edited_rep tr T route e ?m) (?done (a, tx'))"
    proof (cases "kept = length pre \<and> list_all2 (\<lambda>e child. e = Stored child) a cs")
      case False
      have "\<forall>n \<in> set (take kept pre). n < 16"
        using nib by (auto dest: in_set_takeD)
      from collapse_outcome [OF assms(1) tx'(1) this a(1), of route ?m] show ?thesis
        using False a(2) on slots(3) unfolding r_def by auto
    next
      case True
      then have r: "r = route @ pre"
        by (simp add: r_def)
      have same: "under (r @ [s]) ?m = under (r @ [s]) m" if "s < 16" for s
      proof -
        have "a ! s = Stored (cs ! s)"
          using True that a(1) by (auto simp: list_all2_conv_all_nth)
        then have "represents tr ?T' (r @ [s]) (cs ! s) (under (r @ [s]) ?m)"
          using a(2) that by (auto simp: edited_rep_def)
        moreover have "represents tr ?T' (r @ [s]) (cs ! s) (under (r @ [s]) m)"
          using assms(3) that represents_mono [OF _ extends_rows [OF tx'(2)]] unfolding fits_def r by blast
        ultimately show ?thesis
          using represents_functional assms(1) by blast
      qed
      have m: "?m = m"
        by (rule map_by_slots [OF on slots(2,3) same])
      have "edited_rep tr ?T' route (case stored of Some h \<Rightarrow> Stored (RootBranch h) | None \<Rightarrow> New (take kept pre) cs) m"
        using True assms(6) represents_mono [OF _ extends_rows [OF tx'(2)]]
          fits_mono [OF assms(3) extends_rows [OF tx'(2)]] assms(4)
        by (auto simp: edited_rep_def split: option.splits)
      then show ?thesis
        using True tx'(1) m by (simp add: outcome_done)
    qed
  qed
  ultimately show ?thesis
    by (simp only:)
qed

lemma apply_at_outcome:
  assumes "trie_ok tr"
  shows "tx_ok tx \<Longrightarrow> edited_rep tr (branch_rows view tr tx) route sub m \<Longrightarrow> edits_ok tr route es \<Longrightarrow>
    write_outcome view tx_ok tr tx (\<lambda>e T. edited_rep tr T route e (edits_over m es)) (apply_at ops tr tx sub es route)"
proof (induction "2 * tr_width tr + 1 - length route" arbitrary: tx route sub m es rule: less_induct)
  case less
  have IH: "write_outcome view tx_ok tr tx' (\<lambda>e T. edited_rep tr T (r @ [s]) e (edits_over m' g)) (apply_at ops tr tx' sub' g (r @ [s]))"
    if "length route \<le> length r" "length r < 2 * tr_width tr" "tx_ok tx'"
      "edited_rep tr (branch_rows view tr tx') (r @ [s]) sub' m'" "edits_ok tr (r @ [s]) g" for r s sub' g m' tx'
    by (rule less.hyps) (use that in auto)
  note rest = apply_rest_outcome [OF assms less.prems(1) _ _ less.prems(3) _ IH]
  show ?case
  proof (cases sub)
    case (New pre cs)
    then have "fits tr (branch_rows view tr tx) route pre cs m" "2 \<le> occupied cs"
      using less.prems(2) by (simp_all add: edited_rep_def)
    from rest [OF this, of None] show ?thesis
      unfolding New apply_at.simps edited.case by simp
  next
    case (Stored root)
    then have rep: "represents tr (branch_rows view tr tx) route root m"
      using less.prems(2) by (simp add: edited_rep_def)
    show ?thesis
    proof (cases root)
      case RootEmpty
      then show ?thesis
        using rebuild_outcome [OF assms less.prems(1,3), of None m] rep Stored by (simp add: apply_at.simps leaf_or_empty_def)
    next
      case (RootLeaf l)
      then show ?thesis
        using rebuild_outcome [OF assms less.prems(1,3), of "Some l" m] rep Stored by (simp add: apply_at.simps leaf_or_empty_def)
    next
      case (RootBranch h)
      obtain node where node: "trie_load ops tr tx h route = Inr node"
          "fits tr (branch_rows view tr tx) route (unpack_prefix node) (node_children node) m"
        using load_represented [OF assms less.prems(1) rep [unfolded RootBranch]] by blast
      have two: "2 \<le> occupied (node_children node)"
        using node(1) load_iff [OF assms less.prems(1)] node_parts by (auto simp: holds_node_def parts_ok_def)
      have "write_outcome view tx_ok tr tx (\<lambda>e T. edited_rep tr T route e (edits_over m es))
          (apply_rest ops tr tx (Some h) (unpack_prefix node) (node_children node) es route)"
        by (rule rest [OF node(2) two]) (use rep RootBranch in simp_all)
      then show ?thesis
        using node(1) by (simp add: Stored RootBranch apply_at.simps)
    qed
  qed
qed

lemma apply_outcome:
  assumes "trie_ok tr" "tx_ok tx" "represents tr (branch_rows view tr tx) [] root m" "\<forall>e \<in> set es. edit_sized tr e"
  shows "write_outcome view tx_ok tr tx (\<lambda>r T. represents tr T [] r (edits_map m es)) (trie_apply ops tr tx root es)"
proof -
  have "edited_rep tr (branch_rows view tr tx) [] (Stored root) m"
    using assms(3) by (simp add: edited_rep_def)
  from outcome_attempt [OF apply_at_outcome [OF assms(1,2) this net_edits(1) [OF assms(4)]],
      where Q = "\<lambda>r T. represents tr T [] r (edits_map m es)" and f = "\<lambda>e. store_edited ops tr (snd e) (fst e) []"]
  show ?thesis
    using store_edited_outcome [OF assms(1)] net_edits(2) [OF assms(4)] by (simp add: trie_apply_def)
qed

end

end
