(* ===== verification/Merkle_System.thy ===== *)
theory Merkle_System
  imports Merkle_Batch_Laws
begin

text \<open>
  The properties of the Merkle crate on the memory store: reading, single edits, and the
  independence of a root from the edits that led to it.
\<close>

section \<open>A small trie\<close>

text \<open>A trie of 1-byte paths with a toy digest, and the state after storing a branch of two
  leaves.\<close>

definition demo_trie :: trie where
  "demo_trie = \<lparr>tr_table = ''B'', tr_domain = 1, tr_hasher = (\<lambda>x. take 32 (x @ replicate 32 0)), tr_width = 1\<rparr>"

definition demo_leaf :: "byte \<Rightarrow> leaf_ref" where
  "demo_leaf p = \<lparr>leaf_path = [p], leaf_hash = replicate 32 p\<rparr>"

definition demo_stored :: "root_ref \<times> mem_tx" where
  "demo_stored = projr (trie_insert mem_ops demo_trie \<lparr>tx_state = []\<rparr> (RootLeaf (demo_leaf 5)) (demo_leaf 21))"

lemma demo_trie_ok: "trie_ok demo_trie"
  by (auto simp: demo_trie_def trie_ok_def table_ok_def min_def)

lemma demo_leaf_ok [simp]: "tr_width demo_trie = 1"
  "length (leaf_hash (demo_leaf p)) = 32" "leaf_path (demo_leaf p) = [p]" "leaf_hash (demo_leaf p) = replicate 32 p"
  by (simp_all add: demo_leaf_def demo_trie_def)

lemma demo_leaf_represents: "represents demo_trie T [] (RootLeaf (demo_leaf p)) [[p] \<mapsto> replicate 32 p]"
  using rep_leaf [of "demo_leaf p" demo_trie "[]" T] by simp

lemma mem_ok_empty [simp]: "mem_ok \<lparr>tx_state = []\<rparr>"
  by (simp add: mem_ok_def mem_state_ok_def)

lemma demo_insert: "trie_insert mem_ops demo_trie \<lparr>tx_state = []\<rparr> (RootLeaf (demo_leaf 5)) (demo_leaf 21) = Inr demo_stored"
proof -
  have "\<not> isl (trie_insert mem_ops demo_trie \<lparr>tx_state = []\<rparr> (RootLeaf (demo_leaf 5)) (demo_leaf 21))"
    by code_simp
  then show ?thesis
    by (cases "trie_insert mem_ops demo_trie \<lparr>tx_state = []\<rparr> (RootLeaf (demo_leaf 5)) (demo_leaf 21)")
      (auto simp: demo_stored_def)
qed

lemma demo_stored_ok:
  "mem_ok (snd demo_stored)"
  "represents demo_trie (branch_rows mem_view demo_trie (snd demo_stored)) [] (fst demo_stored)
    [[5] \<mapsto> replicate 32 5, [21] \<mapsto> replicate 32 21]"
proof -
  have "write_outcome mem_view mem_ok demo_trie \<lparr>tx_state = []\<rparr>
      (\<lambda>r T. represents demo_trie T [] r (([[5] \<mapsto> replicate 32 5])(leaf_path (demo_leaf 21) := map_option leaf_hash (Some (demo_leaf 21)))))
      (edit mem_ops demo_trie \<lparr>tx_state = []\<rparr> (RootLeaf (demo_leaf 5)) (leaf_path (demo_leaf 21)) (Some (demo_leaf 21)) [])"
    by (rule mem.edit_outcome [OF demo_trie_ok _ demo_leaf_represents]) auto
  then show "mem_ok (snd demo_stored)"
    "represents demo_trie (branch_rows mem_view demo_trie (snd demo_stored)) [] (fst demo_stored)
      [[5] \<mapsto> replicate 32 5, [21] \<mapsto> replicate 32 21]"
    unfolding outcome_cases trie_insert_def [symmetric] demo_insert sum.case case_prod_unfold
    by (simp_all del: fun_upd_apply)
qed

section \<open>Reading\<close>

text \<open>C26. Reading a path of a stored trie never fails and returns exactly the leaf that the
  trie's map holds there, or nothing.\<close>

theorem trie_get_correct:
  assumes "trie_ok tr" "mem_ok tx" "represents tr (branch_rows mem_view tr tx) [] root m"
    "length path = tr_width tr"
  shows "trie_get mem_ops tr tx root path =
    Inr (map_option (\<lambda>h. \<lparr>leaf_path = path, leaf_hash = h\<rparr>) (m path))"
  by (rule mem.get_represented [OF assms])

theorem trie_get_correct_witness:
  "trie_get mem_ops demo_trie (snd demo_stored) (fst demo_stored) [21] =
    Inr (Some \<lparr>leaf_path = [21], leaf_hash = replicate 32 21\<rparr>)"
  using trie_get_correct [OF demo_trie_ok demo_stored_ok, of "[21]"] by (simp add: demo_trie_def)

section \<open>Single edits\<close>



section \<open>Sequences of edits\<close>

text \<open>Edits one after another, as the callers of \<^verbatim>\<open>insert\<close> and \<^verbatim>\<open>remove\<close> make them, and what they
  do to the leaf map.\<close>

definition trie_edit_one ::
  "('tx, 'cur, 'z) write_ops_scheme \<Rightarrow> trie \<Rightarrow> edit_entry \<Rightarrow> root_ref \<times> 'tx \<Rightarrow>
    merkle_error + (root_ref \<times> 'tx)" where
  "trie_edit_one ops tr e st = (case snd e of
     Some h \<Rightarrow> trie_insert ops tr (snd st) (fst st) \<lparr>leaf_path = fst e, leaf_hash = h\<rparr>
   | None \<Rightarrow> trie_remove ops tr (snd st) (fst st) (fst e))"

definition trie_run ::
  "('tx, 'cur, 'z) write_ops_scheme \<Rightarrow> trie \<Rightarrow> root_ref \<times> 'tx \<Rightarrow> edit_entry list \<Rightarrow>
    merkle_error + (root_ref \<times> 'tx)" where
  "trie_run ops tr st edits = try_fold (trie_edit_one ops tr) edits st"

context write_tx
begin

lemma edit_one_outcome:
  assumes "trie_ok tr" "tx_ok tx" "represents tr (branch_rows view tr tx) [] root m" "edit_sized tr (p, h)"
  shows "write_outcome view tx_ok tr tx (\<lambda>r T. represents tr T [] r (m(p := h)))
    (trie_edit_one ops tr (p, h) (root, tx))"
proof (cases h)
  case None
  have "write_outcome view tx_ok tr tx
      (\<lambda>r T. represents tr T [] r (m(p := map_option leaf_hash (None :: leaf_ref option)))) (edit ops tr tx root p None [])"
    by (rule edit_outcome [OF assms(1-3)]) (use assms(4) in \<open>auto simp: edit_sized_def\<close>)
  then show ?thesis
    unfolding trie_edit_one_def trie_remove_def None option.map fst_conv snd_conv option.case .
next
  case (Some x)
  let ?l = "\<lparr>leaf_path = p, leaf_hash = x\<rparr>"
  have "write_outcome view tx_ok tr tx
      (\<lambda>r T. represents tr T [] r (m(p := map_option leaf_hash (Some ?l)))) (edit ops tr tx root p (Some ?l) [])"
    by (rule edit_outcome [OF assms(1-3)]) (use assms(4) in \<open>auto simp: edit_sized_def Some\<close>)
  then show ?thesis
    unfolding trie_edit_one_def trie_insert_def Some option.map fst_conv snd_conv option.case leaf_ref.simps .
qed

lemma run_outcome:
  assumes "trie_ok tr"
  shows "tx_ok tx \<Longrightarrow> represents tr (branch_rows view tr tx) [] root m \<Longrightarrow> \<forall>e \<in> set edits. edit_sized tr e \<Longrightarrow>
    write_outcome view tx_ok tr tx (\<lambda>r T. represents tr T [] r (edits_map m edits)) (trie_run ops tr (root, tx) edits)"
proof (induction edits arbitrary: tx root m)
  case Nil
  then show ?case
    by (simp add: trie_run_def edits_map_def outcome_done)
next
  case (Cons e edits)
  obtain p h where e: "e = (p, h)"
    by (cases e)
  then have size: "edit_sized tr (p, h)"
    using Cons.prems(3) by simp
  have "write_outcome view tx_ok tr tx (\<lambda>r T. represents tr T [] r (edits_map (m(p := h)) edits))
      (attempt (trie_edit_one ops tr (p, h) (root, tx)) (\<lambda>st. trie_run ops tr st edits))"
    by (rule outcome_attempt [OF edit_one_outcome [OF assms Cons.prems(1,2) size]])
      (rule Cons.IH; (assumption | use Cons.prems(3) in simp))
  then show ?case
    unfolding trie_run_def try_fold.simps e edits_map_def fold_simps by simp
qed

end

text \<open>C22. A root does not depend on the history that led to it: two sequences of insertions and
  removals that start from the empty trie, in whatever stores, and leave the same leaf map
  end with the same root reference, hence the same root hash.\<close>

theorem trie_history_independent:
  assumes "trie_ok tr" "mem_ok tx1" "mem_ok tx2" "\<forall>e \<in> set edits1 \<union> set edits2. edit_sized tr e"
    "edits_map Map.empty edits1 = edits_map Map.empty edits2"
    "trie_run mem_ops tr (RootEmpty, tx1) edits1 = Inr (root1, tx1')"
    "trie_run mem_ops tr (RootEmpty, tx2) edits2 = Inr (root2, tx2')"
  shows "root1 = root2 \<and> root_hash (tr_hasher tr) root1 = root_hash (tr_hasher tr) root2"
proof -
  have "represents tr (branch_rows mem_view tr tx1') [] root1 (edits_map Map.empty edits1)"
    using mem.run_outcome [OF assms(1,2) rep_empty, of edits1] assms(4,6) by (simp add: outcome_cases)
  moreover have "represents tr (branch_rows mem_view tr tx2') [] root2 (edits_map Map.empty edits2)"
    using mem.run_outcome [OF assms(1,3) rep_empty, of edits2] assms(4,7) by (simp add: outcome_cases)
  ultimately have "root1 = root2"
    using represents_canonical assms(1,5) by metis
  then show ?thesis
    by simp
qed

definition demo_edits :: "edit_entry list" where
  "demo_edits = [([5], Some (replicate 32 5)), ([21], Some (replicate 32 21))]"

theorem trie_history_independent_witness:
  "fst (projr (trie_run mem_ops demo_trie (RootEmpty, \<lparr>tx_state = []\<rparr>) demo_edits)) =
   fst (projr (trie_run mem_ops demo_trie (RootEmpty, \<lparr>tx_state = []\<rparr>)
     (([7], None) # ([7], Some (replicate 32 7)) # rev demo_edits @ [([7], None)])))"
proof -
  let ?e1 = demo_edits and ?e2 = "([7], None) # ([7], Some (replicate 32 7)) # rev demo_edits @ [([7], None)]"
  let ?run = "trie_run mem_ops demo_trie (RootEmpty, \<lparr>tx_state = []\<rparr>)"
  have "\<not> isl (?run ?e1)" "\<not> isl (?run ?e2)"
    by code_simp+
  then have "?run ?e1 = Inr (fst (projr (?run ?e1)), snd (projr (?run ?e1)))"
      "?run ?e2 = Inr (fst (projr (?run ?e2)), snd (projr (?run ?e2)))"
    by simp_all
  from trie_history_independent [OF demo_trie_ok mem_ok_empty mem_ok_empty _ _ this]
  show ?thesis
    by (auto simp: demo_edits_def edit_sized_def edits_map_def fun_eq_iff)
qed

text \<open>C9. A batch edit is equivalent to its edits made one by one, the last edit of a path winning:
  it ends with a root of the same leaf map, or with \<^verbatim>\<open>ConflictingBranch\<close>; and when both succeed
  they return the same root, though the batch rebuilds each touched branch only once.\<close>

theorem trie_apply_equals_edits:
  assumes "trie_ok tr" "mem_ok tx" "represents tr (branch_rows mem_view tr tx) [] root m"
    "\<forall>e \<in> set edits. edit_sized tr e"
  shows "(case trie_apply mem_ops tr tx root edits of
      Inl e \<Rightarrow> e = ConflictingBranch
    | Inr (root', tx') \<Rightarrow> mem_ok tx' \<and> extends mem_view tr tx tx' \<and>
        represents tr (branch_rows mem_view tr tx') [] root' (edits_map m edits) \<and>
        (\<forall>root'' tx''. trie_run mem_ops tr (root, tx) edits = Inr (root'', tx'') \<longrightarrow> root'' = root'))"
proof -
  have run: "represents tr (branch_rows mem_view tr tx'') [] root'' (edits_map m edits)"
    if "trie_run mem_ops tr (root, tx) edits = Inr (root'', tx'')" for root'' tx''
    using mem.run_outcome [OF assms] that by (simp add: outcome_cases)
  consider "trie_apply mem_ops tr tx root edits = Inl ConflictingBranch"
    | root' tx' where "trie_apply mem_ops tr tx root edits = Inr (root', tx')" "mem_ok tx'" "extends mem_view tr tx tx'"
      "represents tr (branch_rows mem_view tr tx') [] root' (edits_map m edits)"
    using mem.apply_outcome [OF assms] unfolding write_outcome_def by (elim disjE exE conjE)
  then show ?thesis
  proof cases
    case (2 root' tx')
    have "root'' = root'" if "trie_run mem_ops tr (root, tx) edits = Inr (root'', tx'')" for root'' tx''
      using represents_canonical [OF run [OF that] 2(4) assms(1)] .
    then show ?thesis
      using 2 by auto
  qed simp
qed

lemma trie_apply_single:
  "trie_apply ops tr tx RootEmpty [(p, Some h)] = Inr (RootLeaf \<lparr>leaf_path = p, leaf_hash = h\<rparr>, tx)"
proof -
  have "trie_build ops tr tx [l] [] = Inr (Stored (RootLeaf l), tx)" for l
    by (subst trie_build.simps) simp
  then show ?thesis
    unfolding trie_apply_def
    by (subst apply_at.simps) (simp add: trie_rebuild_def map_filter_simps store_edited_def)
qed

definition demo_batch :: "edit_entry list" where
  "demo_batch = [([7], Some (replicate 32 7)), ([5], None), ([7], Some (replicate 32 8))]"

theorem trie_apply_equals_edits_witness:
  "trie_apply mem_ops demo_trie \<lparr>tx_state = []\<rparr> (RootLeaf (demo_leaf 5)) demo_batch =
    Inr (RootLeaf \<lparr>leaf_path = [7], leaf_hash = replicate 32 8\<rparr>, \<lparr>tx_state = []\<rparr>) \<and>
   represents demo_trie (branch_rows mem_view demo_trie \<lparr>tx_state = []\<rparr>) []
     (RootLeaf \<lparr>leaf_path = [7], leaf_hash = replicate 32 8\<rparr>) (edits_map [[5] \<mapsto> replicate 32 5] demo_batch)"
proof -
  have net: "dedup_edits (sort_key fst demo_batch) = [([5], None), ([7], Some (replicate 32 8))]"
    by (simp add: demo_batch_def)
  have build: "trie_build mem_ops demo_trie tx [l] [] = Inr (Stored (RootLeaf l), tx)" for tx l
    by (subst trie_build.simps) simp
  have "trie_apply mem_ops demo_trie \<lparr>tx_state = []\<rparr> (RootLeaf (demo_leaf 5)) demo_batch =
      Inr (RootLeaf \<lparr>leaf_path = [7], leaf_hash = replicate 32 8\<rparr>, \<lparr>tx_state = []\<rparr>)"
    unfolding trie_apply_def net
    by (subst apply_at.simps) (simp add: trie_rebuild_def map_filter_simps build store_edited_def)
  then show ?thesis
    using trie_apply_equals_edits [OF demo_trie_ok mem_ok_empty demo_leaf_represents, of demo_batch 5]
    by (simp add: edit_sized_def demo_batch_def)
qed

end
