(* ===== verification/Cell_Types.thy ===== *)
theory Cell_Types
  imports Prelude
begin

text \<open>
  \<^verbatim>\<open>crates/cells/src/types.rs\<close> and \<^verbatim>\<open>order.rs\<close>: the type ids, the widths, the order
  encodings of signed integers and floats, and the validation of a stored value.
  Floats are their IEEE-754 bit patterns (32 and 64 bit words). Rust's
  \<^verbatim>\<open>str::from_utf8\<close> is written out as \<open>utf8_valid_up_to\<close>.
\<close>

section \<open>Types\<close>

datatype cell_kind = Field | Attribute

datatype width = W4 | W8 | W16 | W32

datatype float_width = F32 | F64

datatype cell_type =
    Bool
  | Str
  | Bytes
  | Bytes20
  | FixedBytes width
  | Uint width
  | SInt width
  | Decimal width
  | Float float_width
  | Date32
  | Timestamp64

datatype cell_value_parse_error =
    Empty
  | AbsentTag
  | ReservedType byte
  | LengthMismatch cell_type nat nat
  | InvalidBool byte
  | InvalidUtf8 nat
  | FloatNaN
  | NegativeZero
  | NotIndexable

text \<open>\<^verbatim>\<open>w as u8\<close>\<close>

fun width_tag :: "width \<Rightarrow> byte" where
  "width_tag W4 = 0"
| "width_tag W8 = 1"
| "width_tag W16 = 2"
| "width_tag W32 = 3"

definition from_w :: "byte \<Rightarrow> width" where
  "from_w w = (if w = 0 then W4 else if w = 1 then W8 else if w = 2 then W16 else W32)"

definition width_bytes :: "width \<Rightarrow> nat" where
  "width_bytes w = push_bit (unat (width_tag w)) 4"

fun decimal_scale :: "width \<Rightarrow> nat" where
  "decimal_scale W4 = 4"
| "decimal_scale W8 = 6"
| "decimal_scale W16 = 18"
| "decimal_scale W32 = 18"

fun cell_type_id :: "cell_type \<Rightarrow> byte" where
  "cell_type_id Bool = 1"
| "cell_type_id Str = 2"
| "cell_type_id Bytes = 3"
| "cell_type_id Bytes20 = 4"
| "cell_type_id (FixedBytes w) = 8 + width_tag w"
| "cell_type_id (Uint w) = 12 + width_tag w"
| "cell_type_id (SInt w) = 16 + width_tag w"
| "cell_type_id (Decimal w) = 20 + width_tag w"
| "cell_type_id (Float F32) = 24"
| "cell_type_id (Float F64) = 25"
| "cell_type_id Date32 = 28"
| "cell_type_id Timestamp64 = 29"

definition from_id :: "byte \<Rightarrow> cell_value_parse_error + cell_type" where
  "from_id i =
    (if i = 0 then Inl AbsentTag
     else if i = 1 then Inr Bool
     else if i = 2 then Inr Str
     else if i = 3 then Inr Bytes
     else if i = 4 then Inr Bytes20
     else if 8 \<le> i \<and> i \<le> 11 then Inr (FixedBytes (from_w (i - 8)))
     else if 12 \<le> i \<and> i \<le> 15 then Inr (Uint (from_w (i - 12)))
     else if 16 \<le> i \<and> i \<le> 19 then Inr (SInt (from_w (i - 16)))
     else if 20 \<le> i \<and> i \<le> 23 then Inr (Decimal (from_w (i - 20)))
     else if i = 24 then Inr (Float F32)
     else if i = 25 then Inr (Float F64)
     else if i = 28 then Inr Date32
     else if i = 29 then Inr Timestamp64
     else Inl (ReservedType i))"

fun type_width :: "cell_type \<Rightarrow> nat option" where
  "type_width Str = None"
| "type_width Bytes = None"
| "type_width Bool = Some 1"
| "type_width Bytes20 = Some 20"
| "type_width (FixedBytes w) = Some (width_bytes w)"
| "type_width (Uint w) = Some (width_bytes w)"
| "type_width (SInt w) = Some (width_bytes w)"
| "type_width (Decimal w) = Some (width_bytes w)"
| "type_width (Float F32) = Some 4"
| "type_width Date32 = Some 4"
| "type_width (Float F64) = Some 8"
| "type_width Timestamp64 = Some 8"

section \<open>Order encodings\<close>

text \<open>The arrays these functions take have at least one byte.\<close>

fun flip_sign :: "bytes \<Rightarrow> bytes" where
  "flip_sign [] = []"
| "flip_sign (b # bs) = (b XOR 0x80) # bs"

definition encode_float :: "bytes \<Rightarrow> bytes" where
  "encode_float be =
    (if hd be = 0x80 \<and> list_all (\<lambda>b. b = 0) (tl be) then flip_sign (replicate (length be) 0)
     else if hd be AND 0x80 = 0 then flip_sign be
     else map (\<lambda>b. NOT b) be)"

definition decode_float :: "bytes \<Rightarrow> bytes" where
  "decode_float stored =
    (if hd stored AND 0x80 \<noteq> 0 then flip_sign stored else map (\<lambda>b. NOT b) stored)"

text \<open>\<^verbatim>\<open>is_nan\<close>, and the test for \<^verbatim>\<open>-0.0\<close>, on the bits of a float. A 32 bit float is NaN
  or negative zero exactly when the 64 bit float it widens to is.\<close>

definition f32_is_nan :: "u32 \<Rightarrow> bool" where
  "f32_is_nan x \<longleftrightarrow> 0x7F800000 < x AND 0x7FFFFFFF"

definition f64_is_nan :: "u64 \<Rightarrow> bool" where
  "f64_is_nan x \<longleftrightarrow> 0x7FF0000000000000 < x AND 0x7FFFFFFFFFFFFFFF"

definition f32_is_neg_zero :: "u32 \<Rightarrow> bool" where
  "f32_is_neg_zero x \<longleftrightarrow> x = 0x80000000"

definition f64_is_neg_zero :: "u64 \<Rightarrow> bool" where
  "f64_is_neg_zero x \<longleftrightarrow> x = 0x8000000000000000"

section \<open>UTF-8\<close>

text \<open>The number of bytes of the scalar value that the bytes start with, if they start
  with a well-formed one (no overlong forms, surrogates or values above 10FFFF).\<close>

definition utf8_cont :: "byte \<Rightarrow> bool" where
  "utf8_cont b \<longleftrightarrow> 0x80 \<le> b \<and> b \<le> 0xBF"

definition utf8_second :: "byte \<Rightarrow> byte \<Rightarrow> bool" where
  "utf8_second b c \<longleftrightarrow>
    (if b = 0xE0 then 0xA0 \<le> c \<and> c \<le> 0xBF
     else if b = 0xED then 0x80 \<le> c \<and> c \<le> 0x9F
     else if b = 0xF0 then 0x90 \<le> c \<and> c \<le> 0xBF
     else if b = 0xF4 then 0x80 \<le> c \<and> c \<le> 0x8F
     else utf8_cont c)"

fun utf8_char :: "bytes \<Rightarrow> nat option" where
  "utf8_char [] = None"
| "utf8_char (b # bs) =
    (if b < 0x80 then Some 1
     else if 0xC2 \<le> b \<and> b \<le> 0xDF then
       (case bs of c # _ \<Rightarrow> if utf8_cont c then Some 2 else None | _ \<Rightarrow> None)
     else if 0xE0 \<le> b \<and> b \<le> 0xEF then
       (case bs of c # d # _ \<Rightarrow> if utf8_second b c \<and> utf8_cont d then Some 3 else None | _ \<Rightarrow> None)
     else if 0xF0 \<le> b \<and> b \<le> 0xF4 then
       (case bs of c # d # e # _ \<Rightarrow>
          if utf8_second b c \<and> utf8_cont d \<and> utf8_cont e then Some 4 else None | _ \<Rightarrow> None)
     else None)"

lemma utf8_char_bounds: "utf8_char bs = Some n \<Longrightarrow> 0 < n \<and> n \<le> length bs"
  by (cases bs) (auto split: if_splits list.splits)

function utf8_valid_up_to :: "bytes \<Rightarrow> nat" where
  "utf8_valid_up_to bs =
    (case utf8_char bs of None \<Rightarrow> 0 | Some n \<Rightarrow> n + utf8_valid_up_to (drop n bs))"
  by auto

termination
  by (relation "measure length") (auto dest: utf8_char_bounds)

declare utf8_valid_up_to.simps [simp del]

definition utf8_valid :: "bytes \<Rightarrow> bool" where
  "utf8_valid bs \<longleftrightarrow> utf8_valid_up_to bs = length bs"

section \<open>Validation\<close>

definition validate_float :: "float_width \<Rightarrow> bytes \<Rightarrow> cell_value_parse_error + unit" where
  "validate_float w v =
    (let nan = (case w of F32 \<Rightarrow> f32_is_nan (from_be (decode_float v))
                | F64 \<Rightarrow> f64_is_nan (from_be (decode_float v)));
         neg_zero = (case w of F32 \<Rightarrow> f32_is_neg_zero (from_be (decode_float v))
                     | F64 \<Rightarrow> f64_is_neg_zero (from_be (decode_float v)))
     in if nan then Inl FloatNaN else if neg_zero then Inl NegativeZero else Inr ())"

definition type_validate :: "cell_type \<Rightarrow> bytes \<Rightarrow> cell_value_parse_error + unit" where
  "type_validate ty v =
    attempt
      (case type_width ty of
         Some n \<Rightarrow> if length v \<noteq> n then Inl (LengthMismatch ty n (length v)) else Inr ()
       | None \<Rightarrow> Inr ())
      (\<lambda>_. case ty of
         Bool \<Rightarrow> if hd v > 1 then Inl (InvalidBool (hd v)) else Inr ()
       | Str \<Rightarrow> if utf8_valid v then Inr () else Inl (InvalidUtf8 (utf8_valid_up_to v))
       | Float w \<Rightarrow> validate_float w v
       | _ \<Rightarrow> Inr ())"

section \<open>Type ids\<close>

text \<open>All 24 types, one by one.\<close>

lemma cell_type_all [case_names c0 c1 c2 c3 c4 c5 c6 c7 c8 c9 c10 c11 c12 c13 c14 c15 c16 c17 c18 c19 c20 c21 c22 c23]:
  assumes "P Bool"
    and "P Str"
    and "P Bytes"
    and "P Bytes20"
    and "P (FixedBytes W4)"
    and "P (FixedBytes W8)"
    and "P (FixedBytes W16)"
    and "P (FixedBytes W32)"
    and "P (Uint W4)"
    and "P (Uint W8)"
    and "P (Uint W16)"
    and "P (Uint W32)"
    and "P (SInt W4)"
    and "P (SInt W8)"
    and "P (SInt W16)"
    and "P (SInt W32)"
    and "P (Decimal W4)"
    and "P (Decimal W8)"
    and "P (Decimal W16)"
    and "P (Decimal W32)"
    and "P (Float F32)"
    and "P (Float F64)"
    and "P Date32"
    and "P Timestamp64"
  shows "P ty"
proof (cases ty)
  case (FixedBytes w)
  then show ?thesis using assms by (cases w) simp_all
next
  case (Uint w)
  then show ?thesis using assms by (cases w) simp_all
next
  case (SInt w)
  then show ?thesis using assms by (cases w) simp_all
next
  case (Decimal w)
  then show ?thesis using assms by (cases w) simp_all
next
  case (Float w)
  then show ?thesis using assms by (cases w) simp_all
qed (simp_all add: assms)

lemma id_of_type [simp]: "from_id (cell_type_id ty) = Inr ty"
  by (induction ty rule: cell_type_all) (simp_all add: from_id_def from_w_def)

lemma byte_between:
  fixes i a :: byte
  assumes "a \<le> i" "i \<le> a + 3" "unat a \<le> 200"
  shows "i = a \<or> i = a + 1 \<or> i = a + 2 \<or> i = a + 3"
proof -
  have "unat (a + 3) = unat a + 3" "unat (a + 1) = unat a + 1" "unat (a + 2) = unat a + 2"
    using assms(3) by (simp_all add: unat_word_ariths)
  then show ?thesis
    using assms(1,2) unfolding word_le_nat_alt word_unat_eq_iff by linarith
qed

lemma type_of_id: "from_id i = Inr ty \<Longrightarrow> cell_type_id ty = i"
  using byte_between [of 8 i] byte_between [of 12 i] byte_between [of 16 i] byte_between [of 20 i]
  by (auto simp: from_id_def from_w_def split: if_splits)

lemma from_id_iff: "from_id i = Inr ty \<longleftrightarrow> i = cell_type_id ty"
  using type_of_id by auto

lemma cell_type_id_masks:
  "cell_type_id ty AND 0x7F = cell_type_id ty"
  "(cell_type_id ty OR 0x80) AND 0x7F = cell_type_id ty"
  "cell_type_id ty AND 0x80 = 0"
  "(cell_type_id ty OR 0x80) AND 0x80 = 0x80"
  by (induction ty rule: cell_type_all) simp_all

end
