(* ===== verification/Cell_Order.thy ===== *)
theory Cell_Order
  imports Cell_Types
begin

text \<open>
  Why the stored forms of \<^verbatim>\<open>crates/cells/src/order.rs\<close> sort like the values: the numbers
  that the stored bytes encode, for signed integers of every width and for floats. A
  float is compared by \<open>float_scaled\<close>, its value times a power of two that makes every
  finite value an integer; infinity is the next magnitude after the largest finite one.
\<close>

section \<open>Sign flips\<close>

lemma flip_sign_flip_sign [simp]: "flip_sign (flip_sign bs) = bs"
  by (cases bs) (simp_all add: xor.assoc)

lemma length_flip_sign [simp]: "length (flip_sign bs) = length bs"
  by (cases bs) simp_all

lemma and_sign_bit: "(b :: byte) AND 0x80 = 0 \<longleftrightarrow> \<not> bit b 7"
  using and_exp_eq_0_iff_not_bit [of b 7] by simp

lemma bit_sign_bit: "bit (0x80 :: byte) 7"
  using bit_exp_iff [of 7 7, where ?'a = byte] by simp

lemma xor_sign_bit: "(b :: byte) XOR 0x80 = b + 0x80"
proof (cases "bit b 7")
  case False
  then show ?thesis
    using and_sign_bit [of b] by (simp add: disjunctive_add_eq_xor)
next
  case True
  then have "(b XOR 0x80) AND 0x80 = 0"
    using and_sign_bit [of "b XOR 0x80"] bit_sign_bit by (simp add: bit_xor_iff)
  then have "(b XOR 0x80) + 0x80 = b"
    by (simp add: disjunctive_add_eq_xor xor.assoc)
  then have "b + 0x80 = (b XOR 0x80) + 0x80 + 0x80"
    by simp
  also have "\<dots> = b XOR 0x80"
    by (simp only: add.assoc) simp
  finally show ?thesis
    by simp
qed

lemma bit7_byte: "bit (b :: byte) 7 \<longleftrightarrow> 128 \<le> unat b"
proof -
  have "bit b 7 \<longleftrightarrow> odd (unat b div 2 ^ 7)"
    using bit_unsigned_iff [of b 7, where ?'a = nat] by (simp add: bit_iff_odd [of "unat b"])
  also have "\<dots> \<longleftrightarrow> 128 \<le> unat b"
  proof (cases "128 \<le> unat b")
    case True
    then have "unat b div 128 = 1"
      using unat_byte_less [of b] by (intro div_nat_eqI) simp_all
    then show ?thesis
      using True by simp
  qed simp
  finally show ?thesis .
qed

text \<open>Flipping the sign bit adds half the range to the encoded number, modulo the range.\<close>

lemma be_val_flip_sign:
  assumes "bs \<noteq> []"
  shows "be_val (flip_sign bs) = (be_val bs + 256 ^ length bs div 2) mod 256 ^ length bs"
proof -
  obtain b cs where bs: "bs = b # cs"
    using assms by (cases bs) auto
  let ?P = "256 ^ length cs :: nat"
  have "unat (b XOR 0x80) = (unat b + 128) mod 256"
    by (simp add: xor_sign_bit unat_word_ariths)
  then have "be_val (flip_sign bs) = (unat b + 128) mod 256 * ?P + be_val cs"
    by (simp add: bs be_val_Cons)
  also have "\<dots> = ((unat b + 128) * ?P + be_val cs) mod (?P * 256)"
    unfolding mod_mult2_eq [of _ ?P 256] using be_val_less [of cs] by simp
  also have "(unat b + 128) * ?P + be_val cs = be_val bs + 256 ^ length bs div 2"
    by (simp add: bs be_val_Cons algebra_simps)
  finally show ?thesis
    by (simp add: bs mult.commute)
qed

lemma be_val_to_be: "8 dvd LENGTH('a::len) \<Longrightarrow> be_val (to_be (w :: 'a word)) = unat w"
  using unsigned_less [of w, where ?'a = nat] power_bytes [where ?'a = 'a]
  by (simp add: to_be_def be_val_be_bytes)

lemma sint_shift:
  "int ((unat (w :: 'a::len word) + 2 ^ (LENGTH('a) - 1)) mod 2 ^ LENGTH('a)) =
    sint w + 2 ^ (LENGTH('a) - 1)"
proof -
  have "sint w = take_bit LENGTH('a) (uint w + 2 ^ (LENGTH('a) - 1)) - 2 ^ (LENGTH('a) - 1)"
    by (simp add: sint_uint signed_take_bit_eq_take_bit_shift)
  then show ?thesis
    by (simp add: take_bit_eq_mod zmod_int)
qed

lemma half_range:
  "(2 :: nat) ^ LENGTH('a::len) div 2 = 2 ^ (LENGTH('a) - 1)"
proof -
  have "(2 :: nat) ^ LENGTH('a) = 2 * 2 ^ (LENGTH('a) - 1)"
    by (metis Suc_diff_1 len_gt_0 power_Suc)
  then show ?thesis
    by simp
qed

lemma to_be_not_Nil: "8 dvd LENGTH('a::len) \<Longrightarrow> to_be (w :: 'a word) \<noteq> []"
  by (metis dvd_div_eq_0_iff len_gt_0 length_to_be list.size(3) not_gr_zero)

text \<open>The stored form of a signed integer.\<close>

lemma be_val_signed:
  assumes "8 dvd LENGTH('a::len)"
  shows "int (be_val (flip_sign (to_be (w :: 'a word)))) = sint w + 2 ^ (LENGTH('a) - 1)"
  using be_val_flip_sign [OF to_be_not_Nil [OF assms, of w]] sint_shift [of w]
  by (simp add: be_val_to_be [OF assms] half_range [where ?'a = 'a] power_bytes [OF assms])

lemma signed_order:
  fixes v w :: "'a::len word"
  assumes "8 dvd LENGTH('a)"
  shows "flip_sign (to_be v) < flip_sign (to_be w) \<longleftrightarrow> sint v < sint w"
  using be_val_mono [of "flip_sign (to_be v)" "flip_sign (to_be w)"]
    be_val_signed [OF assms, of v] be_val_signed [OF assms, of w]
  by (auto simp: simp flip: of_nat_less_iff)

section \<open>Floats\<close>

text \<open>\<open>float_mag F m\<close>: the magnitude of a float with \<open>F\<close> fraction bits and the bits \<open>m\<close> below
  the sign, times the power of two that makes the least subnormal 1.\<close>

definition float_mag :: "nat \<Rightarrow> nat \<Rightarrow> nat" where
  "float_mag F m =
    (if m div 2 ^ F = 0 then m mod 2 ^ F else (2 ^ F + m mod 2 ^ F) * 2 ^ (m div 2 ^ F - 1))"

definition float_scaled :: "nat \<Rightarrow> 'a::len word \<Rightarrow> int" where
  "float_scaled F w =
    (let half = 2 ^ (LENGTH('a) - 1) in
     if unat w < half then int (float_mag F (unat w)) else - int (float_mag F (unat w - half)))"

lemma float_mag_Suc: "float_mag F m < float_mag F (Suc m)"
proof -
  define e f where "e = m div 2 ^ F" and "f = m mod 2 ^ F"
  have f: "f < 2 ^ F"
    by (simp add: f_def)
  have m: "m = e * 2 ^ F + f"
    by (simp only: e_def f_def div_mult_mod_eq)
  show ?thesis
  proof (cases "Suc f < 2 ^ F")
    case True
    then have "Suc m div 2 ^ F = e" "Suc m mod 2 ^ F = Suc f"
      using m by (metis add_Suc_right div_less div_mult_self3 gr_implies_not_zero plus_nat.add_0
          add.commute, metis add_Suc_right mod_less mod_mult_self3)
    then show ?thesis
      by (simp add: float_mag_def flip: e_def f_def)
  next
    case False
    then have "Suc f = 2 ^ F"
      using f by simp
    then have "Suc m = (e + 1) * 2 ^ F"
      using m by simp
    then have "Suc m div 2 ^ F = e + 1" "Suc m mod 2 ^ F = 0"
      by simp_all
    moreover have "(2 ^ F + f) * 2 ^ (e - 1) < 2 ^ F * 2 ^ e" if "e \<noteq> 0"
    proof -
      have "(2 ^ F + f) * 2 ^ (e - 1) < (2 ^ F + 2 ^ F) * 2 ^ (e - 1)"
        using f by (intro mult_strict_right_mono add_strict_left_mono) simp_all
      also have "\<dots> = 2 ^ F * 2 ^ e"
        using that by (cases e) simp_all
      finally show ?thesis .
    qed
    ultimately show ?thesis
      using f by (simp add: float_mag_def flip: e_def f_def)
  qed
qed

lemma float_mag_less: "float_mag F m < float_mag F n \<longleftrightarrow> m < n"
  using lift_Suc_mono_less [of "float_mag F", OF float_mag_Suc] by (metis linorder_neqE_nat order_less_asym less_irrefl)

lemma float_mag_0 [simp]: "float_mag F 0 = 0"
  by (simp add: float_mag_def)

lemma float_mag_pos: "0 < float_mag F m \<longleftrightarrow> 0 < m"
  using float_mag_less [of F 0 m] by simp

text \<open>The number that the stored form of a float encodes.\<close>

lemma be_val_not: "be_val (map (\<lambda>b. NOT b) bs) = 256 ^ length bs - 1 - be_val bs"
proof (induction bs)
  case Nil
  then show ?case by simp
next
  case (Cons b bs)
  have nb: "unat (NOT b) = 255 - unat b"
  proof -
    have "b \<le> 255"
      using unat_byte_less [of b] by (simp add: word_le_nat_alt del: unat_byte_less)
    moreover have "NOT b = 255 - b"
      by (simp add: not_eq_complement)
    ultimately show ?thesis
      by (simp add: unat_sub)
  qed
  have "be_val bs < 256 ^ length bs" "unat b < 256"
    by (simp_all add: be_val_less)
  moreover have "(255 - unat b) * 256 ^ length bs + unat b * 256 ^ length bs = 255 * 256 ^ length bs"
  proof -
    have "255 - unat b + unat b = 255"
      using unat_byte_less [of b] by linarith
    then show ?thesis
      by (simp only: add_mult_distrib [symmetric])
  qed
  ultimately show ?case
    using Cons nb by (simp add: be_val_Cons)
qed

lemma hd_to_be_sign:
  assumes "8 dvd LENGTH('a::len)"
  shows "hd (to_be (w :: 'a word)) AND 0x80 = 0 \<longleftrightarrow> unat w < 2 ^ (LENGTH('a) - 1)"
proof -
  obtain b bs where w: "to_be w = b # bs"
    using to_be_not_Nil [OF assms, of w] by (cases "to_be w") auto
  then have val: "unat b * 256 ^ length bs + be_val bs = unat w" and len: "Suc (length bs) = LENGTH('a) div 8"
    using be_val_to_be [OF assms, of w] length_to_be [of w] by (simp_all add: be_val_Cons)
  have "2 ^ (LENGTH('a) - 1) = 128 * (256 :: nat) ^ length bs"
    using power_bytes [OF assms] half_range [where ?'a = 'a] by (simp flip: len)
  moreover have "unat b * 256 ^ length bs + be_val bs < 128 * 256 ^ length bs \<longleftrightarrow> unat b < 128"
  proof
    assume "unat b < 128"
    then have "(unat b + 1) * 256 ^ length bs \<le> 128 * 256 ^ length bs"
      by (intro mult_right_mono) simp_all
    then show "unat b * 256 ^ length bs + be_val bs < 128 * 256 ^ length bs"
      using be_val_less [of bs] unfolding add_mult_distrib by linarith
  next
    assume "unat b * 256 ^ length bs + be_val bs < 128 * 256 ^ length bs"
    then have "unat b * 256 ^ length bs < 128 * 256 ^ length bs"
      by linarith
    then show "unat b < 128"
      by simp
  qed
  ultimately show ?thesis
    using w val by (simp add: and_sign_bit bit7_byte not_le)
qed

lemma be_val_replicate [simp]: "be_val (replicate n 0) = 0"
  by (induction n) (simp_all add: be_val_Cons)

lemma eq_replicate_iff: "bs = replicate (length bs) x \<longleftrightarrow> (\<forall>c \<in> set bs. c = x)"
  by (induction bs) auto

lemma neg_zero_bytes:
  assumes "8 dvd LENGTH('a::len)"
  shows "hd (to_be (w :: 'a word)) = 0x80 \<and> list_all (\<lambda>b. b = 0) (tl (to_be w)) \<longleftrightarrow>
    unat w = 2 ^ (LENGTH('a) - 1)"
proof -
  obtain b bs where w: "to_be w = b # bs"
    using to_be_not_Nil [OF assms, of w] by (cases "to_be w") auto
  then have len: "Suc (length bs) = LENGTH('a) div 8"
    using length_to_be [of w] by simp
  have half: "2 ^ (LENGTH('a) - 1) = 128 * (256 :: nat) ^ length bs"
    using power_bytes [OF assms] half_range [where ?'a = 'a] by (simp flip: len)
  have "unat w = 2 ^ (LENGTH('a) - 1) \<longleftrightarrow> be_val (b # bs) = be_val (0x80 # replicate (length bs) 0)"
    using be_val_to_be [OF assms, of w] w unfolding half by (simp add: be_val_Cons)
  also have "\<dots> \<longleftrightarrow> b # bs = 0x80 # replicate (length bs) 0"
    by (rule be_val_inject) simp
  also have "\<dots> \<longleftrightarrow> b = 0x80 \<and> (\<forall>c \<in> set bs. c = 0)"
    by (simp add: eq_replicate_iff)
  finally show ?thesis
    using w by (auto simp: list_all_iff)
qed

definition float_code :: "'a::len word \<Rightarrow> nat" where
  "float_code w =
    (let half = 2 ^ (LENGTH('a) - 1) in
     if unat w < half then half + unat w else if unat w = half then half
     else 2 ^ LENGTH('a) - 1 - unat w)"

lemma be_val_encode_float:
  assumes "8 dvd LENGTH('a::len)"
  shows "be_val (encode_float (to_be (w :: 'a word))) = float_code w"
proof -
  let ?bs = "to_be w" and ?half = "2 ^ (LENGTH('a) - 1) :: nat"
  have N: "256 ^ length ?bs = 2 * ?half" "length ?bs = LENGTH('a) div 8" "2 ^ LENGTH('a) = 2 * ?half"
    using power_bytes [OF assms] half_range [where ?'a = 'a] by (metis length_to_be Suc_diff_1 len_gt_0 power_Suc)+
  have ne: "replicate (length ?bs) 0 \<noteq> ([] :: bytes)" "?bs \<noteq> []"
    using to_be_not_Nil [OF assms, of w] by (metis length_0_conv length_replicate)+
  show ?thesis
    using be_val_flip_sign [OF ne(1)] be_val_flip_sign [OF ne(2)] N be_val_not [of ?bs]
    unfolding encode_float_def neg_zero_bytes [OF assms] hd_to_be_sign [OF assms] float_code_def Let_def
    by (auto simp: be_val_to_be [OF assms] not_less)
qed

lemma float_code_less:
  fixes v w :: "'a::len word"
  shows "float_code v < float_code w \<longleftrightarrow> float_scaled F v < float_scaled F w"
proof -
  define h where "h = (2 :: nat) ^ (LENGTH('a) - 1)"
  have N: "2 ^ LENGTH('a) = 2 * h"
    unfolding h_def by (metis Suc_diff_1 len_gt_0 power_Suc)
  then have less: "unat v < 2 * h" "unat w < 2 * h"
    using unsigned_less [of v, where ?'a = nat] unsigned_less [of w, where ?'a = nat] by simp_all
  have neg: "- int (float_mag F (x - h)) < int y" if "h < x" for x y
  proof -
    have "0 < float_mag F (x - h)"
      using that by (simp add: float_mag_pos)
    then show ?thesis
      by linarith
  qed
  show ?thesis
    unfolding float_code_def float_scaled_def Let_def N h_def [symmetric]
    by (cases "unat v" h rule: linorder_cases; cases "unat w" h rule: linorder_cases)
      (use less in \<open>auto simp: float_mag_less float_mag_pos neg\<close>)
qed

lemma length_encode_float [simp]: "length (encode_float bs) = length bs"
  by (simp add: encode_float_def)

lemma float_order:
  fixes v w :: "'a::len word"
  assumes "8 dvd LENGTH('a)"
  shows "encode_float (to_be v) < encode_float (to_be w) \<longleftrightarrow> float_scaled F v < float_scaled F w"
  using be_val_mono [of "encode_float (to_be v)" "encode_float (to_be w)"]
  by (simp add: be_val_encode_float [OF assms] float_code_less [of v w F])

end
