(* ===== verification/Cell_Value.thy ===== *)
theory Cell_Value
  imports Cell_Order
begin

text \<open>
  \<^verbatim>\<open>crates/cells/src/value.rs\<close>: cell values. \<open>cell_value_ref\<close> is the borrowed view of a
  type, a stored payload and the indexable flag; \<open>cell_value\<close> owns the encoded bytes. The
  codec is proved to be a bijection between the valid views and the byte strings that
  \<open>ref_parse\<close> accepts; the typed constructors and accessors are inverse to each other.
\<close>

definition INDEXABLE_BIT :: byte where "INDEXABLE_BIT = 0x80"
definition TYPE_MASK :: byte where "TYPE_MASK = 0x7F"

record cell_value_ref =
  ref_ty :: cell_type
  ref_value :: bytes
  ref_indexable :: bool

record cell_value =
  cv_bytes :: bytes
  cv_ty :: cell_type

section \<open>The borrowed view\<close>

definition ref_new :: "cell_type \<Rightarrow> bytes \<Rightarrow> bool \<Rightarrow> cell_value_parse_error + cell_value_ref" where
  "ref_new ty v indexable =
    (if indexable \<and> ty = Bytes then Inl NotIndexable
     else attempt (type_validate ty v) (\<lambda>_.
       Inr \<lparr>ref_ty = ty, ref_value = v, ref_indexable = indexable\<rparr>))"

definition ref_parse :: "bytes \<Rightarrow> cell_value_parse_error + cell_value_ref" where
  "ref_parse bs =
    (case bs of
       [] \<Rightarrow> Inl Empty
     | metadata # v \<Rightarrow> attempt (from_id (metadata AND TYPE_MASK)) (\<lambda>ty.
         ref_new ty v (metadata AND INDEXABLE_BIT \<noteq> 0)))"

definition ref_metadata :: "cell_value_ref \<Rightarrow> byte" where
  "ref_metadata c = cell_type_id (ref_ty c) OR (if ref_indexable c then INDEXABLE_BIT else 0)"

definition encode_into :: "cell_value_ref \<Rightarrow> bytes \<Rightarrow> bytes" where
  "encode_into c out = (out @ [ref_metadata c]) @ ref_value c"

definition ref_encode :: "cell_value_ref \<Rightarrow> bytes" where
  "ref_encode c = encode_into c []"

definition ref_kind :: "cell_value_ref \<Rightarrow> cell_kind" where
  "ref_kind c = (if ref_indexable c then Attribute else Field)"

text \<open>\<^verbatim>\<open>exact\<close> converts the payload to an array of the width of the type asked for;
  \<open>exact_width\<close> below shows that the conversion cannot fail on a valid value.\<close>

definition exact :: "cell_value_ref \<Rightarrow> cell_type \<Rightarrow> bytes option" where
  "exact c want = (if ref_ty c = want then Some (ref_value c) else None)"

definition as_bool :: "cell_value_ref \<Rightarrow> bool option" where
  "as_bool c = map_option (\<lambda>b. hd b = 1) (exact c Bool)"

definition as_str :: "cell_value_ref \<Rightarrow> bytes option" where
  "as_str c = (if ref_ty c = Str \<and> utf8_valid (ref_value c) then Some (ref_value c) else None)"

definition as_bytes :: "cell_value_ref \<Rightarrow> bytes option" where
  "as_bytes c = (if ref_ty c = Bytes then Some (ref_value c) else None)"

definition as_bytes4 :: "cell_value_ref \<Rightarrow> bytes option" where
  "as_bytes4 c = exact c (FixedBytes W4)"

definition as_bytes8 :: "cell_value_ref \<Rightarrow> bytes option" where
  "as_bytes8 c = exact c (FixedBytes W8)"

definition as_bytes16 :: "cell_value_ref \<Rightarrow> bytes option" where
  "as_bytes16 c = exact c (FixedBytes W16)"

definition as_bytes20 :: "cell_value_ref \<Rightarrow> bytes option" where
  "as_bytes20 c = exact c Bytes20"

definition as_bytes32 :: "cell_value_ref \<Rightarrow> bytes option" where
  "as_bytes32 c = exact c (FixedBytes W32)"

definition as_u32 :: "cell_value_ref \<Rightarrow> (32 word) option" where
  "as_u32 c = map_option from_be (exact c (Uint W4))"

definition as_u64 :: "cell_value_ref \<Rightarrow> (64 word) option" where
  "as_u64 c = map_option from_be (exact c (Uint W8))"

definition as_u128 :: "cell_value_ref \<Rightarrow> (128 word) option" where
  "as_u128 c = map_option from_be (exact c (Uint W16))"

definition as_u256_be :: "cell_value_ref \<Rightarrow> bytes option" where
  "as_u256_be c = exact c (Uint W32)"

definition as_i32 :: "cell_value_ref \<Rightarrow> (32 word) option" where
  "as_i32 c = map_option (\<lambda>b. from_be (flip_sign b)) (exact c (SInt W4))"

definition as_i64 :: "cell_value_ref \<Rightarrow> (64 word) option" where
  "as_i64 c = map_option (\<lambda>b. from_be (flip_sign b)) (exact c (SInt W8))"

definition as_i128 :: "cell_value_ref \<Rightarrow> (128 word) option" where
  "as_i128 c = map_option (\<lambda>b. from_be (flip_sign b)) (exact c (SInt W16))"

definition as_i256_be :: "cell_value_ref \<Rightarrow> bytes option" where
  "as_i256_be c = map_option flip_sign (exact c (SInt W32))"

definition as_dec32_unscaled :: "cell_value_ref \<Rightarrow> (32 word) option" where
  "as_dec32_unscaled c = map_option (\<lambda>b. from_be (flip_sign b)) (exact c (Decimal W4))"

definition as_dec64_unscaled :: "cell_value_ref \<Rightarrow> (64 word) option" where
  "as_dec64_unscaled c = map_option (\<lambda>b. from_be (flip_sign b)) (exact c (Decimal W8))"

definition as_dec128_unscaled :: "cell_value_ref \<Rightarrow> (128 word) option" where
  "as_dec128_unscaled c = map_option (\<lambda>b. from_be (flip_sign b)) (exact c (Decimal W16))"

definition as_dec256_unscaled_be :: "cell_value_ref \<Rightarrow> bytes option" where
  "as_dec256_unscaled_be c = map_option flip_sign (exact c (Decimal W32))"

definition as_f32 :: "cell_value_ref \<Rightarrow> (32 word) option" where
  "as_f32 c = map_option (\<lambda>b. from_be (decode_float b)) (exact c (Float F32))"

definition as_f64 :: "cell_value_ref \<Rightarrow> (64 word) option" where
  "as_f64 c = map_option (\<lambda>b. from_be (decode_float b)) (exact c (Float F64))"

definition as_date32 :: "cell_value_ref \<Rightarrow> (32 word) option" where
  "as_date32 c = map_option (\<lambda>b. from_be (flip_sign b)) (exact c Date32)"

definition as_timestamp64 :: "cell_value_ref \<Rightarrow> (64 word) option" where
  "as_timestamp64 c = map_option (\<lambda>b. from_be (flip_sign b)) (exact c Timestamp64)"

section \<open>The owned value\<close>

definition cv_parse :: "bytes \<Rightarrow> cell_value_parse_error + cell_value" where
  "cv_parse bs = attempt (ref_parse bs) (\<lambda>c. Inr \<lparr>cv_bytes = bs, cv_ty = ref_ty c\<rparr>)"

definition as_view :: "cell_value \<Rightarrow> cell_value_ref" where
  "as_view v = \<lparr>ref_ty = cv_ty v, ref_value = tl (cv_bytes v),
    ref_indexable = (hd (cv_bytes v) AND INDEXABLE_BIT \<noteq> 0)\<rparr>"

definition cv_metadata :: "cell_value \<Rightarrow> byte" where
  "cv_metadata v = hd (cv_bytes v)"

definition cv_value :: "cell_value \<Rightarrow> bytes" where
  "cv_value v = tl (cv_bytes v)"

definition cv_is_indexable :: "cell_value \<Rightarrow> bool" where
  "cv_is_indexable v \<longleftrightarrow> hd (cv_bytes v) AND INDEXABLE_BIT \<noteq> 0"

definition cv_kind :: "cell_value \<Rightarrow> cell_kind" where
  "cv_kind v = ref_kind (as_view v)"

definition with_kind :: "cell_value \<Rightarrow> cell_kind \<Rightarrow> cell_value_parse_error + cell_value" where
  "with_kind v kind =
    (if kind = Attribute \<and> cv_ty v = Bytes then Inl NotIndexable
     else Inr (v\<lparr>cv_bytes := (cv_bytes v)[0 :=
       cell_type_id (cv_ty v) OR (case kind of Field \<Rightarrow> 0 | Attribute \<Rightarrow> INDEXABLE_BIT)]\<rparr>))"

text \<open>\<^verbatim>\<open>From<CellValueRef> for CellValue\<close>\<close>

definition cv_from :: "cell_value_ref \<Rightarrow> cell_value" where
  "cv_from c = \<lparr>cv_bytes = ref_encode c, cv_ty = ref_ty c\<rparr>"

definition field_from_typed :: "cell_type \<Rightarrow> bytes \<Rightarrow> cell_value" where
  "field_from_typed ty v = cv_from \<lparr>ref_ty = ty, ref_value = v, ref_indexable = False\<rparr>"

definition from_bool :: "bool \<Rightarrow> cell_value" where
  "from_bool v = field_from_typed Bool [if v then 1 else 0]"

text \<open>A Rust \<^verbatim>\<open>&str\<close> is a byte string that is valid UTF-8.\<close>

definition from_str :: "bytes \<Rightarrow> cell_value" where
  "from_str v = field_from_typed Str v"

definition from_bytes :: "bytes \<Rightarrow> cell_value" where
  "from_bytes v = field_from_typed Bytes v"

definition from_bytes4 :: "bytes \<Rightarrow> cell_value" where
  "from_bytes4 v = field_from_typed (FixedBytes W4) v"

definition from_bytes8 :: "bytes \<Rightarrow> cell_value" where
  "from_bytes8 v = field_from_typed (FixedBytes W8) v"

definition from_bytes16 :: "bytes \<Rightarrow> cell_value" where
  "from_bytes16 v = field_from_typed (FixedBytes W16) v"

definition from_bytes20 :: "bytes \<Rightarrow> cell_value" where
  "from_bytes20 v = field_from_typed Bytes20 v"

definition from_bytes32 :: "bytes \<Rightarrow> cell_value" where
  "from_bytes32 v = field_from_typed (FixedBytes W32) v"

definition from_u32 :: "32 word \<Rightarrow> cell_value" where
  "from_u32 v = field_from_typed (Uint W4) (to_be v)"

definition from_u64 :: "64 word \<Rightarrow> cell_value" where
  "from_u64 v = field_from_typed (Uint W8) (to_be v)"

definition from_u128 :: "128 word \<Rightarrow> cell_value" where
  "from_u128 v = field_from_typed (Uint W16) (to_be v)"

definition from_u256_be :: "bytes \<Rightarrow> cell_value" where
  "from_u256_be v = field_from_typed (Uint W32) v"

definition from_i32 :: "32 word \<Rightarrow> cell_value" where
  "from_i32 v = field_from_typed (SInt W4) (flip_sign (to_be v))"

definition from_i64 :: "64 word \<Rightarrow> cell_value" where
  "from_i64 v = field_from_typed (SInt W8) (flip_sign (to_be v))"

definition from_i128 :: "128 word \<Rightarrow> cell_value" where
  "from_i128 v = field_from_typed (SInt W16) (flip_sign (to_be v))"

definition from_i256_be :: "bytes \<Rightarrow> cell_value" where
  "from_i256_be v = field_from_typed (SInt W32) (flip_sign v)"

definition from_dec32_unscaled :: "32 word \<Rightarrow> cell_value" where
  "from_dec32_unscaled v = field_from_typed (Decimal W4) (flip_sign (to_be v))"

definition from_dec64_unscaled :: "64 word \<Rightarrow> cell_value" where
  "from_dec64_unscaled v = field_from_typed (Decimal W8) (flip_sign (to_be v))"

definition from_dec128_unscaled :: "128 word \<Rightarrow> cell_value" where
  "from_dec128_unscaled v = field_from_typed (Decimal W16) (flip_sign (to_be v))"

definition from_dec256_unscaled_be :: "bytes \<Rightarrow> cell_value" where
  "from_dec256_unscaled_be v = field_from_typed (Decimal W32) (flip_sign v)"

definition from_date32 :: "32 word \<Rightarrow> cell_value" where
  "from_date32 v = field_from_typed Date32 (flip_sign (to_be v))"

definition from_timestamp64 :: "64 word \<Rightarrow> cell_value" where
  "from_timestamp64 v = field_from_typed Timestamp64 (flip_sign (to_be v))"

definition from_f32 :: "32 word \<Rightarrow> cell_value_parse_error + cell_value" where
  "from_f32 v = (if f32_is_nan v then Inl FloatNaN
     else Inr (field_from_typed (Float F32) (encode_float (to_be v))))"

definition from_f64 :: "64 word \<Rightarrow> cell_value_parse_error + cell_value" where
  "from_f64 v = (if f64_is_nan v then Inl FloatNaN
     else Inr (field_from_typed (Float F64) (encode_float (to_be v))))"

text \<open>The accessors of the owned value go through its view.\<close>

definition cv_as_bool :: "cell_value \<Rightarrow> bool option" where
  "cv_as_bool v = as_bool (as_view v)"

definition cv_as_str :: "cell_value \<Rightarrow> bytes option" where
  "cv_as_str v = as_str (as_view v)"

definition cv_as_bytes :: "cell_value \<Rightarrow> bytes option" where
  "cv_as_bytes v = as_bytes (as_view v)"

definition cv_as_bytes4 :: "cell_value \<Rightarrow> bytes option" where
  "cv_as_bytes4 v = as_bytes4 (as_view v)"

definition cv_as_bytes8 :: "cell_value \<Rightarrow> bytes option" where
  "cv_as_bytes8 v = as_bytes8 (as_view v)"

definition cv_as_bytes16 :: "cell_value \<Rightarrow> bytes option" where
  "cv_as_bytes16 v = as_bytes16 (as_view v)"

definition cv_as_bytes20 :: "cell_value \<Rightarrow> bytes option" where
  "cv_as_bytes20 v = as_bytes20 (as_view v)"

definition cv_as_bytes32 :: "cell_value \<Rightarrow> bytes option" where
  "cv_as_bytes32 v = as_bytes32 (as_view v)"

definition cv_as_u32 :: "cell_value \<Rightarrow> (32 word) option" where
  "cv_as_u32 v = as_u32 (as_view v)"

definition cv_as_u64 :: "cell_value \<Rightarrow> (64 word) option" where
  "cv_as_u64 v = as_u64 (as_view v)"

definition cv_as_u128 :: "cell_value \<Rightarrow> (128 word) option" where
  "cv_as_u128 v = as_u128 (as_view v)"

definition cv_as_u256_be :: "cell_value \<Rightarrow> bytes option" where
  "cv_as_u256_be v = as_u256_be (as_view v)"

definition cv_as_i32 :: "cell_value \<Rightarrow> (32 word) option" where
  "cv_as_i32 v = as_i32 (as_view v)"

definition cv_as_i64 :: "cell_value \<Rightarrow> (64 word) option" where
  "cv_as_i64 v = as_i64 (as_view v)"

definition cv_as_i128 :: "cell_value \<Rightarrow> (128 word) option" where
  "cv_as_i128 v = as_i128 (as_view v)"

definition cv_as_i256_be :: "cell_value \<Rightarrow> bytes option" where
  "cv_as_i256_be v = as_i256_be (as_view v)"

definition cv_as_dec32_unscaled :: "cell_value \<Rightarrow> (32 word) option" where
  "cv_as_dec32_unscaled v = as_dec32_unscaled (as_view v)"

definition cv_as_dec64_unscaled :: "cell_value \<Rightarrow> (64 word) option" where
  "cv_as_dec64_unscaled v = as_dec64_unscaled (as_view v)"

definition cv_as_dec128_unscaled :: "cell_value \<Rightarrow> (128 word) option" where
  "cv_as_dec128_unscaled v = as_dec128_unscaled (as_view v)"

definition cv_as_dec256_unscaled_be :: "cell_value \<Rightarrow> bytes option" where
  "cv_as_dec256_unscaled_be v = as_dec256_unscaled_be (as_view v)"

definition cv_as_f32 :: "cell_value \<Rightarrow> (32 word) option" where
  "cv_as_f32 v = as_f32 (as_view v)"

definition cv_as_f64 :: "cell_value \<Rightarrow> (64 word) option" where
  "cv_as_f64 v = as_f64 (as_view v)"

definition cv_as_date32 :: "cell_value \<Rightarrow> (32 word) option" where
  "cv_as_date32 v = as_date32 (as_view v)"

definition cv_as_timestamp64 :: "cell_value \<Rightarrow> (64 word) option" where
  "cv_as_timestamp64 v = as_timestamp64 (as_view v)"

section \<open>The codec is a bijection\<close>

definition ref_valid :: "cell_value_ref \<Rightarrow> bool" where
  "ref_valid c \<longleftrightarrow> ref_new (ref_ty c) (ref_value c) (ref_indexable c) = Inr c"

definition cv_ok :: "cell_value \<Rightarrow> bool" where
  "cv_ok v \<longleftrightarrow> cv_parse (cv_bytes v) = Inr v"

lemma and_exp_bit: "(a :: 'a::len word) AND 2 ^ n = (if bit a n then 2 ^ n else 0)"
  by (rule bit_eqI) (auto simp: bit_simps dest: bit_imp_le_length)

lemma metadata_split:
  "(m :: byte) = (m AND TYPE_MASK) OR (if m AND INDEXABLE_BIT \<noteq> 0 then INDEXABLE_BIT else 0)"
proof -
  have "m = m AND - 1"
    by simp
  also have "- 1 = (0x7F OR 0x80 :: byte)"
    by simp
  finally have "m = (m AND 0x7F) OR (m AND 0x80)"
    by (simp only: bit.conj_disj_distrib)
  moreover have "(if m AND 0x80 \<noteq> 0 then 0x80 else 0) = m AND 0x80"
    using and_exp_bit [of m 7] by simp
  ultimately show ?thesis
    unfolding TYPE_MASK_def INDEXABLE_BIT_def by (simp only:)
qed

lemma ref_metadata_masks [simp]:
  "ref_metadata c AND TYPE_MASK = cell_type_id (ref_ty c)"
  "ref_metadata c AND INDEXABLE_BIT \<noteq> 0 \<longleftrightarrow> ref_indexable c"
  using cell_type_id_masks [of "ref_ty c"]
  by (simp_all add: ref_metadata_def TYPE_MASK_def INDEXABLE_BIT_def)

lemma ref_encode_eq: "ref_encode c = ref_metadata c # ref_value c"
  by (simp add: ref_encode_def encode_into_def)

lemma ref_new_Inr: "ref_new ty v b = Inr c \<longleftrightarrow>
  c = \<lparr>ref_ty = ty, ref_value = v, ref_indexable = b\<rparr> \<and> ref_valid c"
  by (auto simp: ref_new_def ref_valid_def try_simps split: if_splits)

lemma metadata_iff:
  "m AND TYPE_MASK = cell_type_id (ref_ty c) \<and> (m AND INDEXABLE_BIT \<noteq> 0) = ref_indexable c \<longleftrightarrow>
    m = ref_metadata c"
  using metadata_split [of m] ref_metadata_masks [of c] by (auto simp: ref_metadata_def)

lemma ref_parse_iff: "ref_parse bs = Inr c \<longleftrightarrow> ref_valid c \<and> bs = ref_encode c"
proof (cases bs)
  case (Cons m v)
  have "ref_parse bs = Inr c \<longleftrightarrow> ref_valid c \<and> v = ref_value c \<and>
      m AND TYPE_MASK = cell_type_id (ref_ty c) \<and> (m AND INDEXABLE_BIT \<noteq> 0) = ref_indexable c"
    by (cases c) (auto simp: ref_parse_def Cons try_simps from_id_iff ref_new_Inr)
  then show ?thesis
    using metadata_iff [of m c] by (auto simp: Cons ref_encode_eq)
qed (auto simp: ref_parse_def ref_encode_eq)

lemma cv_parse_Inr: "cv_parse bs = Inr v \<longleftrightarrow>
  (\<exists>c. ref_valid c \<and> bs = ref_encode c \<and> v = \<lparr>cv_bytes = bs, cv_ty = ref_ty c\<rparr>)"
  by (auto simp: cv_parse_def try_simps ref_parse_iff)

lemma cv_ok_iff: "cv_ok v \<longleftrightarrow> (\<exists>c. ref_valid c \<and> v = cv_from c)"
  by (cases v) (auto simp: cv_ok_def cv_parse_Inr cv_from_def)

lemma as_view_from [simp]: "as_view (cv_from c) = c"
  by (cases c) (simp add: as_view_def cv_from_def ref_encode_eq)

lemma cv_from_view: "cv_ok v \<Longrightarrow> cv_from (as_view v) = v"
  by (auto simp: cv_ok_iff)

lemma cv_parse_ok: "cv_parse bs = Inr v \<longleftrightarrow> cv_ok v \<and> cv_bytes v = bs"
  by (auto simp: cv_ok_def) (auto simp: cv_parse_Inr)

lemma exact_width:
  "ref_valid c \<Longrightarrow> exact c ty = Some v \<Longrightarrow> type_width ty = Some n \<Longrightarrow> length v = n"
  by (cases c) (auto simp: ref_valid_def ref_new_def exact_def type_validate_def try_simps
      split: if_splits)

text \<open>C28. The cell codec is a bijection: parsing accepts exactly the encodings of valid
  values, and gives back the value that was encoded. So no cell has two encodings and
  no encoding two readings, reserved ids and misplaced index bits included.\<close>

theorem cell_codec_bijective:
  "ref_parse bs = Inr c \<longleftrightarrow> ref_valid c \<and> bs = ref_encode c"
  by (rule ref_parse_iff)

section \<open>Changing the kind\<close>

lemma cv_ok_from [simp]: "cv_ok (cv_from c) \<longleftrightarrow> ref_valid c"
  by (metis as_view_from cv_ok_iff)

lemma ref_valid_alt: "ref_valid c \<longleftrightarrow>
  \<not> (ref_indexable c \<and> ref_ty c = Bytes) \<and> type_validate (ref_ty c) (ref_value c) = Inr ()"
  by (cases c) (auto simp: ref_valid_def ref_new_def try_simps)

lemma with_kind_from: "with_kind (cv_from c) kind =
  (if kind = Attribute \<and> ref_ty c = Bytes then Inl NotIndexable
   else Inr (cv_from (c\<lparr>ref_indexable := (kind = Attribute)\<rparr>)))"
  by (cases kind) (simp_all add: with_kind_def cv_from_def ref_encode_eq ref_metadata_def)

text \<open>C33. Changing the kind of a valid value fails exactly when variable-length bytes are
  asked to become an attribute; otherwise the result is a valid value of that kind with
  the same type and payload.\<close>

theorem with_kind_correct:
  assumes "cv_ok v"
  shows "(kind = Attribute \<and> cv_ty v = Bytes \<longrightarrow> with_kind v kind = Inl NotIndexable) \<and>
    (\<not> (kind = Attribute \<and> cv_ty v = Bytes) \<longrightarrow>
      (\<exists>v'. with_kind v kind = Inr v' \<and> cv_ok v' \<and> cv_kind v' = kind \<and>
        cv_ty v' = cv_ty v \<and> cv_value v' = cv_value v))"
proof -
  obtain c where c: "ref_valid c" "v = cv_from c"
    using assms by (auto simp: cv_ok_iff)
  moreover have "cv_ty (cv_from c) = ref_ty c" "cv_value (cv_from c) = ref_value c" for c
    by (simp_all add: cv_from_def cv_value_def ref_encode_eq)
  moreover have "cv_kind (cv_from c) = ref_kind c" for c
    by (simp add: cv_kind_def)
  moreover have "(if kind = Attribute then Attribute else Field) = kind"
    by (cases kind) simp_all
  ultimately show ?thesis
    by (auto simp: with_kind_from ref_kind_def ref_valid_alt)
qed

theorem with_kind_correct_witness:
  "cv_ok (from_bool True) \<and> (\<exists>v'. with_kind (from_bool True) Attribute = Inr v' \<and> cv_kind v' = Attribute)"
proof -
  have ok: "cv_ok (from_bool True)"
    by (simp add: from_bool_def field_from_typed_def ref_valid_alt type_validate_def)
  then show ?thesis
    using with_kind_correct [OF ok, of Attribute]
    by (auto simp: from_bool_def field_from_typed_def cv_from_def)
qed

section \<open>Typed constructors\<close>

lemma cv_value_typed [simp]: "cv_value (field_from_typed ty v) = v"
  by (simp add: cv_value_def field_from_typed_def cv_from_def ref_encode_eq)

lemma as_view_typed [simp]:
  "as_view (field_from_typed ty v) = \<lparr>ref_ty = ty, ref_value = v, ref_indexable = False\<rparr>"
  by (simp add: field_from_typed_def)

lemma cv_ok_typed [simp]: "cv_ok (field_from_typed ty v) \<longleftrightarrow> type_validate ty v = Inr ()"
  by (simp add: field_from_typed_def ref_valid_alt)

lemmas typed_defs = exact_def type_validate_def width_bytes_def

lemmas typed_number_defs =
  from_u32_def as_u32_def cv_as_u32_def from_u64_def as_u64_def cv_as_u64_def from_u128_def
  as_u128_def cv_as_u128_def from_i32_def as_i32_def cv_as_i32_def from_i64_def as_i64_def
  cv_as_i64_def from_i128_def as_i128_def cv_as_i128_def from_dec32_unscaled_def
  as_dec32_unscaled_def cv_as_dec32_unscaled_def from_dec64_unscaled_def
  as_dec64_unscaled_def cv_as_dec64_unscaled_def from_dec128_unscaled_def
  as_dec128_unscaled_def cv_as_dec128_unscaled_def from_date32_def as_date32_def
  cv_as_date32_def from_timestamp64_def as_timestamp64_def cv_as_timestamp64_def

lemmas typed_array_defs =
  from_bytes4_def as_bytes4_def cv_as_bytes4_def from_bytes8_def as_bytes8_def
  cv_as_bytes8_def from_bytes16_def as_bytes16_def cv_as_bytes16_def from_bytes20_def
  as_bytes20_def cv_as_bytes20_def from_bytes32_def as_bytes32_def cv_as_bytes32_def
  from_u256_be_def as_u256_be_def cv_as_u256_be_def from_i256_be_def as_i256_be_def
  cv_as_i256_be_def from_dec256_unscaled_be_def as_dec256_unscaled_be_def
  cv_as_dec256_unscaled_be_def

text \<open>C32. The typed constructors of integers, decimals, dates and timestamps give valid
  values, and the accessor of the same type reads the number back.\<close>

theorem typed_number_roundtrip:
  "cv_ok (from_u32 a) \<and> cv_as_u32 (from_u32 a) = Some a \<and>
    cv_ok (from_u64 b) \<and> cv_as_u64 (from_u64 b) = Some b \<and>
    cv_ok (from_u128 c) \<and> cv_as_u128 (from_u128 c) = Some c \<and>
    cv_ok (from_i32 d) \<and> cv_as_i32 (from_i32 d) = Some d \<and>
    cv_ok (from_i64 e) \<and> cv_as_i64 (from_i64 e) = Some e \<and>
    cv_ok (from_i128 f) \<and> cv_as_i128 (from_i128 f) = Some f \<and>
    cv_ok (from_dec32_unscaled g) \<and> cv_as_dec32_unscaled (from_dec32_unscaled g) = Some g \<and>
    cv_ok (from_dec64_unscaled h) \<and> cv_as_dec64_unscaled (from_dec64_unscaled h) = Some h \<and>
    cv_ok (from_dec128_unscaled i) \<and> cv_as_dec128_unscaled (from_dec128_unscaled i) = Some i \<and>
    cv_ok (from_date32 j) \<and> cv_as_date32 (from_date32 j) = Some j \<and>
    cv_ok (from_timestamp64 k) \<and> cv_as_timestamp64 (from_timestamp64 k) = Some k"
  by (simp add: typed_number_defs typed_defs)

text \<open>The constructors of booleans, text, bytes and fixed-width arrays (the 256 bit
  numbers among them) give valid values that the accessor of the same type reads back.\<close>

lemma typed_array_roundtrip:
  assumes "utf8_valid t" "length b4 = 4" "length b8 = 8" "length b16 = 16" "length b20 = 20"
    "length b32 = 32"
  shows "cv_ok (from_bool x) \<and> cv_as_bool (from_bool x) = Some x \<and>
    cv_ok (from_str t) \<and> cv_as_str (from_str t) = Some t \<and>
    cv_ok (from_bytes v) \<and> cv_as_bytes (from_bytes v) = Some v \<and>
    cv_ok (from_bytes4 b4) \<and> cv_as_bytes4 (from_bytes4 b4) = Some b4 \<and>
    cv_ok (from_bytes8 b8) \<and> cv_as_bytes8 (from_bytes8 b8) = Some b8 \<and>
    cv_ok (from_bytes16 b16) \<and> cv_as_bytes16 (from_bytes16 b16) = Some b16 \<and>
    cv_ok (from_bytes20 b20) \<and> cv_as_bytes20 (from_bytes20 b20) = Some b20 \<and>
    cv_ok (from_bytes32 b32) \<and> cv_as_bytes32 (from_bytes32 b32) = Some b32 \<and>
    cv_ok (from_u256_be b32) \<and> cv_as_u256_be (from_u256_be b32) = Some b32 \<and>
    cv_ok (from_i256_be b32) \<and> cv_as_i256_be (from_i256_be b32) = Some b32 \<and>
    cv_ok (from_dec256_unscaled_be b32) \<and> cv_as_dec256_unscaled_be (from_dec256_unscaled_be b32) = Some b32"
  using assms
  by (simp add: typed_array_defs typed_defs from_bool_def as_bool_def cv_as_bool_def from_str_def
      as_str_def cv_as_str_def from_bytes_def as_bytes_def cv_as_bytes_def)


section \<open>Floats\<close>

lemma map_not_not [simp]: "map (\<lambda>b. NOT b) (map (\<lambda>b. NOT b) bs) = (bs :: bytes)"
  by (simp add: comp_def)

lemma decode_encode_float:
  assumes "8 dvd LENGTH('a::len)"
  shows "decode_float (encode_float (to_be (w :: 'a word))) =
    to_be (if unat w = 2 ^ (LENGTH('a) - 1) then 0 else w)"
proof -
  have ne: "to_be w \<noteq> []"
    by (rule to_be_not_Nil [OF assms])
  have flip: "hd (flip_sign bs) AND 0x80 \<noteq> 0" if "hd bs AND 0x80 = 0" "bs \<noteq> []" for bs
    using that and_sign_bit bit_sign_bit by (cases bs) (auto simp: bit_xor_iff)
  have zero: "to_be (0 :: 'a word) = replicate (length (to_be w)) 0"
    using be_val_inject [of "to_be (0 :: 'a word)" "replicate (length (to_be w)) 0"]
    by (simp add: be_val_to_be [OF assms])
  show ?thesis
  proof (cases "unat w = 2 ^ (LENGTH('a) - 1)")
    case True
    moreover have "replicate (length (to_be w)) 0 \<noteq> ([] :: bytes)"
      using ne by (metis length_0_conv length_replicate)
    moreover have "hd (replicate (length (to_be w)) 0) AND 0x80 = (0 :: byte)"
      using calculation(2) by (metis and_zero_eq hd_in_set in_set_replicate and.left_commute and.commute)
    ultimately show ?thesis
      using flip zero unfolding encode_float_def neg_zero_bytes [OF assms] decode_float_def by simp
  next
    case False
    have "hd (map (\<lambda>b. NOT b) (to_be w)) AND 0x80 = 0" if "hd (to_be w) AND 0x80 \<noteq> 0"
      using that ne and_sign_bit by (cases "to_be w") (auto simp: bit_not_iff)
    then show ?thesis
      using False flip ne unfolding encode_float_def neg_zero_bytes [OF assms] decode_float_def
      by (auto simp: comp_def)
  qed
qed

lemma validate_encode_f32:
  "\<not> f32_is_nan x \<Longrightarrow> validate_float F32 (encode_float (to_be x)) = Inr ()"
  by (simp add: validate_float_def decode_encode_float f32_is_nan_def f32_is_neg_zero_def
      word_unat_eq_iff)

lemma validate_encode_f64:
  "\<not> f64_is_nan x \<Longrightarrow> validate_float F64 (encode_float (to_be x)) = Inr ()"
  by (simp add: validate_float_def decode_encode_float f64_is_nan_def f64_is_neg_zero_def
      word_unat_eq_iff)

text \<open>C31. A float constructor rejects exactly the NaNs; every other float gives a valid value
  from which the accessor reads the same float back, negative zero as zero.\<close>

theorem float_roundtrip:
  "(if f32_is_nan x then from_f32 x = Inl FloatNaN
    else \<exists>v. from_f32 x = Inr v \<and> cv_ok v \<and>
      cv_as_f32 v = Some (if f32_is_neg_zero x then 0 else x)) \<and>
   (if f64_is_nan y then from_f64 y = Inl FloatNaN
    else \<exists>v. from_f64 y = Inr v \<and> cv_ok v \<and>
      cv_as_f64 v = Some (if f64_is_neg_zero y then 0 else y))"
  by (simp add: from_f32_def from_f64_def cv_as_f32_def cv_as_f64_def as_f32_def as_f64_def typed_defs
      validate_encode_f32 validate_encode_f64 decode_encode_float f32_is_neg_zero_def
      f64_is_neg_zero_def word_unat_eq_iff)

text \<open>C30. The payloads of two float values compare bytewise exactly as the numbers compare:
  \<open>float_scaled 23\<close> and \<open>float_scaled 52\<close> are the values of the floats times \<open>2 ^ 149\<close> and
  \<open>2 ^ 1074\<close>, with infinity above every finite value.\<close>

theorem stored_order_is_float_order:
  "(from_f32 v = Inr a \<longrightarrow> from_f32 w = Inr b \<longrightarrow>
      (cv_value a < cv_value b \<longleftrightarrow> float_scaled 23 v < float_scaled 23 w)) \<and>
   (from_f64 x = Inr c \<longrightarrow> from_f64 y = Inr d \<longrightarrow>
      (cv_value c < cv_value d \<longleftrightarrow> float_scaled 52 x < float_scaled 52 y))"
  by (auto simp: from_f32_def from_f64_def float_order [of v w 23] float_order [of x y 52]
      split: if_splits)

theorem stored_order_is_float_order_witness:
  "\<exists>a b. from_f32 0xC0000000 = Inr a \<and> from_f32 0x3F800000 = Inr b \<and>
    float_scaled 23 (0xC0000000 :: u32) = - (2 ^ 150) \<and>
    float_scaled 23 (0x3F800000 :: u32) = 2 ^ 149 \<and> cv_value a < cv_value b"
proof -
  have f: "\<exists>a. from_f32 0xC0000000 = Inr a" "\<exists>b. from_f32 0x3F800000 = Inr b"
    by (simp_all add: from_f32_def f32_is_nan_def)
  have v: "float_scaled 23 (0xC0000000 :: u32) = - (2 ^ 150)"
      "float_scaled 23 (0x3F800000 :: u32) = 2 ^ 149"
    by (simp_all add: float_scaled_def float_mag_def)
  obtain a b where ab: "from_f32 0xC0000000 = Inr a" "from_f32 0x3F800000 = Inr b"
    using f by blast
  then have "cv_value a < cv_value b"
    using stored_order_is_float_order [of "0xC0000000" a "0x3F800000" b] v by simp
  then show ?thesis
    using ab v by blast
qed

end
