(* ===== verification/Cell_Key.thy ===== *)
theory Cell_Key
  imports Cell_Value "HOL-Library.Sublist"
begin

text \<open>
  \<^verbatim>\<open>crates/cells/src/name.rs\<close>, \<^verbatim>\<open>key.rs\<close>, \<^verbatim>\<open>config.rs\<close> and \<^verbatim>\<open>system.rs\<close>: the grammar of cell
  names, cell addresses and their order-preserving encoding, the admission limits of a
  deployment, and the catalogue of reserved records. A name is its bytes.
\<close>

definition ascii :: "string \<Rightarrow> bytes" where
  "ascii = map of_char"

section \<open>Names\<close>

datatype cell_name_error =
    NameEmpty
  | NameTooLong nat nat
  | NotAlphaFirst byte
  | InvalidByte nat byte

definition is_ascii_alphabetic :: "byte \<Rightarrow> bool" where
  "is_ascii_alphabetic b \<longleftrightarrow> (0x41 \<le> b \<and> b \<le> 0x5A) \<or> (0x61 \<le> b \<and> b \<le> 0x7A)"

definition is_ascii_digit :: "byte \<Rightarrow> bool" where
  "is_ascii_digit b \<longleftrightarrow> 0x30 \<le> b \<and> b \<le> 0x39"

definition is_rest :: "byte \<Rightarrow> bool" where
  "is_rest b \<longleftrightarrow> is_ascii_alphabetic b \<or> is_ascii_digit b \<or> b = 0x5F \<or> b = 0x2D \<or> b = 0x2E \<or> b = 0x3A"

definition name_check :: "bytes \<Rightarrow> nat \<Rightarrow> cell_name_error + unit" where
  "name_check name base =
    (case name of
       [] \<Rightarrow> Inl NameEmpty
     | first # rest \<Rightarrow>
         if \<not> is_ascii_alphabetic first then Inl (NotAlphaFirst first)
         else (case position (\<lambda>b. \<not> is_rest b) rest of
             Some i \<Rightarrow> Inl (InvalidByte (base + 1 + i) (rest ! i))
           | None \<Rightarrow> Inr ()))"

definition strip_prefix :: "bytes \<Rightarrow> bytes \<Rightarrow> bytes option" where
  "strip_prefix p bs = (if take (length p) bs = p then Some (drop (length p) bs) else None)"

definition parse_user :: "bytes \<Rightarrow> nat \<Rightarrow> cell_name_error + bytes" where
  "parse_user name max_len =
    (if length name > max_len then Inl (NameTooLong max_len (length name))
     else attempt
       (case strip_prefix [0x24] name of
          Some rest \<Rightarrow> name_check rest 1
        | None \<Rightarrow> name_check name 0)
       (\<lambda>_. Inr name))"

definition parse_engine :: "bytes \<Rightarrow> cell_name_error + bytes" where
  "parse_engine name =
    (case name of
       [] \<Rightarrow> Inl NameEmpty
     | b # rest \<Rightarrow>
         if b = 0x23 \<or> b = 0x40 then attempt (name_check rest 1) (\<lambda>_. Inr name)
         else Inl (InvalidByte 0 b))"

text \<open>\<^verbatim>\<open>CellName::projection\<close>: collected through a \<^verbatim>\<open>BTreeSet\<close>.\<close>

definition projection :: "bytes list \<Rightarrow> bytes list" where
  "projection names = sorted_list_of_set (set names)"

definition name_KEY :: bytes where "name_KEY = ascii ''#key''"
definition name_NEXT_RECORD_ID :: bytes where "name_NEXT_RECORD_ID = ascii ''#nextRecordID''"
definition name_MAX_STR_LEN :: bytes where "name_MAX_STR_LEN = ascii ''#maxStrLen''"
definition name_MAX_BYTES_LEN :: bytes where "name_MAX_BYTES_LEN = ascii ''#maxBytesLen''"
definition name_MAX_CELL_NAME_LEN :: bytes where "name_MAX_CELL_NAME_LEN = ascii ''#maxCellNameLen''"

definition reserved_names :: "bytes list" where
  "reserved_names = [name_KEY, name_NEXT_RECORD_ID, name_MAX_STR_LEN, name_MAX_BYTES_LEN,
    name_MAX_CELL_NAME_LEN]"

section \<open>Keys\<close>

datatype cell_key = CellKey (record_id: u64) (key_name: bytes)

datatype cell_key_error = MissingRecordId nat

text \<open>The derived \<^verbatim>\<open>Ord\<close>: the record first, then the name.\<close>

instantiation cell_key :: linorder
begin

definition less_eq_cell_key :: "cell_key \<Rightarrow> cell_key \<Rightarrow> bool" where
  "less_eq_cell_key k l \<longleftrightarrow>
    record_id k < record_id l \<or> record_id k = record_id l \<and> key_name k \<le> key_name l"

definition less_cell_key :: "cell_key \<Rightarrow> cell_key \<Rightarrow> bool" where
  "less_cell_key k l \<longleftrightarrow>
    record_id k < record_id l \<or> record_id k = record_id l \<and> key_name k < key_name l"

instance
  by standard (auto simp: less_eq_cell_key_def less_cell_key_def intro: cell_key.expand)

end

definition key_decode :: "bytes \<Rightarrow> cell_key_error + cell_key" where
  "key_decode bs =
    (if length bs < 8 then Inl (MissingRecordId (length bs))
     else Inr (CellKey (from_be (take 8 bs)) (drop 8 bs)))"

definition key_encode_into :: "cell_key \<Rightarrow> bytes \<Rightarrow> bytes" where
  "key_encode_into k out = (out @ to_be (record_id k)) @ key_name k"

definition key_encode :: "cell_key \<Rightarrow> bytes" where
  "key_encode k = key_encode_into k []"

section \<open>Limits\<close>

record cell_limits =
  max_cell_name_len :: u32
  max_str_len :: u32
  max_bytes_len :: u32

datatype cell_limit_error = CellLimitError cell_type u32 nat

definition limits_parse_user_name :: "cell_limits \<Rightarrow> bytes \<Rightarrow> cell_name_error + bytes" where
  "limits_parse_user_name l name = parse_user name (unat (max_cell_name_len l))"

definition validate_value :: "cell_limits \<Rightarrow> cell_value_ref \<Rightarrow> cell_limit_error + unit" where
  "validate_value l c =
    (case (case ref_ty c of Str \<Rightarrow> Some (max_str_len l) | Bytes \<Rightarrow> Some (max_bytes_len l) | _ \<Rightarrow> None) of
       None \<Rightarrow> Inr ()
     | Some limit \<Rightarrow>
         if length (ref_value c) > unat limit
         then Inl (CellLimitError (ref_ty c) limit (length (ref_value c)))
         else Inr ())"

section \<open>Reserved records\<close>

definition FIRST_USER_RECORD_ID :: u64 where "FIRST_USER_RECORD_ID = 64"

record system_record =
  sys_id :: u64
  sys_key :: bytes

text \<open>The loop of \<^verbatim>\<open>record\<close> copies the name over a zeroed 32-byte key.\<close>

definition system_record :: "u64 \<Rightarrow> string \<Rightarrow> system_record" where
  "system_record i name = \<lparr>sys_id = i, sys_key = ascii name @ replicate (32 - length name) 0\<rparr>"

definition PARAMS :: system_record where "PARAMS = system_record 0 ''#params''"
definition ALLOC :: system_record where "ALLOC = system_record 1 ''#alloc''"
definition ROOTS :: system_record where "ROOTS = system_record 2 ''#roots''"
definition RECORD_KEYS :: system_record where "RECORD_KEYS = system_record 3 ''#recordKeys''"
definition ROOT_INDEX :: system_record where "ROOT_INDEX = system_record 4 ''#rootIndex''"
definition METERING_MODEL :: system_record where "METERING_MODEL = system_record 32 ''@meteringModel''"
definition MODEL_WEIGHT :: system_record where "MODEL_WEIGHT = system_record 33 ''@modelWeight''"

definition system_all :: "system_record list" where
  "system_all = [PARAMS, ALLOC, ROOTS, RECORD_KEYS, ROOT_INDEX, METERING_MODEL, MODEL_WEIGHT]"

definition by_key :: "bytes \<Rightarrow> system_record option" where
  "by_key k = find (\<lambda>r. sys_key r = k) system_all"

section \<open>The grammar\<close>

text \<open>\<^verbatim>\<open>first *rest\<close>, and a user name with its optional leading dollar sign.\<close>

definition name_body :: "bytes \<Rightarrow> bool" where
  "name_body b \<longleftrightarrow> (case b of [] \<Rightarrow> False | f # r \<Rightarrow> is_ascii_alphabetic f \<and> list_all is_rest r)"

definition user_name :: "bytes \<Rightarrow> bool" where
  "user_name n \<longleftrightarrow> name_body n \<or> (n \<noteq> [] \<and> hd n = 0x24 \<and> name_body (tl n))"

lemma name_check_Inr [try_simps]: "name_check n base = Inr u \<longleftrightarrow> name_body n"
  by (auto simp: name_check_def name_body_def position_None list_all_iff
      dest!: position_Some intro!: bexI [OF _ nth_mem] split: list.splits option.splits)

lemma not_alphabetic: "\<not> is_ascii_alphabetic 0x24" "\<not> is_ascii_alphabetic 0x23"
    "\<not> is_ascii_alphabetic 0x40" "\<not> is_ascii_alphabetic 0" "\<not> is_rest 0"
  by (simp_all add: is_ascii_alphabetic_def is_rest_def is_ascii_digit_def)

lemma name_body_bytes: "name_body b \<Longrightarrow> 0 \<notin> set b \<and> b \<noteq> [] \<and> is_ascii_alphabetic (hd b)"
  using not_alphabetic by (auto simp: name_body_def list_all_iff split: list.splits)

lemma strip_dollar: "strip_prefix [d] n = (case n of [] \<Rightarrow> None | b # r \<Rightarrow> if b = d then Some r else None)"
  by (cases n) (auto simp: strip_prefix_def)

lemma parse_user_Inr:
  "parse_user name limit = Inr n \<longleftrightarrow> n = name \<and> length name \<le> limit \<and> user_name name"
  using not_alphabetic(1)
  by (auto simp: parse_user_def try_simps strip_dollar user_name_def name_body_def
      split: list.splits option.splits if_splits)

text \<open>C35. The user-name parser accepts exactly the names of the documented grammar within the
  length limit, unchanged; an accepted name holds no zero byte (the separator of index
  keys) and is never an engine name.\<close>

theorem user_name_accepted:
  "(parse_user name limit = Inr n \<longleftrightarrow> n = name \<and> length name \<le> limit \<and> user_name name) \<and>
   (user_name name \<longrightarrow> 0 \<notin> set name \<and> (\<forall>m. parse_engine name \<noteq> Inr m))"
proof -
  have "0 \<notin> set name" "hd name \<noteq> 0x23" "hd name \<noteq> 0x40" "name \<noteq> []" if "user_name name"
    using that name_body_bytes [of name] name_body_bytes [of "tl name"] not_alphabetic
    by (auto simp: user_name_def) (cases name; auto)+
  then show ?thesis
    using parse_user_Inr by (auto simp: parse_engine_def split: list.splits)
qed

theorem user_name_accepted_witness:
  "user_name (ascii ''$price'') \<and> parse_user (ascii ''$price'') 32 = Inr (ascii ''$price'') \<and>
   0 \<notin> set (ascii ''$price'')"
proof -
  have "user_name (ascii ''$price'')"
    by (simp add: user_name_def ascii_def name_body_def is_ascii_alphabetic_def is_rest_def)
  then show ?thesis
    using user_name_accepted [of "ascii ''$price''" 32 "ascii ''$price''"] by (simp add: ascii_def)
qed

lemma name_error_offset:
  assumes "parse_user name limit = Inl (InvalidByte at b)"
  shows "at < length name \<and> name ! at = b \<and> \<not> is_rest b \<and>
    (\<forall>j < at. is_rest (name ! j) \<or> j = 0 \<and> name ! j = 0x24)"
proof -
  have check: "\<exists>i. k = base + 1 + i \<and> Suc i < length n \<and> n ! Suc i = b \<and> \<not> is_rest b \<and>
      (\<forall>j < Suc i. is_rest (n ! j))" if rejected: "name_check n base = Inl (InvalidByte k b)" for n base k
  proof (cases n)
    case Nil
    then show ?thesis
      using rejected by (simp add: name_check_def)
  next
    case (Cons f r)
    then obtain i where i: "position (\<lambda>b. \<not> is_rest b) r = Some i" "k = base + 1 + i" "b = r ! i"
        "is_ascii_alphabetic f"
      using rejected by (auto simp: name_check_def split: if_splits option.splits)
    then have "is_rest f"
      by (simp add: is_rest_def)
    then show ?thesis
      using position_Some [OF i(1)] i Cons by (auto simp: nth_Cons split: nat.splits)
  qed
  show ?thesis
  proof (cases "\<exists>r. name = 0x24 # r")
    case True
    then obtain r where r: "name = 0x24 # r" by blast
    then have "name_check r 1 = Inl (InvalidByte at b)"
      using assms by (auto simp: parse_user_def strip_dollar try_simps split: if_splits)
    from check [OF this] show ?thesis
      by (auto simp: r nth_Cons split: nat.splits)
  next
    case False
    then have "name_check name 0 = Inl (InvalidByte at b)"
      using assms by (auto simp: parse_user_def strip_dollar try_simps split: if_splits list.splits)
    from check [OF this] show ?thesis
      by auto
  qed
qed

section \<open>Key encodings\<close>

lemma key_encode_eq: "key_encode k = to_be (record_id k) @ key_name k"
  by (simp add: key_encode_def key_encode_into_def)

lemma key_decode_encode [simp]: "key_decode (key_encode k) = Inr k"
  by (simp add: key_decode_def key_encode_eq)

lemma key_encode_decode: "key_decode bs = Inr k \<Longrightarrow> key_encode k = bs"
  by (auto simp: key_decode_def key_encode_eq to_be_from_be split: if_splits)

lemma key_decode_iff: "key_decode bs = Inr k \<longleftrightarrow> bs = key_encode k"
  using key_encode_decode by auto

lemma key_encode_inject [simp]: "key_encode k = key_encode l \<longleftrightarrow> k = l"
  by (metis key_decode_encode sum.inject(2))

lemma key_encode_less [simp]: "key_encode k < key_encode l \<longleftrightarrow> k < l"
  by (simp add: key_encode_eq append_less_iff less_cell_key_def to_be_less to_be_inject)

text \<open>C34. The storage key of a cell decodes to exactly the address it encodes, and encoded
  keys sort bytewise as addresses sort: by record, then by name.\<close>

theorem cell_key_codec:
  "(key_decode bs = Inr k \<longleftrightarrow> bs = key_encode k) \<and>
   (key_encode k < key_encode l \<longleftrightarrow> record_id k < record_id l \<or>
      record_id k = record_id l \<and> key_name k < key_name l)"
  by (simp add: key_decode_iff less_cell_key_def)

section \<open>The catalogue of reserved records\<close>

lemma system_all_keys: "distinct (map sys_key system_all)" "distinct (map sys_id system_all)"
    "\<forall>r \<in> set system_all. length (sys_key r) = 32 \<and> sys_id r < FIRST_USER_RECORD_ID"
  by (simp_all add: system_all_def PARAMS_def ALLOC_def ROOTS_def RECORD_KEYS_def ROOT_INDEX_def
      METERING_MODEL_def MODEL_WEIGHT_def system_record_def ascii_def FIRST_USER_RECORD_ID_def)

lemma find_distinct_key:
  "distinct (map f xs) \<Longrightarrow> find (\<lambda>x. f x = k) xs = Some r \<longleftrightarrow> r \<in> set xs \<and> f r = k"
  by (induction xs) auto

end

