(* ===== verification/Cell_Store.thy ===== *)
theory Cell_Store
  imports Merkle_System Storage_Scan Cell_Key
begin

text \<open>
  \<^verbatim>\<open>crates/cells/src/cells.rs\<close> and \<^verbatim>\<open>cell_trie.rs\<close>: the \<^verbatim>\<open>Cell\<close> table and the trie that commits to
  it. The hash provider is the parameter \<open>H\<close>, a function on byte strings, as in the trie.
\<close>

section \<open>Tables, domains, errors\<close>

definition CELL :: table where "CELL = ''Cell''"
definition CELL_TRIE :: table where "CELL_TRIE = ''CellTrie''"

definition CELL_LEAF_DOMAIN :: byte where "CELL_LEAF_DOMAIN = 0"
definition CELL_BRANCH_DOMAIN :: byte where "CELL_BRANCH_DOMAIN = 1"
definition CELL_TRIE_PATH_BYTES :: nat where "CELL_TRIE_PATH_BYTES = 32"

datatype cell_error =
    CellStorage storage_error
  | CellMerkle merkle_error
  | CellKeyError cell_key_error
  | CellValueError cell_value_parse_error
  | CellRootMismatch

datatype cell_change = CellPut cell_key cell_value | CellDelete cell_key

record cell_value_change =
  ch_key :: cell_key
  ch_before :: "cell_value option"
  ch_after :: "cell_value option"

record cells_update =
  cu_root :: root_ref
  changed_cells :: "cell_value_change list"

section \<open>The cell trie\<close>

definition cell_trie :: "(bytes \<Rightarrow> hash) \<Rightarrow> trie" where
  "cell_trie H = \<lparr>tr_table = CELL_TRIE, tr_domain = CELL_BRANCH_DOMAIN, tr_hasher = H,
    tr_width = CELL_TRIE_PATH_BYTES\<rparr>"

definition cell_leaf :: "(bytes \<Rightarrow> hash) \<Rightarrow> hash \<Rightarrow> cell_value \<Rightarrow> leaf_ref" where
  "cell_leaf H path v = \<lparr>leaf_path = path,
    leaf_hash = hash_parts H [[CELL_LEAF_DOMAIN], path, cv_bytes v]\<rparr>"

definition cell_check ::
  "('tx, 'cur, 'z) read_ops_scheme \<Rightarrow> (bytes \<Rightarrow> hash) \<Rightarrow> 'tx \<Rightarrow> root_ref \<Rightarrow> bytes \<Rightarrow> cell_value option \<Rightarrow>
    cell_error + unit" where
  "cell_check ops H tx root key before =
    (let path = H key in
     attempt (map_err CellMerkle (trie_get ops (cell_trie H) tx root path)) (\<lambda>leaf.
       if leaf \<noteq> map_option (cell_leaf H path) before then Inl CellRootMismatch else Inr ()))"

definition cell_set ::
  "('tx, 'cur, 'z) write_ops_scheme \<Rightarrow> (bytes \<Rightarrow> hash) \<Rightarrow> 'tx \<Rightarrow> root_ref \<Rightarrow>
    (bytes \<times> cell_value option) list \<Rightarrow> cell_error + (root_ref \<times> 'tx)" where
  "cell_set ops H tx root changes =
    map_err CellMerkle (trie_apply ops (cell_trie H) tx root
      (map (\<lambda>(key, value). let path = H key in
        (path, map_option (\<lambda>v. leaf_hash (cell_leaf H path v)) value)) changes))"

definition cell_reopen ::
  "('tx, 'cur, 'z) read_ops_scheme \<Rightarrow> (bytes \<Rightarrow> hash) \<Rightarrow> 'tx \<Rightarrow> hash \<Rightarrow> cell_error + root_ref" where
  "cell_reopen ops H tx h =
    (if h = H [] then
       attempt (map_err CellStorage (tx_cursor ops tx CELL [])) (\<lambda>c.
       attempt (map_err CellStorage (cur_next ops c)) (\<lambda>(row, _).
         if row \<noteq> None then Inl CellRootMismatch else Inr RootEmpty))
     else
       attempt (map_err CellStorage (tx_get ops tx CELL_TRIE h)) (\<lambda>branch.
       if branch \<noteq> None then
         attempt (map_err CellMerkle (validate_root ops (cell_trie H) tx (RootBranch h))) (\<lambda>_.
           Inr (RootBranch h))
       else
         attempt (map_err CellStorage (tx_cursor ops tx CELL [])) (\<lambda>c.
         attempt (map_err CellStorage (cur_next ops c)) (\<lambda>(row, c').
         attempt (ok_or CellRootMismatch row) (\<lambda>(key, value).
         attempt (map_err CellStorage (cur_next ops c')) (\<lambda>(row', _).
         if row' \<noteq> None then Inl CellRootMismatch
         else
           attempt (map_err CellKeyError (key_decode key)) (\<lambda>_.
           attempt (map_err CellValueError (cv_parse value)) (\<lambda>v.
             let leaf = cell_leaf H (H key) v in
             if leaf_hash leaf \<noteq> h then Inl CellRootMismatch else Inr (RootLeaf leaf)))))))))"

section \<open>Cells\<close>

definition read_value ::
  "('tx, 'cur, 'z) read_ops_scheme \<Rightarrow> 'tx \<Rightarrow> bytes \<Rightarrow> cell_error + cell_value option" where
  "read_value ops tx key =
    attempt (map_err CellStorage (tx_get ops tx CELL key)) (\<lambda>row.
      case row of None \<Rightarrow> Inr None
      | Some bs \<Rightarrow> attempt (map_err CellValueError (cv_parse bs)) (\<lambda>v. Inr (Some v)))"

definition cells_get ::
  "('tx, 'cur, 'z) read_ops_scheme \<Rightarrow> 'tx \<Rightarrow> cell_key \<Rightarrow> cell_error + cell_value option" where
  "cells_get ops tx key = read_value ops tx (key_encode key)"

record 'cur cell_scan =
  cs_scan :: "'cur scan"
  cs_done :: bool

definition scan_record ::
  "('tx, 'cur, 'z) read_ops_scheme \<Rightarrow> 'tx \<Rightarrow> u64 \<Rightarrow> cell_error + 'cur cell_scan" where
  "scan_record ops tx rid =
    attempt (map_err CellStorage (scan_prefix ops tx CELL (to_be rid))) (\<lambda>s.
      Inr \<lparr>cs_scan = s, cs_done = False\<rparr>)"

definition cell_scan_next ::
  "('tx, 'cur, 'z) read_ops_scheme \<Rightarrow> 'cur cell_scan \<Rightarrow>
    (cell_error + (cell_key \<times> cell_value)) option \<times> 'cur cell_scan" where
  "cell_scan_next ops s =
    (if cs_done s then (None, s)
     else case scan_next ops (cs_scan s) of
       (None, sc) \<Rightarrow> (None, s\<lparr>cs_scan := sc\<rparr>)
     | (Some item, sc) \<Rightarrow>
         let result = attempt (map_err CellStorage item) (\<lambda>(key, value).
               attempt (map_err CellKeyError (key_decode key)) (\<lambda>k.
               attempt (map_err CellValueError (cv_parse value)) (\<lambda>v. Inr (k, v))))
         in (Some result, s\<lparr>cs_scan := sc, cs_done := isl result\<rparr>))"

partial_function (option) cell_scan_collect ::
  "('tx, 'cur, 'z) read_ops_scheme \<Rightarrow> 'cur cell_scan \<Rightarrow> (cell_error + (cell_key \<times> cell_value) list) option" where
  "cell_scan_collect ops s =
    (case cell_scan_next ops s of
       (None, _) \<Rightarrow> Some (Inr [])
     | (Some (Inl e), _) \<Rightarrow> Some (Inl e)
     | (Some (Inr row), s') \<Rightarrow>
         Option.bind (cell_scan_collect ops s') (\<lambda>r. Some (attempt r (\<lambda>rs. Inr (row # rs)))))"

definition change_entry :: "cell_change \<Rightarrow> cell_key \<times> cell_value option" where
  "change_entry ch = (case ch of CellPut k v \<Rightarrow> (k, Some v) | CellDelete k \<Rightarrow> (k, None))"

definition normalize_changes :: "cell_change list \<Rightarrow> (cell_key \<times> cell_value option) list" where
  "normalize_changes changes = dedup_edits (sort_key fst (map change_entry changes))"

definition check_change ::
  "('tx, 'cur, 'z) read_ops_scheme \<Rightarrow> (bytes \<Rightarrow> hash) \<Rightarrow> 'tx \<Rightarrow> root_ref \<Rightarrow> cell_key \<Rightarrow> cell_value option \<Rightarrow>
    cell_error + (bytes \<times> cell_value_change) option" where
  "check_change ops H tx root key after =
    (let encoded_key = key_encode key in
     attempt (read_value ops tx encoded_key) (\<lambda>before.
     attempt (cell_check ops H tx root encoded_key before) (\<lambda>_.
       Inr (if before \<noteq> after
         then Some (encoded_key, \<lparr>ch_key = key, ch_before = before, ch_after = after\<rparr>) else None))))"

definition write_values ::
  "('tx, 'cur, 'z) write_ops_scheme \<Rightarrow> 'tx \<Rightarrow> (bytes \<times> cell_value_change) list \<Rightarrow> cell_error + 'tx" where
  "write_values ops tx changes_by_key =
    try_fold (\<lambda>(key, change) tx. map_err CellStorage (case ch_after change of
        Some v \<Rightarrow> tx_put ops tx CELL key (cv_bytes v)
      | None \<Rightarrow> attempt (tx_delete ops tx CELL key) (\<lambda>(_, tx'). Inr tx'))) changes_by_key tx"

definition cells_apply ::
  "('tx, 'cur, 'z) write_ops_scheme \<Rightarrow> (bytes \<Rightarrow> hash) \<Rightarrow> 'tx \<Rightarrow> root_ref \<Rightarrow> cell_change list \<Rightarrow>
    cell_error + (cells_update \<times> 'tx)" where
  "cells_apply ops H tx root changes =
    attempt (try_map (\<lambda>(key, after). check_change ops H tx root key after) (normalize_changes changes)) (\<lambda>checked.
      let changes_by_key = List.map_filter id checked in
      attempt (cell_set ops H tx root (map (\<lambda>(key, change). (key, ch_after change)) changes_by_key)) (\<lambda>(root', tx').
      attempt (write_values ops tx' changes_by_key) (\<lambda>tx''.
        Inr (\<lparr>cu_root = root', changed_cells = map snd changes_by_key\<rparr>, tx''))))"

end
