(* ===== verification/Commitment.thy ===== *)
theory Commitment
  imports Merkle_Batch_Laws
begin

text \<open>
  What the cell store and the index share: a batch of keyed updates reduced to its net effect, and a
  trie that commits to a map, with one leaf per key at the key's path. The two stores
  instantiate the path and the commitment.
\<close>

section \<open>Batches of keyed updates\<close>

definition put_all :: "('k \<times> 'v option) list \<Rightarrow> ('k \<rightharpoonup> 'v) \<Rightarrow> 'k \<rightharpoonup> 'v" where
  "put_all es c = fold (\<lambda>(k, x) c. c(k := x)) es c"

lemma put_all_last:
  "put_all es c k = (case rev (filter (\<lambda>e. fst e = k) es) of [] \<Rightarrow> c k | e # _ \<Rightarrow> snd e)"
  by (induction es rule: rev_induct) (auto simp: put_all_def split: prod.splits)

lemma put_all_distinct:
  "distinct (map fst es) \<Longrightarrow> put_all es c k = (case map_of es k of Some x \<Rightarrow> x | None \<Rightarrow> c k)"
proof (induction es arbitrary: c)
  case (Cons e es)
  then have "map_of es (fst e) = None"
    by (simp add: map_of_eq_None_iff)
  then show ?case
    using Cons by (cases e) (auto simp: put_all_def split: option.split)
qed (simp add: put_all_def)

lemma put_all_skip: "distinct (map fst es) \<Longrightarrow> put_all (filter (\<lambda>(k, x). c k \<noteq> x) es) c = put_all es c"
proof (rule ext)
  fix k
  assume d: "distinct (map fst es)"
  then have d': "distinct (map fst (filter (\<lambda>(k, x). c k \<noteq> x) es))"
    by (rule distinct_map_filter)
  show "put_all (filter (\<lambda>(k, x). c k \<noteq> x) es) c k = put_all es c k"
  proof (cases "map_of es k")
    case None
    then have "map_of (filter (\<lambda>(k, x). c k \<noteq> x) es) k = None"
      by (auto simp: map_of_eq_None_iff)
    then show ?thesis
      using None by (simp add: put_all_distinct [OF d] put_all_distinct [OF d'])
  next
    case (Some x)
    then have "(k, y) \<in> set es \<longleftrightarrow> y = x" for y
      using map_of_eq_Some_iff [OF d, of k y] by auto
    then have "map_of (filter (\<lambda>(k, x). c k \<noteq> x) es) k = (if c k = x then None else Some x)"
      using map_of_eq_Some_iff [OF d', of k]
      by (cases "map_of (filter (\<lambda>(k, x). c k \<noteq> x) es) k") auto
    then show ?thesis
      using Some by (simp add: put_all_distinct [OF d] put_all_distinct [OF d'])
  qed
qed

text \<open>The stable sort and the deduplication that keeps the last entry of a key.\<close>

lemma dedup_sort_sorted: "sorted_wrt (<) (map fst (dedup_edits (sort_key fst es)))"
  by (rule dedup_sorted) simp

lemma dedup_sort_distinct: "distinct (map fst (dedup_edits (sort_key fst es)))"
  using dedup_sort_sorted strict_sorted_iff by blast

lemma dedup_sort_keys: "fst ` set (dedup_edits (sort_key fst es)) = fst ` set es"
  by (simp add: dedup_set)

lemma dedup_sort_last: "map_of (dedup_edits (sort_key fst es)) k =
  (case rev (filter (\<lambda>e. fst e = k) es) of [] \<Rightarrow> None | e # _ \<Rightarrow> Some (snd e))"
  by (subst dedup_last) (simp_all only: sorted_sort_key sort_key_stable)

lemma dedup_sort_net: "put_all (dedup_edits (sort_key fst es)) c = put_all es c"
proof (rule ext)
  fix k
  show "put_all (dedup_edits (sort_key fst es)) c k = put_all es c k"
    unfolding put_all_distinct [OF dedup_sort_distinct] dedup_sort_last
    by (subst put_all_last) (simp split: list.splits)
qed

section \<open>Tries that commit to a map\<close>

definition committed :: "('k \<Rightarrow> bytes) \<Rightarrow> ('k \<Rightarrow> 'v \<Rightarrow> hash) \<Rightarrow> ('k \<rightharpoonup> 'v) \<Rightarrow> (bytes \<rightharpoonup> hash) \<Rightarrow> bool" where
  "committed path com c m \<longleftrightarrow> (\<forall>k v. c k = Some v \<longrightarrow> m (path k) = Some (com k v)) \<and>
    (\<forall>p \<in> dom m. \<exists>k \<in> dom c. p = path k)"

definition committed_edit :: "('k \<Rightarrow> bytes) \<Rightarrow> ('k \<Rightarrow> 'v \<Rightarrow> hash) \<Rightarrow> 'k \<times> 'v option \<Rightarrow> edit_entry" where
  "committed_edit path com e = (path (fst e), map_option (com (fst e)) (snd e))"

lemma committed_empty: "committed path com Map.empty Map.empty"
  by (simp add: committed_def)

lemma committed_get:
  assumes "committed path com c m" "inj_on path (insert k (dom c))"
  shows "m (path k) = map_option (com k) (c k)"
proof (cases "c k")
  case None
  have "path k \<notin> dom m"
  proof
    assume "path k \<in> dom m"
    then obtain l where "l \<in> dom c" "path k = path l"
      using assms(1) unfolding committed_def by blast
    then show False
      using assms(2) None by (auto simp: inj_on_def)
  qed
  then show ?thesis
    using None by (auto simp: domIff)
qed (use assms(1) in \<open>simp add: committed_def\<close>)

lemma committed_update:
  assumes "committed path com c m" "inj_on path (insert k (dom c))"
  shows "committed path com (c(k := x)) (m(path k := map_option (com k) x))"
proof -
  have inj: "path l = path k \<longleftrightarrow> l = k" if "l \<in> dom c" for l
    using assms(2) that by (auto simp: inj_on_def)
  have "(m(path k := map_option (com k) x)) (path l) = Some (com l v)" if "(c(k := x)) l = Some v" for l v
    using that assms(1) inj [of l] by (auto simp: committed_def split: if_splits)
  moreover have "\<exists>l \<in> dom (c(k := x)). p = path l" if "p \<in> dom (m(path k := map_option (com k) x))" for p
  proof (cases "p = path k")
    case True
    then show ?thesis
      using that by auto
  next
    case False
    then have "p \<in> dom m"
      using that by (auto split: if_splits)
    then obtain l where "l \<in> dom c" "p = path l"
      using assms(1) unfolding committed_def by blast
    then show ?thesis
      using False by (intro bexI [of _ l]) auto
  qed
  ultimately show ?thesis
    unfolding committed_def by blast
qed

lemma committed_put_all:
  "committed path com c m \<Longrightarrow> inj_on path (dom c \<union> fst ` set es) \<Longrightarrow>
    committed path com (put_all es c) (edits_map m (map (committed_edit path com) es))"
proof (induction es arbitrary: c m)
  case (Cons e es)
  obtain k x where e: "e = (k, x)"
    by (cases e)
  have "inj_on path (insert k (dom c))"
    using Cons.prems(2) by (rule inj_on_subset) (auto simp: e)
  from committed_update [OF Cons.prems(1) this, of x]
  have "committed path com (put_all es (c(k := x)))
      (edits_map (m(path k := map_option (com k) x)) (map (committed_edit path com) es))"
    by (rule Cons.IH) (rule inj_on_subset [OF Cons.prems(2)], auto simp: e split: if_splits)
  then show ?case
    by (simp add: put_all_def edits_map_def committed_edit_def [of path com "(k, x)"] e)
qed (simp add: put_all_def edits_map_def)

lemma committed_single:
  assumes "committed path com c [p \<mapsto> h]" "inj_on path (dom c)"
  obtains k v where "c = [k \<mapsto> v]" "p = path k" "h = com k v"
proof -
  have at: "[p \<mapsto> h] (path l) = Some (com l w)" if "c l = Some w" for l w
    using assms(1) that by (simp add: committed_def)
  obtain k v where k: "c k = Some v" "p = path k"
    using assms(1) by (auto simp: committed_def)
  have "c l = [k \<mapsto> v] l" for l
  proof (cases "c l")
    case (Some w)
    then have "path l = path k"
      using at [OF Some] k(2) by (simp split: if_splits)
    then have "l = k"
      using assms(2) Some k(1) by (auto simp: inj_on_def)
    then show ?thesis
      using k(1) by simp
  qed (use k(1) in auto)
  then have "c = [k \<mapsto> v]" ..
  moreover have "h = com k v"
    using at [OF k(1)] k(2) by simp
  ultimately show thesis
    using that k(2) by blast
qed

section \<open>Writing the rows of a table\<close>

context write_tx
begin

lemma write_row:
  assumes "tx_ok tx" "table_ok t"
  obtains tx' where "(case x of Some v \<Rightarrow> tx_put ops tx t k v
      | None \<Rightarrow> attempt (tx_delete ops tx t k) (\<lambda>(_, tx'). Inr tx')) = Inr tx'" "tx_ok tx'"
    "\<forall>u. u \<noteq> t \<longrightarrow> view tx' u = view tx u" "om_get (view tx' t) = (om_get (view tx t))(k := x)"
proof (cases x)
  case None
  obtain tx' where "tx_delete ops tx t k = Inr (om_get (view tx t) k \<noteq> None, tx')" "tx_ok tx'"
      "view tx' = (view tx)(t := om_del k (view tx t))"
    using delete_law [OF assms] by blast
  then show ?thesis
    using that None by simp
next
  case (Some v)
  obtain tx' where "tx_put ops tx t k v = Inr tx'" "tx_ok tx'" "view tx' = (view tx)(t := om_put k v (view tx t))"
    using put_law [OF assms] by blast
  then show ?thesis
    using that Some by simp
qed

end

end
