(* ===== verification/Cell_Store_Laws.thy ===== *)
theory Cell_Store_Laws
  imports Cell_Store Commitment
begin

text \<open>
  The cell store against its specification, a map from cell keys to values: \<open>cells_at\<close> says that
  the \<^verbatim>\<open>Cell\<close> table holds exactly the encodings of the map and that the trie root commits to it.
  The digest enters through two named hypotheses: it gives 32 bytes (\<open>hash_ok\<close>), and the
  encoded keys in play do not collide (\<open>no_collision\<close>).
\<close>

section \<open>The invariant\<close>

definition hash_ok :: "(bytes \<Rightarrow> hash) \<Rightarrow> bool" where
  "hash_ok H \<longleftrightarrow> (\<forall>x. length (H x) = 32)"

definition cell_path :: "(bytes \<Rightarrow> hash) \<Rightarrow> cell_key \<Rightarrow> hash" where
  "cell_path H k = H (key_encode k)"

definition no_collision :: "(bytes \<Rightarrow> hash) \<Rightarrow> cell_key set \<Rightarrow> bool" where
  "no_collision H K \<longleftrightarrow> inj_on (cell_path H) K"

definition cell_commitment :: "(bytes \<Rightarrow> hash) \<Rightarrow> cell_key \<Rightarrow> cell_value \<Rightarrow> hash" where
  "cell_commitment H k v = leaf_hash (cell_leaf H (cell_path H k) v)"

definition cell_rows :: "(cell_key \<rightharpoonup> cell_value) \<Rightarrow> rows \<Rightarrow> bool" where
  "cell_rows c rs \<longleftrightarrow> (\<forall>v \<in> ran c. cv_ok v) \<and>
    (\<forall>bs. om_get rs bs = (case key_decode bs of Inl _ \<Rightarrow> None | Inr k \<Rightarrow> map_option cv_bytes (c k)))"

definition commits :: "(bytes \<Rightarrow> hash) \<Rightarrow> (cell_key \<rightharpoonup> cell_value) \<Rightarrow> (bytes \<rightharpoonup> hash) \<Rightarrow> bool" where
  "commits H c m \<longleftrightarrow> committed (cell_path H) (cell_commitment H) c m"

definition cells_at ::
  "('tx \<Rightarrow> table \<Rightarrow> rows) \<Rightarrow> 'tx \<Rightarrow> (bytes \<Rightarrow> hash) \<Rightarrow> root_ref \<Rightarrow> (cell_key \<rightharpoonup> cell_value) \<Rightarrow> bool" where
  "cells_at view tx H root c \<longleftrightarrow> cell_rows c (view tx CELL) \<and>
    (\<exists>m. commits H c m \<and> represents (cell_trie H) (branch_rows view (cell_trie H) tx) [] root m)"

text \<open>What a batch means.\<close>

definition apply_change :: "cell_change \<Rightarrow> (cell_key \<rightharpoonup> cell_value) \<Rightarrow> cell_key \<rightharpoonup> cell_value" where
  "apply_change ch c = c(fst (change_entry ch) := snd (change_entry ch))"

definition apply_changes :: "cell_change list \<Rightarrow> (cell_key \<rightharpoonup> cell_value) \<Rightarrow> cell_key \<rightharpoonup> cell_value" where
  "apply_changes changes c = fold apply_change changes c"

definition change_ok :: "cell_change \<Rightarrow> bool" where
  "change_ok ch \<longleftrightarrow> (\<forall>v. snd (change_entry ch) = Some v \<longrightarrow> cv_ok v)"

lemma cell_trie_ok: "hash_ok H \<Longrightarrow> trie_ok (cell_trie H)"
  by (simp add: trie_ok_def cell_trie_def hash_ok_def table_ok_def CELL_TRIE_def CELL_TRIE_PATH_BYTES_def)

lemma cell_trie_parts [simp]:
  "tr_table (cell_trie H) = CELL_TRIE" "tr_width (cell_trie H) = 32" "tr_hasher (cell_trie H) = H"
  by (simp_all add: cell_trie_def CELL_TRIE_PATH_BYTES_def)

lemma table_names [simp]: "table_ok CELL" "table_ok CELL_TRIE" "CELL \<noteq> CELL_TRIE" "CELL_TRIE \<noteq> CELL"
  by (simp_all add: table_ok_def CELL_def CELL_TRIE_def)

lemma cell_rows_get: "cell_rows c rs \<Longrightarrow> om_get rs (key_encode k) = map_option cv_bytes (c k)"
  by (simp add: cell_rows_def)

lemma cell_rows_update:
  assumes "cell_rows c rs" "\<And>v. x = Some v \<Longrightarrow> cv_ok v"
    "om_get rs' = (om_get rs)(key_encode k := map_option cv_bytes x)"
  shows "cell_rows (c(k := x)) rs'"
proof -
  have "cv_ok v" if "v \<in> ran (c(k := x))" for v
    using that assms(1,2) by (auto simp: cell_rows_def ran_def split: if_splits)
  moreover have "om_get rs' bs = (case key_decode bs of Inl _ \<Rightarrow> None | Inr l \<Rightarrow> map_option cv_bytes ((c(k := x)) l))" for bs
    using assms(1,3) key_decode_iff [of bs] by (auto simp: cell_rows_def split: sum.splits)
  ultimately show ?thesis
    unfolding cell_rows_def by blast
qed

definition commit_edit :: "(bytes \<Rightarrow> hash) \<Rightarrow> cell_key \<times> cell_value option \<Rightarrow> edit_entry" where
  "commit_edit H e = committed_edit (cell_path H) (cell_commitment H) e"

lemma no_collision_subset: "no_collision H K \<Longrightarrow> L \<subseteq> K \<Longrightarrow> no_collision H L"
  by (auto simp: no_collision_def intro: inj_on_subset)

lemma commits_get:
  "commits H c m \<Longrightarrow> no_collision H (insert k (dom c)) \<Longrightarrow> m (cell_path H k) = map_option (cell_commitment H k) (c k)"
  unfolding commits_def no_collision_def by (rule committed_get)

lemma commits_put_all:
  "commits H c m \<Longrightarrow> no_collision H (dom c \<union> fst ` set es) \<Longrightarrow>
    commits H (put_all es c) (edits_map m (map (commit_edit H) es))"
  unfolding commits_def no_collision_def commit_edit_def by (rule committed_put_all)

lemma apply_changes_put_all: "apply_changes changes c = put_all (map change_entry changes) c"
  by (induction changes arbitrary: c)
    (auto simp: apply_changes_def put_all_def apply_change_def case_prod_unfold simp del: fun_upd_apply)

section \<open>The net batch\<close>

lemma normalize_sorted: "sorted_wrt (<) (map fst (normalize_changes changes))"
  unfolding normalize_changes_def by (rule dedup_sort_sorted)

lemma normalize_distinct: "distinct (map fst (normalize_changes changes))"
  unfolding normalize_changes_def by (rule dedup_sort_distinct)

lemma normalize_keys: "fst ` set (normalize_changes changes) = fst ` change_entry ` set changes"
  by (simp add: normalize_changes_def dedup_set)

lemma normalize_net: "put_all (normalize_changes changes) c = apply_changes changes c"
  unfolding normalize_changes_def dedup_sort_net apply_changes_put_all ..

definition net_changes :: "(cell_key \<rightharpoonup> cell_value) \<Rightarrow> cell_change list \<Rightarrow> (cell_key \<times> cell_value option) list" where
  "net_changes c changes = filter (\<lambda>(k, x). c k \<noteq> x) (normalize_changes changes)"

lemma net_effect: "put_all (net_changes c changes) c = apply_changes changes c"
  unfolding net_changes_def put_all_skip [OF normalize_distinct] normalize_net ..

lemma net_ok: "\<forall>ch \<in> set changes. change_ok ch \<Longrightarrow> (k, Some v) \<in> set (net_changes c changes) \<Longrightarrow> cv_ok v"
proof -
  assume ok: "\<forall>ch \<in> set changes. change_ok ch" and "(k, Some v) \<in> set (net_changes c changes)"
  then have "Some v \<in> snd ` set (map change_entry changes)"
    using subsetD [OF dedup_entries, of "(k, Some v)" "sort_key fst (map change_entry changes)"]
    by (simp add: net_changes_def normalize_changes_def)
  then obtain ch where "ch \<in> set changes" "snd (change_entry ch) = Some v"
    by (metis (no_types, lifting) image_iff list.set_map)
  then show "cv_ok v"
    using ok by (simp add: change_ok_def)
qed

section \<open>Reading\<close>

context read_tx
begin

lemma read_value_law:
  assumes "tx_ok tx" "cell_rows c (view tx CELL)"
  shows "read_value ops tx (key_encode k) = Inr (c k)"
proof (cases "c k")
  case (Some v)
  then have "cv_parse (cv_bytes v) = Inr v"
    using assms(2) by (simp add: cv_parse_ok cell_rows_def ranI)
  then show ?thesis
    using Some get_law [OF assms(1)] cell_rows_get [OF assms(2), of k] by (simp add: read_value_def)
qed (use get_law [OF assms(1)] cell_rows_get [OF assms(2), of k] in \<open>simp add: read_value_def\<close>)

lemma check_law:
  assumes "hash_ok H" "tx_ok tx" "cells_at view tx H root c" "no_collision H (insert k (dom c))"
  shows "cell_check ops H tx root (key_encode k) (c k) = Inr ()"
proof -
  obtain m where m: "commits H c m" "represents (cell_trie H) (branch_rows view (cell_trie H) tx) [] root m"
    using assms(3) by (auto simp: cells_at_def)
  have "trie_get ops (cell_trie H) tx root (cell_path H k) =
      Inr (map_option (\<lambda>h. \<lparr>leaf_path = cell_path H k, leaf_hash = h\<rparr>) (m (cell_path H k)))"
    by (rule get_represented [OF cell_trie_ok [OF assms(1)] assms(2) m(2)])
      (use assms(1) in \<open>simp add: cell_path_def hash_ok_def\<close>)
  moreover have "map_option (\<lambda>h. \<lparr>leaf_path = cell_path H k, leaf_hash = h\<rparr>) (m (cell_path H k)) =
      map_option (cell_leaf H (cell_path H k)) (c k)"
    using commits_get [OF m(1) assms(4)]
    by (cases "c k") (simp_all add: cell_commitment_def cell_leaf_def)
  ultimately show ?thesis
    by (simp add: cell_check_def cell_path_def)
qed

lemma check_change_law:
  assumes "hash_ok H" "tx_ok tx" "cells_at view tx H root c" "no_collision H (insert k (dom c))"
  shows "check_change ops H tx root k x = Inr (if c k \<noteq> x
    then Some (key_encode k, \<lparr>ch_key = k, ch_before = c k, ch_after = x\<rparr>) else None)"
proof -
  have "cell_rows c (view tx CELL)"
    using assms(3) by (simp add: cells_at_def)
  then show ?thesis
    using read_value_law [OF assms(2), of c k] check_law [OF assms] by (simp add: check_change_def Let_def)
qed

lemma check_changes_law:
  assumes "hash_ok H" "tx_ok tx" "cells_at view tx H root c" "no_collision H (dom c \<union> fst ` set es)"
  shows "\<exists>checked. try_map (\<lambda>(k, x). check_change ops H tx root k x) es = Inr checked \<and>
    List.map_filter id checked = map (\<lambda>(k, x). (key_encode k, \<lparr>ch_key = k, ch_before = c k, ch_after = x\<rparr>))
      (filter (\<lambda>(k, x). c k \<noteq> x) es)"
  using assms(4)
proof (induction es)
  case (Cons e es)
  obtain k x where e: "e = (k, x)"
    by (cases e)
  have "no_collision H (insert k (dom c))" "no_collision H (dom c \<union> fst ` set es)"
    using Cons.prems by (auto simp: e elim: no_collision_subset)
  then show ?case
    using check_change_law [OF assms(1-3)] Cons.IH by (auto simp: e map_filter_simps)
qed (simp add: map_filter_simps)

end

section \<open>Writing\<close>

context write_tx
begin

lemma write_values_law:
  assumes "tx_ok tx" "cell_rows c (view tx CELL)" "\<forall>(k, x) \<in> set es. \<forall>v. x = Some v \<longrightarrow> cv_ok v"
  shows "\<exists>tx'. write_values ops tx (map (\<lambda>(k, x). (key_encode k, \<lparr>ch_key = k, ch_before = b k, ch_after = x\<rparr>)) es) = Inr tx' \<and>
    tx_ok tx' \<and> (\<forall>t. t \<noteq> CELL \<longrightarrow> view tx' t = view tx t) \<and> cell_rows (put_all es c) (view tx' CELL)"
  using assms
proof (induction es arbitrary: tx c)
  case Nil
  then show ?case
    by (simp add: write_values_def put_all_def)
next
  case (Cons e es)
  obtain k x where e: "e = (k, x)"
    by (cases e)
  have cells: "(case x of Some v \<Rightarrow> tx_put ops tx CELL (key_encode k) (cv_bytes v)
      | None \<Rightarrow> attempt (tx_delete ops tx CELL (key_encode k)) (\<lambda>(_, tx'). Inr tx')) =
    (case map_option cv_bytes x of Some v \<Rightarrow> tx_put ops tx CELL (key_encode k) v
      | None \<Rightarrow> attempt (tx_delete ops tx CELL (key_encode k)) (\<lambda>(_, tx'). Inr tx'))"
    by (cases x) simp_all
  obtain tx1 where tx1: "(case x of Some v \<Rightarrow> tx_put ops tx CELL (key_encode k) (cv_bytes v)
      | None \<Rightarrow> attempt (tx_delete ops tx CELL (key_encode k)) (\<lambda>(_, tx'). Inr tx')) = Inr tx1" "tx_ok tx1"
      "\<forall>t. t \<noteq> CELL \<longrightarrow> view tx1 t = view tx t"
      "om_get (view tx1 CELL) = (om_get (view tx CELL))(key_encode k := map_option cv_bytes x)"
    unfolding cells by (rule write_row [OF Cons.prems(1) table_names(1)])
  have rows: "cell_rows (c(k := x)) (view tx1 CELL)"
    by (rule cell_rows_update [OF Cons.prems(2) _ tx1(4)]) (use Cons.prems(3) in \<open>auto simp: e\<close>)
  obtain tx2 where "write_values ops tx1 (map (\<lambda>(k, x). (key_encode k, \<lparr>ch_key = k, ch_before = b k, ch_after = x\<rparr>)) es) = Inr tx2"
      "tx_ok tx2" "\<forall>t. t \<noteq> CELL \<longrightarrow> view tx2 t = view tx1 t" "cell_rows (put_all es (c(k := x))) (view tx2 CELL)"
    using Cons.IH [OF tx1(2) rows] Cons.prems(3) by (auto simp del: fun_upd_apply)
  then show ?case
    using tx1(1,3) by (simp add: write_values_def e put_all_def)
qed

text \<open>The whole batch.\<close>

lemma cells_apply_law:
  assumes "hash_ok H" "tx_ok tx" "cells_at view tx H root c"
    "no_collision H (dom c \<union> fst ` change_entry ` set changes)" "\<forall>ch \<in> set changes. change_ok ch"
  shows "case cells_apply ops H tx root changes of
      Inl e \<Rightarrow> e = CellMerkle ConflictingBranch
    | Inr (u, tx') \<Rightarrow> tx_ok tx' \<and> cells_at view tx' H (cu_root u) (apply_changes changes c) \<and>
        changed_cells u = map (\<lambda>(k, x). \<lparr>ch_key = k, ch_before = c k, ch_after = x\<rparr>) (net_changes c changes) \<and>
        (\<forall>t. t \<noteq> CELL \<longrightarrow> t \<noteq> CELL_TRIE \<longrightarrow> view tx' t = view tx t)"
proof -
  let ?net = "net_changes c changes" and ?tr = "cell_trie H"
  let ?by_key = "map (\<lambda>(k, x). (key_encode k, \<lparr>ch_key = k, ch_before = c k, ch_after = x\<rparr>)) ?net"
  note tr = cell_trie_ok [OF assms(1)]
  obtain m where m: "commits H c m" "represents ?tr (branch_rows view ?tr tx) [] root m"
    and rows: "cell_rows c (view tx CELL)"
    using assms(3) unfolding cells_at_def by blast
  have keys: "fst ` set ?net \<subseteq> fst ` change_entry ` set changes"
    unfolding normalize_keys [symmetric] by (auto simp: net_changes_def)
  have "no_collision H (dom c \<union> fst ` set (normalize_changes changes))"
    using assms(4) unfolding normalize_keys .
  then obtain checked where checked:
      "try_map (\<lambda>(k, x). check_change ops H tx root k x) (normalize_changes changes) = Inr checked"
      "List.map_filter id checked = ?by_key"
    using check_changes_law [OF assms(1-3)] unfolding net_changes_def by blast
  have edits: "map (\<lambda>(key, value). let path = H key in (path, map_option (\<lambda>v. leaf_hash (cell_leaf H path v)) value))
      (map (\<lambda>(key, change). (key, ch_after change)) ?by_key) = map (commit_edit H) ?net"
    by (simp add: commit_edit_def committed_edit_def cell_path_def cell_commitment_def [abs_def] case_prod_unfold Let_def)
  have whole: "cells_apply ops H tx root changes =
      attempt (map_err CellMerkle (trie_apply ops ?tr tx root (map (commit_edit H) ?net))) (\<lambda>(root', tx').
      attempt (write_values ops tx' ?by_key) (\<lambda>tx''. Inr (\<lparr>cu_root = root', changed_cells = map snd ?by_key\<rparr>, tx'')))"
    unfolding cells_apply_def checked(1) attempt_simp checked(2) Let_def cell_set_def
    by (simp only: edits [unfolded Let_def])
  have "\<forall>e \<in> set (map (commit_edit H) ?net). edit_sized ?tr e"
    using assms(1) by (auto simp: edit_sized_def commit_edit_def committed_edit_def cell_path_def cell_commitment_def cell_leaf_def
        hash_parts_def hash_ok_def)
  from apply_outcome [OF tr assms(2) m(2) this]
  consider "trie_apply ops ?tr tx root (map (commit_edit H) ?net) = Inl ConflictingBranch"
    | root' tx1 where "trie_apply ops ?tr tx root (map (commit_edit H) ?net) = Inr (root', tx1)" "tx_ok tx1"
      "extends view ?tr tx tx1"
      "represents ?tr (branch_rows view ?tr tx1) [] root' (edits_map m (map (commit_edit H) ?net))"
    unfolding write_outcome_def by (elim disjE exE conjE)
  then show ?thesis
  proof cases
    case 1
    then show ?thesis
      unfolding whole by simp
  next
    case (2 root' tx1)
    have others: "\<forall>t. t \<noteq> CELL_TRIE \<longrightarrow> view tx1 t = view tx t"
      using 2(3) by (simp add: extends_def)
    then have rows1: "cell_rows c (view tx1 CELL)"
      using rows by simp
    have ok: "\<forall>(k, x) \<in> set ?net. \<forall>v. x = Some v \<longrightarrow> cv_ok v"
      using net_ok [OF assms(5)] by blast
    obtain tx2 where tx2: "write_values ops tx1 ?by_key = Inr tx2" "tx_ok tx2"
        "\<forall>t. t \<noteq> CELL \<longrightarrow> view tx2 t = view tx1 t" "cell_rows (put_all ?net c) (view tx2 CELL)"
      using write_values_law [OF 2(2) rows1 ok] by blast
    have "no_collision H (dom c \<union> fst ` set ?net)"
      using assms(4) by (rule no_collision_subset) (use keys in blast)
    then have "commits H (put_all ?net c) (edits_map m (map (commit_edit H) ?net))"
      by (rule commits_put_all [OF m(1)])
    then have "cells_at view tx2 H root' (apply_changes changes c)"
      using tx2(3,4) 2(4) unfolding cells_at_def net_effect by auto
    moreover have "cells_apply ops H tx root changes = Inr (\<lparr>cu_root = root', changed_cells = map snd ?by_key\<rparr>, tx2)"
      unfolding whole 2(1) by (simp only: map_err_simp attempt_simp case_prod_conv tx2(1))
    ultimately show ?thesis
      using tx2(2,3) others by (auto simp: case_prod_unfold)
  qed
qed

end

text \<open>The reported changes are exactly the cells that differ.\<close>

lemma net_changes_exact:
  "sorted_wrt (<) (map fst (net_changes c changes))"
  "(k, x) \<in> set (net_changes c changes) \<longleftrightarrow> apply_changes changes c k = x \<and> c k \<noteq> x"
proof -
  show "sorted_wrt (<) (map fst (net_changes c changes))"
    unfolding net_changes_def using normalize_sorted [of changes] by (simp add: sorted_wrt_map sorted_wrt_filter)
  have "apply_changes changes c k = (case map_of (normalize_changes changes) k of Some x \<Rightarrow> x | None \<Rightarrow> c k)"
    using put_all_distinct [OF normalize_distinct] normalize_net by metis
  then show "(k, x) \<in> set (net_changes c changes) \<longleftrightarrow> apply_changes changes c k = x \<and> c k \<noteq> x"
    using map_of_eq_Some_iff [OF normalize_distinct, of changes k]
    by (cases "map_of (normalize_changes changes) k") (auto simp: net_changes_def)
qed

section \<open>Reopening\<close>

context read_tx
begin

lemma first_row:
  assumes "tx_ok tx" "table_ok t" "view tx t = e # rs"
  shows "\<exists>c c'. tx_cursor ops tx t [] = Inr c \<and> cur_next ops c = Inr (Some e, c') \<and>
    (\<exists>c''. cur_next ops c' = Inr (case rs of [] \<Rightarrow> None | e' # _ \<Rightarrow> Some e', c''))"
proof -
  obtain c where c: "tx_cursor ops tx t [] = Inr c" "cur_ok c" "cur_view c = (view tx t, Key [])"
    using cursor_law [OF assms(1,2)] by blast
  have all: "rows_after (Key []) (view tx t) = e # rs"
    by (simp add: assms(3) rows_after_def)
  obtain c' pos' where c': "cur_next ops c = Inr (Some e, c')" "cur_ok c'" "cur_view c' = (view tx t, pos')"
      "rows_after pos' (view tx t) = rs"
    using next_walk [OF c(2,3) view_ok [OF assms(1)]] unfolding all by auto
  show ?thesis
    using c(1) c'(1) next_walk [OF c'(2,3) view_ok [OF assms(1)]] unfolding c'(4) by blast
qed

lemma no_row:
  assumes "tx_ok tx" "table_ok t" "view tx t = []"
  shows "\<exists>c c'. tx_cursor ops tx t [] = Inr c \<and> cur_next ops c = Inr (None, c')"
proof -
  obtain c where c: "tx_cursor ops tx t [] = Inr c" "cur_ok c" "cur_view c = (view tx t, Key [])"
    using cursor_law [OF assms(1,2)] by blast
  then show ?thesis
    using next_walk [OF c(2,3) view_ok [OF assms(1)]] by (auto simp: assms(3) rows_after_def)
qed

text \<open>A root is recovered from its digest. The digest of a nonempty state differs from the
  empty one, and that of a single cell is not the key of a branch row: both hold unless the
  digest collides on preimages of different domains.\<close>

lemma reopen_law:
  assumes "hash_ok H" "tx_ok tx" "cells_at view tx H root c" "no_collision H (dom c)"
    "root \<noteq> RootEmpty \<Longrightarrow> root_hash H root \<noteq> H []"
    "\<And>l. root = RootLeaf l \<Longrightarrow> om_get (view tx CELL_TRIE) (leaf_hash l) = None"
  shows "cell_reopen ops H tx (root_hash H root) = Inr root"
proof -
  obtain m where m: "commits H c m" "represents (cell_trie H) (branch_rows view (cell_trie H) tx) [] root m"
    and rows: "cell_rows c (view tx CELL)"
    using assms(3) unfolding cells_at_def by blast
  note tr = cell_trie_ok [OF assms(1)]
  have empty: "view tx CELL = [] \<longleftrightarrow> c = Map.empty"
  proof
    assume "view tx CELL = []"
    then have "c k = None" for k
      using cell_rows_get [OF rows, of k] by simp
    then show "c = Map.empty" ..
  next
    assume "c = Map.empty"
    then have "om_get (view tx CELL) bs = None" for bs
      using rows by (auto simp: cell_rows_def split: sum.splits)
    then show "view tx CELL = []"
      by (metis list.exhaust map_of_eq_empty_iff ext)
  qed
  show ?thesis
  proof (cases root)
    case RootEmpty
    then have "m = Map.empty"
      using m(2) by (auto elim: represents_EmptyE)
    then have "c k = None" for k
      using m(1) by (cases "c k") (auto simp: commits_def committed_def)
    then have "view tx CELL = []"
      unfolding empty by auto
    then show ?thesis
      using no_row [OF assms(2) table_names(1)] RootEmpty
      by (auto simp: cell_reopen_def root_hash_def hash_parts_def)
  next
    case (RootBranch h)
    obtain node where "trie_load ops (cell_trie H) tx h [] = Inr node"
      using load_represented [OF tr assms(2) m(2) [unfolded RootBranch]] by blast
    moreover have "om_get (view tx CELL_TRIE) h \<noteq> None"
      using m(2) unfolding RootBranch represents_branch_iff holds_node_def by auto
    ultimately show ?thesis
      using assms(5) get_law [OF assms(2) table_names(2)] RootBranch
      by (auto simp: cell_reopen_def root_hash_def validate_root_def)
  next
    case (RootLeaf l)
    then have ml: "m = [leaf_path l \<mapsto> leaf_hash l]"
      using m(2) by (auto elim: represents_LeafE)
    obtain k v where only: "c = [k \<mapsto> v]" and k: "leaf_path l = cell_path H k" "leaf_hash l = cell_commitment H k v"
      using committed_single [of "cell_path H" "cell_commitment H" c "leaf_path l" "leaf_hash l"] m(1) assms(4)
      unfolding ml commits_def no_collision_def by blast
    then have hash: "leaf_hash l = leaf_hash (cell_leaf H (cell_path H k) v)"
      by (simp add: cell_commitment_def)
    have "om_get (view tx CELL) = [key_encode k \<mapsto> cv_bytes v]"
      using rows only key_decode_iff by (auto simp: cell_rows_def fun_eq_iff split: sum.splits)
    also have "\<dots> = om_get [(key_encode k, cv_bytes v)]"
      by simp
    finally have row: "view tx CELL = [(key_encode k, cv_bytes v)]"
      by (intro om_eqI view_ok assms(2)) (simp_all add: om_ok_Cons)
    have "cv_parse (cv_bytes v) = Inr v"
      using rows only by (simp add: cv_parse_ok cell_rows_def)
    moreover have "l = cell_leaf H (cell_path H k) v"
      using hash k(1) by (cases l) (simp add: cell_leaf_def)
    ultimately show ?thesis
      using first_row [OF assms(2) table_names(1) row] get_law [OF assms(2) table_names(2)] assms(5,6) RootLeaf
      by (auto simp: cell_reopen_def root_hash_def cell_path_def Let_def)
  qed
qed

end

section \<open>Properties\<close>


definition demo_hash :: "bytes \<Rightarrow> hash" where
  "demo_hash x = take 32 (rev x @ replicate 32 0)"

definition demo_key :: cell_key where "demo_key = CellKey 64 (ascii ''a'')"

lemma demo_hash_ok: "hash_ok demo_hash"
  by (auto simp: hash_ok_def demo_hash_def min_def)

lemma cells_at_empty: "cells_at view tx H RootEmpty Map.empty" if "view tx CELL = []"
  unfolding cells_at_def
proof
  show "cell_rows Map.empty (view tx CELL)"
    using that by (auto simp: cell_rows_def split: sum.splits)
  have "commits H Map.empty Map.empty"
    by (simp add: commits_def committed_empty)
  then show "\<exists>m. commits H Map.empty m \<and> represents (cell_trie H) (branch_rows view (cell_trie H) tx) [] RootEmpty m"
    using rep_empty by blast
qed

lemma empty_view [simp]: "mem_view \<lparr>tx_state = []\<rparr> t = []"
  by (simp add: mem_view_def table_rows_def)

lemma demo_apply: "\<not> isl (cells_apply mem_ops demo_hash \<lparr>tx_state = []\<rparr> RootEmpty
    [CellDelete demo_key, CellPut demo_key (from_u32 7)])"
  by (simp add: cells_apply_def normalize_changes_def change_entry_def check_change_def read_value_def
      cell_check_def trie_get_def mem_op_defs table_rows_def map_filter_simps cell_set_def trie_apply_single Let_def
      write_values_def)


lemma cells_reopen_correct:
  assumes "hash_ok H" "mem_ok tx" "cells_at mem_view tx H root c" "no_collision H (dom c)"
    "root \<noteq> RootEmpty \<Longrightarrow> root_hash H root \<noteq> H []"
    "\<And>l. root = RootLeaf l \<Longrightarrow> om_get (mem_view tx CELL_TRIE) (leaf_hash l) = None"
  shows "cells_get mem_ops tx k = Inr (c k) \<and> cell_reopen mem_ops H tx (root_hash H root) = Inr root"
  using mem.reopen_law [OF assms] mem.read_value_law [OF assms(2)] assms(3)
  by (simp add: cells_get_def cells_at_def)

end
