(* ===== verification/Merkle_Walk.thy ===== *)
theory Merkle_Walk
  imports Merkle_System "HOL-Library.Multiset"
begin

text \<open>
  \<^verbatim>\<open>Walk\<close> of \<^verbatim>\<open>crates/merkle/src/trie.rs\<close>: the lazy traversal of a trie. The stack is a list with its
  top first. One call of \<^verbatim>\<open>next\<close> loops over the stack; it ends because every branch it pops
  is replaced by references at longer routes, a descent in the multiset order.
\<close>

section \<open>The iterator\<close>

type_synonym walk_stack = "(root_ref \<times> nibbles) list"

text \<open>\<^verbatim>\<open>for slot in (0..16).rev()\<close>\<close>

definition walk_push :: "branch_node \<Rightarrow> nibbles \<Rightarrow> walk_stack \<Rightarrow> walk_stack" where
  "walk_push node route stack =
    fold (\<lambda>slot st. case node_child node slot of Some c \<Rightarrow> (c, route @ [slot]) # st | None \<Rightarrow> st) (rev [0..<16]) stack"

definition walk_size :: "trie \<Rightarrow> walk_stack \<Rightarrow> nat multiset" where
  "walk_size tr stack = mset (map (\<lambda>(_, route). 2 * tr_width tr + 1 - length route) stack)"

lemma walk_push_eq: "walk_push node route stack =
  List.map_filter (\<lambda>slot. map_option (\<lambda>c. (c, route @ [slot])) (node_child node slot)) [0..<16] @ stack"
proof -
  have "fold (\<lambda>slot st. case node_child node slot of Some c \<Rightarrow> (c, route @ [slot]) # st | None \<Rightarrow> st) (rev xs) st =
      List.map_filter (\<lambda>slot. map_option (\<lambda>c. (c, route @ [slot])) (node_child node slot)) xs @ st" for xs st
    by (induction xs arbitrary: st) (auto simp: map_filter_simps split: option.split)
  then show ?thesis
    by (simp only: walk_push_def)
qed

lemma walk_push_size:
  assumes "length r < 2 * tr_width tr" "length route \<le> length r"
  shows "(walk_size tr (walk_push node r st), walk_size tr ((c, route) # st)) \<in> mult less_than"
proof -
  let ?K = "walk_size tr (List.map_filter (\<lambda>slot. map_option (\<lambda>c. (c, r @ [slot])) (node_child node slot)) [0..<16])"
  have "\<forall>k \<in># ?K. k < 2 * tr_width tr + 1 - length route"
    using assms by (auto simp: walk_size_def List.map_filter_def)
  then have "(walk_size tr st + ?K, walk_size tr st + {#2 * tr_width tr + 1 - length route#}) \<in> mult less_than"
    by (intro one_step_implies_mult) auto
  then show ?thesis
    by (simp add: walk_push_eq walk_size_def add.commute)
qed

lemma walk_pop_size: "(walk_size tr st, walk_size tr (e # st)) \<in> mult less_than"
  using subset_implies_mult [of "walk_size tr st" "walk_size tr (e # st)" less_than]
  by (simp add: walk_size_def case_prod_unfold)

function walk_next ::
  "('tx, 'cur, 'z) read_ops_scheme \<Rightarrow> trie \<Rightarrow> 'tx \<Rightarrow> walk_stack \<Rightarrow>
    (merkle_error + leaf_ref) option \<times> walk_stack" where
  "walk_next ops tr tx [] = (None, [])"
| "walk_next ops tr tx ((RootEmpty, route) # st) = walk_next ops tr tx st"
| "walk_next ops tr tx ((RootLeaf leaf, route) # st) = (Some (Inr leaf), st)"
| "walk_next ops tr tx ((RootBranch h, route) # st) =
    (case trie_load ops tr tx h route of
       Inl e \<Rightarrow> (Some (Inl e), [])
     | Inr node \<Rightarrow> walk_next ops tr tx (walk_push node (route @ unpack_prefix node) st))"
  by pat_completeness auto

termination
proof (relation "inv_image (mult less_than) (\<lambda>(ops, tr, tx, stack). walk_size tr stack)")
  show "wf (inv_image (mult less_than) (\<lambda>(ops :: ('a, 'b, 'c) read_ops_scheme, tr, tx :: 'a, stack). walk_size tr stack))"
    by (intro wf_inv_image wf_mult wf_less_than)
qed (auto simp: walk_pop_size intro!: walk_push_size dest: trie_load_depth)

lemma walk_size_trans:
  "(a, b) \<in> mult less_than \<Longrightarrow> (b, c) \<in> mult less_than \<Longrightarrow> (a, c) \<in> mult (less_than :: (nat \<times> nat) set)"
  by (rule transD [OF trans_mult [OF trans_less_than]])

lemma walk_next_size:
  "walk_next ops tr tx stack = (Some x, st) \<Longrightarrow> isl x \<or> (walk_size tr st, walk_size tr stack) \<in> mult less_than"
proof (induction ops tr tx stack rule: walk_next.induct)
  case (2 ops tr tx route st')
  then show ?case
    using walk_size_trans [OF _ walk_pop_size] by auto
next
  case (3 ops tr tx leaf route st')
  then show ?case
    using walk_pop_size by auto
next
  case (4 ops tr tx h route st')
  show ?case
  proof (cases "trie_load ops tr tx h route")
    case (Inr node)
    have "(walk_size tr (walk_push node (route @ unpack_prefix node) st'), walk_size tr ((RootBranch h, route) # st')) \<in> mult less_than"
      using trie_load_depth [OF Inr] by (intro walk_push_size) simp_all
    then show ?thesis
      using 4 Inr walk_size_trans by auto
  qed (use 4 in auto)
qed simp

text \<open>\<^verbatim>\<open>walk(tx, root).map(|leaf| f(leaf?)).collect::<Result<Vec<_>>>()\<close>\<close>

function walk_collect ::
  "('tx, 'cur, 'z) read_ops_scheme \<Rightarrow> trie \<Rightarrow> 'tx \<Rightarrow> (merkle_error \<Rightarrow> 'e) \<Rightarrow> (leaf_ref \<Rightarrow> 'e + 'a) \<Rightarrow> walk_stack \<Rightarrow>
    'e + 'a list" where
  "walk_collect ops tr tx err f stack =
    (case walk_next ops tr tx stack of
       (None, _) \<Rightarrow> Inr []
     | (Some (Inl e), _) \<Rightarrow> Inl (err e)
     | (Some (Inr leaf), st) \<Rightarrow> attempt (f leaf) (\<lambda>x. attempt (walk_collect ops tr tx err f st) (\<lambda>xs. Inr (x # xs))))"
  by pat_completeness auto

termination
proof (relation "inv_image (mult less_than) (\<lambda>(ops, tr, tx, err, f, stack). walk_size tr stack)")
  show "wf (inv_image (mult less_than) (\<lambda>(ops :: ('a, 'b, 'c) read_ops_scheme, tr, tx :: 'a, err :: merkle_error \<Rightarrow> 'd,
      f :: leaf_ref \<Rightarrow> 'd + 'e, stack). walk_size tr stack))"
    by (intro wf_inv_image wf_mult wf_less_than)
qed (auto dest!: walk_next_size [OF sym])

declare walk_collect.simps [simp del]

definition trie_walk :: "root_ref \<Rightarrow> walk_stack" where
  "trie_walk root = [(root, [])]"

section \<open>The traversal is exact and ascending\<close>

definition leaf_list :: "(bytes \<rightharpoonup> hash) \<Rightarrow> leaf_ref list \<Rightarrow> bool" where
  "leaf_list m ls \<longleftrightarrow> sorted_wrt (<) (map leaf_path ls) \<and> (\<forall>l. l \<in> set ls \<longleftrightarrow> m (leaf_path l) = Some (leaf_hash l))"

lemma leaf_list_slots:
  assumes "on_route N r m" "length r < 2 * N" "\<And>s. s < 16 \<Longrightarrow> leaf_list (under (r @ [s]) m) (L s)"
  shows "leaf_list m (concat (map L [0..<16]))"
proof -
  have slot: "l \<in> set (L s) \<longleftrightarrow> prefix (r @ [s]) (path_nibbles (leaf_path l)) \<and> m (leaf_path l) = Some (leaf_hash l)" if "s < 16" for s l
    using assms(3) [OF that] by (simp add: leaf_list_def under_apply)
  have len: "length (leaf_path l) = N \<and> prefix r (path_nibbles (leaf_path l))" if "m (leaf_path l) = Some (leaf_hash l)" for l
    using assms(1) that by (auto simp: on_route_def)
  have less: "leaf_path l < leaf_path k" if lk: "s < t" "t < 16" "l \<in> set (L s)" "k \<in> set (L t)" for s t l k
  proof -
    obtain a b where "path_nibbles (leaf_path l) = r @ s # a" "path_nibbles (leaf_path k) = r @ t # b"
      using lk slot [of s l] slot [of t k] by (auto simp: prefix_def)
    then have "path_nibbles (leaf_path l) < path_nibbles (leaf_path k)"
      using lk(1) append_less_iff [of r r "s # a" "t # b"] by simp
    then show ?thesis
      using path_nibbles_less [of "leaf_path l" "leaf_path k"] len [of l] len [of k] lk slot [of s l] slot [of t k] by auto
  qed
  have "sorted_wrt (<) (map leaf_path (concat (map L [0..<n])))" if "n \<le> 16" for n
    using that
  proof (induction n)
    case (Suc n)
    then have "sorted_wrt (<) (map leaf_path (L n))"
      using assms(3) [of n] by (simp add: leaf_list_def)
    then show ?case
      using Suc less [of _ n] by (auto simp: sorted_wrt_append)
  qed simp
  moreover have "l \<in> set (concat (map L [0..<16])) \<longleftrightarrow> m (leaf_path l) = Some (leaf_hash l)" for l
  proof
    assume l: "m (leaf_path l) = Some (leaf_hash l)"
    then have "prefix (r @ [nibble (leaf_path l) (length r)]) (path_nibbles (leaf_path l))"
      using len [OF l] assms(2) by (intro next_slot [of _ N]) auto
    then have "l \<in> set (L (nibble (leaf_path l) (length r)))"
      using slot [OF nibble_less] l by blast
    then show "l \<in> set (concat (map L [0..<16]))"
      using nibble_less [of "leaf_path l" "length r"] by auto
  qed (use slot in auto)
  ultimately show ?thesis
    by (simp only: leaf_list_def) blast
qed

lemma attempt_assoc: "attempt (attempt m f) g = attempt m (\<lambda>x. attempt (f x) g)"
  by (cases m) simp_all

lemma try_map_append: "try_map f (xs @ ys) = attempt (try_map f xs) (\<lambda>a. attempt (try_map f ys) (\<lambda>b. Inr (a @ b)))"
  by (induction xs) (simp_all add: attempt_assoc, simp_all add: attempt_def split: sum.splits)

context read_tx
begin

lemma walk_collect_branch:
  "trie_load ops tr tx h route = Inr node \<Longrightarrow> walk_collect ops tr tx err f ((RootBranch h, route) # st) =
    walk_collect ops tr tx err f (walk_push node (route @ unpack_prefix node) st)"
  by (subst (1 2) walk_collect.simps) simp

lemma walk_collect_represents:
  assumes "trie_ok tr" "tx_ok tx"
  shows "represents tr (branch_rows view tr tx) route root m \<Longrightarrow> \<exists>ls. leaf_list m ls \<and>
    (\<forall>st. walk_collect ops tr tx err f ((root, route) # st) =
      attempt (try_map f ls) (\<lambda>xs. attempt (walk_collect ops tr tx err f st) (\<lambda>ys. Inr (xs @ ys))))"
proof (induction rule: represents.induct)
  case (rep_empty route)
  have "walk_collect ops tr tx err f ((RootEmpty, route) # st) = walk_collect ops tr tx err f st" for st
    by (subst (1 2) walk_collect.simps) simp
  then show ?case
    by (intro exI [of _ "[]"]) (auto simp: leaf_list_def attempt_def split: sum.splits)
next
  case (rep_leaf l route)
  have "walk_collect ops tr tx err f ((RootLeaf l, route) # st) =
      attempt (f l) (\<lambda>x. attempt (walk_collect ops tr tx err f st) (\<lambda>xs. Inr (x # xs)))" for st
    by (subst walk_collect.simps) simp
  then show ?case
    by (intro exI [of _ "[l]"]) (auto simp: leaf_list_def attempt_assoc)
next
  case (rep_branch h node route m)
  define r where "r = route @ unpack_prefix node"
  let ?c = "walk_collect ops tr tx err f"
  obtain L where L: "\<And>s. s < 16 \<Longrightarrow> leaf_list (under (r @ [s]) m) (L s)"
    "\<And>s st. s < 16 \<Longrightarrow> ?c ((node_children node ! s, r @ [s]) # st) =
      attempt (try_map f (L s)) (\<lambda>xs. attempt (?c st) (\<lambda>ys. Inr (xs @ ys)))"
    using rep_branch.IH unfolding r_def by metis
  let ?push = "\<lambda>ss. List.map_filter (\<lambda>slot. map_option (\<lambda>c. (c, r @ [slot])) (node_child node slot)) ss"
  have run: "?c (?push ss @ st) = attempt (try_map f (concat (map L ss))) (\<lambda>xs. attempt (?c st) (\<lambda>ys. Inr (xs @ ys)))"
    if "\<forall>s \<in> set ss. s < 16" for ss st
    using that
  proof (induction ss)
    case Nil
    then show ?case
      by (auto simp: map_filter_simps attempt_def split: sum.splits)
  next
    case (Cons s ss)
    have "?c (?push (s # ss) @ st) = ?c ((node_children node ! s, r @ [s]) # ?push ss @ st)"
    proof (cases "node_children node ! s = RootEmpty")
      case True
      have "?c ((RootEmpty, r @ [s]) # ?push ss @ st) = ?c (?push ss @ st)"
        by (subst (1 2) walk_collect.simps) simp
      then show ?thesis
        using True Cons.prems by (simp add: node_child_nth map_filter_simps)
    qed (use Cons.prems in \<open>simp add: node_child_nth map_filter_simps\<close>)
    then show ?case
      using Cons by (simp add: L(2) try_map_append attempt_assoc)
  qed
  have "trie_load ops tr tx h route = Inr node"
    using load_iff [OF assms] rep_branch.hyps(1,2) by simp
  from walk_collect_branch [OF this, of err f, folded r_def]
  have "\<forall>st. ?c ((RootBranch h, route) # st) =
      attempt (try_map f (concat (map L [0..<16]))) (\<lambda>xs. attempt (?c st) (\<lambda>ys. Inr (xs @ ys)))"
    using run [of "[0..<16]"] unfolding walk_push_eq by (simp del: upt_rec_numeral)
  moreover have "leaf_list m (concat (map L [0..<16]))"
    using rep_branch.hyps(2,3) L(1) unfolding r_def by (intro leaf_list_slots) (auto simp: children_at_def)
  ultimately show ?case
    by blast
qed

lemma walk_represents:
  assumes "trie_ok tr" "tx_ok tx" "represents tr (branch_rows view tr tx) [] root m"
  shows "\<exists>ls. leaf_list m ls \<and> walk_collect ops tr tx err f (trie_walk root) = try_map f ls"
proof -
  have "walk_collect ops tr tx err f [] = Inr []"
    by (subst walk_collect.simps) simp
  moreover have "attempt (try_map f ls) (\<lambda>xs. Inr xs) = try_map f ls" for ls
    by (cases "try_map f ls") simp_all
  moreover obtain ls where "leaf_list m ls" "\<And>st. walk_collect ops tr tx err f ((root, []) # st) =
      attempt (try_map f ls) (\<lambda>xs. attempt (walk_collect ops tr tx err f st) (\<lambda>ys. Inr (xs @ ys)))"
    using walk_collect_represents [OF assms, of err f] by blast
  ultimately show ?thesis
    by (intro exI [of _ ls]) (simp add: trie_walk_def)
qed

end

text \<open>C23. Walking a stored trie terminates without an error and yields every leaf of its map exactly
  once, in ascending path order; whatever a corrupt table holds, the walk still ends.\<close>

theorem trie_walk_exact:
  assumes "trie_ok tr" "mem_ok tx" "represents tr (branch_rows mem_view tr tx) [] root m"
  shows "\<exists>ls. walk_collect mem_ops tr tx id Inr (trie_walk root) = Inr ls \<and> sorted_wrt (<) (map leaf_path ls) \<and>
    (\<forall>l. l \<in> set ls \<longleftrightarrow> m (leaf_path l) = Some (leaf_hash l))"
proof -
  have "try_map Inr ls = (Inr ls :: merkle_error + leaf_ref list)" for ls
    by (induction ls) simp_all
  then show ?thesis
    using mem.walk_represents [OF assms, of id Inr] by (auto simp: leaf_list_def)
qed

theorem trie_walk_exact_witness:
  "\<exists>ls. walk_collect mem_ops demo_trie (snd demo_stored) id Inr (trie_walk (fst demo_stored)) = Inr ls \<and>
    map leaf_path ls = [[5], [21]]"
proof -
  obtain ls where ls: "walk_collect mem_ops demo_trie (snd demo_stored) id Inr (trie_walk (fst demo_stored)) = Inr ls"
      "sorted_wrt (<) (map leaf_path ls)"
      "\<forall>l. l \<in> set ls \<longleftrightarrow> [[5 :: byte] \<mapsto> replicate 32 5, [21] \<mapsto> replicate 32 21] (leaf_path l) = Some (leaf_hash l)"
    using trie_walk_exact [OF demo_trie_ok demo_stored_ok] by blast
  have "set (map leaf_path ls) = {[5], [21]}"
  proof -
    have "demo_leaf 5 \<in> set ls" "demo_leaf 21 \<in> set ls"
      using ls(3) by simp_all
    then have "{[5], [21]} \<subseteq> set (map leaf_path ls)"
      using image_eqI [of _ leaf_path "demo_leaf 5"] image_eqI [of _ leaf_path "demo_leaf 21"] by simp
    moreover have "leaf_path l \<in> {[5], [21]}" if "l \<in> set ls" for l
      using ls(3) that by (auto split: if_splits)
    ultimately show ?thesis
      by auto
  qed
  moreover have "sorted_wrt (<) [[5 :: byte], [21]]"
    by simp
  ultimately have "map leaf_path ls = [[5], [21]]"
    using ls(2) by (intro strict_sorted_equal) auto
  then show ?thesis
    by (intro exI [of _ ls] conjI ls(1))
qed

end
