(* ===== verification/Index_Term.thy ===== *)
theory Index_Term
  imports Cell_Store
begin

text \<open>
  \<^verbatim>\<open>crates/index/src/term.rs\<close> and \<^verbatim>\<open>term_range.rs\<close>: the ordered keys of the attribute index and
  ranges of them. A term is its bytes, \<^verbatim>\<open>name || 0x00 || 0x80|type || ordered value\<close>; a \<^verbatim>\<open>&str\<close> is
  its bytes.
\<close>

section \<open>Terms\<close>

type_synonym index_term = bytes

datatype term_error =
    InvalidName
  | UnsupportedType cell_type
  | TermValue cell_value_parse_error
  | TermNaN
  | InvalidEncoding

definition INDEX_LEAF_DOMAIN :: byte where "INDEX_LEAF_DOMAIN = 2"

definition term_name_str :: "bytes \<Rightarrow> term_error + bytes" where
  "term_name_str name = (if utf8_valid name then Inr name else Inl InvalidName)"

definition term_validate_name :: "bytes \<Rightarrow> term_error + unit" where
  "term_validate_name name =
    (let bs = (case strip_prefix [0x24] name of Some r \<Rightarrow> r | None \<Rightarrow> name) in
     case bs of
       [] \<Rightarrow> Inl InvalidName
     | first # rest \<Rightarrow>
         if \<not> is_ascii_alphabetic first \<or> \<not> list_all is_rest rest then Inl InvalidName else Inr ())"

definition term_supported :: "cell_type \<Rightarrow> term_error + unit" where
  "term_supported ty = (case ty of Bytes \<Rightarrow> Inl (UnsupportedType ty) | _ \<Rightarrow> Inr ())"

text \<open>\<^verbatim>\<open>validate_float\<close> of the index: it classifies native bits and normalizes zero in place.\<close>

definition term_validate_float :: "bytes \<Rightarrow> float_width \<Rightarrow> term_error + bytes" where
  "term_validate_float bs w =
    (let (bits, sign, exponent, fraction) = (case w of
         F32 \<Rightarrow> (ucast (from_be bs :: u32) :: u64, 0x80000000, 0x7F800000, 0x007FFFFF)
       | F64 \<Rightarrow> (from_be bs, 0x8000000000000000, 0x7FF0000000000000, 0x000FFFFFFFFFFFFF)) in
     if bits AND exponent = exponent \<and> bits AND fraction \<noteq> 0 then Inl TermNaN
     else if bits AND NOT sign = 0 then Inr (replicate (length bs) 0)
     else Inr bs)"

definition term_prefix :: "bytes \<Rightarrow> cell_type \<Rightarrow> term_error + bytes" where
  "term_prefix name ty =
    attempt (term_validate_name name) (\<lambda>_.
    attempt (term_supported ty) (\<lambda>_.
      Inr (name @ [0, 0x80 OR cell_type_id ty])))"

definition term_new :: "bytes \<Rightarrow> cell_type \<Rightarrow> bytes \<Rightarrow> term_error + index_term" where
  "term_new name ty v =
    attempt (term_prefix name ty) (\<lambda>bs.
    attempt (case type_width ty of
        Some expected \<Rightarrow> if length v \<noteq> expected then Inl (TermValue (LengthMismatch ty expected (length v))) else Inr ()
      | None \<Rightarrow> Inr ()) (\<lambda>_.
    attempt (case ty of
        SInt _ \<Rightarrow> Inr (flip_sign v) | Decimal _ \<Rightarrow> Inr (flip_sign v)
      | Date32 \<Rightarrow> Inr (flip_sign v) | Timestamp64 \<Rightarrow> Inr (flip_sign v)
      | Float w \<Rightarrow> attempt (term_validate_float v w) (\<lambda>ordered.
          Inr (if hd ordered AND 0x80 \<noteq> 0 then map (\<lambda>b. NOT b) ordered else flip_sign ordered))
      | _ \<Rightarrow> Inr v) (\<lambda>ordered.
    attempt (map_err TermValue (type_validate ty ordered)) (\<lambda>_.
      Inr (bs @ ordered)))))"

definition term_from_str_name :: "bytes \<Rightarrow> cell_value_ref \<Rightarrow> term_error + index_term" where
  "term_from_str_name name value =
    attempt (term_prefix name (ref_ty value)) (\<lambda>bs. Inr (bs @ ref_value value))"

definition term_from_cell :: "bytes \<Rightarrow> cell_value_ref \<Rightarrow> term_error + index_term option" where
  "term_from_cell name cell =
    (if \<not> ref_indexable cell then Inr None
     else attempt (term_from_str_name name cell) (\<lambda>t. Inr (Some t)))"

definition term_from_cell_name :: "bytes \<Rightarrow> cell_value_ref \<Rightarrow> term_error + index_term" where
  "term_from_cell_name name value =
    attempt (term_name_str name) (\<lambda>n. term_from_str_name n value)"

definition term_check_cell_name :: "bytes \<Rightarrow> term_error + unit" where
  "term_check_cell_name name = attempt (term_name_str name) term_validate_name"

definition term_decode :: "bytes \<Rightarrow> term_error + index_term" where
  "term_decode bs =
    attempt (ok_or InvalidEncoding (position (\<lambda>b. b = 0) bs)) (\<lambda>split.
    attempt (term_name_str (take split bs)) (\<lambda>name.
    attempt (term_validate_name name) (\<lambda>_.
    case drop (split + 1) bs of
      [] \<Rightarrow> Inl InvalidEncoding
    | tag # value \<Rightarrow>
        if tag AND 0x80 = 0 then Inl InvalidEncoding
        else attempt (map_err TermValue (from_id (tag AND 0x7F))) (\<lambda>ty.
          attempt (term_supported ty) (\<lambda>_.
          attempt (map_err TermValue (type_validate ty value)) (\<lambda>_. Inr bs))))))"

definition routing_path :: "(bytes \<Rightarrow> hash) \<Rightarrow> index_term \<Rightarrow> hash" where
  "routing_path H t = H t"

definition term_leaf_hash :: "(bytes \<Rightarrow> hash) \<Rightarrow> index_term \<Rightarrow> hash \<Rightarrow> hash" where
  "term_leaf_hash H t bitmap_root = hash_parts H [[INDEX_LEAF_DOMAIN], routing_path H t, bitmap_root]"

section \<open>Ranges\<close>

record term_range =
  range_lower :: "bytes bound"
  range_upper :: "bytes bound"

datatype range_error =
    NoBound
  | RangeTypeMismatch cell_type cell_type
  | RangeTerm term_error

definition bound_value :: "'a bound \<Rightarrow> 'a option" where
  "bound_value b = (case b of Included v \<Rightarrow> Some v | Excluded v \<Rightarrow> Some v | Unbounded \<Rightarrow> None)"

function past :: "bytes \<Rightarrow> bytes bound" where
  "past p = (if p = [] then Unbounded
    else if last p \<noteq> 0xFF then Excluded (butlast p @ [last p + 1])
    else past (butlast p))"
  by auto

termination
  by (relation "measure length") auto

declare past.simps [simp del]

definition range_bound :: "bytes \<Rightarrow> cell_value_ref bound \<Rightarrow> bytes bound \<Rightarrow> range_error + bytes bound" where
  "range_bound name b open_side =
    (case b of
       Included v \<Rightarrow> attempt (map_err RangeTerm (term_from_str_name name v)) (\<lambda>t. Inr (Included t))
     | Excluded v \<Rightarrow> attempt (map_err RangeTerm (term_from_str_name name v)) (\<lambda>t. Inr (Excluded t))
     | Unbounded \<Rightarrow> Inr open_side)"

definition range_empty :: "bytes bound \<Rightarrow> bytes bound \<Rightarrow> bool" where
  "range_empty lower upr =
    (if lower = Unbounded \<or> upr = Unbounded then False
     else if is_included lower \<and> is_included upr then bound_key lower > bound_key upr
     else bound_key lower \<ge> bound_key upr)"

definition range_between ::
  "bytes \<Rightarrow> cell_value_ref bound \<Rightarrow> cell_value_ref bound \<Rightarrow> range_error + term_range option" where
  "range_between name lower upr =
    attempt (case (bound_value lower, bound_value upr) of
        (None, None) \<Rightarrow> Inl NoBound
      | (Some low, Some high) \<Rightarrow>
          if ref_ty low \<noteq> ref_ty high then Inl (RangeTypeMismatch (ref_ty low) (ref_ty high)) else Inr (ref_ty low)
      | (Some v, None) \<Rightarrow> Inr (ref_ty v)
      | (None, Some v) \<Rightarrow> Inr (ref_ty v)) (\<lambda>ty.
    attempt (map_err RangeTerm (term_name_str name)) (\<lambda>n.
    attempt (map_err RangeTerm (term_prefix n ty)) (\<lambda>run.
    attempt (range_bound n lower (Included run)) (\<lambda>lo.
    attempt (range_bound n upr (past run)) (\<lambda>up.
      Inr (if \<not> range_empty lo up then Some \<lparr>range_lower = lo, range_upper = up\<rparr> else None))))))"

section \<open>The shape of terms\<close>

definition term_run :: "bytes \<Rightarrow> cell_type \<Rightarrow> bytes" where
  "term_run name ty = name @ [0, 0x80 OR cell_type_id ty]"

definition indexable_type :: "cell_type \<Rightarrow> bool" where
  "indexable_type ty \<longleftrightarrow> ty \<noteq> Bytes"

lemma term_validate_name_Inr [try_simps]: "term_validate_name name = Inr u \<longleftrightarrow> user_name name"
  using not_alphabetic(1)
  by (auto simp: term_validate_name_def strip_dollar user_name_def name_body_def Let_def split: list.splits if_splits)

lemma term_validate_name_Inl: "term_validate_name name = Inl e \<longleftrightarrow> \<not> user_name name \<and> e = InvalidName"
  using term_validate_name_Inr [of name "()"]
  by (auto simp: term_validate_name_def Let_def split: list.splits if_splits)

lemma term_supported_Inr [try_simps]: "term_supported ty = Inr u \<longleftrightarrow> indexable_type ty"
  by (cases ty) (simp_all add: term_supported_def indexable_type_def)

lemma term_prefix_Inr [try_simps]:
  "term_prefix name ty = Inr run \<longleftrightarrow> user_name name \<and> indexable_type ty \<and> run = term_run name ty"
  by (auto simp: term_prefix_def try_simps term_run_def)

lemma term_from_str_name_Inr [try_simps]:
  "term_from_str_name name v = Inr t \<longleftrightarrow> user_name name \<and> indexable_type (ref_ty v) \<and> t = term_run name (ref_ty v) @ ref_value v"
  by (auto simp: term_from_str_name_def try_simps)

lemma user_name_bytes: "user_name name \<Longrightarrow> 0 \<notin> set name"
  using name_body_bytes [of name] name_body_bytes [of "tl name"]
  by (cases name) (auto simp: user_name_def)

lemma ascii_byte: "is_ascii_alphabetic b \<or> is_rest b \<or> b = 0x24 \<Longrightarrow> b < 0x80"
  unfolding is_rest_def is_ascii_alphabetic_def is_ascii_digit_def word_less_nat_alt word_le_nat_alt
  by auto

lemma user_name_ascii: "user_name name \<Longrightarrow> \<forall>b \<in> set name. b < 0x80"
  using ascii_byte by (cases name) (auto simp: user_name_def name_body_def list_all_iff split: list.splits)

lemma utf8_ascii: "\<forall>b \<in> set bs. b < 0x80 \<Longrightarrow> utf8_valid bs"
proof -
  have "utf8_valid_up_to bs = length bs" if "\<forall>b \<in> set bs. b < 0x80"
    using that by (induction bs) (subst utf8_valid_up_to.simps; simp)+
  then show "\<forall>b \<in> set bs. b < 0x80 \<Longrightarrow> utf8_valid bs"
    by (simp add: utf8_valid_def)
qed

lemma user_name_utf8: "user_name name \<Longrightarrow> utf8_valid name"
  using user_name_ascii utf8_ascii by blast

lemma tag_masks:
  "0x80 OR cell_type_id ty = cell_type_id ty OR 0x80"
  "(0x80 OR cell_type_id ty) AND 0x7F = cell_type_id ty" "(0x80 OR cell_type_id ty) AND 0x80 = 0x80"
  using cell_type_id_masks by (simp_all add: or.commute)

lemma cell_type_id_inject: "cell_type_id ty = cell_type_id ty' \<longleftrightarrow> ty = ty'"
  by (metis id_of_type sum.inject(2))

lemma append_separator: "0 \<notin> set a \<Longrightarrow> 0 \<notin> set b \<Longrightarrow> a @ 0 # x = b @ 0 # y \<longleftrightarrow> a = b \<and> x = (y :: byte list)"
proof (induction a arbitrary: b)
  case Nil
  then show ?case by (cases b) auto
next
  case (Cons h a)
  then show ?case by (cases b) auto
qed

lemma term_run_inject:
  assumes "user_name name" "user_name name'"
  shows "term_run name ty @ v = term_run name' ty' @ v' \<longleftrightarrow> name = name' \<and> ty = ty' \<and> v = v'"
proof -
  have "0x80 OR cell_type_id ty = 0x80 OR cell_type_id ty' \<longleftrightarrow> ty = ty'"
    using tag_masks(2) cell_type_id_inject by metis
  then show ?thesis
    using append_separator [of name name'] assms [THEN user_name_bytes] by (simp add: term_run_def)
qed

section \<open>The term codec\<close>

lemma separator_position: "0 \<notin> set name \<Longrightarrow> position (\<lambda>b. b = 0) (name @ 0 # rest) = Some (length name)"
  by (induction name) auto

lemma separator_split:
  "position (\<lambda>b. b = (0 :: byte)) bs = Some i \<Longrightarrow> bs = take i bs @ 0 # drop (i + 1) bs"
  using position_Some [of "\<lambda>b. b = 0" bs i] by (metis Suc_eq_plus1 id_take_nth_drop)

lemma term_decode_shape:
  assumes "term_decode bs = Inr t"
  obtains i tag v ty where "position (\<lambda>b. b = 0) bs = Some i" "user_name (take i bs)"
    "drop (i + 1) bs = tag # v" "tag AND 0x80 \<noteq> 0" "from_id (tag AND 0x7F) = Inr ty" "indexable_type ty"
    "type_validate ty v = Inr ()" "t = bs"
proof (cases "position (\<lambda>b. b = 0) bs")
  case None
  then show thesis
    using assms by (simp add: term_decode_def)
next
  case (Some i)
  show thesis
  proof (cases "drop (i + 1) bs")
    case Nil
    then show thesis
      using assms Some by (auto simp: term_decode_def try_simps)
  next
    case (Cons tag v)
    then show thesis
      using that [OF Some _ Cons] assms Some
      by (auto simp: term_decode_def try_simps term_name_str_def split: if_splits)
  qed
qed

lemma term_decode_iff:
  "term_decode bs = Inr t \<longleftrightarrow> t = bs \<and>
    (\<exists>name ty v. user_name name \<and> indexable_type ty \<and> type_validate ty v = Inr () \<and> bs = term_run name ty @ v)"
proof
  assume "term_decode bs = Inr t"
  then obtain i tag v ty where i: "position (\<lambda>b. b = 0) bs = Some i" "user_name (take i bs)"
      "drop (i + 1) bs = tag # v" "tag AND 0x80 \<noteq> 0" "from_id (tag AND 0x7F) = Inr ty" "indexable_type ty"
      "type_validate ty v = Inr ()" "t = bs"
    by (rule term_decode_shape)
  have "tag = 0x80 OR cell_type_id ty"
  proof -
    have "tag = (tag AND 0x7F) OR (tag AND 0x80)"
    proof -
      have "0x7F = NOT (0x80 :: byte)"
        by simp
      then show ?thesis
        by (simp only: bit.conj_disj_distrib [symmetric] bit.disj_cancel_left and.right_neutral)
    qed
    moreover have "tag AND 0x80 = 0x80"
      using i(4) and_exp_bit [of tag 7] by (auto split: if_splits)
    ultimately show ?thesis
      using type_of_id [OF i(5)] by (simp add: or.commute)
  qed
  then have "bs = term_run (take i bs) ty @ v"
    using separator_split [OF i(1)] i(3) by (simp add: term_run_def)
  then show "t = bs \<and> (\<exists>name ty v. user_name name \<and> indexable_type ty \<and> type_validate ty v = Inr () \<and> bs = term_run name ty @ v)"
    using i by blast
next
  assume "t = bs \<and> (\<exists>name ty v. user_name name \<and> indexable_type ty \<and> type_validate ty v = Inr () \<and> bs = term_run name ty @ v)"
  then obtain name ty v where t: "t = bs" "user_name name" "indexable_type ty" "type_validate ty v = Inr ()"
      "bs = term_run name ty @ v"
    by blast
  then have "position (\<lambda>b. b = 0) bs = Some (length name)"
    using separator_position [OF user_name_bytes] by (simp add: term_run_def)
  then show "term_decode bs = Inr t"
    using t user_name_utf8 [OF t(2)] by (simp add: term_decode_def term_run_def term_name_str_def tag_masks(2,3) id_of_type try_simps)
qed

text \<open>C37. Stored index terms are strict and unambiguous: decoding accepts exactly the encodings
  of an attribute name of the grammar, an indexable type and a valid ordered value of that
  type, and no two such triples share an encoding; every indexable cell value has a term
  under a valid name, and it decodes.\<close>

theorem index_term_codec:
  "(term_decode bs = Inr t \<longleftrightarrow> t = bs \<and>
     (\<exists>name ty v. user_name name \<and> indexable_type ty \<and> type_validate ty v = Inr () \<and> bs = term_run name ty @ v)) \<and>
   (user_name name \<and> user_name name' \<longrightarrow>
     (term_run name ty @ v = term_run name' ty' @ v' \<longleftrightarrow> name = name' \<and> ty = ty' \<and> v = v')) \<and>
   (user_name name \<and> ref_valid c \<and> ref_indexable c \<longrightarrow>
     (\<exists>t. term_from_cell name c = Inr (Some t) \<and> term_from_cell_name name c = Inr t \<and> term_decode t = Inr t))"
proof (intro conjI impI)
  show "\<exists>t. term_from_cell name c = Inr (Some t) \<and> term_from_cell_name name c = Inr t \<and> term_decode t = Inr t"
    if that: "user_name name \<and> ref_valid c \<and> ref_indexable c"
  proof -
    have "indexable_type (ref_ty c)" "type_validate (ref_ty c) (ref_value c) = Inr ()"
      using that by (auto simp: ref_valid_def ref_new_def indexable_type_def try_simps split: if_splits)
    moreover from this have "term_decode (term_run name (ref_ty c) @ ref_value c) = Inr (term_run name (ref_ty c) @ ref_value c)"
      using that by (intro term_decode_iff [THEN iffD2] conjI refl exI) simp_all
    ultimately show ?thesis
      using that user_name_utf8 [of name]
      by (simp add: term_from_cell_def term_from_cell_name_def term_name_str_def term_from_str_name_Inr [THEN iffD2])
  qed
qed (rule term_decode_iff, elim conjE, rule term_run_inject, assumption+)

theorem index_term_codec_witness:
  "\<exists>t. term_from_cell (ascii ''price'') \<lparr>ref_ty = Uint W4, ref_value = [0, 0, 0, 7], ref_indexable = True\<rparr> = Inr (Some t) \<and>
    term_decode t = Inr t"
proof -
  have "user_name (ascii ''price'')"
    by (simp add: user_name_def ascii_def name_body_def is_ascii_alphabetic_def is_rest_def)
  moreover have "ref_valid \<lparr>ref_ty = Uint W4, ref_value = [0, 0, 0, 7], ref_indexable = True\<rparr>"
    by (simp add: ref_valid_def ref_new_def typed_defs)
  ultimately show ?thesis
    using index_term_codec [where name = "ascii ''price''"
        and c = "\<lparr>ref_ty = Uint W4, ref_value = [0, 0, 0, 7], ref_indexable = True\<rparr>", THEN conjunct2, THEN conjunct2]
    by (simp only: cell_value_ref.simps simp_thms) metis
qed

section \<open>Ranges of terms\<close>

lemma list_le_append: "(p :: bytes) \<le> p @ q"
  by (rule prefix_le) simp

lemma append_le_iff: "(p :: bytes) @ a \<le> p @ b \<longleftrightarrow> a \<le> b"
  using append_less_iff [of p p a b] by (auto simp: le_less)

lemma prefix_past:
  "prefix p k \<longleftrightarrow> p \<le> k \<and> below_bound (past p) k"
proof (induction p rule: past.induct)
  case (1 p)
  show ?case
  proof (cases "p = []")
    case True
    then show ?thesis
      by (simp add: past.simps below_bound_def)
  next
    case ne: False
    define q b where "q = butlast p" and "b = last p"
    have p: "p = q @ [b]"
      using ne by (simp add: q_def b_def)
    have within: "prefix p k \<longleftrightarrow> c = b" if "k = q @ c # r" for c r
      using that by (auto simp: p)
    show ?thesis
    proof (cases "b = 0xFF")
      case True
      then have pq: "past p = past q"
        using ne by (subst past.simps) (simp add: q_def b_def)
      have IH: "prefix q k \<longleftrightarrow> q \<le> k \<and> below_bound (past q) k"
        using 1 ne True by (simp add: q_def b_def)
      show ?thesis
      proof
        assume "prefix p k"
        then show "p \<le> k \<and> below_bound (past p) k"
          using IH pq prefix_le by (auto simp: p dest: append_prefixD)
      next
        assume k: "p \<le> k \<and> below_bound (past p) k"
        then have "q \<le> k"
          using list_le_append [of q "[b]"] by (auto simp: p)
        then obtain s where s: "k = q @ s"
          using IH k pq by (auto simp: prefix_def)
        then have "[b] \<le> s"
          using k append_le_iff [of q "[b]" s] by (simp add: p)
        then obtain c r where "s = c # r" "b \<le> c"
          by (cases s) (auto simp: less_imp_le)
        moreover from this have "c = b"
          using True unat_byte_less [of c]
          by (simp add: word_unat_eq_iff word_le_nat_alt del: unat_byte_less)
        ultimately show "prefix p k"
          using within s by blast
      qed
    next
      case False
      then have pb: "past p = Excluded (q @ [b + 1])"
        using ne by (subst past.simps) (simp add: q_def b_def)
      have "unat b < 255"
        using False unat_byte_less [of b] by (simp add: word_unat_eq_iff del: unat_byte_less)
      then have succ: "unat (b + 1) = unat b + 1"
        by (simp add: unat_word_ariths)
      show ?thesis
      proof
        assume "prefix p k"
        then obtain r where "k = q @ b # r"
          by (auto simp: p prefix_def)
        then show "p \<le> k \<and> below_bound (past p) k"
          using \<open>prefix p k\<close> prefix_le succ append_less_iff [of q q "b # r" "[b + 1]"]
          by (auto simp: pb below_bound_def word_less_nat_alt)
      next
        assume k: "p \<le> k \<and> below_bound (past p) k"
        then have lt: "k < q @ [b + 1]" and "q \<le> k"
          using list_le_append [of q "[b]"] by (auto simp: pb below_bound_def) (auto simp: p)
        then have "prefix q k"
          using prefix_below [of k "q @ [b + 1]" q] by (auto simp: less_imp_le)
        then obtain s where s: "k = q @ s"
          by (auto simp: prefix_def)
        then have "[b] \<le> s" "s < [b + 1]"
          using k lt append_le_iff [of q "[b]" s] append_less_iff [of q q s "[b + 1]"] by (auto simp: p)
        then obtain c r where "s = c # r" "b \<le> c" "c < b + 1"
          by (cases s) (auto simp: less_imp_le)
        moreover from this have "c = b"
          using succ by (auto simp: word_le_nat_alt word_less_nat_alt word_unat_eq_iff)
        ultimately show "prefix p k"
          using within s by blast
      qed
    qed
  qed
qed

definition bounds_of_type :: "cell_type \<Rightarrow> cell_value_ref bound \<Rightarrow> cell_value_ref bound \<Rightarrow> bool" where
  "bounds_of_type ty lower upr \<longleftrightarrow> (lower \<noteq> Unbounded \<or> upr \<noteq> Unbounded) \<and>
    (\<forall>v \<in> set_bound lower \<union> set_bound upr. ref_ty v = ty)"

definition low_end :: "bytes \<Rightarrow> bytes bound \<Rightarrow> bytes bound" where
  "low_end run b = (if b = Unbounded then Included run else map_bound (\<lambda>v. run @ v) b)"

definition high_end :: "bytes \<Rightarrow> bytes bound \<Rightarrow> bytes bound" where
  "high_end run b = (if b = Unbounded then past run else map_bound (\<lambda>v. run @ v) b)"

lemma run_below_past: "below_bound (past run) (run @ v)"
  using prefix_past [of run "run @ v"] by simp

lemma above_low_end: "above_bound (low_end run b) (run @ v) \<longleftrightarrow> above_bound b v"
  using append_less_iff [of run run] append_le_iff [of run] list_le_append [of run v]
  by (cases b) (auto simp: low_end_def above_bound_def)

lemma below_high_end: "below_bound (high_end run b) (run @ v) \<longleftrightarrow> below_bound b v"
  using append_less_iff [of run run] append_le_iff [of run] run_below_past [of run v]
  by (cases b) (auto simp: high_end_def below_bound_def)

lemma within_run:
  assumes "above_bound (low_end run lower) k" "below_bound (high_end run upr) k"
  shows "prefix run k"
proof -
  have ge: "run \<le> k"
    using assms(1) list_le_append [of run]
    by (cases lower) (auto simp: low_end_def above_bound_def intro: order_trans dest: less_imp_le)
  show ?thesis
  proof (cases "upr = Unbounded")
    case True
    then show ?thesis
      using assms(2) ge prefix_past by (simp add: high_end_def)
  next
    case False
    then have "k \<le> run @ bound_key upr"
      using assms(2) by (cases upr) (auto simp: high_end_def below_bound_def less_imp_le)
    then show ?thesis
      using prefix_below [of k "run @ bound_key upr" run] ge by simp
  qed
qed

lemma in_run_range:
  "in_range (low_end run lower) (high_end run upr) k \<longleftrightarrow> (\<exists>v. k = run @ v \<and> in_range lower upr v)"
  using within_run above_low_end below_high_end by (auto simp: in_range_def prefix_def) blast

lemma range_empty_run:
  assumes "range_empty (low_end run lower) (high_end run upr)"
  shows "\<not> in_range lower upr v"
proof
  assume "in_range lower upr v"
  then have "in_range (low_end run lower) (high_end run upr) (run @ v)"
    using in_run_range by blast
  then show False
    using assms by (cases "low_end run lower"; cases "high_end run upr")
      (auto simp: range_empty_def in_range_def above_bound_def below_bound_def is_included_def)
qed

lemma range_nonempty_ok: "\<not> range_empty lo up \<Longrightarrow> range_ok lo up"
  by (auto simp: range_empty_def range_ok_def split: if_splits)

lemma range_bound_eq:
  assumes "user_name name" "indexable_type ty" "\<forall>v \<in> set_bound b. ref_ty v = ty"
  shows "range_bound name b side = Inr (if b = Unbounded then side else map_bound (\<lambda>v. term_run name ty @ ref_value v) b)"
  using assms(3) assms(1,2) by (cases b) (auto simp: range_bound_def bound_value_def try_simps)

lemma range_between_ok:
  assumes "user_name name" "indexable_type ty" "bounds_of_type ty lower upr"
  shows "range_between name lower upr = Inr
    (let lo = low_end (term_run name ty) (map_bound ref_value lower); up = high_end (term_run name ty) (map_bound ref_value upr)
     in if \<not> range_empty lo up then Some \<lparr>range_lower = lo, range_upper = up\<rparr> else None)"
proof -
  have ty: "\<forall>v \<in> set_bound lower. ref_ty v = ty" "\<forall>v \<in> set_bound upr. ref_ty v = ty"
    using assms(3) by (auto simp: bounds_of_type_def)
  have lo: "range_bound name lower (Included (term_run name ty)) = Inr (low_end (term_run name ty) (map_bound ref_value lower))"
    using range_bound_eq [OF assms(1,2) ty(1)] by (cases lower) (auto simp: low_end_def)
  have up: "range_bound name upr (past (term_run name ty)) = Inr (high_end (term_run name ty) (map_bound ref_value upr))"
    using range_bound_eq [OF assms(1,2) ty(2)] by (cases upr) (auto simp: high_end_def)
  have "term_prefix name ty = Inr (term_run name ty)" "term_name_str name = Inr name"
    using assms user_name_utf8 by (auto simp: term_prefix_Inr term_name_str_def)
  moreover have "(case (bound_value lower, bound_value upr) of
        (None, None) \<Rightarrow> Inl NoBound
      | (Some low, Some high) \<Rightarrow>
          if ref_ty low \<noteq> ref_ty high then Inl (RangeTypeMismatch (ref_ty low) (ref_ty high)) else Inr (ref_ty low)
      | (Some v, None) \<Rightarrow> Inr (ref_ty v)
      | (None, Some v) \<Rightarrow> Inr (ref_ty v)) = Inr ty"
    using assms(3) by (cases lower; cases upr) (simp_all add: bound_value_def bounds_of_type_def)
  ultimately show ?thesis
    by (simp add: range_between_def lo up Let_def)
qed

lemma range_between_Inr:
  assumes "range_between name lower upr = Inr r"
  shows "\<exists>ty. user_name name \<and> indexable_type ty \<and> bounds_of_type ty lower upr"
  using assms by (cases lower; cases upr)
    (auto simp: range_between_def bound_value_def bounds_of_type_def try_simps term_name_str_def split: if_splits)

lemma range_between_selects:
  assumes "range_between name lower upr = Inr r"
  obtains ty where "user_name name" "indexable_type ty" "bounds_of_type ty lower upr"
    "case r of
        None \<Rightarrow> \<forall>v. \<not> in_range (map_bound ref_value lower) (map_bound ref_value upr) v
      | Some r \<Rightarrow> range_ok (range_lower r) (range_upper r) \<and> (\<forall>k. in_range (range_lower r) (range_upper r) k \<longleftrightarrow>
          (\<exists>v. k = term_run name ty @ v \<and> in_range (map_bound ref_value lower) (map_bound ref_value upr) v))"
proof -
  obtain ty where ty: "user_name name" "indexable_type ty" "bounds_of_type ty lower upr"
    using range_between_Inr [OF assms] by blast
  have "if \<not> range_empty (low_end (term_run name ty) (map_bound ref_value lower)) (high_end (term_run name ty) (map_bound ref_value upr))
      then r = Some \<lparr>range_lower = low_end (term_run name ty) (map_bound ref_value lower),
        range_upper = high_end (term_run name ty) (map_bound ref_value upr)\<rparr> else r = None"
    using range_between_ok [OF ty] assms by (simp add: Let_def split: if_splits)
  then have "case r of
        None \<Rightarrow> \<forall>v. \<not> in_range (map_bound ref_value lower) (map_bound ref_value upr) v
      | Some r \<Rightarrow> range_ok (range_lower r) (range_upper r) \<and> (\<forall>k. in_range (range_lower r) (range_upper r) k \<longleftrightarrow>
          (\<exists>v. k = term_run name ty @ v \<and> in_range (map_bound ref_value lower) (map_bound ref_value upr) v))"
    using range_empty_run range_nonempty_ok by (auto simp: in_run_range split: if_splits)
  with ty show thesis
    by (rule that)
qed

text \<open>C38. A range constructor is exact: it succeeds exactly for an attribute name of the grammar and
  bounds of one indexable type, at least one given. Then it selects, of all byte strings, exactly
  those that encode this name, this type and an ordered value within the given bounds, with
  an order that the storage scan accepts; no range at all is returned only when no value lies within
  the bounds. Two missing bounds and bounds of different types are their own errors,
  reported before the name is looked at.\<close>

theorem term_range_exact:
  "((\<exists>r. range_between name lower upr = Inr r) \<longleftrightarrow>
      (\<exists>ty. user_name name \<and> indexable_type ty \<and> bounds_of_type ty lower upr)) \<and>
   (\<forall>ty r. bounds_of_type ty lower upr \<longrightarrow> range_between name lower upr = Inr (Some r) \<longrightarrow>
      range_ok (range_lower r) (range_upper r) \<and>
      (\<forall>k. in_range (range_lower r) (range_upper r) k \<longleftrightarrow>
        (\<exists>v. k = term_run name ty @ v \<and> in_range (map_bound ref_value lower) (map_bound ref_value upr) v))) \<and>
   (range_between name lower upr = Inr None \<longrightarrow>
      (\<forall>v. \<not> in_range (map_bound ref_value lower) (map_bound ref_value upr) v)) \<and>
   range_between name Unbounded Unbounded = Inl NoBound \<and>
   (\<forall>a b. bound_value lower = Some a \<longrightarrow> bound_value upr = Some b \<longrightarrow> ref_ty a \<noteq> ref_ty b \<longrightarrow>
      range_between name lower upr = Inl (RangeTypeMismatch (ref_ty a) (ref_ty b)))"
proof -
  have type: "ty = ty'" if "bounds_of_type ty lower upr" "bounds_of_type ty' lower upr" for ty ty'
    using that by (cases lower; cases upr) (auto simp: bounds_of_type_def bound_value_def)
  have "range_ok (range_lower r) (range_upper r) \<and> (\<forall>k. in_range (range_lower r) (range_upper r) k \<longleftrightarrow>
        (\<exists>v. k = term_run name ty @ v \<and> in_range (map_bound ref_value lower) (map_bound ref_value upr) v))"
    if bounds: "bounds_of_type ty lower upr" and some: "range_between name lower upr = Inr (Some r)" for ty r
  proof -
    obtain ty' where ty': "bounds_of_type ty' lower upr" "range_ok (range_lower r) (range_upper r) \<and> (\<forall>k. in_range (range_lower r) (range_upper r) k \<longleftrightarrow>
        (\<exists>v. k = term_run name ty' @ v \<and> in_range (map_bound ref_value lower) (map_bound ref_value upr) v))"
      by (rule range_between_selects [OF some], unfold option.case) (rule that)
    show ?thesis
      using ty'(2) unfolding type [OF bounds ty'(1)] .
  qed
  moreover have "\<not> in_range (map_bound ref_value lower) (map_bound ref_value upr) v" if "range_between name lower upr = Inr None" for v
    by (rule range_between_selects [OF that]) (simp only: option.case not_False_eq_True)
  moreover have "range_between name lower upr = Inl (RangeTypeMismatch (ref_ty a) (ref_ty b))"
    if "bound_value lower = Some a" "bound_value upr = Some b" "ref_ty a \<noteq> ref_ty b" for a b
    using that by (simp add: range_between_def)
  moreover have "range_between name Unbounded Unbounded = Inl NoBound"
    by (simp add: range_between_def bound_value_def)
  ultimately show ?thesis
    using range_between_Inr [of name lower upr] range_between_ok [of name _ lower upr] by (auto simp del: in_range_def)
qed

theorem term_range_exact_witness:
  "\<exists>r. range_between (ascii ''price'') (Included \<lparr>ref_ty = Uint W4, ref_value = [0, 0, 0, 7], ref_indexable = True\<rparr>) Unbounded =
      Inr (Some r) \<and>
    \<not> in_range (range_lower r) (range_upper r) (term_run (ascii ''price'') (Uint W4) @ [0, 0, 0, 6]) \<and>
    in_range (range_lower r) (range_upper r) (term_run (ascii ''price'') (Uint W4) @ [0, 0, 0, 8])"
proof -
  let ?low = "Included \<lparr>ref_ty = Uint W4, ref_value = [0, 0, 0, 7 :: byte], ref_indexable = True\<rparr>"
  note exact = term_range_exact [of "ascii ''price''" ?low Unbounded]
  have "user_name (ascii ''price'')"
    by (simp add: user_name_def ascii_def name_body_def is_ascii_alphabetic_def is_rest_def)
  moreover have one: "bounds_of_type (Uint W4) ?low Unbounded" "indexable_type (Uint W4)"
    by (simp_all add: bounds_of_type_def bound_value_def indexable_type_def)
  ultimately obtain q where q: "range_between (ascii ''price'') ?low Unbounded = Inr q"
    using exact by blast
  have vals: "in_range (map_bound ref_value ?low) (map_bound ref_value Unbounded) v \<longleftrightarrow> [0, 0, 0, 7] \<le> v" for v
    by (simp add: in_range_def above_bound_def below_bound_def)
  then have "in_range (map_bound ref_value ?low) (map_bound ref_value Unbounded) [0, 0, 0, 7]"
    by simp
  then have "q \<noteq> None"
    using exact [THEN conjunct2, THEN conjunct2, THEN conjunct1] q by auto
  then obtain r where r: "q = Some r"
    by blast
  have "in_range (range_lower r) (range_upper r) (term_run (ascii ''price'') (Uint W4) @ v) \<longleftrightarrow> [0, 0, 0, 7] \<le> v" for v
    using exact q r one(1) vals by (metis same_append_eq)
  then show ?thesis
    using q r by simp
qed

end
