(* ===== verification/Index_Bitmap.thy ===== *)
theory Index_Bitmap
  imports Index_Term
begin

text \<open>
  \<^verbatim>\<open>crates/index/src/path.rs\<close>, \<^verbatim>\<open>container.rs\<close> and \<^verbatim>\<open>bitmap.rs\<close>: record ids split into a 48-bit path and
  a 16-bit offset, the containers of one path, and the bitmaps assembled from them. The
  \<^verbatim>\<open>roaring\<close> crate is a parameter, the record \<open>roaring\<close> of the operations the code calls; what the
  code relies on is the hypothesis \<open>roaring_ok\<close>. \<open>BitmapPanic\<close> stands for the \<^verbatim>\<open>expect\<close> of
  \<^verbatim>\<open>from_containers\<close>; serializing into a vector cannot fail.
\<close>

section \<open>Paths\<close>

definition CHUNK_BITS :: nat where "CHUNK_BITS = 16"
definition PATH_BITS :: nat where "PATH_BITS = 48"
definition BITMAP_TRIE_PATH_BYTES :: nat where "BITMAP_TRIE_PATH_BYTES = PATH_BITS div 8"
definition PATH_BYTE_OFFSET :: nat where "PATH_BYTE_OFFSET = 8 - BITMAP_TRIE_PATH_BYTES"
definition MAX_PATH :: u64 where "MAX_PATH = push_bit PATH_BITS 1 - 1"

datatype 'io bitmap_error =
    PathOutOfRange u64
  | OffsetOutOfRange u32
  | DuplicatePath u64
  | UnsortedPaths u64 u64
  | EmptyContainer
  | TruncatedPath
  | NonCanonicalEncoding
  | RoaringDecode 'io
  | BitmapPanic

definition is_valid_path :: "u64 \<Rightarrow> bool" where
  "is_valid_path path \<longleftrightarrow> path \<le> MAX_PATH"

definition id_split :: "u64 \<Rightarrow> u64 \<times> u16" where
  "id_split v = (drop_bit CHUNK_BITS v, ucast v)"

definition id_join :: "u64 \<Rightarrow> u16 \<Rightarrow> 'io bitmap_error + u64" where
  "id_join path v = (if \<not> is_valid_path path then Inl (PathOutOfRange path)
    else Inr (push_bit CHUNK_BITS path OR ucast v))"

definition path_bytes :: "u64 \<Rightarrow> 'io bitmap_error + bytes" where
  "path_bytes path = (if \<not> is_valid_path path then Inl (PathOutOfRange path)
    else let be = to_be path in Inr (map (\<lambda>i. be ! (PATH_BYTE_OFFSET + i)) [0..<BITMAP_TRIE_PATH_BYTES]))"

section \<open>The roaring crate\<close>

record ('b, 't, 'io) roaring =
  rb_new :: 'b
  rb_collect :: "u32 list \<Rightarrow> 'b"
  rb_insert :: "u32 \<Rightarrow> 'b \<Rightarrow> bool \<times> 'b"
  rb_remove :: "u32 \<Rightarrow> 'b \<Rightarrow> bool \<times> 'b"
  rb_is_empty :: "'b \<Rightarrow> bool"
  rb_len :: "'b \<Rightarrow> u64"
  rb_max :: "'b \<Rightarrow> u32 option"
  rb_iter :: "'b \<Rightarrow> u32 list"
  rb_remove_run_compression :: "'b \<Rightarrow> 'b"
  rb_optimize :: "'b \<Rightarrow> 'b"
  rb_serialize :: "'b \<Rightarrow> bytes"
  rb_deserialize :: "bytes \<Rightarrow> 'io + 'b"
  tm_new :: 't
  tm_append :: "u64 list \<Rightarrow> 't \<Rightarrow> unit + 't"
  tm_union :: "'t \<Rightarrow> 't \<Rightarrow> 't"
  tm_iter :: "'t \<Rightarrow> u64 list"
  tm_len :: "'t \<Rightarrow> u64"

definition rb_canonical :: "('b, 't, 'io) roaring \<Rightarrow> 'b \<Rightarrow> bytes" where
  "rb_canonical R b = rb_serialize R (rb_optimize R (rb_remove_run_compression R b))"

text \<open>The documented behaviour the code relies on: a bitmap is a set of \<^verbatim>\<open>u32\<close>, iterated in ascending
  order; run compression and optimization change the layout only, and after both the layout
  is a function of the set; serialization is read back; a treemap is a set of \<^verbatim>\<open>u64\<close>, iterated in
  ascending order, that accepts an ascending continuation.\<close>

definition roaring_sets :: "('b, 't, 'io) roaring \<Rightarrow> ('b \<Rightarrow> u32 set) \<Rightarrow> bool" where
  "roaring_sets R rset \<longleftrightarrow>
    rset (rb_new R) = {} \<and> (\<forall>xs. rset (rb_collect R xs) = set xs) \<and>
    (\<forall>x b. fst (rb_insert R x b) = (x \<notin> rset b) \<and> rset (snd (rb_insert R x b)) = insert x (rset b)) \<and>
    (\<forall>x b. fst (rb_remove R x b) = (x \<in> rset b) \<and> rset (snd (rb_remove R x b)) = rset b - {x}) \<and>
    (\<forall>b. rb_is_empty R b = (rset b = {}) \<and> rb_max R b = (if rset b = {} then None else Some (Max (rset b))) \<and>
      unat (rb_len R b) = card (rset b) \<and> sorted_wrt (<) (rb_iter R b) \<and> set (rb_iter R b) = rset b) \<and>
    (\<forall>b. rset (rb_remove_run_compression R b) = rset b \<and> rset (rb_optimize R b) = rset b)"

definition roaring_codec :: "('b, 't, 'io) roaring \<Rightarrow> ('b \<Rightarrow> u32 set) \<Rightarrow> bool" where
  "roaring_codec R rset \<longleftrightarrow>
    (\<forall>b c. rset b = rset c \<longrightarrow> rb_canonical R b = rb_canonical R c) \<and>
    (\<forall>b. \<exists>c. rb_deserialize R (rb_serialize R b) = Inr c \<and> rset c = rset b)"

definition roaring_treemap :: "('b, 't, 'io) roaring \<Rightarrow> ('t \<Rightarrow> u64 set) \<Rightarrow> bool" where
  "roaring_treemap R tset \<longleftrightarrow>
    tset (tm_new R) = {} \<and> (\<forall>t u. tset (tm_union R t u) = tset t \<union> tset u) \<and>
    (\<forall>xs t. sorted_wrt (<) xs \<longrightarrow> (\<forall>x \<in> set xs. \<forall>y \<in> tset t. y < x) \<longrightarrow>
      (\<exists>u. tm_append R xs t = Inr u \<and> tset u = tset t \<union> set xs)) \<and>
    (\<forall>t. sorted_wrt (<) (tm_iter R t) \<and> set (tm_iter R t) = tset t \<and> (card (tset t) < 2 ^ 64 \<longrightarrow> unat (tm_len R t) = card (tset t)))"

definition roaring_ok :: "('b, 't, 'io) roaring \<Rightarrow> ('b \<Rightarrow> u32 set) \<Rightarrow> ('t \<Rightarrow> u64 set) \<Rightarrow> bool" where
  "roaring_ok R rset tset \<longleftrightarrow> roaring_sets R rset \<and> roaring_codec R rset \<and> roaring_treemap R tset"

section \<open>Containers\<close>

definition BITMAP_LEAF_DOMAIN :: byte where "BITMAP_LEAF_DOMAIN = 4"

record 'b bitmap_container =
  bc_path :: u64
  bc_values :: 'b

definition container_new ::
  "('b, 't, 'io) roaring \<Rightarrow> u64 \<Rightarrow> 'b \<Rightarrow> 'io bitmap_error + 'b bitmap_container" where
  "container_new R path values =
    (if \<not> is_valid_path path then Inl (PathOutOfRange path)
     else case rb_max R values of
       Some v \<Rightarrow> if v > 0xFFFF then Inl (OffsetOutOfRange v) else Inr \<lparr>bc_path = path, bc_values = values\<rparr>
     | None \<Rightarrow> Inr \<lparr>bc_path = path, bc_values = values\<rparr>)"

definition container_empty :: "('b, 't, 'io) roaring \<Rightarrow> u64 \<Rightarrow> 'io bitmap_error + 'b bitmap_container" where
  "container_empty R path = container_new R path (rb_new R)"

definition container_from_values ::
  "('b, 't, 'io) roaring \<Rightarrow> u64 \<Rightarrow> u16 list \<Rightarrow> 'io bitmap_error + 'b bitmap_container" where
  "container_from_values R path values = container_new R path (rb_collect R (map ucast values))"

definition container_insert ::
  "('b, 't, 'io) roaring \<Rightarrow> u16 \<Rightarrow> 'b bitmap_container \<Rightarrow> bool \<times> 'b bitmap_container" where
  "container_insert R offset c =
    (let (changed, b) = rb_insert R (ucast offset) (bc_values c) in (changed, c\<lparr>bc_values := b\<rparr>))"

definition container_remove ::
  "('b, 't, 'io) roaring \<Rightarrow> u16 \<Rightarrow> 'b bitmap_container \<Rightarrow> bool \<times> 'b bitmap_container" where
  "container_remove R offset c =
    (let (changed, b) = rb_remove R (ucast offset) (bc_values c) in (changed, c\<lparr>bc_values := b\<rparr>))"

definition container_is_empty :: "('b, 't, 'io) roaring \<Rightarrow> 'b bitmap_container \<Rightarrow> bool" where
  "container_is_empty R c = rb_is_empty R (bc_values c)"

definition container_len :: "('b, 't, 'io) roaring \<Rightarrow> 'b bitmap_container \<Rightarrow> u64" where
  "container_len R c = rb_len R (bc_values c)"

definition container_iter :: "('b, 't, 'io) roaring \<Rightarrow> 'b bitmap_container \<Rightarrow> u64 list" where
  "container_iter R c = map (\<lambda>offset. push_bit 16 (bc_path c) OR ucast offset) (rb_iter R (bc_values c))"

definition container_encode_into ::
  "('b, 't, 'io) roaring \<Rightarrow> 'b bitmap_container \<Rightarrow> bytes \<Rightarrow> 'io bitmap_error + bytes" where
  "container_encode_into R c out =
    (if container_is_empty R c then Inl EmptyContainer
     else attempt (path_bytes (bc_path c)) (\<lambda>hi. Inr (out @ hi @ rb_canonical R (bc_values c))))"

definition canonical_bytes :: "('b, 't, 'io) roaring \<Rightarrow> 'b bitmap_container \<Rightarrow> 'io bitmap_error + bytes" where
  "canonical_bytes R c = container_encode_into R c []"

definition container_leaf_hash ::
  "('b, 't, 'io) roaring \<Rightarrow> (bytes \<Rightarrow> hash) \<Rightarrow> 'b bitmap_container \<Rightarrow> 'io bitmap_error + hash" where
  "container_leaf_hash R H c =
    attempt (canonical_bytes R c) (\<lambda>bs. Inr (hash_parts H [[BITMAP_LEAF_DOMAIN], bs]))"

definition container_decode :: "('b, 't, 'io) roaring \<Rightarrow> bytes \<Rightarrow> 'io bitmap_error + 'b bitmap_container" where
  "container_decode R bs =
    (if length bs < 6 then Inl TruncatedPath
     else
       attempt (map_err RoaringDecode (rb_deserialize R (drop 6 bs))) (\<lambda>values.
       attempt (container_new R (from_be ([0, 0] @ take 6 bs)) values) (\<lambda>container.
       attempt (canonical_bytes R container) (\<lambda>canonical.
         if canonical \<noteq> bs then Inl NonCanonicalEncoding else Inr container))))"

section \<open>Bitmaps\<close>

fun append_containers ::
  "('b, 't, 'io) roaring \<Rightarrow> 'b bitmap_container list \<Rightarrow> u64 option \<Rightarrow> 't \<Rightarrow> 'io bitmap_error + 't" where
  "append_containers R [] previous values = Inr values"
| "append_containers R (container # containers) previous values =
    (let path = bc_path container in
     attempt (case previous of
         Some prev \<Rightarrow> if path = prev then Inl (DuplicatePath path)
           else if path < prev then Inl (UnsortedPaths prev path) else Inr ()
       | None \<Rightarrow> Inr ()) (\<lambda>_.
     attempt (map_err (\<lambda>_. BitmapPanic) (tm_append R (container_iter R container) values)) (\<lambda>values'.
       append_containers R containers (Some path) values')))"

definition from_containers :: "('b, 't, 'io) roaring \<Rightarrow> 'b bitmap_container list \<Rightarrow> 'io bitmap_error + 't" where
  "from_containers R containers = append_containers R containers None (tm_new R)"

definition bitmap_or_assign :: "('b, 't, 'io) roaring \<Rightarrow> 't \<Rightarrow> 't \<Rightarrow> 't" where
  "bitmap_or_assign R b other = tm_union R b other"

end
