(* ===== verification/Index_Store.thy ===== *)
theory Index_Store
  imports Index_Bitmap Merkle_Walk "HOL-Library.Product_Lexorder"
begin

text \<open>
  \<^verbatim>\<open>crates/index/src/bitmap_trie.rs\<close>, \<^verbatim>\<open>index_trie.rs\<close> and \<^verbatim>\<open>index/\<close>: the two-tier index. The \<^verbatim>\<open>Index\<close>
  table maps a term to the root of its bitmap trie, whose leaves are containers; the index trie
  commits to the table. Parameters: the hash provider \<open>H\<close> and the roaring crate \<open>R\<close>.
\<close>

section \<open>Tables, domains, errors\<close>

definition INDEX :: table where "INDEX = ''Index''"
definition BITMAP_CONTAINER :: table where "BITMAP_CONTAINER = ''BitmapContainer''"
definition BITMAP_TRIE :: table where "BITMAP_TRIE = ''BitmapTrie''"
definition INDEX_TRIE :: table where "INDEX_TRIE = ''IndexTrie''"

definition INDEX_BRANCH_DOMAIN :: byte where "INDEX_BRANCH_DOMAIN = 3"
definition BITMAP_BRANCH_DOMAIN :: byte where "BITMAP_BRANCH_DOMAIN = 5"
definition INDEX_TRIE_PATH_BYTES :: nat where "INDEX_TRIE_PATH_BYTES = 32"

datatype 'io index_error =
    IndexStorage storage_error
  | IndexMerkle merkle_error
  | IndexBitmap "'io bitmap_error"
  | IndexTermError term_error
  | IndexCorruption string
  | IndexRootMismatch
  | IndexConflictingContent

section \<open>The bitmap trie\<close>

definition bitmap_trie :: "(bytes \<Rightarrow> hash) \<Rightarrow> trie" where
  "bitmap_trie H = \<lparr>tr_table = BITMAP_TRIE, tr_domain = BITMAP_BRANCH_DOMAIN, tr_hasher = H,
    tr_width = BITMAP_TRIE_PATH_BYTES\<rparr>"

definition bt_decode ::
  "('b, 't, 'io) roaring \<Rightarrow> (bytes \<Rightarrow> hash) \<Rightarrow> hash \<Rightarrow> bytes \<Rightarrow> 'io index_error + 'b bitmap_container" where
  "bt_decode R H h bs =
    (if hash_parts H [[BITMAP_LEAF_DOMAIN], bs] \<noteq> h then Inl (IndexCorruption ''container hash mismatch'')
     else map_err IndexBitmap (container_decode R bs))"

definition bt_load ::
  "('tx, 'cur, 'z) read_ops_scheme \<Rightarrow> ('b, 't, 'io) roaring \<Rightarrow> (bytes \<Rightarrow> hash) \<Rightarrow> 'tx \<Rightarrow> leaf_ref \<Rightarrow>
    'io index_error + 'b bitmap_container" where
  "bt_load ops R H tx leaf =
    attempt (map_err IndexStorage (tx_get ops tx BITMAP_CONTAINER (leaf_hash leaf))) (\<lambda>row.
    attempt (ok_or (IndexCorruption ''missing container'') row) (\<lambda>bs.
    attempt (bt_decode R H (leaf_hash leaf) bs) (\<lambda>container.
    attempt (map_err IndexBitmap (path_bytes (bc_path container))) (\<lambda>path.
      if path \<noteq> leaf_path leaf then Inl (IndexCorruption ''container path disagrees with leaf reference'')
      else Inr container))))"

definition bt_reopen ::
  "('tx, 'cur, 'z) read_ops_scheme \<Rightarrow> ('b, 't, 'io) roaring \<Rightarrow> (bytes \<Rightarrow> hash) \<Rightarrow> 'tx \<Rightarrow> hash \<Rightarrow>
    'io index_error + (root_ref \<times> 'b bitmap_container option)" where
  "bt_reopen ops R H tx h =
    (if h = H [] then Inl (IndexCorruption ''empty bitmap root in Index row'')
     else
       attempt (map_err IndexStorage (tx_get ops tx BITMAP_CONTAINER h)) (\<lambda>row.
       case row of
         Some bs \<Rightarrow>
           attempt (bt_decode R H h bs) (\<lambda>container.
           attempt (map_err IndexBitmap (path_bytes (bc_path container))) (\<lambda>path.
             Inr (RootLeaf \<lparr>leaf_path = path, leaf_hash = h\<rparr>, Some container)))
       | None \<Rightarrow>
           attempt (map_err IndexMerkle (validate_root ops (bitmap_trie H) tx (RootBranch h))) (\<lambda>_.
             Inr (RootBranch h, None))))"

definition bt_bitmap ::
  "('tx, 'cur, 'z) read_ops_scheme \<Rightarrow> ('b, 't, 'io) roaring \<Rightarrow> (bytes \<Rightarrow> hash) \<Rightarrow> 'tx \<Rightarrow> hash \<Rightarrow>
    'io index_error + 't" where
  "bt_bitmap ops R H tx h =
    attempt (bt_reopen ops R H tx h) (\<lambda>(root, cached).
      case cached of
        Some container \<Rightarrow> map_err IndexBitmap (from_containers R [container])
      | None \<Rightarrow>
          attempt (walk_collect ops (bitmap_trie H) tx IndexMerkle (bt_load ops R H tx) (trie_walk root)) (\<lambda>containers.
            map_err IndexBitmap (from_containers R containers)))"

type_synonym offset_change = "u64 \<times> u16 \<times> bool"

text \<open>\<^verbatim>\<open>while let Some((_, offset, present)) = changes.next_if(..)\<close>\<close>

definition apply_offset ::
  "('b, 't, 'io) roaring \<Rightarrow> offset_change \<Rightarrow> bool \<times> 'b bitmap_container \<Rightarrow> bool \<times> 'b bitmap_container" where
  "apply_offset R ch st = (case (ch, st) of ((_, offset, present), (changed, container)) \<Rightarrow>
     let (r, container') = (if present then container_insert R offset container else container_remove R offset container)
     in (changed \<or> r, container'))"

definition bt_container ::
  "('tx, 'cur, 'z) read_ops_scheme \<Rightarrow> ('b, 't, 'io) roaring \<Rightarrow> (bytes \<Rightarrow> hash) \<Rightarrow> 'tx \<Rightarrow> leaf_ref option \<Rightarrow>
    'b bitmap_container option \<Rightarrow> u64 \<Rightarrow> 'io index_error + ('b bitmap_container \<times> 'b bitmap_container option)" where
  "bt_container ops R H tx old cached hi =
    (case old of
       Some leaf \<Rightarrow>
         (case cached of
            Some container \<Rightarrow> Inr (container, None)
          | None \<Rightarrow> attempt (bt_load ops R H tx leaf) (\<lambda>container. Inr (container, None)))
     | None \<Rightarrow> attempt (map_err IndexBitmap (container_empty R hi)) (\<lambda>container. Inr (container, cached)))"

definition bt_store ::
  "('tx, 'cur, 'z) write_ops_scheme \<Rightarrow> 'tx \<Rightarrow> hash \<Rightarrow> bytes \<Rightarrow> 'io index_error + 'tx" where
  "bt_store ops tx h bs =
    (case tx_insert ops tx BITMAP_CONTAINER h bs of
       Inr tx' \<Rightarrow> Inr tx'
     | Inl AlreadyExists \<Rightarrow>
         attempt (map_err IndexStorage (tx_get ops tx BITMAP_CONTAINER h)) (\<lambda>row.
           if row \<noteq> Some bs then Inl IndexConflictingContent else Inr tx)
     | Inl e \<Rightarrow> Inl (IndexStorage e))"

function bt_changes ::
  "('tx, 'cur, 'z) write_ops_scheme \<Rightarrow> ('b, 't, 'io) roaring \<Rightarrow> (bytes \<Rightarrow> hash) \<Rightarrow> root_ref \<Rightarrow>
    'b bitmap_container option \<Rightarrow> u64 option \<Rightarrow> offset_change list \<Rightarrow> edit_entry list \<Rightarrow> 'tx \<Rightarrow>
    'io index_error + (edit_entry list \<times> 'tx)" where
  "bt_changes ops R H root cached previous [] edits tx = Inr (edits, tx)"
| "bt_changes ops R H root cached previous (ch # changes) edits tx =
    (let hi = fst ch in
     attempt (case previous of
         Some prev \<Rightarrow> if prev \<ge> hi then Inl (IndexBitmap (UnsortedPaths prev hi)) else Inr ()
       | None \<Rightarrow> Inr ()) (\<lambda>_.
     attempt (map_err IndexBitmap (path_bytes hi)) (\<lambda>path.
     attempt (map_err IndexMerkle (trie_get ops (bitmap_trie H) tx root path)) (\<lambda>old.
     attempt (bt_container ops R H tx old cached hi) (\<lambda>(container, cached').
       let (changed, container') =
             fold (apply_offset R) (takeWhile (\<lambda>c. fst c = hi) (ch # changes)) (False, container);
           rest = dropWhile (\<lambda>c. fst c = hi) changes in
       if \<not> changed then bt_changes ops R H root cached' (Some hi) rest edits tx
       else if container_is_empty R container' then
         bt_changes ops R H root cached' (Some hi) rest (edits @ [(path, None)]) tx
       else
         attempt (map_err IndexBitmap (canonical_bytes R container')) (\<lambda>bs.
           let h = hash_parts H [[BITMAP_LEAF_DOMAIN], bs] in
           attempt (bt_store ops tx h bs) (\<lambda>tx'.
             bt_changes ops R H root cached' (Some hi) rest (edits @ [(path, Some h)]) tx')))))))"
  by pat_completeness auto

termination
  by (relation "measure (\<lambda>(ops, R, H, root, cached, previous, changes, edits, tx). length changes)")
    (auto simp: less_Suc_eq_le length_dropWhile_le)

definition bt_apply ::
  "('tx, 'cur, 'z) write_ops_scheme \<Rightarrow> ('b, 't, 'io) roaring \<Rightarrow> (bytes \<Rightarrow> hash) \<Rightarrow> 'tx \<Rightarrow> hash option \<Rightarrow>
    offset_change list \<Rightarrow> 'io index_error + (hash option \<times> 'tx)" where
  "bt_apply ops R H tx before changes =
    attempt (case before of Some h \<Rightarrow> bt_reopen ops R H tx h | None \<Rightarrow> Inr (RootEmpty, None)) (\<lambda>(root, cached).
    attempt (bt_changes ops R H root cached None changes [] tx) (\<lambda>(edits, tx').
    attempt (map_err IndexMerkle (trie_apply ops (bitmap_trie H) tx' root edits)) (\<lambda>(root', tx'').
      Inr (if root' \<noteq> RootEmpty then Some (root_hash H root') else None, tx''))))"

section \<open>The index trie\<close>

definition index_trie :: "(bytes \<Rightarrow> hash) \<Rightarrow> trie" where
  "index_trie H = \<lparr>tr_table = INDEX_TRIE, tr_domain = INDEX_BRANCH_DOMAIN, tr_hasher = H,
    tr_width = INDEX_TRIE_PATH_BYTES\<rparr>"

definition index_leaf :: "(bytes \<Rightarrow> hash) \<Rightarrow> index_term \<Rightarrow> hash \<Rightarrow> leaf_ref" where
  "index_leaf H t bitmap = \<lparr>leaf_path = routing_path H t, leaf_hash = term_leaf_hash H t bitmap\<rparr>"

definition index_check ::
  "('tx, 'cur, 'z) read_ops_scheme \<Rightarrow> (bytes \<Rightarrow> hash) \<Rightarrow> 'tx \<Rightarrow> root_ref \<Rightarrow> index_term \<Rightarrow> hash option \<Rightarrow>
    'io index_error + unit" where
  "index_check ops H tx root t before =
    attempt (map_err IndexMerkle (trie_get ops (index_trie H) tx root (routing_path H t))) (\<lambda>leaf.
      if leaf \<noteq> map_option (index_leaf H t) before then Inl IndexRootMismatch else Inr ())"

definition index_set ::
  "('tx, 'cur, 'z) write_ops_scheme \<Rightarrow> (bytes \<Rightarrow> hash) \<Rightarrow> 'tx \<Rightarrow> root_ref \<Rightarrow> (index_term \<times> hash option) list \<Rightarrow>
    'io index_error + (root_ref \<times> 'tx)" where
  "index_set ops H tx root changes =
    map_err IndexMerkle (trie_apply ops (index_trie H) tx root
      (map (\<lambda>(t, bitmap). case bitmap of
         Some h \<Rightarrow> let leaf = index_leaf H t h in (leaf_path leaf, Some (leaf_hash leaf))
       | None \<Rightarrow> (routing_path H t, None)) changes))"

definition decode_root :: "(bytes \<Rightarrow> hash) \<Rightarrow> bytes \<Rightarrow> 'io index_error + hash" where
  "decode_root H bs =
    (if length bs \<noteq> 32 then Inl (IndexCorruption ''bitmap root is not 32 bytes'')
     else if bs = H [] then Inl (IndexCorruption ''empty bitmap root in Index row'')
     else Inr bs)"

definition index_reopen ::
  "('tx, 'cur, 'z) read_ops_scheme \<Rightarrow> (bytes \<Rightarrow> hash) \<Rightarrow> 'tx \<Rightarrow> hash \<Rightarrow> 'io index_error + root_ref" where
  "index_reopen ops H tx h =
    (if h = H [] then
       attempt (map_err IndexStorage (tx_cursor ops tx INDEX [])) (\<lambda>c.
       attempt (map_err IndexStorage (cur_next ops c)) (\<lambda>(row, _).
         if row \<noteq> None then Inl IndexRootMismatch else Inr RootEmpty))
     else
       attempt (map_err IndexStorage (tx_get ops tx INDEX_TRIE h)) (\<lambda>branch.
       if branch \<noteq> None then
         attempt (map_err IndexMerkle (validate_root ops (index_trie H) tx (RootBranch h))) (\<lambda>_.
           Inr (RootBranch h))
       else
         attempt (map_err IndexStorage (tx_cursor ops tx INDEX [])) (\<lambda>c.
         attempt (map_err IndexStorage (cur_next ops c)) (\<lambda>(row, c').
         attempt (ok_or IndexRootMismatch row) (\<lambda>(key, value).
         attempt (map_err IndexStorage (cur_next ops c')) (\<lambda>(row', _).
         if row' \<noteq> None then Inl IndexRootMismatch
         else
           attempt (map_err IndexTermError (term_decode key)) (\<lambda>t.
           attempt (decode_root H value) (\<lambda>bitmap.
             let leaf = index_leaf H t bitmap in
             if leaf_hash leaf \<noteq> h then Inl IndexRootMismatch else Inr (RootLeaf leaf)))))))))"

section \<open>Reading the index\<close>

definition bitmap_root ::
  "('tx, 'cur, 'z) read_ops_scheme \<Rightarrow> (bytes \<Rightarrow> hash) \<Rightarrow> 'tx \<Rightarrow> index_term \<Rightarrow> 'io index_error + hash option" where
  "bitmap_root ops H tx t =
    attempt (map_err IndexStorage (tx_get ops tx INDEX t)) (\<lambda>row.
      case row of None \<Rightarrow> Inr None | Some bs \<Rightarrow> attempt (decode_root H bs) (\<lambda>h. Inr (Some h)))"

definition index_bitmap_at ::
  "('tx, 'cur, 'z) read_ops_scheme \<Rightarrow> ('b, 't, 'io) roaring \<Rightarrow> (bytes \<Rightarrow> hash) \<Rightarrow> 'tx \<Rightarrow> hash \<Rightarrow>
    'io index_error + 't" where
  "index_bitmap_at ops R H tx root = bt_bitmap ops R H tx root"

definition index_bitmap ::
  "('tx, 'cur, 'z) read_ops_scheme \<Rightarrow> ('b, 't, 'io) roaring \<Rightarrow> (bytes \<Rightarrow> hash) \<Rightarrow> 'tx \<Rightarrow> index_term \<Rightarrow>
    'io index_error + 't option" where
  "index_bitmap ops R H tx t =
    attempt (bitmap_root ops H tx t) (\<lambda>root.
      case root of None \<Rightarrow> Inr None | Some h \<Rightarrow> attempt (index_bitmap_at ops R H tx h) (\<lambda>b. Inr (Some b)))"

record 'cur term_scan =
  ts_scan :: "'cur scan"
  ts_done :: bool

definition index_terms ::
  "('tx, 'cur, 'z) read_ops_scheme \<Rightarrow> 'tx \<Rightarrow> term_range \<Rightarrow> 'io index_error + 'cur term_scan" where
  "index_terms ops tx rng =
    attempt (map_err IndexStorage (scan_open ops tx INDEX (range_lower rng) (range_upper rng))) (\<lambda>s.
      Inr \<lparr>ts_scan = s, ts_done = False\<rparr>)"

definition terms_with_prefix ::
  "('tx, 'cur, 'z) read_ops_scheme \<Rightarrow> 'tx \<Rightarrow> bytes \<Rightarrow> 'io index_error + 'cur term_scan" where
  "terms_with_prefix ops tx pre =
    attempt (map_err IndexStorage (scan_prefix ops tx INDEX pre)) (\<lambda>s.
      Inr \<lparr>ts_scan = s, ts_done = False\<rparr>)"

definition term_scan_next ::
  "('tx, 'cur, 'z) read_ops_scheme \<Rightarrow> (bytes \<Rightarrow> hash) \<Rightarrow> 'cur term_scan \<Rightarrow>
    ('io index_error + (index_term \<times> hash)) option \<times> 'cur term_scan" where
  "term_scan_next ops H s =
    (if ts_done s then (None, s)
     else case scan_next ops (ts_scan s) of
       (None, sc) \<Rightarrow> (None, s\<lparr>ts_scan := sc\<rparr>)
     | (Some item, sc) \<Rightarrow>
         let result = attempt (map_err IndexStorage item) (\<lambda>(key, value).
               attempt (map_err IndexTermError (term_decode key)) (\<lambda>t.
               attempt (decode_root H value) (\<lambda>h. Inr (t, h))))
         in (Some result, s\<lparr>ts_scan := sc, ts_done := isl result\<rparr>))"

partial_function (option) term_scan_collect ::
  "('tx, 'cur, 'z) read_ops_scheme \<Rightarrow> (bytes \<Rightarrow> hash) \<Rightarrow> 'cur term_scan \<Rightarrow>
    ('io index_error + (index_term \<times> hash) list) option" where
  "term_scan_collect ops H s =
    (case term_scan_next ops H s of
       (None, _) \<Rightarrow> Some (Inr [])
     | (Some (Inl e), _) \<Rightarrow> Some (Inl e)
     | (Some (Inr row), s') \<Rightarrow>
         Option.bind (term_scan_collect ops H s') (\<lambda>r. Some (attempt r (\<lambda>rs. Inr (row # rs)))))"

section \<open>Updating the index\<close>

datatype posting_change = PostingAdd index_term u64 | PostingRemove index_term u64

record term_root_change =
  trc_term :: index_term
  trc_before :: "hash option"
  trc_after :: "hash option"

record index_update =
  iu_root :: root_ref
  changed_terms :: "term_root_change list"

type_synonym posting_entry = "(index_term \<times> u64 \<times> u16) \<times> bool"

definition posting_entry :: "posting_change \<Rightarrow> posting_entry" where
  "posting_entry ch = (case ch of
     PostingAdd t rid \<Rightarrow> (let (hi, lo) = id_split rid in ((t, hi, lo), True))
   | PostingRemove t rid \<Rightarrow> (let (hi, lo) = id_split rid in ((t, hi, lo), False)))"

definition normalize_postings :: "posting_change list \<Rightarrow> posting_entry list" where
  "normalize_postings changes = dedup_edits (sort_key fst (map posting_entry changes))"

definition apply_group ::
  "('tx, 'cur, 'z) write_ops_scheme \<Rightarrow> ('b, 't, 'io) roaring \<Rightarrow> (bytes \<Rightarrow> hash) \<Rightarrow> root_ref \<Rightarrow> posting_entry list \<Rightarrow>
    term_root_change list \<times> 'tx \<Rightarrow> 'io index_error + (term_root_change list \<times> 'tx)" where
  "apply_group ops R H root grp st =
    (let t = fst (fst (hd grp)); (changed, tx) = st in
     attempt (bitmap_root ops H tx t) (\<lambda>before.
     attempt (index_check ops H tx root t before) (\<lambda>_.
     attempt (bt_apply ops R H tx before (map (\<lambda>((_, hi, lo), present). (hi, lo, present)) grp)) (\<lambda>(after, tx').
       Inr (if before = after then (changed, tx')
         else (changed @ [\<lparr>trc_term = t, trc_before = before, trc_after = after\<rparr>], tx'))))))"

definition write_roots ::
  "('tx, 'cur, 'z) write_ops_scheme \<Rightarrow> 'tx \<Rightarrow> term_root_change list \<Rightarrow> 'io index_error + 'tx" where
  "write_roots ops tx changes =
    try_fold (\<lambda>change tx. map_err IndexStorage (case trc_after change of
        Some h \<Rightarrow> tx_put ops tx INDEX (trc_term change) h
      | None \<Rightarrow> attempt (tx_delete ops tx INDEX (trc_term change)) (\<lambda>(_, tx'). Inr tx'))) changes tx"

definition index_apply ::
  "('tx, 'cur, 'z) write_ops_scheme \<Rightarrow> ('b, 't, 'io) roaring \<Rightarrow> (bytes \<Rightarrow> hash) \<Rightarrow> 'tx \<Rightarrow> root_ref \<Rightarrow>
    posting_change list \<Rightarrow> 'io index_error + (index_update \<times> 'tx)" where
  "index_apply ops R H tx root changes =
    attempt (try_fold (apply_group ops R H root)
        (chunk_by (\<lambda>a b. fst (fst a) = fst (fst b)) (normalize_postings changes)) ([], tx)) (\<lambda>(changed, tx').
    attempt (index_set ops H tx' root (map (\<lambda>c. (trc_term c, trc_after c)) changed)) (\<lambda>(root', tx'').
    attempt (write_roots ops tx'' changed) (\<lambda>tx'''.
      Inr (\<lparr>iu_root = root', changed_terms = changed\<rparr>, tx'''))))"

end
