(* ===== verification/Index_Bitmap_Laws.thy ===== *)
theory Index_Bitmap_Laws
  imports Index_Bitmap
begin

text \<open>
  Record ids, containers and bitmaps against their meaning: a container is a path with a set of
  16-bit offsets, a bitmap is a set of record ids.
\<close>

section \<open>Record ids\<close>

lemma index_widths [simp]: "CHUNK_BITS = 16" "PATH_BITS = 48" "BITMAP_TRIE_PATH_BYTES = 6" "PATH_BYTE_OFFSET = 2"
  by (simp_all add: CHUNK_BITS_def PATH_BITS_def BITMAP_TRIE_PATH_BYTES_def PATH_BYTE_OFFSET_def)

lemma is_valid_path_unat: "is_valid_path p \<longleftrightarrow> unat p < 2 ^ 48"
  by (simp add: is_valid_path_def MAX_PATH_def push_bit_eq_mult word_le_nat_alt) arith

lemma split_path: "unat (fst (id_split v)) = unat v div 2 ^ 16"
  unfolding id_split_def fst_conv unat_drop_bit_eq index_widths unfolding drop_bit_eq_div ..

lemma split_offset: "unat (snd (id_split v)) = unat v mod 2 ^ 16"
  by (simp add: id_split_def unsigned_ucast_eq take_bit_eq_mod)

lemma split_valid: "is_valid_path (fst (id_split v))"
proof -
  have "unat v < 2 ^ 16 * 2 ^ 48"
    using unsigned_less [of v, where ?'a = nat] by simp
  then show ?thesis
    unfolding is_valid_path_unat split_path by (simp only: less_mult_imp_div_less mult.commute)
qed

lemma split_inject: "id_split v = id_split w \<longleftrightarrow> v = w"
proof
  assume "id_split v = id_split w"
  then have "unat v div 2 ^ 16 = unat w div 2 ^ 16" "unat v mod 2 ^ 16 = unat w mod 2 ^ 16"
    using split_path split_offset by metis+
  then show "v = w"
    unfolding word_unat_eq_iff by (metis div_mult_mod_eq)
qed simp

text \<open>The id at an offset below 16 bits.\<close>

definition id_at :: "u64 \<Rightarrow> u32 \<Rightarrow> u64" where
  "id_at p off = push_bit 16 p OR ucast off"

lemma take16: "(off :: u32) \<le> 0xFFFF \<Longrightarrow> take_bit 16 off = off"
  by (simp add: word_unat_eq_iff unsigned_take_bit_eq take_bit_nat_eq_self word_le_nat_alt)

lemma ucast_ucast16: "ucast (ucast (x :: u32) :: u16) = take_bit 16 x"
  by (rule bit_eqI) (auto simp: bit_simps)

lemma id_at_unat:
  assumes "is_valid_path p" "off \<le> 0xFFFF"
  shows "unat (id_at p off) = unat p * 2 ^ 16 + unat off"
proof -
  have p: "unat p < 2 ^ 48" and off: "unat off < 2 ^ 16"
    using assms by (simp_all add: is_valid_path_unat word_le_nat_alt)
  have "unat p * 2 ^ 16 < 2 ^ 48 * 2 ^ 16"
    using p by simp
  then have sh: "unat (push_bit 16 p) = unat p * 2 ^ 16"
    unfolding unsigned_push_bit_eq unfolding take_bit_eq_mod push_bit_eq_mult by simp
  have uc: "unat (ucast off :: u64) = unat off"
    using off by (simp add: unsigned_ucast_eq take_bit_eq_mod)
  have "\<not> bit off n" if "16 \<le> n" for n
    using that take16 [OF assms(2)] by (metis bit_take_bit_iff not_less)
  then have "push_bit 16 p AND ucast off = 0"
    by (intro bit_eqI) (auto simp: bit_simps)
  then have "id_at p off = push_bit 16 p + ucast off"
    unfolding id_at_def by (simp add: disjunctive_add_eq_or)
  moreover have "unat p * 2 ^ 16 + unat off < 2 ^ 64"
  proof -
    have "unat p * 2 ^ 16 + unat off < (unat p + 1) * 2 ^ 16"
      using off by simp
    also have "\<dots> \<le> 2 ^ 48 * 2 ^ 16"
      using p by (intro mult_right_mono) simp_all
    finally show ?thesis
      by simp
  qed
  ultimately show ?thesis
    by (simp add: unat_word_ariths sh uc)
qed

lemma split_id_at:
  assumes "is_valid_path p" "off \<le> 0xFFFF"
  shows "id_split (id_at p off) = (p, ucast off)"
proof -
  have off: "unat off < 2 ^ 16"
    using assms(2) by (simp add: word_le_nat_alt)
  have "unat (fst (id_split (id_at p off))) = unat p" "unat (snd (id_split (id_at p off))) = unat (ucast off :: u16)"
    using off by (simp_all add: split_path split_offset id_at_unat [OF assms] unsigned_ucast_eq take_bit_eq_mod)
  then show ?thesis
    by (simp add: word_unat_eq_iff prod_eq_iff)
qed

lemma id_at_split: "id_at (fst (id_split v)) (ucast (snd (id_split v))) = v"
proof -
  have off: "unat (ucast (snd (id_split v)) :: u32) = unat v mod 2 ^ 16"
    using split_offset [of v] by (simp add: unsigned_ucast_eq take_bit_eq_mod)
  then have "(ucast (snd (id_split v)) :: u32) \<le> 0xFFFF"
    by (simp add: word_le_nat_alt less_Suc_eq_le [symmetric])
  then show ?thesis
    unfolding word_unat_eq_iff id_at_unat [OF split_valid \<open>_ \<le> 0xFFFF\<close>] off split_path by simp
qed

lemma id_at_less:
  assumes "is_valid_path p" "off \<le> 0xFFFF" "is_valid_path q" "off' \<le> 0xFFFF"
  shows "id_at p off < id_at q off' \<longleftrightarrow> p < q \<or> p = q \<and> off < off'"
proof -
  have "unat off < 2 ^ 16" "unat off' < 2 ^ 16"
    using assms by (simp_all add: word_le_nat_alt)
  then have "unat p * 2 ^ 16 + unat off < unat q * 2 ^ 16 + unat off' \<longleftrightarrow>
      unat p < unat q \<or> unat p = unat q \<and> unat off < unat off'"
    by auto
  then show ?thesis
    by (simp add: word_less_nat_alt word_unat_eq_iff id_at_unat assms)
qed

text \<open>Path bytes.\<close>

definition path6 :: "u64 \<Rightarrow> bytes" where
  "path6 p = drop 2 (to_be p)"

lemma path6_length [simp]: "length (path6 p) = 6"
  by (simp add: path6_def)

lemma path_bytes_eq: "path_bytes p = (if is_valid_path p then Inr (path6 p) else Inl (PathOutOfRange p))"
proof -
  have "map (\<lambda>i. to_be p ! (2 + i)) [0..<6] = path6 p"
    unfolding path6_def by (rule nth_equalityI) simp_all
  then show ?thesis
    by (simp add: path_bytes_def del: upt_rec_numeral)
qed

lemma path_bytes_valid: "is_valid_path p \<Longrightarrow> path_bytes p = Inr (path6 p)"
  by (simp add: path_bytes_eq)

lemma to_be_path6:
  assumes "is_valid_path p"
  shows "to_be p = [0, 0] @ path6 p"
proof -
  have v: "be_val (to_be p) = unat p"
    using unsigned_less [of p, where ?'a = nat] by (simp add: to_be_def be_val_be_bytes)
  have "to_be p = take 2 (to_be p) @ path6 p"
    by (simp add: path6_def)
  then have "be_val (take 2 (to_be p)) * 256 ^ 6 + be_val (path6 p) < 2 ^ 48"
    using v assms be_val_append [of "take 2 (to_be p)" "path6 p"] by (simp add: is_valid_path_unat)
  then have "be_val (take 2 (to_be p)) = be_val [0, 0]"
    by (simp add: be_val_def)
  then have "take 2 (to_be p) = [0, 0]"
    using be_val_inject [of "take 2 (to_be p)" "[0, 0]"] by simp
  then show ?thesis
    using append_take_drop_id [of 2 "to_be p"] by (simp add: path6_def)
qed

lemma path6_less: "is_valid_path p \<Longrightarrow> is_valid_path q \<Longrightarrow> path6 p < path6 q \<longleftrightarrow> p < q"
  using to_be_less [of p q] by (simp add: to_be_path6)

lemma path6_inject: "is_valid_path p \<Longrightarrow> is_valid_path q \<Longrightarrow> path6 p = path6 q \<longleftrightarrow> p = q"
  using to_be_inject [of p q] by (simp add: to_be_path6)

lemma from_path6: "is_valid_path p \<Longrightarrow> from_be ([0, 0] @ path6 p) = p"
  using from_be_to_be [of p] by (simp add: to_be_path6)

lemma path6_from:
  assumes "length bs = 6"
  shows "path6 (from_be ([0, 0] @ bs)) = bs" "is_valid_path (from_be ([0, 0] @ bs))"
proof -
  have be: "to_be (from_be ([0, 0] @ bs) :: u64) = [0, 0] @ bs"
    using assms by (intro to_be_from_be) simp
  then show "path6 (from_be ([0, 0] @ bs)) = bs"
    by (simp add: path6_def)
  have "be_val ([0, 0] @ bs) < 2 ^ 48"
    using be_val_less [of bs] assms by (simp add: be_val_Cons)
  then show "is_valid_path (from_be ([0, 0] @ bs))"
    by (simp add: is_valid_path_unat from_be_def unat_of_nat)
qed

section \<open>Containers\<close>

lemma roaring_set:
  assumes "roaring_ok R rset tset"
  shows "rset (rb_new R) = {}" "rset (rb_collect R xs) = set xs"
    "fst (rb_insert R x b) \<longleftrightarrow> x \<notin> rset b" "rset (snd (rb_insert R x b)) = insert x (rset b)"
    "fst (rb_remove R x b) \<longleftrightarrow> x \<in> rset b" "rset (snd (rb_remove R x b)) = rset b - {x}"
    "rb_is_empty R b \<longleftrightarrow> rset b = {}" "unat (rb_len R b) = card (rset b)"
    "sorted_wrt (<) (rb_iter R b)" "set (rb_iter R b) = rset b"
    "tset (tm_new R) = {}" "tset (tm_union R t u) = tset t \<union> tset u"
    "rset (rb_remove_run_compression R b) = rset b" "rset (rb_optimize R b) = rset b"
    "rb_max R b = (if rset b = {} then None else Some (Max (rset b)))"
  using assms by (simp_all add: roaring_ok_def roaring_sets_def roaring_treemap_def)

lemma roaring_canonical:
  assumes "roaring_ok R rset tset"
  shows "rset b = rset c \<Longrightarrow> rb_canonical R b = rb_canonical R c"
    "\<exists>c. rb_deserialize R (rb_canonical R b) = Inr c \<and> rset c = rset b"
proof -
  have laws: "roaring_codec R rset"
    using assms by (simp add: roaring_ok_def)
  show "rset b = rset c \<Longrightarrow> rb_canonical R b = rb_canonical R c"
    using laws unfolding roaring_codec_def by blast
  obtain d where "rb_deserialize R (rb_canonical R b) = Inr d"
      "rset d = rset (rb_optimize R (rb_remove_run_compression R b))"
    using laws unfolding roaring_codec_def rb_canonical_def by blast
  then show "\<exists>c. rb_deserialize R (rb_canonical R b) = Inr c \<and> rset c = rset b"
    by (simp add: roaring_set [OF assms])
qed

lemma roaring_append:
  assumes "roaring_ok R rset tset" "sorted_wrt (<) xs" "\<And>x y. x \<in> set xs \<Longrightarrow> y \<in> tset t \<Longrightarrow> y < x"
  obtains u where "tm_append R xs t = Inr u" "tset u = tset t \<union> set xs"
proof -
  have "sorted_wrt (<) xs \<longrightarrow> (\<forall>x \<in> set xs. \<forall>y \<in> tset t. y < x) \<longrightarrow> (\<exists>u. tm_append R xs t = Inr u \<and> tset u = tset t \<union> set xs)"
    using assms(1) by (simp add: roaring_ok_def roaring_treemap_def)
  moreover have "\<forall>x \<in> set xs. \<forall>y \<in> tset t. y < x"
    using assms(3) by simp
  ultimately have "\<exists>u. tm_append R xs t = Inr u \<and> tset u = tset t \<union> set xs"
    using assms(2) by simp
  then show thesis
    by (elim exE conjE) (rule that)
qed

definition container_ok :: "('b \<Rightarrow> u32 set) \<Rightarrow> 'b bitmap_container \<Rightarrow> bool" where
  "container_ok rset c \<longleftrightarrow> is_valid_path (bc_path c) \<and> (\<forall>x \<in> rset (bc_values c). x \<le> 0xFFFF)"

definition container_ids :: "('b \<Rightarrow> u32 set) \<Rightarrow> 'b bitmap_container \<Rightarrow> u64 set" where
  "container_ids rset c = id_at (bc_path c) ` rset (bc_values c)"

lemma container_new_iff:
  assumes "roaring_ok R rset tset"
  shows "container_new R p b = Inr c \<longleftrightarrow> c = \<lparr>bc_path = p, bc_values = b\<rparr> \<and> container_ok rset c"
proof (cases "rset b = {}")
  case True
  then show ?thesis
    by (auto simp: container_new_def roaring_set [OF assms] container_ok_def)
next
  case False
  then have "(0xFFFF < Max (rset b)) = (\<not> (\<forall>x \<in> rset b. x \<le> 0xFFFF))"
    using Max_le_iff [of "rset b" "0xFFFF"] not_le [of "Max (rset b)" "0xFFFF"] by simp
  then show ?thesis
    using False by (auto simp: container_new_def roaring_set [OF assms] container_ok_def)
qed

lemma container_ids_split:
  assumes "container_ok rset c"
  shows "v \<in> container_ids rset c \<longleftrightarrow> fst (id_split v) = bc_path c \<and> ucast (snd (id_split v)) \<in> rset (bc_values c)"
proof
  assume "v \<in> container_ids rset c"
  then obtain x where x: "x \<in> rset (bc_values c)" "v = id_at (bc_path c) x"
    by (auto simp: container_ids_def)
  then have "x \<le> 0xFFFF" "is_valid_path (bc_path c)"
    using assms by (auto simp: container_ok_def)
  moreover from this have "ucast (ucast x :: u16) = x"
    using take16 [of x] by (simp add: ucast_ucast16)
  ultimately show "fst (id_split v) = bc_path c \<and> ucast (snd (id_split v)) \<in> rset (bc_values c)"
    using x by (simp add: split_id_at)
next
  assume "fst (id_split v) = bc_path c \<and> ucast (snd (id_split v)) \<in> rset (bc_values c)"
  then show "v \<in> container_ids rset c"
    using id_at_split [of v] by (auto simp: container_ids_def intro: image_eqI [OF sym])
qed

lemma container_update:
  assumes "roaring_ok R rset tset" "container_ok rset c"
  shows "container_ok rset (snd (container_insert R off c)) \<and>
      bc_path (snd (container_insert R off c)) = bc_path c \<and>
      fst (container_insert R off c) = (ucast off \<notin> rset (bc_values c)) \<and>
      rset (bc_values (snd (container_insert R off c))) = insert (ucast off) (rset (bc_values c))"
    "container_ok rset (snd (container_remove R off c)) \<and>
      bc_path (snd (container_remove R off c)) = bc_path c \<and>
      fst (container_remove R off c) = (ucast off \<in> rset (bc_values c)) \<and>
      rset (bc_values (snd (container_remove R off c))) = rset (bc_values c) - {ucast off}"
proof -
  have "(ucast off :: u32) \<le> 0xFFFF" for off :: u16
    using unsigned_less [of off, where ?'a = nat]
    by (simp add: word_le_nat_alt unsigned_ucast_eq take_bit_eq_mod less_Suc_eq_le [symmetric] del: unsigned_less)
  then show "container_ok rset (snd (container_insert R off c)) \<and>
      bc_path (snd (container_insert R off c)) = bc_path c \<and>
      fst (container_insert R off c) = (ucast off \<notin> rset (bc_values c)) \<and>
      rset (bc_values (snd (container_insert R off c))) = insert (ucast off) (rset (bc_values c))"
    "container_ok rset (snd (container_remove R off c)) \<and>
      bc_path (snd (container_remove R off c)) = bc_path c \<and>
      fst (container_remove R off c) = (ucast off \<in> rset (bc_values c)) \<and>
      rset (bc_values (snd (container_remove R off c))) = rset (bc_values c) - {ucast off}"
    using assms(2)
    by (auto simp: container_insert_def container_remove_def container_ok_def roaring_set [OF assms(1)] case_prod_unfold Let_def)
qed

lemma container_empty_ok:
  assumes "roaring_ok R rset tset" "is_valid_path p"
  shows "\<exists>c. container_empty R p = Inr c \<and> container_ok rset c \<and> bc_path c = p \<and> rset (bc_values c) = {}"
  using assms(2) container_new_iff [OF assms(1), of p "rb_new R" "\<lparr>bc_path = p, bc_values = rb_new R\<rparr>"]
  by (auto simp: container_empty_def container_ok_def roaring_set [OF assms(1)])

text \<open>The persisted form of a container.\<close>

definition container_row :: "('b, 't, 'io) roaring \<Rightarrow> 'b bitmap_container \<Rightarrow> bytes" where
  "container_row R c = path6 (bc_path c) @ rb_canonical R (bc_values c)"

lemma canonical_bytes_eq:
  assumes "roaring_ok R rset tset" "container_ok rset c"
  shows "canonical_bytes R c = (if rset (bc_values c) = {} then Inl EmptyContainer else Inr (container_row R c))"
  using assms(2) by (simp add: canonical_bytes_def container_encode_into_def container_is_empty_def container_row_def
      path_bytes_eq container_ok_def roaring_set [OF assms(1)])

lemma container_row_eq:
  assumes "roaring_ok R rset tset"
  shows "bc_path c = bc_path d \<Longrightarrow> rset (bc_values c) = rset (bc_values d) \<Longrightarrow> container_row R c = container_row R d"
  unfolding container_row_def using roaring_canonical(1) [OF assms, of "bc_values c" "bc_values d"] by simp

lemma container_decode_row:
  assumes "roaring_ok R rset tset" "container_ok rset c" "rset (bc_values c) \<noteq> {}"
  shows "\<exists>d. container_decode R (container_row R c) = Inr d \<and> container_ok rset d \<and> bc_path d = bc_path c \<and>
    rset (bc_values d) = rset (bc_values c)"
proof -
  obtain b where b: "rb_deserialize R (rb_canonical R (bc_values c)) = Inr b" "rset b = rset (bc_values c)"
    using roaring_canonical(2) [OF assms(1)] by blast
  let ?d = "\<lparr>bc_path = bc_path c, bc_values = b\<rparr>"
  have d: "container_ok rset ?d"
    using assms(2) b(2) by (simp add: container_ok_def)
  then have new: "container_new R (bc_path c) b = Inr ?d"
    using container_new_iff [OF assms(1)] by simp
  have "canonical_bytes R ?d = Inr (container_row R c)"
    using canonical_bytes_eq [OF assms(1) d] b(2) assms(3) container_row_eq [OF assms(1), of ?d c] by simp
  moreover have "from_be ([0, 0] @ take 6 (container_row R c)) = bc_path c"
    using assms(2) from_path6 by (simp add: container_row_def container_ok_def)
  moreover have "drop 6 (container_row R c) = rb_canonical R (bc_values c)" "\<not> length (container_row R c) < 6"
    by (simp_all add: container_row_def)
  ultimately have "container_decode R (container_row R c) = Inr ?d"
    unfolding container_decode_def by (simp only: b(1) new map_err_simp attempt_simp if_False simp_thms)
  then show ?thesis
    using d b(2) by auto
qed

lemma container_decode_Inr:
  assumes "roaring_ok R rset tset" "container_decode R bs = Inr c"
  shows "container_ok rset c" "rset (bc_values c) \<noteq> {}" "bs = container_row R c"
proof -
  obtain b where "container_new R (from_be ([0, 0] @ take 6 bs)) b = Inr c" "canonical_bytes R c = Inr bs"
    using assms(2) by (auto simp: container_decode_def try_simps split: if_splits)
  then show "container_ok rset c" "rset (bc_values c) \<noteq> {}" "bs = container_row R c"
    using container_new_iff [OF assms(1)] canonical_bytes_eq [OF assms(1), of c] by (auto split: if_splits)
qed

section \<open>Bitmaps\<close>

lemma container_iter_ok:
  assumes "roaring_ok R rset tset" "container_ok rset c"
  shows "sorted_wrt (<) (container_iter R c)" "set (container_iter R c) = container_ids rset c"
proof -
  have "container_iter R c = map (id_at (bc_path c)) (rb_iter R (bc_values c))"
    by (simp add: container_iter_def id_at_def)
  moreover have "id_at (bc_path c) x < id_at (bc_path c) y" if "x \<in> rset (bc_values c)" "y \<in> rset (bc_values c)" "x < y" for x y
    using that assms(2) by (simp add: container_ok_def id_at_less)
  ultimately show "sorted_wrt (<) (container_iter R c)" "set (container_iter R c) = container_ids rset c"
    using roaring_set(9,10) [OF assms(1), of "bc_values c"]
    by (auto simp: sorted_wrt_map container_ids_def intro: sorted_wrt_mono_rel)
qed

definition paths_after :: "u64 option \<Rightarrow> 'b bitmap_container list \<Rightarrow> u64 list" where
  "paths_after previous cs = (case previous of None \<Rightarrow> [] | Some q \<Rightarrow> [q]) @ map bc_path cs"

definition path_order_error :: "'io bitmap_error \<Rightarrow> bool" where
  "path_order_error e \<longleftrightarrow> (\<exists>p. e = DuplicatePath p) \<or> (\<exists>q p. p < q \<and> e = UnsortedPaths q p)"

lemma append_containers_ok:
  assumes "roaring_ok R rset tset"
  shows "\<forall>c \<in> set cs. container_ok rset c \<Longrightarrow>
    (\<And>v. v \<in> tset t \<Longrightarrow> \<exists>q. previous = Some q \<and> fst (id_split v) \<le> q) \<Longrightarrow>
    (case append_containers R cs previous t of
       Inl e \<Rightarrow> \<not> sorted_wrt (<) (paths_after previous cs) \<and> path_order_error e
     | Inr u \<Rightarrow> sorted_wrt (<) (paths_after previous cs) \<and> tset u = tset t \<union> (\<Union>c \<in> set cs. container_ids rset c))"
proof (induction cs arbitrary: previous t)
  case Nil
  then show ?case
    by (auto simp: paths_after_def split: option.split)
next
  case (Cons c cs)
  have c: "container_ok rset c"
    using Cons.prems(1) by simp
  show ?case
  proof (cases "\<forall>q. previous = Some q \<longrightarrow> q < bc_path c")
    case False
    then obtain q where q: "previous = Some q" "bc_path c = q \<or> bc_path c < q"
      by force
    then have "\<exists>e. append_containers R (c # cs) previous t = Inl e \<and> path_order_error e"
      by (auto simp: path_order_error_def Let_def)
    moreover have "\<not> sorted_wrt (<) (paths_after previous (c # cs))"
      using q by (auto simp: paths_after_def)
    ultimately show ?thesis
      by auto
  next
    case True
    have "v < w" if v: "v \<in> tset t" and w: "w \<in> container_ids rset c" for v w
    proof -
      have "fst (id_split v) < fst (id_split w)"
        using Cons.prems(2) [OF v] True w container_ids_split [OF c] by force
      then have "unat v div 2 ^ 16 < unat w div 2 ^ 16"
        unfolding word_less_nat_alt split_path .
      then have "\<not> unat w \<le> unat v"
        using div_le_mono [of "unat w" "unat v" "2 ^ 16"] by linarith
      then show ?thesis
        by (simp add: word_less_nat_alt)
    qed
    then obtain u where u: "tm_append R (container_iter R c) t = Inr u" "tset u = tset t \<union> container_ids rset c"
      using roaring_append [OF assms container_iter_ok(1) [OF assms c], of t] container_iter_ok(2) [OF assms c] by metis
    have step: "append_containers R (c # cs) previous t = append_containers R cs (Some (bc_path c)) u"
      using True by (cases previous) (auto simp: u(1) Let_def)
    have low: "\<exists>q. Some (bc_path c) = Some q \<and> fst (id_split v) \<le> q" if "v \<in> tset u" for v
      using that Cons.prems(2) [of v] True container_ids_split [OF c, of v] u(2) by force
    have "\<forall>c \<in> set cs. container_ok rset c"
      using Cons.prems(1) by simp
    note Cons.IH [where t = u and previous = "Some (bc_path c)", OF this low]
    moreover have "sorted_wrt (<) (paths_after previous (c # cs)) \<longleftrightarrow> sorted_wrt (<) (paths_after (Some (bc_path c)) cs)"
      using True by (cases previous) (auto simp: paths_after_def)
    ultimately show ?thesis
      unfolding step using u(2) by (cases "append_containers R cs (Some (bc_path c)) u") auto
  qed
qed

lemma from_containers_cases:
  assumes "roaring_ok R rset tset" "\<forall>c \<in> set cs. container_ok rset c"
  shows "case from_containers R cs of
      Inl e \<Rightarrow> \<not> sorted_wrt (<) (map bc_path cs) \<and> path_order_error e
    | Inr u \<Rightarrow> sorted_wrt (<) (map bc_path cs) \<and> tset u = (\<Union>c \<in> set cs. container_ids rset c)"
  using append_containers_ok [OF assms, of "tm_new R" None] roaring_set(11) [OF assms(1)]
  by (simp add: from_containers_def paths_after_def split: sum.splits)

lemma from_containers_ok:
  assumes "roaring_ok R rset tset" "\<forall>c \<in> set cs. container_ok rset c" "sorted_wrt (<) (map bc_path cs)"
  shows "\<exists>u. from_containers R cs = Inr u \<and> tset u = (\<Union>c \<in> set cs. container_ids rset c)"
  using from_containers_cases [OF assms(1,2)] assms(3) by (cases "from_containers R cs") auto

section \<open>An instance of the roaring interface\<close>

text \<open>Ascending lists with four bytes per value: a function that meets \<open>roaring_ok\<close>, for the witnesses.\<close>

definition list_roaring :: "(u32 list, u64 list, unit) roaring" where
  "list_roaring = \<lparr>
    rb_new = [],
    rb_collect = (\<lambda>xs. xs),
    rb_insert = (\<lambda>x b. (x \<notin> set b, x # b)),
    rb_remove = (\<lambda>x b. (x \<in> set b, removeAll x b)),
    rb_is_empty = (\<lambda>b. b = []),
    rb_len = (\<lambda>b. word_of_nat (card (set b))),
    rb_max = (\<lambda>b. if b = [] then None else Some (Max (set b))),
    rb_iter = (\<lambda>b. sort (remdups b)),
    rb_remove_run_compression = (\<lambda>b. b),
    rb_optimize = (\<lambda>b. b),
    rb_serialize = (\<lambda>b. concat (map to_be (sort (remdups b)))),
    rb_deserialize = (\<lambda>bs. Inr (map from_be (chunks 4 bs))),
    tm_new = [],
    tm_append = (\<lambda>xs t. Inr (t @ xs)),
    tm_union = (@),
    tm_iter = (\<lambda>t. sort (remdups t)),
    tm_len = (\<lambda>t. word_of_nat (card (set t)))\<rparr>"

lemma list_roaring_codec: "map from_be (chunks 4 (concat (map to_be xs))) = (xs :: u32 list)"
proof -
  have "chunks 4 (concat (map to_be xs)) = map to_be xs"
    by (rule chunks_concat) auto
  then show ?thesis
    by (simp add: comp_def)
qed

lemma card_u32: "card (S :: u32 set) < 2 ^ 64"
proof -
  have "card S \<le> card (UNIV :: u32 set)"
    by (rule card_mono) simp_all
  also have "\<dots> = 2 ^ 32"
    by (simp add: card_word)
  finally show ?thesis
    by simp
qed

lemma sort_remdups_set: "set xs = set ys \<Longrightarrow> sort (remdups xs) = sort (remdups (ys :: u32 list))"
  by (metis sorted_list_of_set_sort_remdups)

lemma list_roaring_ok: "roaring_ok list_roaring set set"
  unfolding roaring_ok_def
proof (intro conjI)
  show "roaring_sets list_roaring set"
    using card_u32 by (auto simp: roaring_sets_def list_roaring_def unat_of_nat strict_sorted_iff)
  show "roaring_codec list_roaring set"
    unfolding roaring_codec_def
  proof (intro conjI allI impI)
    show "rb_canonical list_roaring b = rb_canonical list_roaring c" if "set b = set c" for b c
      using sort_remdups_set [OF that] by (simp add: rb_canonical_def list_roaring_def)
  qed (simp add: list_roaring_def list_roaring_codec)
  show "roaring_treemap list_roaring set"
    by (auto simp: roaring_treemap_def list_roaring_def strict_sorted_iff unat_of_nat)
qed

section \<open>Properties\<close>

text \<open>A record id is its 48-bit path and its 16-bit offset: splitting and joining are inverse to each other,
  joining refuses exactly the paths above 48 bits, and the six path bytes that route the bitmap
  trie sort as the paths do.\<close>

lemma record_id_paths:
  "id_join (fst (id_split v)) (snd (id_split v)) = (Inr v :: 'io bitmap_error + u64) \<and>
   (id_join p off = (Inr w :: 'io bitmap_error + u64) \<longleftrightarrow> unat p < 2 ^ 48 \<and> id_split w = (p, off)) \<and>
   (2 ^ 48 \<le> unat p \<longrightarrow> id_join p off = (Inl (PathOutOfRange p) :: 'io bitmap_error + u64)) \<and>
   (\<forall>q bs cs. path_bytes p = (Inr bs :: 'io bitmap_error + bytes) \<longrightarrow> path_bytes q = (Inr cs :: 'io bitmap_error + bytes) \<longrightarrow>
      length bs = 6 \<and> (bs < cs \<longleftrightarrow> p < q) \<and> (bs = cs \<longleftrightarrow> p = q))"
proof -
  have join: "id_join p off = (if is_valid_path p then Inr (id_at p (ucast off)) else Inl (PathOutOfRange p) :: 'io bitmap_error + u64)" for p off
  proof -
    have "(ucast off :: u64) = ucast (ucast off :: u32)"
      by (rule bit_eqI) (auto simp: bit_simps dest: bit_imp_le_length)
    then show ?thesis
      by (simp add: id_join_def id_at_def)
  qed
  have low: "(ucast off :: u32) \<le> 0xFFFF" "ucast (ucast off :: u32) = off" for off :: u16
  proof -
    have "unat off < 2 ^ 16"
      using unsigned_less [of off, where ?'a = nat] by simp
    then show "(ucast off :: u32) \<le> 0xFFFF"
      by (simp add: word_le_nat_alt unsigned_ucast_eq take_bit_eq_mod)
    show "ucast (ucast off :: u32) = off"
      by (rule bit_eqI) (auto simp: bit_simps)
  qed
  have "id_join p off = (Inr w :: 'io bitmap_error + u64) \<longleftrightarrow> unat p < 2 ^ 48 \<and> id_split w = (p, off)"
    using split_id_at [of p "ucast off"] low [of off] id_at_split [of w] split_valid [of w]
    by (auto simp: join is_valid_path_unat)
  moreover have "id_join (fst (id_split v)) (snd (id_split v)) = (Inr v :: 'io bitmap_error + u64)"
    using id_at_split [of v] split_valid [of v] by (simp add: join)
  moreover have "2 ^ 48 \<le> unat p \<longrightarrow> id_join p off = (Inl (PathOutOfRange p) :: 'io bitmap_error + u64)"
    by (simp add: join is_valid_path_unat)
  moreover have "length bs = 6 \<and> (bs < cs \<longleftrightarrow> p < q) \<and> (bs = cs \<longleftrightarrow> p = q)"
    if "path_bytes p = (Inr bs :: 'io bitmap_error + bytes)" "path_bytes q = (Inr cs :: 'io bitmap_error + bytes)" for q bs cs
    using that path6_less path6_inject by (auto simp: path_bytes_eq split: if_splits)
  ultimately show ?thesis
    by blast
qed

text \<open>C39. The container codec is canonical: a container whose offsets fit 16 bits and which is not empty
  encodes, and decodes to the same path and offsets; decoding accepts only the one canonical encoding
  of what it returns, so two byte strings never stand for the same container; equal contents give
  equal bytes whatever updates led to them. An empty container has no encoding.\<close>

theorem container_codec_canonical:
  assumes "roaring_ok R rset tset" "container_ok rset c" "container_ok rset d"
  shows "(rset (bc_values c) = {} \<longrightarrow> canonical_bytes R c = Inl EmptyContainer) \<and>
    (rset (bc_values c) \<noteq> {} \<longrightarrow> (\<exists>bs e. canonical_bytes R c = Inr bs \<and> container_decode R bs = Inr e \<and>
      bc_path e = bc_path c \<and> rset (bc_values e) = rset (bc_values c))) \<and>
    (container_decode R bs = Inr e \<longrightarrow> canonical_bytes R e = Inr bs \<and> container_ok rset e) \<and>
    (\<forall>bs. canonical_bytes R c = Inr bs \<longrightarrow> (canonical_bytes R d = Inr bs \<longleftrightarrow>
      bc_path c = bc_path d \<and> rset (bc_values c) = rset (bc_values d)))"
proof -
  have enc: "canonical_bytes R x = (if rset (bc_values x) = {} then Inl EmptyContainer else Inr (container_row R x))"
    if "container_ok rset x" for x
    by (rule canonical_bytes_eq [OF assms(1) that])
  have dec: "canonical_bytes R e = Inr bs \<and> container_ok rset e" if "container_decode R bs = Inr e" for bs e
    using container_decode_Inr [OF assms(1) that] enc [of e] by simp
  have row: "container_row R c = container_row R d \<longleftrightarrow> bc_path c = bc_path d \<and> rset (bc_values c) = rset (bc_values d)"
    if "rset (bc_values c) \<noteq> {}" "rset (bc_values d) \<noteq> {}"
  proof
    assume "container_row R c = container_row R d"
    then show "bc_path c = bc_path d \<and> rset (bc_values c) = rset (bc_values d)"
      using container_decode_row [OF assms(1,2) that(1)] container_decode_row [OF assms(1,3) that(2)] by force
  next
    assume "bc_path c = bc_path d \<and> rset (bc_values c) = rset (bc_values d)"
    then show "container_row R c = container_row R d"
      using container_row_eq [OF assms(1), of c d] by blast
  qed
  have "canonical_bytes R d = Inr bs \<longleftrightarrow> bc_path c = bc_path d \<and> rset (bc_values c) = rset (bc_values d)"
    if "canonical_bytes R c = Inr bs" for bs
    using that enc [OF assms(2)] enc [OF assms(3)] row by (auto split: if_splits)
  moreover have "\<exists>bs e. canonical_bytes R c = Inr bs \<and> container_decode R bs = Inr e \<and>
      bc_path e = bc_path c \<and> rset (bc_values e) = rset (bc_values c)" if "rset (bc_values c) \<noteq> {}"
    using enc [OF assms(2)] container_decode_row [OF assms(1,2) that] that by auto
  ultimately show ?thesis
    using enc [OF assms(2)] dec [of bs e] by simp
qed

theorem container_codec_canonical_witness:
  "\<exists>bs e. canonical_bytes list_roaring \<lparr>bc_path = 5, bc_values = [3, 1, 3]\<rparr> = Inr bs \<and> container_decode list_roaring bs = Inr e \<and>
    bc_path e = 5 \<and> set (bc_values e) = {1, 3}"
proof -
  have ok: "container_ok set \<lparr>bc_path = 5, bc_values = [3, 1, 3 :: u32]\<rparr>"
    by (simp add: container_ok_def is_valid_path_unat)
  show ?thesis
    using container_codec_canonical [OF list_roaring_ok ok ok] by (auto simp: insert_commute)
qed

text \<open>C40. A bitmap assembled from containers is exactly the union of their record ids when their paths
  ascend strictly, and otherwise an error that names the offending paths; the expected ordering
  of the appended ids always holds, so assembly never panics. Union of two bitmaps is union of
  their ids.\<close>

theorem bitmap_assembly:
  assumes "roaring_ok R rset tset" "\<forall>c \<in> set cs. container_ok rset c"
  shows "(case from_containers R cs of
      Inl e \<Rightarrow> \<not> sorted_wrt (<) (map bc_path cs) \<and> path_order_error e
    | Inr u \<Rightarrow> sorted_wrt (<) (map bc_path cs) \<and>
        (\<forall>v. v \<in> tset u \<longleftrightarrow> (\<exists>c \<in> set cs. fst (id_split v) = bc_path c \<and> ucast (snd (id_split v)) \<in> rset (bc_values c)))) \<and>
    tset (bitmap_or_assign R t t') = tset t \<union> tset t'"
proof -
  have "v \<in> (\<Union>c \<in> set cs. container_ids rset c) \<longleftrightarrow>
      (\<exists>c \<in> set cs. fst (id_split v) = bc_path c \<and> ucast (snd (id_split v)) \<in> rset (bc_values c))" for v
  proof -
    have "container_ids rset c = {v. fst (id_split v) = bc_path c \<and> ucast (snd (id_split v)) \<in> rset (bc_values c)}"
      if "c \<in> set cs" for c
      using container_ids_split [of rset c] assms(2) that by auto
    then show ?thesis
      by auto
  qed
  then show ?thesis
    using from_containers_cases [OF assms] roaring_set(12) [OF assms(1)]
    by (simp add: bitmap_or_assign_def split: sum.splits)
qed

theorem bitmap_assembly_witness:
  "\<exists>u. from_containers list_roaring [\<lparr>bc_path = 0, bc_values = [7]\<rparr>, \<lparr>bc_path = 1, bc_values = [2]\<rparr>] = Inr u \<and>
    65538 \<in> set u \<and> 8 \<notin> set u"
proof -
  let ?cs = "[\<lparr>bc_path = 0, bc_values = [7 :: u32]\<rparr>, \<lparr>bc_path = 1, bc_values = [2]\<rparr>]"
  have ok: "\<forall>c \<in> set ?cs. container_ok set c"
    by (simp add: container_ok_def is_valid_path_unat)
  have "sorted_wrt (<) (map bc_path ?cs)"
    by simp
  then show ?thesis
    using bitmap_assembly [OF list_roaring_ok ok, THEN conjunct1]
    by (cases "from_containers list_roaring ?cs") (auto simp: id_split_def drop_bit_eq_div)
qed

end
