(* ===== verification/Index_Store_Laws.thy ===== *)
theory Index_Store_Laws
  imports Index_Store Index_Bitmap_Laws Commitment Cell_Store_Laws
begin

text \<open>
  The two-tier index against its specification, a map from terms to sets of record ids. A bitmap
  root holds a set when the leaves of its trie are exactly the chunks of the set and their
  containers are stored under their hashes; the index holds a map when its table gives every term a
  root of its set and the index trie commits to the table.
\<close>

section \<open>Chunks of a set of ids\<close>

definition chunk :: "u64 \<Rightarrow> u64 set \<Rightarrow> u32 set" where
  "chunk p S = {x. x \<le> 0xFFFF \<and> id_at p x \<in> S}"

definition chunk_container :: "('b \<Rightarrow> u32 set) \<Rightarrow> u64 set \<Rightarrow> 'b bitmap_container \<Rightarrow> bool" where
  "chunk_container rset S c \<longleftrightarrow> container_ok rset c \<and> rset (bc_values c) = chunk (bc_path c) S"

definition chunk_hash :: "('b, 't, 'io) roaring \<Rightarrow> (bytes \<Rightarrow> hash) \<Rightarrow> 'b bitmap_container \<Rightarrow> hash" where
  "chunk_hash R H c = hash_parts H [[BITMAP_LEAF_DOMAIN], container_row R c]"

definition bitmap_leaves ::
  "('b, 't, 'io) roaring \<Rightarrow> (bytes \<Rightarrow> hash) \<Rightarrow> ('b \<Rightarrow> u32 set) \<Rightarrow> (bytes \<rightharpoonup> bytes) \<Rightarrow> u64 set \<Rightarrow> (bytes \<rightharpoonup> hash) \<Rightarrow> bool" where
  "bitmap_leaves R H rset C S m \<longleftrightarrow>
    (\<forall>p h. m p = Some h \<longrightarrow> (\<exists>c. chunk_container rset S c \<and> rset (bc_values c) \<noteq> {} \<and> p = path6 (bc_path c) \<and>
      h = chunk_hash R H c \<and> C h = Some (container_row R c))) \<and>
    (\<forall>v \<in> S. path6 (fst (id_split v)) \<in> dom m)"

lemma chunk_split: "v \<in> S \<longleftrightarrow> ucast (snd (id_split v)) \<in> chunk (fst (id_split v)) S"
proof -
  have "(ucast (snd (id_split v)) :: u32) \<le> 0xFFFF"
    using split_offset [of v] by (simp add: word_le_nat_alt unsigned_ucast_eq take_bit_eq_mod less_Suc_eq_le [symmetric])
  then show ?thesis
    by (simp add: chunk_def id_at_split)
qed

lemma chunk_container_ids:
  assumes "chunk_container rset S c"
  shows "container_ids rset c = {v \<in> S. fst (id_split v) = bc_path c}"
proof -
  have "v \<in> container_ids rset c \<longleftrightarrow> fst (id_split v) = bc_path c \<and> v \<in> S" for v
  proof -
    have "v \<in> container_ids rset c \<longleftrightarrow> fst (id_split v) = bc_path c \<and> ucast (snd (id_split v)) \<in> chunk (bc_path c) S"
      using container_ids_split [of rset c v] assms by (simp add: chunk_container_def)
    then show ?thesis
      using chunk_split [of v S] by metis
  qed
  then show ?thesis
    by auto
qed

lemma leaves_none:
  assumes "bitmap_leaves R H rset C S m" "is_valid_path p" "m (path6 p) = None"
  shows "chunk p S = {}"
proof -
  have False if "x \<in> chunk p S" for x
  proof -
    have "path6 (fst (id_split (id_at p x))) \<in> dom m"
      using assms(1) that by (auto simp: bitmap_leaves_def chunk_def)
    then show False
      using that assms(2,3) by (auto simp: chunk_def split_id_at)
  qed
  then show ?thesis
    by blast
qed

lemma leaves_some:
  assumes "bitmap_leaves R H rset C S m" "is_valid_path p" "m (path6 p) = Some h"
  obtains c where "chunk_container rset S c" "rset (bc_values c) \<noteq> {}" "bc_path c = p" "h = chunk_hash R H c"
    "C h = Some (container_row R c)"
proof -
  obtain c where "chunk_container rset S c" "rset (bc_values c) \<noteq> {}" "path6 p = path6 (bc_path c)" "h = chunk_hash R H c"
      "C h = Some (container_row R c)"
    using assms(1,3) unfolding bitmap_leaves_def by blast
  moreover from this have "bc_path c = p"
    using path6_inject [OF assms(2), of "bc_path c"] by (simp add: chunk_container_def container_ok_def)
  ultimately show thesis
    using that by blast
qed

lemma leaves_mono: "bitmap_leaves R H rset C S m \<Longrightarrow> C \<subseteq>\<^sub>m C' \<Longrightarrow> bitmap_leaves R H rset C' S m"
  unfolding bitmap_leaves_def map_le_def by (metis domI)

lemma leaves_empty_iff:
  assumes "bitmap_leaves R H rset C S m"
  shows "m = Map.empty \<longleftrightarrow> S = {}"
proof
  assume "m = Map.empty"
  then show "S = {}"
    using assms by (auto simp: bitmap_leaves_def)
next
  assume S: "S = {}"
  have "m p = None" for p
  proof (cases "m p")
    case (Some h)
    then obtain c where "chunk_container rset S c" "rset (bc_values c) \<noteq> {}"
      using assms unfolding bitmap_leaves_def by blast
    then show ?thesis
      using S by (simp add: chunk_container_def chunk_def)
  qed
  then show "m = Map.empty" ..
qed

text \<open>The ids are determined by the leaf map, through the stored rows.\<close>

lemma leaves_functional:
  assumes "roaring_ok R rset tset" "bitmap_leaves R H rset C S m" "bitmap_leaves R H rset C S' m"
  shows "S = S'"
proof -
  have "v \<in> S'" if v: "v \<in> S" and S: "bitmap_leaves R H rset C S m" "bitmap_leaves R H rset C S' m" for v S S'
  proof -
    obtain h where h: "m (path6 (fst (id_split v))) = Some h"
      using v S(1) by (auto simp: bitmap_leaves_def)
    obtain c where c: "chunk_container rset S c" "rset (bc_values c) \<noteq> {}" "bc_path c = fst (id_split v)"
        "C h = Some (container_row R c)"
      using leaves_some [OF S(1) split_valid h] by metis
    obtain d where d: "chunk_container rset S' d" "rset (bc_values d) \<noteq> {}" "bc_path d = fst (id_split v)"
        "C h = Some (container_row R d)"
      using leaves_some [OF S(2) split_valid h] by metis
    have "rset (bc_values c) = rset (bc_values d)"
      using container_decode_row [OF assms(1) _ c(2)] container_decode_row [OF assms(1) _ d(2)] c d
      by (fastforce simp: chunk_container_def)
    then show "v \<in> S'"
      using c(1,3) d(1,3) v chunk_split [of v S] chunk_split [of v S'] by (simp add: chunk_container_def)
  qed
  then show ?thesis
    using assms(2,3) by blast
qed

lemma leaves_update:
  assumes "bitmap_leaves R H rset C S m" "C \<subseteq>\<^sub>m C'" "chunk_container rset S' c" "bc_path c = p"
    "\<And>v. fst (id_split v) \<noteq> p \<Longrightarrow> v \<in> S' \<longleftrightarrow> v \<in> S"
    "rset (bc_values c) \<noteq> {} \<Longrightarrow> C' (chunk_hash R H c) = Some (container_row R c)"
  shows "bitmap_leaves R H rset C' S' (m(path6 p := if rset (bc_values c) = {} then None else Some (chunk_hash R H c)))"
    (is "bitmap_leaves R H rset C' S' ?m")
proof -
  have p: "is_valid_path p"
    using assms(3,4) by (auto simp: chunk_container_def container_ok_def)
  have other: "chunk q S' = chunk q S" if "q \<noteq> p" "is_valid_path q" for q
  proof -
    have "id_at q x \<in> S' \<longleftrightarrow> id_at q x \<in> S" if "x \<le> 0xFFFF" for x
      using assms(5) [of "id_at q x"] split_id_at [OF \<open>is_valid_path q\<close> that] \<open>q \<noteq> p\<close> by simp
    then show ?thesis
      by (auto simp: chunk_def)
  qed
  have "\<exists>c. chunk_container rset S' c \<and> rset (bc_values c) \<noteq> {} \<and> q = path6 (bc_path c) \<and>
      h = chunk_hash R H c \<and> C' h = Some (container_row R c)" if "?m q = Some h" for q h
  proof (cases "q = path6 p")
    case True
    then show ?thesis
      using that assms(3,4,6) by (intro exI [of _ c]) (auto split: if_splits)
  next
    case False
    then have "m q = Some h"
      using that by simp
    then obtain d where d: "chunk_container rset S d" "rset (bc_values d) \<noteq> {}" "q = path6 (bc_path d)"
        "h = chunk_hash R H d" "C h = Some (container_row R d)"
      using assms(1) unfolding bitmap_leaves_def by blast
    then have "chunk_container rset S' d"
      using other [of "bc_path d"] False by (auto simp: chunk_container_def container_ok_def)
    moreover have "C' h = Some (container_row R d)"
      using d(5) assms(2) unfolding map_le_def by (metis domI)
    ultimately show ?thesis
      using d by blast
  qed
  moreover have "path6 (fst (id_split v)) \<in> dom ?m" if "v \<in> S'" for v
  proof (cases "fst (id_split v) = p")
    case True
    then have "rset (bc_values c) \<noteq> {}"
      using chunk_split [of v S'] that assms(3,4) by (auto simp: chunk_container_def)
    then show ?thesis
      using True by simp
  next
    case False
    then have "path6 (fst (id_split v)) \<noteq> path6 p" "v \<in> S"
      using path6_inject [OF split_valid p] assms(5) that by auto
    then show ?thesis
      using assms(1) by (auto simp: bitmap_leaves_def)
  qed
  ultimately show ?thesis
    unfolding bitmap_leaves_def by blast
qed

section \<open>Changes of offsets\<close>

definition id_change :: "offset_change \<Rightarrow> u64 set \<Rightarrow> u64 set" where
  "id_change ch S = (case ch of (hi, off, present) \<Rightarrow>
     if present then insert (id_at hi (ucast off)) S else S - {id_at hi (ucast off)})"

lemma low_offset: "(ucast (off :: u16) :: u32) \<le> 0xFFFF"
  using unsigned_less [of off, where ?'a = nat]
  by (simp add: word_le_nat_alt unsigned_ucast_eq take_bit_eq_mod less_Suc_eq_le [symmetric] del: unsigned_less)

lemma id_change_other:
  "is_valid_path (fst ch) \<Longrightarrow> fst (id_split v) \<noteq> fst ch \<Longrightarrow> v \<in> id_change ch S \<longleftrightarrow> v \<in> S"
  using split_id_at [OF _ low_offset] by (auto simp: id_change_def split: prod.splits)

lemma id_at_inject:
  "is_valid_path p \<Longrightarrow> x \<le> 0xFFFF \<Longrightarrow> y \<le> 0xFFFF \<Longrightarrow> id_at p x = id_at p y \<longleftrightarrow> x = y"
  using id_at_unat [of p x] id_at_unat [of p y] by (auto simp: word_unat_eq_iff)

lemma chunk_change:
  assumes "is_valid_path hi"
  shows "chunk hi (id_change (hi, off, present) S) =
    (if present then insert (ucast off) (chunk hi S) else chunk hi S - {ucast off})"
  using low_offset [of off] id_at_inject [OF assms _ low_offset [of off]]
  by (auto simp: chunk_def id_change_def)

lemma apply_offsets:
  assumes "roaring_ok R rset tset"
  shows "chunk_container rset S c \<Longrightarrow> \<forall>ch \<in> set chs. fst ch = bc_path c \<Longrightarrow>
    (case fold (apply_offset R) chs (b, c) of (changed, c') \<Rightarrow>
      chunk_container rset (fold id_change chs S) c' \<and> bc_path c' = bc_path c \<and>
      (\<not> changed \<longrightarrow> \<not> b \<and> fold id_change chs S = S))"
proof (induction chs arbitrary: b c S)
  case (Cons ch chs)
  obtain off present where ch: "ch = (bc_path c, off, present)"
    using Cons.prems(2) by (cases ch) auto
  let ?step = "if present then container_insert R off c else container_remove R off c"
  have ok: "container_ok rset c" "is_valid_path (bc_path c)" "rset (bc_values c) = chunk (bc_path c) S"
    using Cons.prems(1) by (simp_all add: chunk_container_def container_ok_def)
  have step: "chunk_container rset (id_change ch S) (snd ?step)" "bc_path (snd ?step) = bc_path c"
    using container_update [OF assms ok(1)] chunk_change [OF ok(2)] ok(3) by (auto simp: chunk_container_def ch)
  have same: "id_change ch S = S" if "\<not> fst ?step"
    using that container_update [OF assms ok(1)] ok(3) low_offset [of off]
    by (auto simp: ch id_change_def chunk_def split: if_splits)
  have "apply_offset R ch (b, c) = (b \<or> fst ?step, snd ?step)"
    by (simp add: apply_offset_def ch case_prod_unfold Let_def)
  then show ?case
    using Cons.IH [OF step(1), of "b \<or> fst ?step"] Cons.prems(2) step(2) same by (auto split: prod.splits)
qed simp

section \<open>Bitmap roots\<close>

lemma index_tables [simp]:
  "table_ok INDEX" "table_ok BITMAP_CONTAINER" "table_ok BITMAP_TRIE" "table_ok INDEX_TRIE"
  "BITMAP_CONTAINER \<noteq> BITMAP_TRIE" "BITMAP_TRIE \<noteq> BITMAP_CONTAINER" "INDEX \<noteq> BITMAP_CONTAINER" "INDEX \<noteq> BITMAP_TRIE"
  "INDEX \<noteq> INDEX_TRIE" "INDEX_TRIE \<noteq> INDEX" "INDEX_TRIE \<noteq> BITMAP_CONTAINER" "INDEX_TRIE \<noteq> BITMAP_TRIE"
  "BITMAP_CONTAINER \<noteq> INDEX" "BITMAP_TRIE \<noteq> INDEX" "BITMAP_CONTAINER \<noteq> INDEX_TRIE" "BITMAP_TRIE \<noteq> INDEX_TRIE"
  by (simp_all add: table_ok_def INDEX_def BITMAP_CONTAINER_def BITMAP_TRIE_def INDEX_TRIE_def)

lemma bitmap_trie_ok: "hash_ok H \<Longrightarrow> trie_ok (bitmap_trie H)"
  by (simp add: trie_ok_def bitmap_trie_def hash_ok_def)

lemma bitmap_trie_parts [simp]:
  "tr_table (bitmap_trie H) = BITMAP_TRIE" "tr_width (bitmap_trie H) = 6" "tr_hasher (bitmap_trie H) = H"
  by (simp_all add: bitmap_trie_def)

abbreviation container_rows :: "('tx \<Rightarrow> table \<Rightarrow> rows) \<Rightarrow> 'tx \<Rightarrow> bytes \<rightharpoonup> bytes" where
  "container_rows view tx \<equiv> om_get (view tx BITMAP_CONTAINER)"

definition bitmap_holds ::
  "('tx \<Rightarrow> table \<Rightarrow> rows) \<Rightarrow> ('b, 't, 'io) roaring \<Rightarrow> (bytes \<Rightarrow> hash) \<Rightarrow> ('b \<Rightarrow> u32 set) \<Rightarrow> 'tx \<Rightarrow> root_ref \<Rightarrow> u64 set \<Rightarrow> bool" where
  "bitmap_holds view R H rset tx root S \<longleftrightarrow> (\<exists>m. bitmap_leaves R H rset (container_rows view tx) S m \<and>
    represents (bitmap_trie H) (branch_rows view (bitmap_trie H) tx) [] root m)"

text \<open>No digest is at once the key of a container and of a branch, or the digest of the empty string.\<close>

definition no_clash :: "('tx \<Rightarrow> table \<Rightarrow> rows) \<Rightarrow> (bytes \<Rightarrow> hash) \<Rightarrow> 'tx \<Rightarrow> bool" where
  "no_clash view H tx \<longleftrightarrow> dom (container_rows view tx) \<inter> dom (om_get (view tx BITMAP_TRIE)) = {} \<and>
    H [] \<notin> dom (container_rows view tx) \<union> dom (om_get (view tx BITMAP_TRIE))"

definition grows :: "('tx \<Rightarrow> table \<Rightarrow> rows) \<Rightarrow> 'tx \<Rightarrow> 'tx \<Rightarrow> bool" where
  "grows view tx tx' \<longleftrightarrow> container_rows view tx \<subseteq>\<^sub>m container_rows view tx' \<and>
    om_get (view tx BITMAP_TRIE) \<subseteq>\<^sub>m om_get (view tx' BITMAP_TRIE) \<and>
    (\<forall>t. t \<noteq> BITMAP_CONTAINER \<longrightarrow> t \<noteq> BITMAP_TRIE \<longrightarrow> view tx' t = view tx t)"

lemma grows_refl [simp]: "grows view tx tx"
  by (simp add: grows_def)

lemma grows_trans: "grows view a b \<Longrightarrow> grows view b c \<Longrightarrow> grows view a c"
  by (auto simp: grows_def intro: map_le_trans)

lemma holds_grows: "bitmap_holds view R H rset tx root S \<Longrightarrow> grows view tx tx' \<Longrightarrow> bitmap_holds view R H rset tx' root S"
  unfolding bitmap_holds_def grows_def bitmap_trie_parts using leaves_mono represents_mono by metis

lemma holds_empty: "bitmap_holds view R H rset tx RootEmpty {}"
proof -
  have "bitmap_leaves R H rset (container_rows view tx) {} Map.empty"
    by (simp add: bitmap_leaves_def)
  then show ?thesis
    unfolding bitmap_holds_def using rep_empty by blast
qed

lemma holds_empty_iff: "bitmap_holds view R H rset tx root S \<Longrightarrow> root = RootEmpty \<longleftrightarrow> S = {}"
  unfolding bitmap_holds_def using leaves_empty_iff represents_empty_iff by metis

text \<open>The hash of a root determines the set.\<close>

lemma holds_leaf:
  assumes "bitmap_holds view R H rset tx (RootLeaf l) S"
  obtains c where "chunk_container rset S c" "rset (bc_values c) \<noteq> {}" "leaf_path l = path6 (bc_path c)"
    "leaf_hash l = chunk_hash R H c" "container_rows view tx (leaf_hash l) = Some (container_row R c)"
    "S = container_ids rset c"
proof -
  obtain m where m: "bitmap_leaves R H rset (container_rows view tx) S m"
      "represents (bitmap_trie H) (branch_rows view (bitmap_trie H) tx) [] (RootLeaf l) m"
    using assms unfolding bitmap_holds_def by blast
  have ml: "m = [leaf_path l \<mapsto> leaf_hash l]"
    using m(2) by (auto elim: represents_LeafE)
  obtain c where c: "chunk_container rset S c" "rset (bc_values c) \<noteq> {}" "leaf_path l = path6 (bc_path c)"
      "leaf_hash l = chunk_hash R H c" "container_rows view tx (leaf_hash l) = Some (container_row R c)"
    using m(1) unfolding bitmap_leaves_def ml by (metis fun_upd_same)
  have "fst (id_split v) = bc_path c" if "v \<in> S" for v
  proof -
    have "path6 (fst (id_split v)) = path6 (bc_path c)"
      using m(1) that c(3) unfolding bitmap_leaves_def ml by (auto split: if_splits)
    then show ?thesis
      using path6_inject [OF split_valid] c(1) by (simp add: chunk_container_def container_ok_def)
  qed
  then have "S = container_ids rset c"
    using chunk_container_ids [OF c(1)] by auto
  then show thesis
    using that c by blast
qed

lemma holds_branch_key:
  "bitmap_holds view R H rset tx (RootBranch h) S \<Longrightarrow> h \<in> dom (om_get (view tx BITMAP_TRIE))"
  unfolding bitmap_holds_def represents_branch_iff holds_node_def by auto

lemma holds_hash_inject:
  assumes "roaring_ok R rset tset" "hash_ok H" "no_clash view H tx"
    "bitmap_holds view R H rset tx root S" "bitmap_holds view R H rset tx root' S'"
    "root \<noteq> RootEmpty" "root' \<noteq> RootEmpty" "root_hash H root = root_hash H root'"
  shows "S = S'"
proof -
  have key: "root_hash H (RootLeaf l) \<in> dom (container_rows view tx)" if "bitmap_holds view R H rset tx (RootLeaf l) S" for l S
    using that by (rule holds_leaf) (simp add: root_hash_def domI)
  have leaves: "S = S'" if l: "bitmap_holds view R H rset tx (RootLeaf l) S" "bitmap_holds view R H rset tx (RootLeaf l') S'"
    "leaf_hash l = leaf_hash l'" for l l' S S'
  proof -
    obtain c where c: "chunk_container rset S c" "rset (bc_values c) \<noteq> {}"
        "container_rows view tx (leaf_hash l) = Some (container_row R c)" "S = container_ids rset c"
      using holds_leaf [OF l(1)] by metis
    obtain d where d: "chunk_container rset S' d" "rset (bc_values d) \<noteq> {}"
        "container_rows view tx (leaf_hash l') = Some (container_row R d)" "S' = container_ids rset d"
      using holds_leaf [OF l(2)] by metis
    have "bc_path c = bc_path d \<and> rset (bc_values c) = rset (bc_values d)"
      using container_decode_row [OF assms(1) _ c(2)] container_decode_row [OF assms(1) _ d(2)] c d l(3)
      by (fastforce simp: chunk_container_def)
    then show ?thesis
      using c(4) d(4) by (simp add: container_ids_def)
  qed
  have branches: "S = S'" if h: "bitmap_holds view R H rset tx (RootBranch h) S" "bitmap_holds view R H rset tx (RootBranch h) S'" for h S S'
    using h represents_functional [OF _ _ bitmap_trie_ok [OF assms(2)]] leaves_functional [OF assms(1)]
    unfolding bitmap_holds_def by metis
  have clash: False if "bitmap_holds view R H rset tx (RootLeaf l) S" "bitmap_holds view R H rset tx (RootBranch h) S'"
    "leaf_hash l = h" for l h S S'
    using key [OF that(1)] holds_branch_key [OF that(2)] that(3) assms(3) by (auto simp: no_clash_def root_hash_def)
  show ?thesis
    using assms(4-8) leaves branches clash by (cases root; cases root') (auto simp: root_hash_def)
qed

context read_tx
begin

lemma bt_decode_row:
  assumes "roaring_ok R rset tset" "container_ok rset c" "rset (bc_values c) \<noteq> {}"
  shows "\<exists>d. bt_decode R H (chunk_hash R H c) (container_row R c) = Inr d \<and> container_ok rset d \<and> bc_path d = bc_path c \<and>
    rset (bc_values d) = rset (bc_values c)"
  using container_decode_row [OF assms] by (auto simp: bt_decode_def chunk_hash_def)

lemma bt_load_law:
  assumes "roaring_ok R rset tset" "tx_ok tx" "container_ok rset c" "rset (bc_values c) \<noteq> {}"
    "container_rows view tx (chunk_hash R H c) = Some (container_row R c)"
  shows "\<exists>d. bt_load ops R H tx \<lparr>leaf_path = path6 (bc_path c), leaf_hash = chunk_hash R H c\<rparr> = Inr d \<and>
    container_ok rset d \<and> bc_path d = bc_path c \<and> rset (bc_values d) = rset (bc_values c)"
proof -
  obtain d where d: "bt_decode R H (chunk_hash R H c) (container_row R c) = Inr d" "container_ok rset d" "bc_path d = bc_path c"
      "rset (bc_values d) = rset (bc_values c)"
    using bt_decode_row [OF assms(1,3,4)] by blast
  moreover have "is_valid_path (bc_path c)"
    using assms(3) by (simp add: container_ok_def)
  ultimately show ?thesis
    using get_law [OF assms(2) index_tables(2)] assms(5) by (auto simp: bt_load_def path_bytes_valid)
qed

lemma bt_reopen_law:
  assumes "roaring_ok R rset tset" "hash_ok H" "tx_ok tx" "no_clash view H tx"
    "bitmap_holds view R H rset tx root S" "root \<noteq> RootEmpty"
  shows "\<exists>cached. bt_reopen ops R H tx (root_hash H root) = Inr (root, cached) \<and>
    (\<forall>c. cached = Some c \<longrightarrow> chunk_container rset S c \<and> (\<exists>l. root = RootLeaf l \<and> leaf_path l = path6 (bc_path c)) \<and>
      S = container_ids rset c) \<and>
    (cached = None \<longrightarrow> (\<exists>h. root = RootBranch h))"
proof (cases root)
  case (RootLeaf l)
  obtain c where c: "chunk_container rset S c" "rset (bc_values c) \<noteq> {}" "leaf_path l = path6 (bc_path c)"
      "leaf_hash l = chunk_hash R H c" "container_rows view tx (leaf_hash l) = Some (container_row R c)"
      "S = container_ids rset c"
    using holds_leaf [OF assms(5) [unfolded RootLeaf]] by metis
  obtain d where d: "bt_decode R H (chunk_hash R H c) (container_row R c) = Inr d" "container_ok rset d" "bc_path d = bc_path c"
      "rset (bc_values d) = rset (bc_values c)"
    using bt_decode_row [OF assms(1) _ c(2), of H] c(1) unfolding chunk_container_def by blast
  have "l = \<lparr>leaf_path = path6 (bc_path c), leaf_hash = chunk_hash R H c\<rparr>"
    using c(3,4) by (cases l) simp
  moreover have "leaf_hash l \<noteq> H []"
    using assms(4) c(5) by (auto simp: no_clash_def)
  moreover have "is_valid_path (bc_path c)"
    using d(2,3) by (simp add: container_ok_def)
  ultimately have "bt_reopen ops R H tx (root_hash H root) = Inr (root, Some d)"
    using get_law [OF assms(3) index_tables(2)] c(4,5) d(1,3) by (auto simp: bt_reopen_def RootLeaf root_hash_def path_bytes_valid)
  moreover have "chunk_container rset S d" "S = container_ids rset d"
    using c(1,6) d by (simp_all add: chunk_container_def container_ids_def)
  ultimately show ?thesis
    using RootLeaf c(3) d(3) by auto
next
  case (RootBranch h)
  obtain m where "represents (bitmap_trie H) (branch_rows view (bitmap_trie H) tx) [] (RootBranch h) m"
    using assms(5) unfolding bitmap_holds_def RootBranch by blast
  then obtain node where node: "trie_load ops (bitmap_trie H) tx h [] = Inr node"
    using load_represented [OF bitmap_trie_ok [OF assms(2)] assms(3)] by blast
  have "h \<in> dom (om_get (view tx BITMAP_TRIE))"
    by (rule holds_branch_key [OF assms(5) [unfolded RootBranch]])
  then have "container_rows view tx h = None" "h \<noteq> H []"
    using assms(4) by (auto simp: no_clash_def)
  then show ?thesis
    using get_law [OF assms(3) index_tables(2)] node RootBranch
    by (auto simp: bt_reopen_def root_hash_def validate_root_def)
qed (use assms(6) in simp)

text \<open>Materializing a bitmap.\<close>

lemma walk_loads:
  assumes "roaring_ok R rset tset" "tx_ok tx" "bitmap_leaves R H rset (container_rows view tx) S m" "leaf_list m ls"
  shows "\<exists>cs. try_map (bt_load ops R H tx) ls = Inr cs \<and> (\<forall>c \<in> set cs. container_ok rset c) \<and>
    sorted_wrt (<) (map bc_path cs) \<and> (\<Union>c \<in> set cs. container_ids rset c) = S"
proof -
  have "\<exists>c. bt_load ops R H tx l = Inr c \<and> chunk_container rset S c \<and> leaf_path l = path6 (bc_path c)" if "l \<in> set ls" for l
  proof -
    have "m (leaf_path l) = Some (leaf_hash l)"
      using assms(4) that by (simp add: leaf_list_def)
    then obtain c where c: "chunk_container rset S c" "rset (bc_values c) \<noteq> {}" "leaf_path l = path6 (bc_path c)"
        "leaf_hash l = chunk_hash R H c" "container_rows view tx (leaf_hash l) = Some (container_row R c)"
      using assms(3) unfolding bitmap_leaves_def by blast
    have "l = \<lparr>leaf_path = path6 (bc_path c), leaf_hash = chunk_hash R H c\<rparr>"
      using c(3,4) by (cases l) simp
    then show ?thesis
      using bt_load_law [OF assms(1,2) _ c(2)] c by (fastforce simp: chunk_container_def)
  qed
  then obtain f where f: "\<And>l. l \<in> set ls \<Longrightarrow> bt_load ops R H tx l = Inr (f l) \<and> chunk_container rset S (f l) \<and>
      leaf_path l = path6 (bc_path (f l))"
    by metis
  have "try_map (bt_load ops R H tx) ls = Inr (map f ls)"
    using f by (simp add: try_map_Inr list_all2_map2 list.rel_refl_strong)
  moreover have ok: "\<forall>c \<in> set (map f ls). container_ok rset c"
    using f by (auto simp: chunk_container_def)
  moreover have "sorted_wrt (<) (map bc_path (map f ls))"
  proof -
    have less: "bc_path (f l) < bc_path (f k)" if "l \<in> set ls" "k \<in> set ls" "leaf_path l < leaf_path k" for l k
      using that f [OF that(1)] f [OF that(2)] path6_less by (auto simp: chunk_container_def container_ok_def)
    have "sorted_wrt (\<lambda>l k. leaf_path l < leaf_path k) ls"
      using assms(4) by (simp add: leaf_list_def sorted_wrt_map)
    then show ?thesis
      unfolding map_map sorted_wrt_map comp_def by (rule sorted_wrt_mono_rel [rotated]) (rule less)
  qed
  moreover have "(\<Union>c \<in> set (map f ls). container_ids rset c) = S"
  proof
    show "(\<Union>c \<in> set (map f ls). container_ids rset c) \<subseteq> S"
    proof -
      have "container_ids rset (f l) \<subseteq> S" if "l \<in> set ls" for l
        using chunk_container_ids [of rset S "f l"] f [OF that] by auto
      then show ?thesis
        by auto
    qed
    show "S \<subseteq> (\<Union>c \<in> set (map f ls). container_ids rset c)"
    proof
      fix v assume v: "v \<in> S"
      then obtain h where "m (path6 (fst (id_split v))) = Some h"
        using assms(3) by (auto simp: bitmap_leaves_def)
      then have l: "\<lparr>leaf_path = path6 (fst (id_split v)), leaf_hash = h\<rparr> \<in> set ls" (is "?l \<in> _")
        using assms(4) by (simp add: leaf_list_def)
      have "fst (id_split v) = bc_path (f ?l)"
        using f [OF l] path6_inject [OF split_valid, of "bc_path (f ?l)" v]
        by (simp add: chunk_container_def container_ok_def)
      then have "v \<in> container_ids rset (f ?l)"
        using chunk_container_ids f [OF l] v by auto
      then show "v \<in> (\<Union>c \<in> set (map f ls). container_ids rset c)"
        using l by auto
    qed
  qed
  ultimately show ?thesis
    by blast
qed

lemma bt_bitmap_law:
  assumes "roaring_ok R rset tset" "hash_ok H" "tx_ok tx" "no_clash view H tx"
    "bitmap_holds view R H rset tx root S" "root \<noteq> RootEmpty"
  shows "\<exists>b. bt_bitmap ops R H tx (root_hash H root) = Inr b \<and> tset b = S"
proof -
  obtain cached where re: "bt_reopen ops R H tx (root_hash H root) = Inr (root, cached)"
      "\<And>c. cached = Some c \<Longrightarrow> chunk_container rset S c \<and> S = container_ids rset c"
    using bt_reopen_law [OF assms] by blast
  show ?thesis
  proof (cases cached)
    case (Some c)
    then have "\<exists>b. from_containers R [c] = Inr b \<and> tset b = S"
      using from_containers_ok [OF assms(1), of "[c]"] re(2) by (auto simp: chunk_container_def)
    then show ?thesis
      using re(1) Some by (auto simp: bt_bitmap_def)
  next
    case None
    obtain m where m: "bitmap_leaves R H rset (container_rows view tx) S m"
        "represents (bitmap_trie H) (branch_rows view (bitmap_trie H) tx) [] root m"
      using assms(5) unfolding bitmap_holds_def by blast
    obtain ls where ls: "leaf_list m ls"
        "walk_collect ops (bitmap_trie H) tx IndexMerkle (bt_load ops R H tx) (trie_walk root) = try_map (bt_load ops R H tx) ls"
      using walk_represents [OF bitmap_trie_ok [OF assms(2)] assms(3) m(2)] by blast
    obtain cs where cs: "try_map (bt_load ops R H tx) ls = Inr cs" "\<forall>c \<in> set cs. container_ok rset c"
        "sorted_wrt (<) (map bc_path cs)" "(\<Union>c \<in> set cs. container_ids rset c) = S"
      using walk_loads [OF assms(1,3) m(1) ls(1)] by blast
    then show ?thesis
      using from_containers_ok [OF assms(1) cs(2,3)] re(1) None ls(2) by (auto simp: bt_bitmap_def)
  qed
qed

end

section \<open>Updating a bitmap\<close>

lemma dropWhile_sorted:
  assumes "sorted (map fst (ch # chs))" "c \<in> set (dropWhile (\<lambda>c. fst c = fst ch) chs)"
  shows "fst ch < fst (c :: offset_change)"
proof -
  let ?rest = "dropWhile (\<lambda>c. fst c = fst ch) chs"
  have sub: "set ?rest \<subseteq> set chs"
    using set_dropWhileD by fast
  obtain d ds where d: "?rest = d # ds"
    using assms(2) by (cases ?rest) auto
  have "fst d \<noteq> fst ch"
    using hd_dropWhile [of "\<lambda>c. fst c = fst ch" chs] d by simp
  moreover have "fst ch \<le> fst d"
    using assms(1) sub d by auto
  moreover have "sorted (map fst ?rest)"
    using assms(1) sorted_dropWhile [of "map fst chs" "\<lambda>x. x = fst ch"] by (simp add: dropWhile_map comp_def)
  then have "fst d \<le> fst c"
    using assms(2) unfolding d by auto
  ultimately show ?thesis
    by simp
qed

lemma id_changes_other:
  "\<forall>ch \<in> set chs. is_valid_path (fst ch) \<and> fst ch \<noteq> fst (id_split v) \<Longrightarrow> v \<in> fold id_change chs S \<longleftrightarrow> v \<in> S"
proof (induction chs arbitrary: S)
  case (Cons ch chs)
  then show ?case
    using id_change_other [of ch v S] by (auto simp: eq_commute)
qed simp

lemma chunk_other:
  assumes "is_valid_path q" "\<And>v. fst (id_split v) = q \<Longrightarrow> v \<in> S' \<longleftrightarrow> v \<in> S"
  shows "chunk q S' = chunk q S"
  using assms split_id_at [OF assms(1)] by (auto simp: chunk_def)

text \<open>The state of the update between two containers.\<close>

definition pending ::
  "('b, 't, 'io) roaring \<Rightarrow> (bytes \<Rightarrow> hash) \<Rightarrow> ('b \<Rightarrow> u32 set) \<Rightarrow> (bytes \<rightharpoonup> bytes) \<Rightarrow> u64 set \<Rightarrow> (bytes \<rightharpoonup> hash) \<Rightarrow>
    edit_entry list \<Rightarrow> u64 set \<Rightarrow> u64 option \<Rightarrow> offset_change list \<Rightarrow> bool" where
  "pending R H rset C S0 m edits S previous changes \<longleftrightarrow>
    bitmap_leaves R H rset C S0 m \<and> bitmap_leaves R H rset C S (edits_map m edits) \<and>
    (\<forall>e \<in> set edits. length (fst e) = 6 \<and> (\<forall>h. snd e = Some h \<longrightarrow> length h = 32)) \<and>
    sorted (map fst changes) \<and>
    (\<forall>ch \<in> set changes. is_valid_path (fst ch) \<and> (\<forall>q. previous = Some q \<longrightarrow> q < fst ch) \<and>
      chunk (fst ch) S = chunk (fst ch) S0)"

lemma edits_map_snoc: "edits_map m (edits @ [(p, h)]) = (edits_map m edits)(p := h)"
  by (simp add: edits_map_def)

lemma pending_step:
  assumes "pending R H rset C S0 m edits S previous (ch # changes)" "C \<subseteq>\<^sub>m C'" "hash_ok H"
    "chunk_container rset S' c" "bc_path c = fst ch"
    "S' = fold id_change (takeWhile (\<lambda>c. fst c = fst ch) (ch # changes)) S"
    "edits' = edits @ [(path6 (fst ch), if rset (bc_values c) = {} then None else Some (chunk_hash R H c))] \<and>
        (rset (bc_values c) \<noteq> {} \<longrightarrow> C' (chunk_hash R H c) = Some (container_row R c)) \<or>
      edits' = edits \<and> S' = S"
  shows "pending R H rset C' S0 m edits' S' (Some (fst ch)) (dropWhile (\<lambda>c. fst c = fst ch) changes)"
proof -
  let ?grp = "takeWhile (\<lambda>c. fst c = fst ch) (ch # changes)" and ?rest = "dropWhile (\<lambda>c. fst c = fst ch) changes"
  have valid: "is_valid_path (fst ch)"
    using assms(1) by (simp add: pending_def)
  have grp: "fst d = fst ch" if "d \<in> set ?grp" for d
    using that by (auto dest: set_takeWhileD)
  have other: "v \<in> S' \<longleftrightarrow> v \<in> S" if "fst (id_split v) \<noteq> fst ch" for v
    unfolding assms(6)
  proof (rule id_changes_other, intro ballI)
    fix d assume "d \<in> set ?grp"
    then have "fst d = fst ch"
      by (rule grp)
    then show "is_valid_path (fst d) \<and> fst d \<noteq> fst (id_split v)"
      using valid that by simp
  qed
  have sub: "set ?rest \<subseteq> set changes"
    using set_dropWhileD by fast
  have sorted: "sorted (map fst (ch # changes))"
    using assms(1) by (simp add: pending_def)
  have rest: "is_valid_path (fst d) \<and> fst ch < fst d \<and> chunk (fst d) S' = chunk (fst d) S0" if "d \<in> set ?rest" for d
  proof -
    have d: "is_valid_path (fst d)" "chunk (fst d) S = chunk (fst d) S0"
      using assms(1) sub that by (auto simp: pending_def)
    moreover have less: "fst ch < fst d"
      by (rule dropWhile_sorted [OF sorted that])
    moreover have "chunk (fst d) S' = chunk (fst d) S"
      by (rule chunk_other [OF d(1)]) (use other less in auto)
    ultimately show ?thesis
      by simp
  qed
  have "sorted (map fst ?rest)"
    using sorted sorted_dropWhile [of "map fst changes" "\<lambda>x. x = fst ch"] by (simp add: dropWhile_map comp_def)
  moreover have "bitmap_leaves R H rset C' S' (edits_map m edits')"
    using assms(7)
  proof
    assume e: "edits' = edits @ [(path6 (fst ch), if rset (bc_values c) = {} then None else Some (chunk_hash R H c))] \<and>
        (rset (bc_values c) \<noteq> {} \<longrightarrow> C' (chunk_hash R H c) = Some (container_row R c))"
    have "bitmap_leaves R H rset C S (edits_map m edits)"
      using assms(1) by (simp add: pending_def)
    then have "bitmap_leaves R H rset C' S' ((edits_map m edits)(path6 (fst ch) :=
        if rset (bc_values c) = {} then None else Some (chunk_hash R H c)))"
      by (rule leaves_update [OF _ assms(2,4,5) other]) (use e in auto)
    then show ?thesis
      using e by (simp only: edits_map_snoc)
  next
    assume "edits' = edits \<and> S' = S"
    then show ?thesis
      using assms(1,2) leaves_mono by (auto simp: pending_def)
  qed
  moreover have "\<forall>e \<in> set edits'. length (fst e) = 6 \<and> (\<forall>h. snd e = Some h \<longrightarrow> length h = 32)"
    using assms(1,3,7) by (auto simp: pending_def chunk_hash_def hash_parts_def hash_ok_def split: if_splits)
  moreover have "bitmap_leaves R H rset C' S0 m"
    using assms(1,2) leaves_mono by (auto simp: pending_def)
  ultimately show ?thesis
    using rest unfolding pending_def by simp
qed

context write_tx
begin

lemma bt_store_law:
  assumes "tx_ok tx"
  shows "bt_store ops tx h bs = Inl IndexConflictingContent \<or>
    (\<exists>tx'. bt_store ops tx h bs = Inr tx' \<and> tx_ok tx' \<and> grows view tx tx' \<and>
      (\<forall>t. t \<noteq> BITMAP_CONTAINER \<longrightarrow> view tx' t = view tx t) \<and> container_rows view tx' h = Some bs)"
proof (cases "container_rows view tx h")
  case None
  obtain tx' where "tx_insert ops tx BITMAP_CONTAINER h bs = Inr tx'" "tx_ok tx'"
      "view tx' = (view tx)(BITMAP_CONTAINER := om_put h bs (view tx BITMAP_CONTAINER))"
    using insert_law [OF assms index_tables(2) None] by blast
  then show ?thesis
    using None by (auto simp: bt_store_def grows_def map_le_def)
next
  case (Some row)
  then have "tx_insert ops tx BITMAP_CONTAINER h bs = Inl AlreadyExists"
    using insert_exists_law [OF assms index_tables(2)] by simp
  then show ?thesis
    using Some get_law [OF assms index_tables(2)] assms by (auto simp: bt_store_def)
qed

text \<open>One container of the batch.\<close>

lemma bt_container_law:
  assumes "roaring_ok R rset tset" "tx_ok tx" "bitmap_leaves R H rset (container_rows view tx) S0 m"
    "is_valid_path hi" "old = map_option (\<lambda>h. \<lparr>leaf_path = path6 hi, leaf_hash = h\<rparr>) (m (path6 hi))"
    "\<And>c. cached = Some c \<Longrightarrow> chunk_container rset S0 c \<and> dom m = {path6 (bc_path c)}"
  shows "\<exists>c cached'. bt_container ops R H tx old cached hi = Inr (c, cached') \<and> chunk_container rset S0 c \<and> bc_path c = hi \<and>
    (\<forall>c'. cached' = Some c' \<longrightarrow> cached = Some c')"
proof (cases "m (path6 hi)")
  case None
  then have empty: "chunk hi S0 = {}"
    by (rule leaves_none [OF assms(3,4)])
  obtain c where "container_empty R hi = Inr c" "container_ok rset c" "bc_path c = hi" "rset (bc_values c) = {}"
    using container_empty_ok [OF assms(1,4)] by blast
  then show ?thesis
    using None assms(5) empty by (auto simp: bt_container_def chunk_container_def)
next
  case (Some h)
  show ?thesis
  proof (cases cached)
    case (Some c)
    have "path6 hi \<in> dom m"
      using \<open>m (path6 hi) = Some h\<close> by auto
    then have "path6 hi = path6 (bc_path c)" "chunk_container rset S0 c"
      using assms(6) [OF Some] by auto
    then have "bc_path c = hi"
      using path6_inject [OF assms(4), of "bc_path c"] by (simp add: chunk_container_def container_ok_def)
    then show ?thesis
      using Some \<open>m (path6 hi) = Some h\<close> \<open>chunk_container rset S0 c\<close> assms(5) by (auto simp: bt_container_def)
  next
    case None
    obtain c where c: "chunk_container rset S0 c" "rset (bc_values c) \<noteq> {}" "bc_path c = hi" "h = chunk_hash R H c"
        "container_rows view tx h = Some (container_row R c)"
      using leaves_some [OF assms(3,4) Some] by metis
    obtain d where "bt_load ops R H tx \<lparr>leaf_path = path6 hi, leaf_hash = h\<rparr> = Inr d" "container_ok rset d"
        "bc_path d = hi" "rset (bc_values d) = rset (bc_values c)"
      using bt_load_law [OF assms(1,2) _ c(2), of H] c by (auto simp: chunk_container_def)
    then show ?thesis
      using None \<open>m (path6 hi) = Some h\<close> assms(5) c(1,3) by (auto simp: bt_container_def chunk_container_def)
  qed
qed

lemma bt_changes_law:
  fixes R :: "('b, 't, 'io) roaring"
  assumes "roaring_ok R rset tset" "hash_ok H"
  shows "tx_ok tx \<Longrightarrow> represents (bitmap_trie H) (branch_rows view (bitmap_trie H) tx) [] root m \<Longrightarrow>
    pending R H rset (container_rows view tx) S0 m edits S previous changes \<Longrightarrow>
    \<forall>c. cached = Some c \<longrightarrow> chunk_container rset S0 c \<and> dom m = {path6 (bc_path c)} \<Longrightarrow>
    bt_changes ops R H root cached previous changes edits tx = Inl IndexConflictingContent \<or>
    (\<exists>edits' tx'. bt_changes ops R H root cached previous changes edits tx = Inr (edits', tx') \<and> tx_ok tx' \<and>
      grows view tx tx' \<and> (\<forall>t. t \<noteq> BITMAP_CONTAINER \<longrightarrow> view tx' t = view tx t) \<and>
      bitmap_leaves R H rset (container_rows view tx') (fold id_change changes S) (edits_map m edits') \<and>
      (\<forall>e \<in> set edits'. edit_sized (bitmap_trie H) e))"
proof (induction "length changes" arbitrary: changes cached previous edits S tx rule: less_induct)
  case less
  show ?case
  proof (cases changes)
    case Nil
    then show ?thesis
      using less.prems(1,3) by (auto simp: pending_def edit_sized_def)
  next
    case (Cons ch chs)
    let ?hi = "fst ch" and ?grp = "takeWhile (\<lambda>c. fst c = fst ch) (ch # chs)"
    let ?rest = "dropWhile (\<lambda>c. fst c = fst ch) chs"
    note pend = less.prems(3) [unfolded Cons]
    have hi: "is_valid_path ?hi" "\<And>q. previous = Some q \<Longrightarrow> q < ?hi" "chunk ?hi S = chunk ?hi S0"
      "bitmap_leaves R H rset (container_rows view tx) S0 m"
      using pend by (auto simp: pending_def)
    let ?old = "map_option (\<lambda>h. \<lparr>leaf_path = path6 ?hi, leaf_hash = h\<rparr>) (m (path6 ?hi))"
    have get: "trie_get ops (bitmap_trie H) tx root (path6 ?hi) = Inr ?old"
      by (rule get_represented [OF bitmap_trie_ok [OF assms(2)] less.prems(1,2)]) simp
    obtain c cached' where c: "bt_container ops R H tx ?old cached ?hi = Inr (c, cached')" "chunk_container rset S0 c"
        "bc_path c = ?hi" "\<And>c'. cached' = Some c' \<Longrightarrow> cached = Some c'"
      using bt_container_law [OF assms(1) less.prems(1) hi(4,1) refl less.prems(4) [rule_format]] by blast
    obtain changed c' where cc: "fold (apply_offset R) ?grp (False, c) = (changed, c')"
      by fastforce
    define S' where "S' = fold id_change ?grp S"
    have "chunk_container rset S c"
      using c(2,3) hi(3) by (simp add: chunk_container_def)
    moreover have "\<forall>d \<in> set ?grp. fst d = bc_path c"
      using c(3) set_takeWhileD [of _ "\<lambda>c. fst c = fst ch" "ch # chs"] by metis
    ultimately have "chunk_container rset S' c' \<and> bc_path c' = bc_path c \<and> (\<not> changed \<longrightarrow> \<not> False \<and> S' = S)"
      using apply_offsets [OF assms(1), of S c ?grp False] unfolding cc S'_def case_prod_conv by blast
    then have c': "chunk_container rset S' c'" "bc_path c' = ?hi" "\<not> changed \<Longrightarrow> S' = S"
      using c(3) by simp_all
    have fold: "fold id_change changes S = fold id_change ?rest S'"
    proof -
      have "dropWhile (\<lambda>c. fst c = ?hi) (ch # chs) = ?rest"
        by simp
      then have "changes = ?grp @ ?rest"
        using takeWhile_dropWhile_id [of "\<lambda>c. fst c = ?hi" "ch # chs"] Cons by (simp only:)
      then have "fold id_change changes S = fold id_change (?grp @ ?rest) S"
        by (rule arg_cong)
      then show ?thesis
        unfolding fold_append comp_apply S'_def .
    qed
    have guard: "(case previous of Some prev \<Rightarrow> if prev \<ge> ?hi then Inl (IndexBitmap (UnsortedPaths prev ?hi)) else Inr ()
        | None \<Rightarrow> Inr ()) = (Inr () :: 'io index_error + unit)"
      using hi(2) by (cases previous) auto
    have shorter: "length ?rest < length changes"
      unfolding Cons using length_dropWhile_le [of "\<lambda>c. fst c = ?hi" chs] by (simp add: less_Suc_eq_le)
    note head = bt_changes.simps(2) [of ops R H root cached previous ch chs edits tx, unfolded Let_def guard
        path_bytes_valid [OF hi(1)] map_err_simp attempt_simp get c(1) case_prod_conv cc, folded Cons]
    note IH = less.hyps [OF shorter]
    have cached': "\<forall>d. cached' = Some d \<longrightarrow> chunk_container rset S0 d \<and> dom m = {path6 (bc_path d)}"
      using less.prems(4) c(4) by blast
    have empty: "container_is_empty R c' \<longleftrightarrow> rset (bc_values c') = {}"
      by (simp add: container_is_empty_def roaring_set [OF assms(1)])
    consider "\<not> changed" | "changed" "rset (bc_values c') = {}" | "changed" "rset (bc_values c') \<noteq> {}"
      by blast
    then show ?thesis
    proof cases
      case 1
      have "pending R H rset (container_rows view tx) S0 m edits S' (Some ?hi) ?rest"
        by (rule pending_step [OF pend map_le_refl assms(2) c'(1,2) S'_def]) (use c'(3) 1 in simp)
      from IH [where cached = cached', OF less.prems(1,2) this cached'] show ?thesis
        unfolding head fold using 1 by simp
    next
      case 2
      have "pending R H rset (container_rows view tx) S0 m (edits @ [(path6 ?hi, None)]) S' (Some ?hi) ?rest"
        by (rule pending_step [OF pend map_le_refl assms(2) c'(1,2) S'_def]) (use 2 in simp)
      from IH [where cached = cached', OF less.prems(1,2) this cached'] show ?thesis
        unfolding head fold using 2 empty by simp
    next
      case 3
      let ?row = "container_row R c'" and ?h = "chunk_hash R H c'"
      have bytes: "canonical_bytes R c' = Inr ?row"
        using canonical_bytes_eq [OF assms(1), of c'] c'(1) 3(2) by (simp add: chunk_container_def)
      have head3: "bt_changes ops R H root cached previous changes edits tx =
          attempt (bt_store ops tx ?h ?row) (bt_changes ops R H root cached' (Some ?hi) ?rest (edits @ [(path6 ?hi, Some ?h)]))"
        unfolding head using 3 empty bytes by (simp add: chunk_hash_def)
      have "bt_store ops tx ?h ?row = (Inl IndexConflictingContent :: 'io index_error + _) \<or>
          (\<exists>tx'. bt_store ops tx ?h ?row = (Inr tx' :: 'io index_error + _) \<and> tx_ok tx' \<and> grows view tx tx' \<and>
            (\<forall>t. t \<noteq> BITMAP_CONTAINER \<longrightarrow> view tx' t = view tx t) \<and> container_rows view tx' ?h = Some ?row)"
        by (rule bt_store_law [OF less.prems(1)])
      then show ?thesis
      proof (elim disjE exE conjE)
        assume "bt_store ops tx ?h ?row = (Inl IndexConflictingContent :: 'io index_error + _)"
        then show ?thesis
          unfolding head3 by simp
      next
        fix tx1
        assume tx1: "bt_store ops tx ?h ?row = (Inr tx1 :: 'io index_error + _)" "tx_ok tx1" "grows view tx tx1"
          "\<forall>t. t \<noteq> BITMAP_CONTAINER \<longrightarrow> view tx1 t = view tx t" "container_rows view tx1 ?h = Some ?row"
        have "container_rows view tx \<subseteq>\<^sub>m container_rows view tx1"
          using tx1(3) by (simp add: grows_def)
        then have pend1: "pending R H rset (container_rows view tx1) S0 m (edits @ [(path6 ?hi, Some ?h)]) S' (Some ?hi) ?rest"
          by (rule pending_step [OF pend _ assms(2) c'(1,2) S'_def]) (use 3 tx1(5) in simp)
        have "represents (bitmap_trie H) (branch_rows view (bitmap_trie H) tx1) [] root m"
          using less.prems(2) tx1(4) by simp
        from IH [where cached = cached', OF tx1(2) this pend1 cached'] show ?thesis
        proof (elim disjE exE conjE)
          fix edits' tx'
          assume r: "bt_changes ops R H root cached' (Some ?hi) ?rest (edits @ [(path6 ?hi, Some ?h)]) tx1 = Inr (edits', tx')"
            "tx_ok tx'" "grows view tx1 tx'" "\<forall>t. t \<noteq> BITMAP_CONTAINER \<longrightarrow> view tx' t = view tx1 t"
            "bitmap_leaves R H rset (container_rows view tx') (fold id_change ?rest S') (edits_map m edits')"
            "\<forall>e \<in> set edits'. edit_sized (bitmap_trie H) e"
          show ?thesis
            unfolding head3 tx1(1) attempt_simp fold
            by (intro disjI2 exI [of _ edits'] exI [of _ tx'] conjI r grows_trans [OF tx1(3)])
              (use r(4) tx1(4) in simp)
        qed (simp add: head3 tx1(1))
      qed
    qed
  qed
qed

end

end
