(* ===== verification/Index_System.thy ===== *)
theory Index_System
  imports Index_Store_Laws
begin

text \<open>
  The index as a whole: what one batch of postings does to the \<^verbatim>\<open>Index\<close> table, the index trie, the
  bitmap tries and the containers together, and what reading returns. The specification is a
  function from terms to sets of record ids, empty for a term the index does not hold.
\<close>

section \<open>Roots are a function of the set\<close>

lemma leaves_canonical:
  assumes "roaring_ok R rset tset" "bitmap_leaves R H rset C S m" "bitmap_leaves R H rset C' S m'"
  shows "m = m'"
proof -
  have sub: "m' p = Some h" if p: "m p = Some h" and m: "bitmap_leaves R H rset C S m" "bitmap_leaves R H rset C' S m'" for m m' C C' p h
  proof -
    obtain c where c: "chunk_container rset S c" "rset (bc_values c) \<noteq> {}" "p = path6 (bc_path c)" "h = chunk_hash R H c"
      using m(1) p unfolding bitmap_leaves_def by metis
    have valid: "is_valid_path (bc_path c)"
      using c(1) by (simp add: chunk_container_def container_ok_def)
    have "m' p \<noteq> None"
      using leaves_none [OF m(2) valid] c by (auto simp: chunk_container_def)
    then obtain h' where h': "m' (path6 (bc_path c)) = Some h'"
      using c(3) by blast
    obtain d where "chunk_container rset S d" "bc_path d = bc_path c" "h' = chunk_hash R H d"
      using leaves_some [OF m(2) valid h'] by metis
    then have "h' = h"
      using c container_row_eq [OF assms(1), of c d] by (simp add: chunk_hash_def chunk_container_def)
    then show ?thesis
      using h' c(3) by simp
  qed
  show ?thesis
  proof (rule ext)
    fix p
    show "m p = m' p"
      using sub [OF _ assms(2,3), of p] sub [OF _ assms(3,2), of p] by (cases "m p"; cases "m' p") auto
  qed
qed

lemma holds_canonical:
  assumes "roaring_ok R rset tset" "hash_ok H" "bitmap_holds view R H rset tx root S" "bitmap_holds view R H rset tx' root' S"
  shows "root = root'"
  using assms(3,4) leaves_canonical [OF assms(1)] represents_canonical [OF _ _ bitmap_trie_ok [OF assms(2)]]
  unfolding bitmap_holds_def by metis

text \<open>An optional root digest, as the \<^verbatim>\<open>Index\<close> table stores it.\<close>

definition root_digest :: "(bytes \<Rightarrow> hash) \<Rightarrow> root_ref \<Rightarrow> hash option" where
  "root_digest H root = (if root = RootEmpty then None else Some (root_hash H root))"

definition posting_holds ::
  "('tx \<Rightarrow> table \<Rightarrow> rows) \<Rightarrow> ('b, 't, 'io) roaring \<Rightarrow> (bytes \<Rightarrow> hash) \<Rightarrow> ('b \<Rightarrow> u32 set) \<Rightarrow> 'tx \<Rightarrow> hash option \<Rightarrow> u64 set \<Rightarrow> bool" where
  "posting_holds view R H rset tx oh S \<longleftrightarrow> (\<exists>b. bitmap_holds view R H rset tx b S \<and> oh = root_digest H b)"

lemma posting_grows: "posting_holds view R H rset tx oh S \<Longrightarrow> grows view tx tx' \<Longrightarrow> posting_holds view R H rset tx' oh S"
  by (auto simp: posting_holds_def intro: holds_grows)

lemma posting_empty: "posting_holds view R H rset tx None {}"
proof -
  have "bitmap_holds view R H rset tx RootEmpty {}" "None = root_digest H RootEmpty"
    by (rule holds_empty) (simp add: root_digest_def)
  then show ?thesis
    unfolding posting_holds_def by blast
qed

lemma posting_eq_iff:
  assumes "roaring_ok R rset tset" "hash_ok H" "no_clash view H tx" "posting_holds view R H rset tx oh S"
    "posting_holds view R H rset tx oh' S'"
  shows "oh = oh' \<longleftrightarrow> S = S'"
proof -
  obtain b b' where b: "bitmap_holds view R H rset tx b S" "oh = root_digest H b"
      "bitmap_holds view R H rset tx b' S'" "oh' = root_digest H b'"
    using assms(4,5) unfolding posting_holds_def by blast
  show ?thesis
  proof
    assume "S = S'"
    then show "oh = oh'"
      using holds_canonical [OF assms(1,2) b(1)] b by metis
  next
    assume "oh = oh'"
    then show "S = S'"
      using b holds_hash_inject [OF assms(1-3) b(1,3)] holds_empty_iff [OF b(1)] holds_empty_iff [OF b(3)]
      by (auto simp: root_digest_def split: if_splits)
  qed
qed

lemma posting_none_iff: "posting_holds view R H rset tx oh S \<Longrightarrow> oh = None \<longleftrightarrow> S = {}"
proof -
  assume "posting_holds view R H rset tx oh S"
  then obtain b where b: "bitmap_holds view R H rset tx b S" "oh = root_digest H b"
    unfolding posting_holds_def by blast
  show ?thesis
    using holds_empty_iff [OF b(1)] b(2) by (simp add: root_digest_def)
qed

lemma posting_decode:
  assumes "hash_ok H" "no_clash view H tx" "posting_holds view R H rset tx (Some h) S"
  shows "decode_root H h = Inr h"
proof -
  obtain b where b: "bitmap_holds view R H rset tx b S" "b \<noteq> RootEmpty" "h = root_hash H b"
    using assms(3) by (auto simp: posting_holds_def root_digest_def split: if_splits)
  obtain m where "represents (bitmap_trie H) (branch_rows view (bitmap_trie H) tx) [] b m"
    using b(1) unfolding bitmap_holds_def by blast
  then have "ref_sized 6 b"
    using represents_sized [OF _ bitmap_trie_ok [OF assms(1)]] by fastforce
  then have len: "length h = 32"
    using b(2,3) by (cases b) (auto simp: ref_sized_def root_hash_def)
  have "h \<in> dom (container_rows view tx) \<union> dom (om_get (view tx BITMAP_TRIE))"
  proof (cases b)
    case (RootLeaf l)
    obtain c where "container_rows view tx (leaf_hash l) = Some (container_row R c)"
      using b(1) unfolding RootLeaf by (rule holds_leaf)
    then show ?thesis
      using RootLeaf b(3) by (auto simp: root_hash_def)
  next
    case (RootBranch k)
    then show ?thesis
      using holds_branch_key [OF b(1) [unfolded RootBranch]] b(3) by (simp add: root_hash_def)
  qed (use b(2) in simp)
  then have "h \<noteq> H []"
    using assms(2) by (auto simp: no_clash_def)
  then show ?thesis
    using len by (simp add: decode_root_def)
qed

section \<open>One term\<close>

lemma no_clash_grows: "grows view tx tx' \<Longrightarrow> no_clash view H tx' \<Longrightarrow> no_clash view H tx"
proof -
  assume g: "grows view tx tx'" and c: "no_clash view H tx'"
  have "dom (container_rows view tx) \<subseteq> dom (container_rows view tx')"
    "dom (om_get (view tx BITMAP_TRIE)) \<subseteq> dom (om_get (view tx' BITMAP_TRIE))"
    using g map_le_implies_dom_le unfolding grows_def by fast+
  then show ?thesis
    using c unfolding no_clash_def by blast
qed

context read_tx
begin

lemma bitmap_root_law:
  assumes "hash_ok H" "tx_ok tx" "no_clash view H tx" "posting_holds view R H rset tx (om_get (view tx INDEX) t) S"
  shows "bitmap_root ops H tx t = Inr (om_get (view tx INDEX) t)"
proof (cases "om_get (view tx INDEX) t")
  case (Some h)
  then show ?thesis
    using get_law [OF assms(2) index_tables(1)]
    by (simp add: bitmap_root_def posting_decode [OF assms(1,3) assms(4) [unfolded Some]] Some)
qed (use get_law [OF assms(2) index_tables(1)] in \<open>simp add: bitmap_root_def\<close>)

end

definition index_conflict :: "'io index_error \<Rightarrow> bool" where
  "index_conflict e \<longleftrightarrow> e = IndexConflictingContent \<or> e = IndexMerkle ConflictingBranch"

context write_tx
begin

lemma bt_apply_law:
  fixes R :: "('b, 't, 'io) roaring"
  assumes "roaring_ok R rset tset" "hash_ok H" "tx_ok tx" "no_clash view H tx" "posting_holds view R H rset tx before S"
    "sorted (map fst changes)" "\<forall>ch \<in> set changes. is_valid_path (fst ch)"
  shows "(\<exists>e. bt_apply ops R H tx before changes = Inl e \<and> index_conflict e) \<or>
    (\<exists>after tx'. bt_apply ops R H tx before changes = Inr (after, tx') \<and> tx_ok tx' \<and> grows view tx tx' \<and>
      posting_holds view R H rset tx' after (fold id_change changes S))"
proof -
  obtain root where root: "bitmap_holds view R H rset tx root S" "before = root_digest H root"
    using assms(5) unfolding posting_holds_def by blast
  obtain m where m: "bitmap_leaves R H rset (container_rows view tx) S m"
      "represents (bitmap_trie H) (branch_rows view (bitmap_trie H) tx) [] root m"
    using root(1) unfolding bitmap_holds_def by blast
  obtain cached where re: "(case before of Some h \<Rightarrow> bt_reopen ops R H tx h | None \<Rightarrow> Inr (RootEmpty, None)) = Inr (root, cached)"
      "\<forall>c. cached = Some c \<longrightarrow> chunk_container rset S c \<and> dom m = {path6 (bc_path c)}"
  proof (cases "root = RootEmpty")
    case True
    then show thesis
      using that [of None] root(2) by (simp add: root_digest_def)
  next
    case False
    obtain cached where "bt_reopen ops R H tx (root_hash H root) = Inr (root, cached)"
        "\<forall>c. cached = Some c \<longrightarrow> chunk_container rset S c \<and> (\<exists>l. root = RootLeaf l \<and> leaf_path l = path6 (bc_path c))"
      using bt_reopen_law [OF assms(1-4) root(1) False] by blast
    moreover have "dom m = {leaf_path l}" if "root = RootLeaf l" for l
      using m(2) unfolding that by (auto elim: represents_LeafE split: if_splits)
    ultimately have "\<forall>c. cached = Some c \<longrightarrow> chunk_container rset S c \<and> dom m = {path6 (bc_path c)}"
      by metis
    with \<open>bt_reopen ops R H tx (root_hash H root) = Inr (root, cached)\<close> show thesis
      using that [of cached] root(2) False by (simp add: root_digest_def)
  qed
  have "edits_map m [] = m"
    by (simp add: edits_map_def)
  then have pend: "pending R H rset (container_rows view tx) S m [] S None changes"
    using m(1) assms(6,7) by (simp add: pending_def)
  note split = bt_apply_def [of ops R H tx before changes, unfolded re(1) attempt_simp case_prod_conv]
  from bt_changes_law [OF assms(1,2,3) m(2) pend re(2)] show ?thesis
  proof (elim disjE exE conjE)
    assume "bt_changes ops R H root cached None changes [] tx = Inl IndexConflictingContent"
    then show ?thesis
      unfolding split by (simp add: index_conflict_def)
  next
    fix edits tx1
    assume tx1: "bt_changes ops R H root cached None changes [] tx = Inr (edits, tx1)" "tx_ok tx1" "grows view tx tx1"
      "\<forall>t. t \<noteq> BITMAP_CONTAINER \<longrightarrow> view tx1 t = view tx t"
      "bitmap_leaves R H rset (container_rows view tx1) (fold id_change changes S) (edits_map m edits)"
      "\<forall>e \<in> set edits. edit_sized (bitmap_trie H) e"
    have "represents (bitmap_trie H) (branch_rows view (bitmap_trie H) tx1) [] root m"
      using m(2) tx1(4) by simp
    from apply_outcome [OF bitmap_trie_ok [OF assms(2)] tx1(2) this tx1(6)]
    show ?thesis
      unfolding write_outcome_def
    proof (elim disjE exE conjE)
      assume "trie_apply ops (bitmap_trie H) tx1 root edits = Inl ConflictingBranch"
      then show ?thesis
        unfolding split tx1(1) by (simp add: index_conflict_def)
    next
      fix root' tx2
      assume r: "trie_apply ops (bitmap_trie H) tx1 root edits = Inr (root', tx2)" "tx_ok tx2"
        "extends view (bitmap_trie H) tx1 tx2"
        "represents (bitmap_trie H) (branch_rows view (bitmap_trie H) tx2) [] root' (edits_map m edits)"
      have "grows view tx1 tx2"
        using r(3) by (simp add: extends_def grows_def)
      moreover have "bitmap_holds view R H rset tx2 root' (fold id_change changes S)"
        using tx1(5) r(3,4) unfolding bitmap_holds_def extends_def by auto
      moreover have "bt_apply ops R H tx before changes = Inr (root_digest H root', tx2)"
        unfolding split tx1(1) by (simp add: r(1) root_digest_def)
      ultimately show ?thesis
        using r(2) grows_trans [OF tx1(3)] unfolding posting_holds_def by blast
    qed
  qed
qed

end

section \<open>What a batch of postings means\<close>

definition apply_posting :: "posting_change \<Rightarrow> (index_term \<Rightarrow> u64 set) \<Rightarrow> index_term \<Rightarrow> u64 set" where
  "apply_posting ch idx = (case ch of
     PostingAdd t rid \<Rightarrow> idx(t := insert rid (idx t))
   | PostingRemove t rid \<Rightarrow> idx(t := idx t - {rid}))"

definition apply_postings :: "posting_change list \<Rightarrow> (index_term \<Rightarrow> u64 set) \<Rightarrow> index_term \<Rightarrow> u64 set" where
  "apply_postings changes idx = fold apply_posting changes idx"

definition posting_term :: "posting_change \<Rightarrow> index_term" where
  "posting_term ch = (case ch of PostingAdd t _ \<Rightarrow> t | PostingRemove t _ \<Rightarrow> t)"

definition entry_offset :: "posting_entry \<Rightarrow> offset_change" where
  "entry_offset e = (case e of ((_, hi, lo), present) \<Rightarrow> (hi, lo, present))"

definition apply_entry :: "posting_entry \<Rightarrow> (index_term \<Rightarrow> u64 set) \<Rightarrow> index_term \<Rightarrow> u64 set" where
  "apply_entry e idx = idx(fst (fst e) := id_change (entry_offset e) (idx (fst (fst e))))"

lemma id_change_split: "id_change (fst (id_split v), snd (id_split v), b) S = (if b then insert v S else S - {v})"
  by (simp add: id_change_def id_at_split)

lemma apply_posting_entry: "apply_posting ch = apply_entry (posting_entry ch)"
  using id_change_split
  by (auto simp: fun_eq_iff apply_posting_def apply_entry_def posting_entry_def entry_offset_def case_prod_unfold Let_def
      split: posting_change.split)

lemma apply_postings_entries: "apply_postings changes idx = fold apply_entry (map posting_entry changes) idx"
proof -
  have "apply_posting = (\<lambda>ch. apply_entry (posting_entry ch))"
    by (rule ext) (rule apply_posting_entry)
  then show ?thesis
    unfolding apply_postings_def by (simp add: fold_map comp_def)
qed

lemma fold_entries: "fold apply_entry es idx t = fold id_change (map entry_offset (filter (\<lambda>e. fst (fst e) = t) es)) (idx t)"
  by (induction es arbitrary: idx) (simp_all add: apply_entry_def)

definition last_entry :: "('k \<times> 'v) list \<Rightarrow> 'k \<Rightarrow> 'v option" where
  "last_entry es k = (case rev (filter (\<lambda>e. fst e = k) es) of [] \<Rightarrow> None | e # _ \<Rightarrow> Some (snd e))"

lemma last_entry_snoc: "last_entry (es @ [e]) k = (if fst e = k then Some (snd e) else last_entry es k)"
  by (simp add: last_entry_def)

lemma last_entry_distinct: "distinct (map fst es) \<Longrightarrow> last_entry es k = map_of es k"
proof (induction es rule: rev_induct)
  case (snoc e es)
  then show ?case
    by (auto simp: last_entry_snoc map_add_def map_of_eq_None_iff split: option.split) (metis fst_conv image_eqI)
qed (simp add: last_entry_def)

definition entry_valid :: "posting_entry \<Rightarrow> bool" where
  "entry_valid e \<longleftrightarrow> is_valid_path (fst (snd (fst e)))"

lemma entries_last:
  "\<forall>e \<in> set es. entry_valid e \<Longrightarrow>
    v \<in> fold apply_entry es idx t \<longleftrightarrow> (case last_entry es (t, id_split v) of None \<Rightarrow> v \<in> idx t | Some b \<Rightarrow> b)"
proof (induction es rule: rev_induct)
  case (snoc e es)
  obtain t' hi lo b where e: "e = ((t', hi, lo), b)"
    by (metis prod.collapse)
  have hi: "is_valid_path hi"
    using snoc.prems by (simp add: e entry_valid_def)
  have here: "id_at hi (ucast lo) = v \<longleftrightarrow> (hi, lo) = id_split v"
  proof
    assume "id_at hi (ucast lo) = v"
    then have "id_split v = (hi, ucast (ucast lo :: u32))"
      using split_id_at [OF hi low_offset] by blast
    moreover have "ucast (ucast lo :: u32) = lo"
      by (rule bit_eqI) (auto simp: bit_simps)
    ultimately show "(hi, lo) = id_split v"
      by simp
  next
    assume "(hi, lo) = id_split v"
    then show "id_at hi (ucast lo) = v"
      using id_at_split [of v] by (metis fst_conv snd_conv)
  qed
  have step: "fold apply_entry (es @ [e]) idx t =
      (if t = t' then id_change (hi, lo, b) (fold apply_entry es idx t') else fold apply_entry es idx t)"
    by (simp add: e apply_entry_def [of "((t', hi, lo), b)"] entry_offset_def)
  have "v \<in> id_change (hi, lo, b) S \<longleftrightarrow> (if (hi, lo) = id_split v then b else v \<in> S)" for S
    using here by (auto simp: id_change_def)
  then show ?case
    unfolding step last_entry_snoc using snoc.IH snoc.prems by (auto simp: e)
qed (simp add: last_entry_def)

lemma normalize_valid: "e \<in> set (normalize_postings changes) \<Longrightarrow> entry_valid e"
proof -
  assume "e \<in> set (normalize_postings changes)"
  then have "fst e \<in> fst ` set (map posting_entry changes)"
    unfolding normalize_postings_def using dedup_sort_keys [of "map posting_entry changes"] by blast
  then obtain ch where "fst e = fst (posting_entry ch)"
    by auto
  then show ?thesis
    using split_valid by (cases ch) (auto simp: entry_valid_def posting_entry_def case_prod_unfold Let_def)
qed

lemma normalize_postings_net: "fold apply_entry (normalize_postings changes) idx = apply_postings changes idx"
proof (intro ext set_eqI)
  fix t v
  have "\<forall>e \<in> set (map posting_entry changes). entry_valid e"
    using split_valid by (auto simp: entry_valid_def posting_entry_def case_prod_unfold Let_def split: posting_change.splits)
  moreover have "last_entry (normalize_postings changes) k = last_entry (map posting_entry changes) k" for k
    unfolding normalize_postings_def last_entry_distinct [OF dedup_sort_distinct] dedup_sort_last
    by (simp add: last_entry_def)
  ultimately show "v \<in> fold apply_entry (normalize_postings changes) idx t \<longleftrightarrow> v \<in> apply_postings changes idx t"
    using normalize_valid unfolding apply_postings_entries by (simp add: entries_last)
qed

text \<open>The groups of one term.\<close>

definition entry_groups :: "posting_change list \<Rightarrow> posting_entry list list" where
  "entry_groups changes = chunk_by (\<lambda>a b. fst (fst a) = fst (fst b)) (normalize_postings changes)"

definition group_term :: "posting_entry list \<Rightarrow> index_term" where
  "group_term g = fst (fst (hd g))"

lemma normalize_postings_sorted: "sorted (map (\<lambda>e. fst (fst e)) (normalize_postings changes))"
proof -
  have "sorted_wrt (<) (map fst (normalize_postings changes))"
    unfolding normalize_postings_def by (rule dedup_sort_sorted)
  then show ?thesis
    unfolding sorted_map sorted_wrt_map by (rule sorted_wrt_mono_rel [rotated]) (auto simp: less_prod_def)
qed

lemma group_terms_sorted: "sorted_wrt (<) (map group_term (entry_groups changes))"
  unfolding entry_groups_def group_term_def by (rule groups_sorted [OF normalize_postings_sorted])

lemma group_effect:
  assumes "g \<in> set (entry_groups changes)"
  shows "fold id_change (map entry_offset g) (idx (group_term g)) = apply_postings changes idx (group_term g)"
proof -
  have "filter (\<lambda>e. fst (fst e) = group_term g) (normalize_postings changes) = g"
    using groups_filter [OF normalize_postings_sorted] assms unfolding entry_groups_def group_term_def by blast
  then show ?thesis
    unfolding normalize_postings_net [symmetric] fold_entries by simp
qed

lemma group_none:
  assumes "t \<notin> group_term ` set (entry_groups changes)"
  shows "apply_postings changes idx t = idx t"
proof -
  have "fst (fst e) \<noteq> t" if "e \<in> set (normalize_postings changes)" for e
  proof -
    have "e \<in> set (concat (entry_groups changes))"
      using that unfolding entry_groups_def by simp
    then obtain g where g: "g \<in> set (entry_groups changes)" "e \<in> set g"
      by auto
    then have "fst (fst e) = group_term g"
      using groups_same [of g "\<lambda>e. fst (fst e)"] unfolding entry_groups_def group_term_def by blast
    then show ?thesis
      using assms g(1) by auto
  qed
  then have "filter (\<lambda>e. fst (fst e) = t) (normalize_postings changes) = []"
    by (simp add: filter_empty_conv)
  then show ?thesis
    unfolding normalize_postings_net [symmetric] fold_entries by simp
qed

lemma group_sorted:
  assumes "g \<in> set (entry_groups changes)"
  shows "sorted (map fst (map entry_offset g))" "\<forall>ch \<in> set (map entry_offset g). is_valid_path (fst ch)"
proof -
  obtain us vs where n: "normalize_postings changes = us @ g @ vs"
    using chunk_by_sublist assms unfolding entry_groups_def by blast
  have "sorted_wrt (<) (map fst (normalize_postings changes))"
    unfolding normalize_postings_def by (rule dedup_sort_sorted)
  then have "sorted_wrt (\<lambda>a b. fst a < fst b) g"
    unfolding n by (simp add: sorted_wrt_append sorted_wrt_map)
  moreover have same: "fst (fst e) = group_term g" if "e \<in> set g" for e
    using groups_same [of g "\<lambda>e. fst (fst e)"] assms that unfolding entry_groups_def group_term_def by blast
  have "fst (entry_offset a) \<le> fst (entry_offset b)" if "a \<in> set g" "b \<in> set g" "fst a < fst b" for a b
    using that same [OF that(1)] same [OF that(2)] by (auto simp: entry_offset_def less_prod_def split: prod.splits)
  ultimately show "sorted (map fst (map entry_offset g))"
    unfolding sorted_map sorted_wrt_map map_map comp_def by (rule sorted_wrt_mono_rel [rotated])
  have "entry_valid e" if "e \<in> set g" for e
    using normalize_valid [of e changes] that by (simp add: n)
  then show "\<forall>ch \<in> set (map entry_offset g). is_valid_path (fst ch)"
    by (auto simp: entry_valid_def entry_offset_def split: prod.splits)
qed

lemma group_terms: "group_term ` set (entry_groups changes) \<subseteq> posting_term ` set changes"
proof
  fix t assume "t \<in> group_term ` set (entry_groups changes)"
  then obtain g where g: "g \<in> set (entry_groups changes)" "t = group_term g"
    by blast
  have "g \<noteq> []"
    using chunk_by_nonempty g(1) unfolding entry_groups_def by blast
  then have "hd g \<in> set (normalize_postings changes)"
    using chunk_by_sublist g(1) unfolding entry_groups_def by fastforce
  then have "fst (hd g) \<in> fst ` set (map posting_entry changes)"
    unfolding normalize_postings_def using dedup_sort_keys [of "map posting_entry changes"] by blast
  then obtain ch where "ch \<in> set changes" "fst (hd g) = fst (posting_entry ch)"
    by auto
  then show "t \<in> posting_term ` set changes"
    unfolding g(2) by (intro image_eqI [of _ _ ch])
      (auto simp: group_term_def posting_entry_def posting_term_def case_prod_unfold Let_def split: posting_change.splits)
qed

section \<open>The index\<close>

lemma index_trie_ok: "hash_ok H \<Longrightarrow> trie_ok (index_trie H)"
  by (simp add: trie_ok_def index_trie_def hash_ok_def INDEX_TRIE_PATH_BYTES_def)

lemma index_trie_parts [simp]:
  "tr_table (index_trie H) = INDEX_TRIE" "tr_width (index_trie H) = 32" "tr_hasher (index_trie H) = H"
  by (simp_all add: index_trie_def INDEX_TRIE_PATH_BYTES_def)

abbreviation term_roots :: "('tx \<Rightarrow> table \<Rightarrow> rows) \<Rightarrow> 'tx \<Rightarrow> index_term \<rightharpoonup> hash" where
  "term_roots view tx \<equiv> om_get (view tx INDEX)"

definition index_commits :: "('tx \<Rightarrow> table \<Rightarrow> rows) \<Rightarrow> (bytes \<Rightarrow> hash) \<Rightarrow> 'tx \<Rightarrow> root_ref \<Rightarrow> bool" where
  "index_commits view H tx root \<longleftrightarrow> (\<exists>m. committed (routing_path H) (term_leaf_hash H) (term_roots view tx) m \<and>
    represents (index_trie H) (branch_rows view (index_trie H) tx) [] root m)"

definition index_at ::
  "('tx \<Rightarrow> table \<Rightarrow> rows) \<Rightarrow> ('b, 't, 'io) roaring \<Rightarrow> (bytes \<Rightarrow> hash) \<Rightarrow> ('b \<Rightarrow> u32 set) \<Rightarrow> 'tx \<Rightarrow> root_ref \<Rightarrow>
    (index_term \<Rightarrow> u64 set) \<Rightarrow> bool" where
  "index_at view R H rset tx root idx \<longleftrightarrow> no_clash view H tx \<and> index_commits view H tx root \<and>
    (\<forall>t. posting_holds view R H rset tx (term_roots view tx t) (idx t)) \<and> (\<forall>t. idx t \<noteq> {} \<longrightarrow> term_decode t = Inr t)"

lemma index_at_dom: "index_at view R H rset tx root idx \<Longrightarrow> t \<in> dom (term_roots view tx) \<longleftrightarrow> idx t \<noteq> {}"
  using posting_none_iff [of view R H rset tx "term_roots view tx t" "idx t"] by (auto simp: index_at_def)

context read_tx
begin

lemma index_check_law:
  assumes "hash_ok H" "tx_ok tx" "index_commits view H tx root" "inj_on (routing_path H) (insert t (dom (term_roots view tx)))"
  shows "index_check ops H tx root t (term_roots view tx t) = Inr ()"
proof -
  obtain m where m: "committed (routing_path H) (term_leaf_hash H) (term_roots view tx) m"
      "represents (index_trie H) (branch_rows view (index_trie H) tx) [] root m"
    using assms(3) unfolding index_commits_def by blast
  have "trie_get ops (index_trie H) tx root (routing_path H t) =
      Inr (map_option (\<lambda>h. \<lparr>leaf_path = routing_path H t, leaf_hash = h\<rparr>) (m (routing_path H t)))"
    by (rule get_represented [OF index_trie_ok [OF assms(1)] assms(2) m(2)])
      (use assms(1) in \<open>simp add: routing_path_def hash_ok_def\<close>)
  moreover have "map_option (\<lambda>h. \<lparr>leaf_path = routing_path H t, leaf_hash = h\<rparr>) (m (routing_path H t)) =
      map_option (index_leaf H t) (term_roots view tx t)"
    unfolding committed_get [OF m(1) assms(4)] by (cases "term_roots view tx t") (simp_all add: index_leaf_def)
  ultimately show ?thesis
    by (simp add: index_check_def)
qed

end

text \<open>The table and the trie of the index are not touched while the bitmaps are updated.\<close>

lemma grows_index:
  assumes "grows view tx tx'"
  shows "term_roots view tx' = term_roots view tx" "index_commits view H tx' root \<longleftrightarrow> index_commits view H tx root"
  using assms by (simp_all add: grows_def index_commits_def)

definition change_of :: "(index_term \<rightharpoonup> hash) \<Rightarrow> (index_term \<rightharpoonup> hash) \<Rightarrow> index_term \<Rightarrow> term_root_change" where
  "change_of before after t = \<lparr>trc_term = t, trc_before = before t, trc_after = after t\<rparr>"

context write_tx
begin

lemma apply_group_law:
  fixes R :: "('b, 't, 'io) roaring"
  assumes "roaring_ok R rset tset" "hash_ok H" "tx_ok tx" "no_clash view H tx" "index_commits view H tx root"
    "inj_on (routing_path H) (insert t (dom (term_roots view tx)))" "group_term g = t"
    "posting_holds view R H rset tx (term_roots view tx t) S"
    "sorted (map fst (map entry_offset g))" "\<forall>ch \<in> set (map entry_offset g). is_valid_path (fst ch)"
  shows "(\<exists>e. apply_group ops R H root g (changed, tx) = Inl e \<and> index_conflict e) \<or>
    (\<exists>after tx'. apply_group ops R H root g (changed, tx) =
        Inr (if term_roots view tx t = after then changed
          else changed @ [\<lparr>trc_term = t, trc_before = term_roots view tx t, trc_after = after\<rparr>], tx') \<and>
      tx_ok tx' \<and> grows view tx tx' \<and> posting_holds view R H rset tx' after (fold id_change (map entry_offset g) S))"
proof -
  have offs: "map (\<lambda>((_, hi, lo), present). (hi, lo, present)) g = map entry_offset g"
    by (auto simp: entry_offset_def)
  have whole: "apply_group ops R H root g (changed, tx) =
      attempt (bt_apply ops R H tx (term_roots view tx t) (map entry_offset g)) (\<lambda>(after, tx').
        Inr (if term_roots view tx t = after then (changed, tx')
          else (changed @ [\<lparr>trc_term = t, trc_before = term_roots view tx t, trc_after = after\<rparr>], tx')))"
    using assms(7) by (simp add: apply_group_def Let_def offs group_term_def bitmap_root_law [OF assms(2-4,8)]
        index_check_law [OF assms(2,3,5,6)])
  from bt_apply_law [OF assms(1-4,8-10)] show ?thesis
    unfolding whole by (elim disjE exE conjE) auto
qed

lemma apply_groups_law:
  fixes R :: "('b, 't, 'io) roaring"
  assumes "roaring_ok R rset tset" "hash_ok H"
  shows "tx_ok tx \<Longrightarrow> index_commits view H tx root \<Longrightarrow>
    inj_on (routing_path H) (dom (term_roots view tx) \<union> group_term ` set gs) \<Longrightarrow> distinct (map group_term gs) \<Longrightarrow>
    (\<forall>g \<in> set gs. posting_holds view R H rset tx (term_roots view tx (group_term g)) (idx (group_term g)) \<and>
      sorted (map fst (map entry_offset g)) \<and> (\<forall>ch \<in> set (map entry_offset g). is_valid_path (fst ch))) \<Longrightarrow>
    (\<forall>n st. try_fold (apply_group ops R H root) (take n gs) (changed, tx) = Inr st \<longrightarrow> no_clash view H (snd st)) \<Longrightarrow>
    (\<exists>e. try_fold (apply_group ops R H root) gs (changed, tx) = Inl e \<and> index_conflict e) \<or>
    (\<exists>after tx'. try_fold (apply_group ops R H root) gs (changed, tx) =
        Inr (changed @ map (change_of (term_roots view tx) after)
          (filter (\<lambda>t. term_roots view tx t \<noteq> after t) (map group_term gs)), tx') \<and>
      tx_ok tx' \<and> grows view tx tx' \<and> no_clash view H tx' \<and>
      (\<forall>g \<in> set gs. posting_holds view R H rset tx' (after (group_term g)) (fold id_change (map entry_offset g) (idx (group_term g)))))"
proof (induction gs arbitrary: changed tx)
  case Nil
  have "no_clash view H tx"
    using Nil.prems(6) [rule_format, of 0 "(changed, tx)"] by simp
  then show ?case
    using Nil.prems(1) by (intro disjI2 exI [of _ Map.empty] exI [of _ tx]) simp
next
  case (Cons g gs)
  let ?t = "group_term g" and ?roots = "term_roots view tx" and ?f = "apply_group ops R H root"
  have clash: "no_clash view H tx"
    using Cons.prems(6) [rule_format, of 0 "(changed, tx)"] by simp
  have inj: "inj_on (routing_path H) (insert ?t (dom ?roots))"
    using Cons.prems(3) by (rule inj_on_subset) auto
  have g: "posting_holds view R H rset tx (?roots ?t) (idx ?t)" "sorted (map fst (map entry_offset g))"
      "\<forall>ch \<in> set (map entry_offset g). is_valid_path (fst ch)"
    using Cons.prems(5) by simp_all
  from apply_group_law [OF assms Cons.prems(1) clash Cons.prems(2) inj refl g, of changed] show ?case
  proof (elim disjE exE conjE)
    fix e assume "?f g (changed, tx) = Inl e" "index_conflict e"
    then show ?thesis
      by simp
  next
    fix after1 tx1
    let ?new = "if ?roots ?t = after1 then changed else changed @ [\<lparr>trc_term = ?t, trc_before = ?roots ?t, trc_after = after1\<rparr>]"
    assume step: "?f g (changed, tx) = Inr (?new, tx1)" "tx_ok tx1" "grows view tx tx1"
      "posting_holds view R H rset tx1 after1 (fold id_change (map entry_offset g) (idx ?t))"
    note same = grows_index [OF step(3)]
    have later: "\<forall>h \<in> set gs. posting_holds view R H rset tx1 (term_roots view tx1 (group_term h)) (idx (group_term h)) \<and>
        sorted (map fst (map entry_offset h)) \<and> (\<forall>ch \<in> set (map entry_offset h). is_valid_path (fst ch))"
      using Cons.prems(5) posting_grows [OF _ step(3), of R H rset] unfolding same(1) by auto
    have "\<forall>n st. try_fold ?f (take n gs) (?new, tx1) = Inr st \<longrightarrow> no_clash view H (snd st)"
    proof (intro allI impI)
      fix n st assume "try_fold ?f (take n gs) (?new, tx1) = Inr st"
      then have "try_fold ?f (take (Suc n) (g # gs)) (changed, tx) = Inr st"
        by (simp add: step(1))
      then show "no_clash view H (snd st)"
        using Cons.prems(6) by blast
    qed
    moreover have "inj_on (routing_path H) (dom (term_roots view tx1) \<union> group_term ` set gs)"
      using Cons.prems(3) unfolding same(1) by (rule inj_on_subset) auto
    moreover have "distinct (map group_term gs)" "?t \<notin> group_term ` set gs"
      using Cons.prems(4) by auto
    ultimately consider
      e where "try_fold ?f gs (?new, tx1) = Inl e" "index_conflict e"
    | after tx' where "try_fold ?f gs (?new, tx1) = Inr (?new @ map (change_of (term_roots view tx1) after)
          (filter (\<lambda>t. term_roots view tx1 t \<noteq> after t) (map group_term gs)), tx')" "tx_ok tx'" "grows view tx1 tx'" "no_clash view H tx'"
        "\<forall>g \<in> set gs. posting_holds view R H rset tx' (after (group_term g)) (fold id_change (map entry_offset g) (idx (group_term g)))"
      using Cons.IH [OF step(2), of ?new] Cons.prems(2) same(2) later by blast
    then show ?thesis
    proof cases
      case (1 e)
      then show ?thesis
        by (simp add: step(1))
    next
      case (2 after tx')
      let ?after = "after(?t := after1)"
      have keep: "?after t = after t" if "t \<in> group_term ` set gs" for t
        using \<open>?t \<notin> group_term ` set gs\<close> that by (intro fun_upd_other) blast
      have "map (change_of ?roots after) (filter (\<lambda>t. ?roots t \<noteq> after t) (map group_term gs)) =
          map (change_of ?roots ?after) (filter (\<lambda>t. ?roots t \<noteq> ?after t) (map group_term gs))"
      proof (intro map_cong filter_cong refl)
        fix t assume "t \<in> set (map group_term gs)"
        then have "?after t = after t"
          by (intro keep) auto
        then show "(?roots t \<noteq> after t) = (?roots t \<noteq> ?after t)"
          by (simp only:)
      next
        fix t assume "t \<in> set (filter (\<lambda>t. ?roots t \<noteq> ?after t) (map group_term gs))"
        then have "?after t = after t"
          by (intro keep) auto
        then show "change_of ?roots after t = change_of ?roots ?after t"
          by (simp only: change_of_def)
      qed
      then have "try_fold ?f (g # gs) (changed, tx) = Inr (changed @ map (change_of ?roots ?after)
          (filter (\<lambda>t. ?roots t \<noteq> ?after t) (map group_term (g # gs))), tx')"
        using 2(1) step(1) unfolding same(1) by (simp add: change_of_def)
      moreover have "\<forall>h \<in> set (g # gs). posting_holds view R H rset tx' (?after (group_term h))
          (fold id_change (map entry_offset h) (idx (group_term h)))"
        using 2(5) keep [OF imageI] posting_grows [OF step(4) 2(3)] by (simp del: fun_upd_apply) simp
      ultimately show ?thesis
        using 2(2,4) grows_trans [OF step(3) 2(3)] by blast
    qed
  qed
qed

lemma write_roots_law:
  assumes "tx_ok tx"
  shows "\<exists>tx'. write_roots ops tx changes = (Inr tx' :: 'io index_error + _) \<and> tx_ok tx' \<and> (\<forall>t. t \<noteq> INDEX \<longrightarrow> view tx' t = view tx t) \<and>
    term_roots view tx' = put_all (map (\<lambda>c. (trc_term c, trc_after c)) changes) (term_roots view tx)"
  using assms
proof (induction changes arbitrary: tx)
  case Nil
  then show ?case
    by (simp add: write_roots_def put_all_def)
next
  case (Cons c changes)
  obtain tx1 where tx1: "(case trc_after c of Some h \<Rightarrow> tx_put ops tx INDEX (trc_term c) h
      | None \<Rightarrow> attempt (tx_delete ops tx INDEX (trc_term c)) (\<lambda>(_, tx'). Inr tx')) = Inr tx1" "tx_ok tx1"
      "\<forall>t. t \<noteq> INDEX \<longrightarrow> view tx1 t = view tx t" "term_roots view tx1 = (term_roots view tx)(trc_term c := trc_after c)"
    by (rule write_row [OF Cons.prems index_tables(1)])
  obtain tx2 where "write_roots ops tx1 changes = (Inr tx2 :: 'io index_error + _)" "tx_ok tx2" "\<forall>t. t \<noteq> INDEX \<longrightarrow> view tx2 t = view tx1 t"
      "term_roots view tx2 = put_all (map (\<lambda>c. (trc_term c, trc_after c)) changes) (term_roots view tx1)"
    using Cons.IH [OF tx1(2)] by blast
  then show ?case
    using tx1 by (simp add: write_roots_def put_all_def)
qed

end

lemma posting_cong:
  assumes "view tx' BITMAP_CONTAINER = view tx BITMAP_CONTAINER" "view tx' BITMAP_TRIE = view tx BITMAP_TRIE"
  shows "posting_holds view R H rset tx' oh S \<longleftrightarrow> posting_holds view R H rset tx oh S"
    "no_clash view H tx' \<longleftrightarrow> no_clash view H tx"
  using assms by (simp_all add: posting_holds_def bitmap_holds_def no_clash_def)

definition unclashed ::
  "('tx, 'cur, 'z) write_ops_scheme \<Rightarrow> ('tx \<Rightarrow> table \<Rightarrow> rows) \<Rightarrow> ('b, 't, 'io) roaring \<Rightarrow> (bytes \<Rightarrow> hash) \<Rightarrow> 'tx \<Rightarrow> root_ref \<Rightarrow>
    posting_change list \<Rightarrow> bool" where
  "unclashed ops view R H tx root changes \<longleftrightarrow>
    (\<forall>n st. try_fold (apply_group ops R H root) (take n (entry_groups changes)) ([], tx) = Inr st \<longrightarrow> no_clash view H (snd st))"

text \<open>The roots after the batch.\<close>

lemma changed_roots:
  assumes "distinct ts"
  shows "put_all (map (\<lambda>c. (trc_term c, trc_after c)) (map (change_of roots after) (filter (\<lambda>t. roots t \<noteq> after t) ts))) roots =
    (\<lambda>t. if t \<in> set ts then after t else roots t)"
proof -
  let ?es = "map (\<lambda>t. (t, after t)) ts"
  have "map (\<lambda>c. (trc_term c, trc_after c)) (map (change_of roots after) (filter (\<lambda>t. roots t \<noteq> after t) ts)) =
      filter (\<lambda>(k, x). roots k \<noteq> x) ?es"
    by (simp add: filter_map comp_def change_of_def)
  moreover have d: "distinct (map fst ?es)"
    using assms by (simp add: comp_def)
  moreover have "put_all ?es roots t = (if t \<in> set ts then after t else roots t)" for t
    unfolding put_all_distinct [OF d] using map_of_map_restrict [of after ts] by (simp add: restrict_map_def)
  ultimately show ?thesis
    using put_all_skip [OF d, of roots] by (auto simp: fun_eq_iff)
qed

context write_tx
begin

lemma index_apply_law:
  fixes R :: "('b, 't, 'io) roaring"
  assumes "roaring_ok R rset tset" "hash_ok H" "tx_ok tx" "index_at view R H rset tx root idx"
    "inj_on (routing_path H) ({t. idx t \<noteq> {}} \<union> posting_term ` set changes)"
    "\<forall>ch \<in> set changes. term_decode (posting_term ch) = Inr (posting_term ch)"
    "unclashed ops view R H tx root changes"
  shows "(\<exists>e. index_apply ops R H tx root changes = Inl e \<and> index_conflict e) \<or>
    (\<exists>after root' tx'. index_apply ops R H tx root changes = Inr (\<lparr>iu_root = root', changed_terms =
        map (change_of (term_roots view tx) after) (filter (\<lambda>t. idx t \<noteq> apply_postings changes idx t) (map group_term (entry_groups changes)))\<rparr>, tx') \<and>
      tx_ok tx' \<and> index_at view R H rset tx' root' (apply_postings changes idx) \<and>
      (\<forall>t \<in> group_term ` set (entry_groups changes). term_roots view tx' t = after t) \<and>
      (\<forall>t. t \<notin> {INDEX, INDEX_TRIE, BITMAP_CONTAINER, BITMAP_TRIE} \<longrightarrow> view tx' t = view tx t))"
proof -
  let ?gs = "entry_groups changes" and ?roots = "term_roots view tx" and ?new = "apply_postings changes idx"
  have ix: "no_clash view H tx" "index_commits view H tx root" "\<And>t. posting_holds view R H rset tx (?roots t) (idx t)"
      "\<And>t. idx t \<noteq> {} \<Longrightarrow> term_decode t = Inr t"
    using assms(4) by (simp_all add: index_at_def)
  have dom: "dom ?roots = {t. idx t \<noteq> {}}"
    using index_at_dom [OF assms(4)] by blast
  have inj: "inj_on (routing_path H) (dom ?roots \<union> group_term ` set ?gs)"
    using assms(5) by (rule inj_on_subset) (use dom group_terms [of changes] in blast)
  have distinct: "distinct (map group_term ?gs)"
    using group_terms_sorted [of changes] by (simp add: strict_sorted_iff)
  have each: "\<forall>g \<in> set ?gs. posting_holds view R H rset tx (?roots (group_term g)) (idx (group_term g)) \<and>
      sorted (map fst (map entry_offset g)) \<and> (\<forall>ch \<in> set (map entry_offset g). is_valid_path (fst ch))"
    using ix(3) group_sorted by blast
  from apply_groups_law [OF assms(1-3) ix(2) inj distinct each assms(7) [unfolded unclashed_def]]
  show ?thesis
  proof (elim disjE exE conjE)
    fix e assume "try_fold (apply_group ops R H root) ?gs ([], tx) = Inl e" "index_conflict e"
    then show ?thesis
      by (simp add: index_apply_def entry_groups_def)
  next
    fix after tx1
    let ?changed = "map (change_of ?roots after) (filter (\<lambda>t. ?roots t \<noteq> after t) (map group_term ?gs))"
    assume fold: "try_fold (apply_group ops R H root) ?gs ([], tx) = Inr ([] @ ?changed, tx1)" "tx_ok tx1" "grows view tx tx1"
      "no_clash view H tx1" "\<forall>g \<in> set ?gs. posting_holds view R H rset tx1 (after (group_term g))
        (fold id_change (map entry_offset g) (idx (group_term g)))"
    have holds: "posting_holds view R H rset tx1 (after (group_term g)) (?new (group_term g))" if "g \<in> set ?gs" for g
      using fold(5) that group_effect [OF that] by metis
    have differ: "?roots t \<noteq> after t \<longleftrightarrow> idx t \<noteq> ?new t" if t: "t \<in> set (map group_term ?gs)" for t
    proof -
      obtain g where g: "g \<in> set ?gs" "t = group_term g"
        using t by auto
      show ?thesis
        unfolding g(2) using posting_eq_iff [OF assms(1,2) fold(4) posting_grows [OF ix(3) fold(3)] holds [OF g(1)]] by simp
    qed
    have changed: "?changed = map (change_of ?roots after) (filter (\<lambda>t. idx t \<noteq> ?new t) (map group_term ?gs))"
      by (rule arg_cong [OF filter_cong [OF refl differ]])
    note same = grows_index [OF fold(3)]
    let ?es = "map (\<lambda>c. (trc_term c, trc_after c)) ?changed"
    obtain m where m: "committed (routing_path H) (term_leaf_hash H) (term_roots view tx1) m"
        "represents (index_trie H) (branch_rows view (index_trie H) tx1) [] root m"
      using ix(2) same(2) unfolding index_commits_def by blast
    have keys: "fst ` set ?es \<subseteq> group_term ` set ?gs"
      by (auto simp: change_of_def)
    have edits: "map (\<lambda>(t, bitmap). case bitmap of
         Some h \<Rightarrow> let leaf = index_leaf H t h in (leaf_path leaf, Some (leaf_hash leaf))
       | None \<Rightarrow> (routing_path H t, None)) ?es = map (committed_edit (routing_path H) (term_leaf_hash H)) ?es"
      by (auto simp: committed_edit_def index_leaf_def Let_def split: option.split)
    have sized: "\<forall>e \<in> set (map (committed_edit (routing_path H) (term_leaf_hash H)) ?es). edit_sized (index_trie H) e"
      using assms(2) by (auto simp: edit_sized_def committed_edit_def routing_path_def term_leaf_hash_def hash_parts_def hash_ok_def)
    note whole = index_apply_def [of ops R H tx root changes, folded entry_groups_def, unfolded fold(1) attempt_simp
        case_prod_conv append_Nil index_set_def edits]
    from apply_outcome [OF index_trie_ok [OF assms(2)] fold(2) m(2) sized] show ?thesis
      unfolding write_outcome_def
    proof (elim disjE exE conjE)
      assume "trie_apply ops (index_trie H) tx1 root (map (committed_edit (routing_path H) (term_leaf_hash H)) ?es) = Inl ConflictingBranch"
      then show ?thesis
        unfolding whole by (simp add: index_conflict_def)
    next
      fix root' tx2
      assume r: "trie_apply ops (index_trie H) tx1 root (map (committed_edit (routing_path H) (term_leaf_hash H)) ?es) = Inr (root', tx2)"
        "tx_ok tx2" "extends view (index_trie H) tx1 tx2"
        "represents (index_trie H) (branch_rows view (index_trie H) tx2) [] root'
          (edits_map m (map (committed_edit (routing_path H) (term_leaf_hash H)) ?es))"
      obtain tx3 where tx3: "write_roots ops tx2 ?changed = (Inr tx3 :: 'io index_error + _)" "tx_ok tx3" "\<forall>t. t \<noteq> INDEX \<longrightarrow> view tx3 t = view tx2 t"
          "term_roots view tx3 = put_all ?es (term_roots view tx2)"
        using write_roots_law [OF r(2)] by blast
      have views: "\<forall>t. t \<noteq> INDEX_TRIE \<longrightarrow> view tx2 t = view tx1 t"
        using r(3) by (simp add: extends_def)
      have roots3: "term_roots view tx3 = (\<lambda>t. if t \<in> set (map group_term ?gs) then after t else ?roots t)"
        unfolding tx3(4) using views changed_roots [OF distinct, of ?roots after] same(1) by simp
      have sub: "dom (term_roots view tx1) \<union> fst ` set ?es \<subseteq> dom ?roots \<union> group_term ` set ?gs"
        unfolding same(1) using keys by blast
      have "committed (routing_path H) (term_leaf_hash H) (put_all ?es (term_roots view tx1))
          (edits_map m (map (committed_edit (routing_path H) (term_leaf_hash H)) ?es))"
        by (rule committed_put_all [OF m(1) inj_on_subset [OF inj sub]])
      then have "index_commits view H tx3 root'"
        using r(4) tx3(3,4) views unfolding index_commits_def by auto
      moreover have cong: "posting_holds view R H rset tx3 oh S \<longleftrightarrow> posting_holds view R H rset tx1 oh S"
        "no_clash view H tx3 \<longleftrightarrow> no_clash view H tx1" for oh S
        by (rule posting_cong; simp add: tx3(3) views)+
      moreover have "posting_holds view R H rset tx3 (term_roots view tx3 t) (?new t)" for t
      proof (cases "t \<in> group_term ` set ?gs")
        case True
        then show ?thesis
          using holds cong(1) by (auto simp: roots3)
      next
        case False
        then show ?thesis
          using posting_grows [OF ix(3) [of t] fold(3)] cong(1) group_none [OF False, of idx] by (simp add: roots3)
      qed
      moreover have "term_decode t = Inr t" if "?new t \<noteq> {}" for t
      proof (cases "t \<in> group_term ` set ?gs")
        case True
        then obtain ch where "ch \<in> set changes" "t = posting_term ch"
          using group_terms [of changes] by blast
        then show ?thesis
          using assms(6) by simp
      next
        case False
        then show ?thesis
          using ix(4) that group_none [OF False, of idx] by simp
      qed
      ultimately have "index_at view R H rset tx3 root' ?new"
        using fold(4) by (simp add: index_at_def)
      moreover have "index_apply ops R H tx root changes = Inr (\<lparr>iu_root = root', changed_terms = ?changed\<rparr>, tx3)"
        unfolding whole r(1) by (simp only: map_err_simp attempt_simp case_prod_conv tx3(1))
      moreover have "\<forall>t \<in> group_term ` set ?gs. term_roots view tx3 t = after t"
        by (simp add: roots3)
      moreover have "\<forall>t. t \<notin> {INDEX, INDEX_TRIE, BITMAP_CONTAINER, BITMAP_TRIE} \<longrightarrow> view tx3 t = view tx t"
        using tx3(3) views fold(3) by (simp add: grows_def)
      ultimately show ?thesis
        using tx3(2) unfolding changed by blast
    qed
  qed
qed

end

end
