(* ===== verification/Index_Queries.thy ===== *)
theory Index_Queries
  imports Index_System
begin

text \<open>
  Properties of the index on the memory store: updating it, reading it, scanning its terms and
  recovering its root.
\<close>

section \<open>Scanning terms\<close>

definition decode_term_row :: "(bytes \<Rightarrow> hash) \<Rightarrow> entry \<Rightarrow> 'io index_error + (index_term \<times> hash)" where
  "decode_term_row H row = attempt (map_err IndexTermError (term_decode (fst row))) (\<lambda>t.
     attempt (decode_root H (snd row)) (\<lambda>h. Inr (t, h)))"

lemma term_scan_rows:
  "scan_collect ops s = Some (Inr rows) \<Longrightarrow> term_scan_collect ops H \<lparr>ts_scan = s, ts_done = False\<rparr> =
    Some (try_map (decode_term_row H) rows :: 'io index_error + _)"
proof (induction rows arbitrary: s)
  case Nil
  then show ?case
    by (subst (asm) scan_collect.simps, subst term_scan_collect.simps)
      (auto simp: term_scan_next_def try_simps split: prod.splits option.splits sum.splits bind_splits)
next
  case (Cons row rows)
  obtain s' where s': "scan_next ops s = (Some (Inr row), s')" "scan_collect ops s' = Some (Inr rows)"
    using Cons.prems by (subst (asm) scan_collect.simps)
      (auto simp: try_simps split: prod.splits option.splits sum.splits bind_splits)
  let ?d = "decode_term_row H row :: 'io index_error + _"
  have "term_scan_next ops H \<lparr>ts_scan = s, ts_done = False\<rparr> = (Some ?d, \<lparr>ts_scan = s', ts_done = isl ?d\<rparr>)"
    using s'(1) by (simp add: term_scan_next_def decode_term_row_def case_prod_unfold Let_def)
  then show ?case
    using Cons.IH [OF s'(2)]
    by (subst term_scan_collect.simps, cases ?d) simp_all
qed

context read_tx
begin

lemma index_scan_law:
  assumes "hash_ok H" "tx_ok tx" "index_at view R H rset tx root idx"
    "scan_collect ops s = Some (Inr (filter (\<lambda>e. P (fst e)) (view tx INDEX)))"
  shows "\<exists>rows. term_scan_collect ops H \<lparr>ts_scan = s, ts_done = False\<rparr> = Some (Inr rows :: 'io index_error + _) \<and>
    sorted_wrt (<) (map fst rows) \<and> (\<forall>t h. (t, h) \<in> set rows \<longleftrightarrow> P t \<and> term_roots view tx t = Some h)"
proof -
  let ?rows = "filter (\<lambda>e. P (fst e)) (view tx INDEX)"
  have ok: "om_ok (view tx INDEX)"
    by (rule view_ok [OF assms(2)])
  have decode: "decode_term_row H row = (Inr row :: 'io index_error + _)" if "row \<in> set (view tx INDEX)" for row
  proof -
    have row: "term_roots view tx (fst row) = Some (snd row)"
      using om_get_iff [OF ok, of "fst row" "snd row"] that by simp
    then have "idx (fst row) \<noteq> {}"
      using index_at_dom [OF assms(3)] by blast
    then have "term_decode (fst row) = Inr (fst row)"
      using assms(3) by (simp add: index_at_def)
    moreover have "no_clash view H tx" "posting_holds view R H rset tx (Some (snd row)) (idx (fst row))"
      using assms(3) row unfolding index_at_def by metis+
    ultimately show ?thesis
      by (simp add: decode_term_row_def posting_decode [OF assms(1)])
  qed
  have "try_map (decode_term_row H) ?rows = (Inr ?rows :: 'io index_error + _)"
    using decode by (auto simp: try_map_Inr list_all2_same)
  moreover have "sorted_wrt (<) (map fst ?rows)"
    using om_ok_filter [OF ok] by (simp add: om_ok_def)
  ultimately show ?thesis
    using term_scan_rows [OF assms(4), of H, where ?'io = 'io] om_get_iff [OF ok] by auto
qed

section \<open>Reopening\<close>

lemma index_reopen_law:
  assumes "hash_ok H" "tx_ok tx" "index_at view R H rset tx root idx" "inj_on (routing_path H) {t. idx t \<noteq> {}}"
    "root \<noteq> RootEmpty \<Longrightarrow> root_hash H root \<noteq> H []"
    "\<And>l. root = RootLeaf l \<Longrightarrow> om_get (view tx INDEX_TRIE) (leaf_hash l) = None"
  shows "index_reopen ops H tx (root_hash H root) = Inr root"
proof -
  have dom: "dom (term_roots view tx) = {t. idx t \<noteq> {}}"
    using index_at_dom [OF assms(3)] by blast
  obtain m where m: "committed (routing_path H) (term_leaf_hash H) (term_roots view tx) m"
      "represents (index_trie H) (branch_rows view (index_trie H) tx) [] root m"
    using assms(3) unfolding index_at_def index_commits_def by blast
  note tr = index_trie_ok [OF assms(1)]
  show ?thesis
  proof (cases root)
    case RootEmpty
    then have "m = Map.empty"
      using m(2) by (auto elim: represents_EmptyE)
    then have "term_roots view tx t = None" for t
      using m(1) by (cases "term_roots view tx t") (auto simp: committed_def)
    then have "view tx INDEX = []"
      by (metis list.exhaust map_of_eq_empty_iff ext)
    then show ?thesis
      using no_row [OF assms(2) index_tables(1)] RootEmpty
      by (auto simp: index_reopen_def root_hash_def hash_parts_def)
  next
    case (RootBranch h)
    obtain node where "trie_load ops (index_trie H) tx h [] = Inr node"
      using load_represented [OF tr assms(2) m(2) [unfolded RootBranch]] by blast
    moreover have "om_get (view tx INDEX_TRIE) h \<noteq> None"
      using m(2) unfolding RootBranch represents_branch_iff holds_node_def by auto
    ultimately show ?thesis
      using assms(5) get_law [OF assms(2) index_tables(4)] RootBranch
      by (auto simp: index_reopen_def root_hash_def validate_root_def)
  next
    case (RootLeaf l)
    then have ml: "m = [leaf_path l \<mapsto> leaf_hash l]"
      using m(2) by (auto elim: represents_LeafE)
    obtain t h where only: "term_roots view tx = [t \<mapsto> h]" and t: "leaf_path l = routing_path H t" "leaf_hash l = term_leaf_hash H t h"
      using committed_single [of "routing_path H" "term_leaf_hash H" "term_roots view tx" "leaf_path l" "leaf_hash l"] m(1) assms(4)
      unfolding ml dom by blast
    have "term_roots view tx = om_get [(t, h)]"
      using only by simp
    then have row: "view tx INDEX = [(t, h)]"
      by (intro om_eqI view_ok assms(2)) (simp_all add: om_ok_Cons)
    have "idx t \<noteq> {}"
      using dom only by auto
    then have "term_decode t = Inr t" "no_clash view H tx" "posting_holds view R H rset tx (Some h) (idx t)"
      using assms(3) only unfolding index_at_def by (metis fun_upd_same)+
    moreover have "l = index_leaf H t h"
      using t by (cases l) (simp add: index_leaf_def)
    ultimately show ?thesis
      using first_row [OF assms(2) index_tables(1) row] get_law [OF assms(2) index_tables(4)] assms(5,6) RootLeaf
      by (auto simp: index_reopen_def root_hash_def Let_def posting_decode [OF assms(1)])
  qed
qed

lemma index_bitmap_law:
  fixes R :: "('b, 't, 'io) roaring"
  assumes "roaring_ok R rset tset" "hash_ok H" "tx_ok tx" "index_at view R H rset tx root idx"
  shows "if idx t = {} then index_bitmap ops R H tx t = Inr None
    else \<exists>b. index_bitmap ops R H tx t = Inr (Some b) \<and> tset b = idx t"
proof -
  have ix: "no_clash view H tx" "posting_holds view R H rset tx (term_roots view tx t) (idx t)"
    using assms(4) by (simp_all add: index_at_def)
  obtain b where b: "bitmap_holds view R H rset tx b (idx t)" "term_roots view tx t = root_digest H b"
    using ix(2) unfolding posting_holds_def by blast
  have "index_bitmap ops R H tx t = (case root_digest H b of None \<Rightarrow> Inr None
      | Some h \<Rightarrow> attempt (bt_bitmap ops R H tx h) (\<lambda>b. Inr (Some b)))"
    by (simp add: index_bitmap_def bitmap_root_law [OF assms(2,3) ix] b(2) index_bitmap_at_def split: option.split)
  moreover have "\<exists>v. bt_bitmap ops R H tx (root_hash H b) = (Inr v :: 'io index_error + _) \<and> tset v = idx t" if "idx t \<noteq> {}"
    using bt_bitmap_law [OF assms(1-3) ix(1) b(1)] holds_empty_iff [OF b(1)] that by blast
  ultimately show ?thesis
    using holds_empty_iff [OF b(1)] by (cases "idx t = {}") (auto simp: root_digest_def)
qed

end

section \<open>Properties\<close>


definition demo_term :: index_term where
  "demo_term = term_run (ascii ''a'') (Uint W4) @ [0, 0, 0, 7]"

lemma demo_term_valid: "term_decode demo_term = Inr demo_term"
proof -
  have "user_name (ascii ''a'')" "indexable_type (Uint W4)" "type_validate (Uint W4) [0, 0, 0, 7] = Inr ()"
    by (simp_all add: user_name_def ascii_def name_body_def is_ascii_alphabetic_def is_rest_def indexable_type_def typed_defs)
  then show ?thesis
    unfolding term_decode_iff demo_term_def by blast
qed

lemma index_at_empty:
  assumes "\<And>t. view tx t = []"
  shows "index_at view R H rset tx RootEmpty (\<lambda>_. {})"
proof -
  have "committed (routing_path H) (term_leaf_hash H) (term_roots view tx) Map.empty"
    by (simp add: assms committed_empty)
  then have "index_commits view H tx RootEmpty"
    unfolding index_commits_def using rep_empty by blast
  then show ?thesis
    by (simp add: index_at_def no_clash_def assms posting_empty)
qed

lemma demo_groups: "entry_groups [PostingAdd t 64] = [[((t, 0, 64), True)]]"
  by (simp add: entry_groups_def normalize_postings_def posting_entry_def id_split_def)

definition demo_row :: bytes where "demo_row = path6 0 @ [0, 0, 0, 64]"

lemma demo_offset: "to_be (64 :: u32) = [0, 0, 0, 64]"
proof -
  have "be_bytes (Suc (Suc (Suc (Suc 0)))) 64 = [0, 0, 0, 64]" "LENGTH(32) div 8 = Suc (Suc (Suc (Suc 0)))"
    by simp_all
  then show ?thesis
    by (simp only: to_be_def unat_numeral) simp
qed

lemma demo_canonical: "canonical_bytes list_roaring \<lparr>bc_path = 0, bc_values = [64]\<rparr> = Inr demo_row"
  by (simp add: canonical_bytes_def container_encode_into_def container_is_empty_def demo_row_def list_roaring_def
      rb_canonical_def path_bytes_valid is_valid_path_unat demo_offset)

abbreviation (input) demo_digest :: hash where "demo_digest \<equiv> hash_parts demo_hash [[BITMAP_LEAF_DOMAIN], demo_row]"
abbreviation (input) demo_tx1 :: mem_tx where "demo_tx1 \<equiv> \<lparr>tx_state = [(BITMAP_CONTAINER, [(demo_digest, demo_row)])]\<rparr>"

lemma demo_offset_insert: "apply_offset list_roaring (0, 64, True) (False, \<lparr>bc_path = 0, bc_values = []\<rparr>) =
    (True, \<lparr>bc_path = 0, bc_values = [64]\<rparr>)"
  by (simp add: apply_offset_def container_insert_def list_roaring_def)

lemma demo_container: "container_empty list_roaring 0 = Inr \<lparr>bc_path = 0, bc_values = []\<rparr>"
  by (simp add: container_empty_def container_new_def list_roaring_def is_valid_path_unat)

lemma demo_store: "bt_store mem_ops \<lparr>tx_state = []\<rparr> demo_digest demo_row = Inr demo_tx1"
  by (simp add: bt_store_def mem_op_defs table_rows_def)

lemma demo_get: "tx_get mem_ops \<lparr>tx_state = []\<rparr> INDEX k = Inr None"
  using mem.get_law [OF mem_ok_empty index_tables(1), of k] by simp

lemma demo_changes: "bt_changes mem_ops list_roaring demo_hash RootEmpty None None [(0, 64, True)] [] \<lparr>tx_state = []\<rparr> =
    Inr ([(path6 0, Some demo_digest)], demo_tx1)"
  by (simp add: trie_get_def path_bytes_valid is_valid_path_unat bt_container_def demo_container demo_offset_insert demo_canonical
     demo_store container_is_empty_def Let_def) (simp add: list_roaring_def)

lemma demo_step: "apply_group mem_ops list_roaring demo_hash RootEmpty [((t, 0, 64), True)] ([], \<lparr>tx_state = []\<rparr>) =
    Inr ([\<lparr>trc_term = t, trc_before = None, trc_after = Some demo_digest\<rparr>], demo_tx1)"
  by (simp add: apply_group_def bitmap_root_def demo_get index_check_def trie_get_def bt_apply_def demo_changes
      trie_apply_single root_hash_def del: bt_changes.simps)

lemma demo_head: "hd demo_digest = 64"
  by (simp add: demo_hash_def hash_parts_def demo_row_def)

lemma demo_unclashed: "unclashed mem_ops mem_view list_roaring demo_hash \<lparr>tx_state = []\<rparr> RootEmpty [PostingAdd t 64]"
proof -
  have "hd (demo_hash []) = 0"
    by (simp add: demo_hash_def)
  then have "demo_digest \<noteq> demo_hash []"
    using demo_head by auto
  then have "no_clash mem_view demo_hash demo_tx1"
    by (simp add: no_clash_def mem_view_def table_rows_def)
  moreover have "no_clash mem_view demo_hash \<lparr>tx_state = []\<rparr>"
    by (simp add: no_clash_def)
  ultimately show ?thesis
    by (auto simp: unclashed_def demo_groups take_Cons demo_step split: nat.splits)
qed

abbreviation (input) demo_leaf :: leaf_ref where "demo_leaf \<equiv> index_leaf demo_hash demo_term demo_digest"

definition demo_tx2 :: mem_tx where
  "demo_tx2 = \<lparr>tx_state = [(BITMAP_CONTAINER, [(demo_digest, demo_row)]), (INDEX, [(demo_term, demo_digest)])]\<rparr>"

lemma demo_index_apply: "index_apply mem_ops list_roaring demo_hash \<lparr>tx_state = []\<rparr> RootEmpty [PostingAdd demo_term 64] =
    Inr (\<lparr>iu_root = RootLeaf demo_leaf, changed_terms =
      [\<lparr>trc_term = demo_term, trc_before = None, trc_after = Some demo_digest\<rparr>]\<rparr>, demo_tx2)"
proof -
  have "tx_put mem_ops demo_tx1 INDEX demo_term demo_digest = Inr demo_tx2"
    by (simp add: mem_op_defs table_rows_def demo_tx2_def BITMAP_CONTAINER_def INDEX_def table_validate_def)
  then show ?thesis
    by (simp add: index_apply_def demo_groups [unfolded entry_groups_def] demo_step index_set_def index_leaf_def
        trie_apply_single write_roots_def)
qed

lemma demo_index_hyps:
  "inj_on (routing_path demo_hash) ({t. (\<lambda>_. {} :: u64 set) t \<noteq> {}} \<union> posting_term ` set [PostingAdd demo_term 64])"
  "\<forall>ch \<in> set [PostingAdd demo_term 64]. term_decode (posting_term ch) = Inr (posting_term ch)"
  by (simp_all add: posting_term_def demo_term_valid)

lemma demo_postings: "apply_postings [PostingAdd demo_term 64] (\<lambda>_. {}) = (\<lambda>_. {})(demo_term := {64})"
  by (simp add: apply_postings_def apply_posting_def)

lemma demo_index_at: "mem_ok demo_tx2"
  "index_at mem_view list_roaring demo_hash set demo_tx2 (RootLeaf demo_leaf) ((\<lambda>_. {})(demo_term := {64}))"
  using mem.index_apply_law [OF list_roaring_ok demo_hash_ok mem_ok_empty index_at_empty demo_index_hyps demo_unclashed]
  by (auto simp: demo_index_apply demo_postings)


text \<open>C24. Reading a consistent index is exact: the bitmap of a term is the set of its record ids, absent
  when the set is empty, and the root reference is recovered from its 32-byte digest alone,
  unless the digest of a nonempty index collides with the empty one, or that of a single term
  with a stored branch.\<close>

theorem index_read_correct:
  fixes R :: "('b, 't, 'io) roaring"
  assumes "roaring_ok R rset tset" "hash_ok H" "mem_ok tx" "index_at mem_view R H rset tx root idx"
    "inj_on (routing_path H) {t. idx t \<noteq> {}}"
    "root \<noteq> RootEmpty \<Longrightarrow> root_hash H root \<noteq> H []"
    "\<And>l. root = RootLeaf l \<Longrightarrow> om_get (mem_view tx INDEX_TRIE) (leaf_hash l) = None"
  shows "(if idx t = {} then index_bitmap mem_ops R H tx t = Inr None
      else \<exists>b. index_bitmap mem_ops R H tx t = Inr (Some b) \<and> tset b = idx t) \<and>
    index_reopen mem_ops H tx (root_hash H root) = (Inr root :: 'io index_error + root_ref)"
  using mem.index_bitmap_law [OF assms(1-4), of t] mem.index_reopen_law [OF assms(2-7)] by blast

theorem index_read_correct_witness:
  "(\<exists>b. index_bitmap mem_ops list_roaring demo_hash demo_tx2 demo_term = Inr (Some b) \<and> set b = {64}) \<and>
   index_reopen mem_ops demo_hash demo_tx2 (root_hash demo_hash (RootLeaf demo_leaf)) =
     (Inr (RootLeaf demo_leaf) :: unit index_error + root_ref)"
proof -
  have "length demo_digest = 32"
    using demo_hash_ok by (simp add: hash_ok_def hash_parts_def)
  then have "last (root_hash demo_hash (RootLeaf demo_leaf)) = hd demo_digest"
    by (simp add: root_hash_def index_leaf_def term_leaf_hash_def hash_parts_def [of _ "[_, _, _]"])
      (simp add: demo_hash_def [of "_ # _"] last_rev)
  moreover have "last (demo_hash []) = 0"
    by (simp add: demo_hash_def)
  ultimately have "root_hash demo_hash (RootLeaf demo_leaf) \<noteq> demo_hash []"
    using demo_head by auto
  moreover have "om_get (mem_view demo_tx2 INDEX_TRIE) h = None" for h
    by (simp add: demo_tx2_def mem_view_def table_rows_def)
  moreover have "inj_on (routing_path demo_hash) {t. ((\<lambda>_. {} :: u64 set)(demo_term := {64})) t \<noteq> {}}"
    by (auto simp: inj_on_def split: if_splits)
  ultimately show ?thesis
    using index_read_correct [OF list_roaring_ok demo_hash_ok demo_index_at, of demo_term] by simp
qed

text \<open>C25. Scanning the terms of a consistent index ends and yields exactly the terms it holds in the
  range, or with the prefix, each with its bitmap root, in ascending order.\<close>

theorem term_scan_exact:
  fixes R :: "('b, 't, 'io) roaring"
  assumes "hash_ok H" "mem_ok tx" "index_at mem_view R H rset tx root idx"
  shows "(range_ok (range_lower r) (range_upper r) \<longrightarrow>
      (\<exists>s rows. index_terms mem_ops tx r = (Inr s :: 'io index_error + _) \<and>
        term_scan_collect mem_ops H s = Some (Inr rows :: 'io index_error + _) \<and> sorted_wrt (<) (map fst rows) \<and>
        fst ` set rows = {t. idx t \<noteq> {} \<and> in_range (range_lower r) (range_upper r) t} \<and>
        (\<forall>(t, h) \<in> set rows. bitmap_root mem_ops H tx t = (Inr (Some h) :: 'io index_error + _)))) \<and>
    (\<exists>s rows. terms_with_prefix mem_ops tx p = (Inr s :: 'io index_error + _) \<and>
        term_scan_collect mem_ops H s = Some (Inr rows :: 'io index_error + _) \<and> sorted_wrt (<) (map fst rows) \<and>
        fst ` set rows = {t. idx t \<noteq> {} \<and> prefix p t} \<and>
        (\<forall>(t, h) \<in> set rows. bitmap_root mem_ops H tx t = (Inr (Some h) :: 'io index_error + _)))"
proof -
  have root: "bitmap_root mem_ops H tx t = (Inr (term_roots mem_view tx t) :: 'io index_error + _)" for t
    using mem.bitmap_root_law [OF assms(1,2)] assms(3) unfolding index_at_def by blast
  have scan: "\<exists>rows. term_scan_collect mem_ops H \<lparr>ts_scan = s, ts_done = False\<rparr> = Some (Inr rows :: 'io index_error + _) \<and>
      sorted_wrt (<) (map fst rows) \<and> fst ` set rows = {t. idx t \<noteq> {} \<and> P t} \<and>
      (\<forall>(t, h) \<in> set rows. bitmap_root mem_ops H tx t = (Inr (Some h) :: 'io index_error + _))"
    if s: "scan_collect mem_ops s = Some (Inr (filter (\<lambda>e. P (fst e)) (mem_view tx INDEX)))" for s P
  proof -
    obtain rows where r: "term_scan_collect mem_ops H \<lparr>ts_scan = s, ts_done = False\<rparr> = Some (Inr rows :: 'io index_error + _)"
        "sorted_wrt (<) (map fst rows)" "\<And>t h. (t, h) \<in> set rows \<longleftrightarrow> P t \<and> term_roots mem_view tx t = Some h"
      using mem.index_scan_law [OF assms s] by blast
    have "fst ` set rows = {t. idx t \<noteq> {} \<and> P t}"
    proof (rule set_eqI)
      fix t
      have "t \<in> fst ` set rows \<longleftrightarrow> (\<exists>h. (t, h) \<in> set rows)"
        by force
      then show "t \<in> fst ` set rows \<longleftrightarrow> t \<in> {t. idx t \<noteq> {} \<and> P t}"
        using r(3) index_at_dom [OF assms(3), of t] by (simp add: domIff) blast
    qed
    moreover have "\<forall>(t, h) \<in> set rows. bitmap_root mem_ops H tx t = (Inr (Some h) :: 'io index_error + _)"
      using r(3) by (auto simp: root)
    ultimately show ?thesis
      using r(1,2) by blast
  qed
  obtain s where p: "scan_prefix mem_ops tx INDEX p = Inr s"
      "scan_collect mem_ops s = Some (Inr (filter (\<lambda>e. prefix p (fst e)) (mem_view tx INDEX)))"
    using mem.scan_prefix_rows [OF assms(2) index_tables(1)] by blast
  have all: "terms_with_prefix mem_ops tx p = (Inr \<lparr>ts_scan = s, ts_done = False\<rparr> :: 'io index_error + _)"
    by (simp add: terms_with_prefix_def p(1))
  show ?thesis
  proof (intro conjI impI)
    assume "range_ok (range_lower r) (range_upper r)"
    then obtain s' where s': "scan_open mem_ops tx INDEX (range_lower r) (range_upper r) = Inr s'"
        "scan_collect mem_ops s' = Some (Inr (filter (\<lambda>e. in_range (range_lower r) (range_upper r) (fst e)) (mem_view tx INDEX)))"
      using mem.scan_open_rows [OF assms(2) index_tables(1)] by blast
    then have "index_terms mem_ops tx r = (Inr \<lparr>ts_scan = s', ts_done = False\<rparr> :: 'io index_error + _)"
      by (simp add: index_terms_def)
    with scan [OF s'(2)] show "\<exists>s rows. index_terms mem_ops tx r = (Inr s :: 'io index_error + _) \<and>
        term_scan_collect mem_ops H s = Some (Inr rows :: 'io index_error + _) \<and> sorted_wrt (<) (map fst rows) \<and>
        fst ` set rows = {t. idx t \<noteq> {} \<and> in_range (range_lower r) (range_upper r) t} \<and>
        (\<forall>(t, h) \<in> set rows. bitmap_root mem_ops H tx t = (Inr (Some h) :: 'io index_error + _))"
      by blast
  qed (use scan [OF p(2)] all in blast)
qed

theorem term_scan_exact_witness:
  "\<exists>s rows. terms_with_prefix mem_ops demo_tx2 (ascii ''a'') = (Inr s :: unit index_error + _) \<and>
    term_scan_collect mem_ops demo_hash s = Some (Inr rows :: unit index_error + _) \<and> fst ` set rows = {demo_term}"
proof -
  have "prefix (ascii ''a'') demo_term"
    by (simp add: demo_term_def term_run_def)
  then have "{t. ((\<lambda>_. {} :: u64 set)(demo_term := {64})) t \<noteq> {} \<and> prefix (ascii ''a'') t} = {demo_term}"
    by auto
  then show ?thesis
    using term_scan_exact [OF demo_hash_ok demo_index_at, THEN conjunct2, of "ascii ''a''"] by auto
qed

end
