(* ===== verification/Branch_Types.thy ===== *)
theory Branch_Types
  imports Index_Queries
begin

text \<open>
  \<^verbatim>\<open>crates/branch/src/error.rs\<close>, \<^verbatim>\<open>types.rs\<close> and \<^verbatim>\<open>head.rs\<close>: the errors and identifiers of the branch layer and
  the 72-byte head row that names the latest commit.
\<close>

section \<open>Errors and identifiers\<close>

datatype 'io branch_error =
    HandleInvalid
  | BranchConflict
  | BranchSealed
  | CommitNumberExhausted
  | RootsCellExists
  | BranchCells cell_error
  | BranchIndex "'io index_error"
  | BranchTerm term_error
  | MissingHead
  | InvalidHead nat
  | BranchNumberExhausted
  | BranchPoisoned string
  | BranchStorage storage_error
  | BranchKey cell_key_error
  | BranchValue cell_value_parse_error
  | NoFrameToRollback

datatype ('io, 'e) operation_error = BranchFailure "'io branch_error" | OperationFailure 'e

datatype commit_id = CommitId (commit_num: u64)

datatype branch_id = BranchId (branch_num: u64)

definition GENESIS :: commit_id where "GENESIS = CommitId 0"

text \<open>The derived \<^verbatim>\<open>Ord\<close> of \<^verbatim>\<open>BranchId\<close>, the key of the registry.\<close>

instantiation branch_id :: linorder
begin

definition less_eq_branch_id :: "branch_id \<Rightarrow> branch_id \<Rightarrow> bool" where
  "less_eq_branch_id a b \<longleftrightarrow> branch_num a \<le> branch_num b"

definition less_branch_id :: "branch_id \<Rightarrow> branch_id \<Rightarrow> bool" where
  "less_branch_id a b \<longleftrightarrow> branch_num a < branch_num b"

instance
  by standard (auto simp: less_eq_branch_id_def less_branch_id_def intro: branch_id.expand)

end

record branch_info =
  bi_commit_id :: commit_id
  bi_branch_id :: branch_id
  bi_version :: u64
  bi_sealed :: bool

section \<open>The head row\<close>

definition SUPERBLOCK :: table where "SUPERBLOCK = ''Superblock''"
definition HEAD_KEY :: bytes where "HEAD_KEY = ascii ''head''"
definition HEAD_BYTES :: nat where "HEAD_BYTES = 8 + 32 + 32"

record head =
  hd_commit_id :: commit_id
  hd_state_root :: hash
  hd_index_root :: hash

definition read_head_state ::
  "('tx, 'cur, 'z) read_ops_scheme \<Rightarrow> 'tx \<Rightarrow> 'io branch_error + head" where
  "read_head_state ops tx =
    attempt (map_err BranchStorage (tx_get ops tx SUPERBLOCK HEAD_KEY)) (\<lambda>row.
    attempt (ok_or MissingHead row) (\<lambda>bs.
      if length bs \<noteq> HEAD_BYTES then Inl (InvalidHead (length bs))
      else Inr \<lparr>hd_commit_id = CommitId (from_be (take 8 bs)),
        hd_state_root = take 32 (drop 8 bs), hd_index_root = take 32 (drop 40 bs)\<rparr>))"

definition read_head :: "('tx, 'cur, 'z) read_ops_scheme \<Rightarrow> 'tx \<Rightarrow> 'io branch_error + commit_id" where
  "read_head ops tx = attempt (read_head_state ops tx) (\<lambda>h. Inr (hd_commit_id h))"

definition write_head ::
  "('tx, 'cur, 'z) write_ops_scheme \<Rightarrow> 'tx \<Rightarrow> head \<Rightarrow> 'io branch_error + 'tx" where
  "write_head ops tx h =
    map_err BranchStorage (tx_put ops tx SUPERBLOCK HEAD_KEY
      (to_be (commit_num (hd_commit_id h)) @ hd_state_root h @ hd_index_root h))"

section \<open>Reading and writing the head\<close>

definition head_ok :: "head \<Rightarrow> bool" where
  "head_ok h \<longleftrightarrow> length (hd_state_root h) = 32 \<and> length (hd_index_root h) = 32"

definition head_row :: "head \<Rightarrow> bytes" where
  "head_row h = to_be (commit_num (hd_commit_id h)) @ hd_state_root h @ hd_index_root h"

definition head_at :: "('tx \<Rightarrow> table \<Rightarrow> rows) \<Rightarrow> 'tx \<Rightarrow> head \<Rightarrow> bool" where
  "head_at view tx h \<longleftrightarrow> om_get (view tx SUPERBLOCK) HEAD_KEY = Some (head_row h) \<and> head_ok h"

lemma superblock_tables [simp]: "table_ok SUPERBLOCK" "SUPERBLOCK \<noteq> CELL" "SUPERBLOCK \<noteq> CELL_TRIE"
  "SUPERBLOCK \<notin> {INDEX, INDEX_TRIE, BITMAP_CONTAINER, BITMAP_TRIE}"
  by (simp_all add: table_ok_def SUPERBLOCK_def CELL_def CELL_TRIE_def INDEX_def INDEX_TRIE_def BITMAP_CONTAINER_def BITMAP_TRIE_def)

context read_tx
begin

lemma read_head_state_law:
  assumes "tx_ok tx" "head_at view tx h"
  shows "read_head_state ops tx = Inr h"
proof -
  have len: "length (to_be (commit_num (hd_commit_id h))) = 8"
    by simp
  have row: "tx_get ops tx SUPERBLOCK HEAD_KEY = Inr (Some (head_row h))"
    using get_law [OF assms(1) superblock_tables(1)] assms(2) by (simp add: head_at_def)
  show ?thesis
    using assms(2) len by (simp add: read_head_state_def row HEAD_BYTES_def head_row_def head_at_def head_ok_def)
qed

lemma read_head_law: "tx_ok tx \<Longrightarrow> head_at view tx h \<Longrightarrow> read_head ops tx = Inr (hd_commit_id h)"
  by (simp add: read_head_def read_head_state_law)

end

context write_tx
begin

lemma write_head_law:
  assumes "tx_ok tx" "head_ok h"
  shows "\<exists>tx'. write_head ops tx h = Inr tx' \<and> tx_ok tx' \<and> head_at view tx' h \<and>
    view tx' = (view tx)(SUPERBLOCK := om_put HEAD_KEY (head_row h) (view tx SUPERBLOCK))"
  using put_law [OF assms(1) superblock_tables(1), of HEAD_KEY "head_row h"] assms(2)
  by (auto simp: write_head_def head_row_def head_at_def)

end

end
