(* ===== verification/Branch_Journal.thy ===== *)
theory Branch_Journal
  imports Branch_Types
begin

text \<open>
  \<^verbatim>\<open>crates/branch/src/journal.rs\<close>: the undo journal of a branch and its checkpoint frames. A vector is a list
  that grows at its end. The specification is a stack of saved states: every frame marker stands
  for the cell map at the moment the frame was opened.
\<close>

section \<open>The journal\<close>

type_synonym entries = "(cell_key, cell_value option) omap"

record undo_entry =
  ue_key :: cell_key
  ue_previous :: "cell_value option option"

record write_mark =
  wm_undo_len :: nat
  wm_rolled_back :: bool

record journal =
  jn_undo :: "undo_entry list"
  jn_frames :: "nat list"
  jn_rolled_back :: bool

definition journal_default :: journal where
  "journal_default = \<lparr>jn_undo = [], jn_frames = [0], jn_rolled_back = False\<rparr>"

definition journal_version :: "journal \<Rightarrow> u64" where
  "journal_version j = word_of_nat (length (jn_undo j))"

definition journal_mark :: "journal \<Rightarrow> write_mark" where
  "journal_mark j = \<lparr>wm_undo_len = length (jn_undo j), wm_rolled_back = jn_rolled_back j\<rparr>"

definition journal_record :: "journal \<Rightarrow> entries \<Rightarrow> cell_key \<Rightarrow> cell_value option \<Rightarrow> journal \<times> entries" where
  "journal_record j es key value =
    (let j' = j\<lparr>jn_rolled_back := False\<rparr> in
     if om_get es key = Some value then (j', es)
     else (j'\<lparr>jn_undo := jn_undo j' @ [\<lparr>ue_key = key, ue_previous = om_get es key\<rparr>]\<rparr>, om_put key value es))"

definition journal_checkpoint :: "journal \<Rightarrow> journal" where
  "journal_checkpoint j =
    (let j' = (if \<not> jn_rolled_back j then j\<lparr>jn_frames := jn_frames j @ [length (jn_undo j)]\<rparr> else j)
     in j'\<lparr>jn_rolled_back := False\<rparr>)"

text \<open>One turn of the loop of \<^verbatim>\<open>undo_to\<close>, and the loop.\<close>

definition undo_step :: "undo_entry \<Rightarrow> entries \<Rightarrow> entries" where
  "undo_step e es = (case ue_previous e of Some v \<Rightarrow> om_put (ue_key e) v es | None \<Rightarrow> om_del (ue_key e) es)"

function undo_to :: "undo_entry list \<Rightarrow> entries \<Rightarrow> nat \<Rightarrow> undo_entry list \<times> entries" where
  "undo_to undo es mark =
    (if length undo > mark then undo_to (butlast undo) (undo_step (last undo) es) mark else (undo, es))"
  by auto

termination
  by (relation "measure (\<lambda>(undo, _, _). length undo)") auto

declare undo_to.simps [simp del]

text \<open>The last marker is always retained (\<open>journal_ok\<close>), so \<^verbatim>\<open>frames.last().unwrap()\<close> is \<open>last\<close>.\<close>

definition journal_rollback :: "journal \<Rightarrow> entries \<Rightarrow> 'io branch_error + (journal \<times> entries)" where
  "journal_rollback j es =
    (if jn_rolled_back j \<and> length (jn_frames j) = 1 then Inl NoFrameToRollback
     else
       let frames = (if jn_rolled_back j then butlast (jn_frames j) else jn_frames j);
           (undo, es') = undo_to (jn_undo j) es (last frames)
       in Inr (\<lparr>jn_undo = undo, jn_frames = frames, jn_rolled_back = True\<rparr>, es'))"

definition journal_rewind :: "journal \<Rightarrow> entries \<Rightarrow> write_mark \<Rightarrow> journal \<times> entries" where
  "journal_rewind j es mark =
    (let (undo, es') = undo_to (jn_undo j) es (wm_undo_len mark)
     in (j\<lparr>jn_undo := undo, jn_rolled_back := wm_rolled_back mark\<rparr>, es'))"

section \<open>Undoing\<close>

lemma undo_to_stop: "length undo \<le> mark \<Longrightarrow> undo_to undo es mark = (undo, es)"
  by (simp add: undo_to.simps)

lemma undo_to_snoc: "mark \<le> length undo \<Longrightarrow> undo_to (undo @ [e]) es mark = undo_to undo (undo_step e es) mark"
  by (subst undo_to.simps) simp

lemma undo_to_eq: "mark \<le> length undo \<Longrightarrow> undo_to undo es mark = (take mark undo, foldr undo_step (drop mark undo) es)"
proof (induction undo arbitrary: es rule: rev_induct)
  case (snoc e undo)
  then show ?case
    by (cases "mark \<le> length undo") (simp_all add: undo_to_snoc undo_to_stop)
qed (simp add: undo_to_stop)

lemma undo_step_ok: "om_ok es \<Longrightarrow> om_ok (undo_step e es)"
  by (simp add: undo_step_def split: option.split)

lemma undo_steps_ok: "om_ok es \<Longrightarrow> om_ok (foldr undo_step undo es)"
  by (induction undo) (simp_all add: undo_step_ok)

text \<open>The inverse recorded with a write.\<close>

lemma undo_write:
  assumes "om_ok es"
  shows "undo_step \<lparr>ue_key = k, ue_previous = om_get es k\<rparr> (om_put k v es) = es"
  using assms by (intro om_eqI) (auto simp: undo_step_def fun_eq_iff split: option.split)

section \<open>The stack of saved states\<close>

text \<open>The entries as they were when the journal had \<open>n\<close> entries.\<close>

definition undone :: "journal \<Rightarrow> entries \<Rightarrow> nat \<Rightarrow> entries" where
  "undone j es n = foldr undo_step (drop n (jn_undo j)) es"

definition journal_ok :: "journal \<Rightarrow> bool" where
  "journal_ok j \<longleftrightarrow> jn_frames j \<noteq> [] \<and> hd (jn_frames j) = 0 \<and> sorted (jn_frames j) \<and>
    last (jn_frames j) \<le> length (jn_undo j) \<and> (jn_rolled_back j \<longrightarrow> last (jn_frames j) = length (jn_undo j))"

record saved_states =
  st_current :: "cell_key \<rightharpoonup> cell_value option"
  st_saved :: "(cell_key \<rightharpoonup> cell_value option) list"
  st_rolled_back :: bool

definition spec_write :: "cell_key \<Rightarrow> cell_value option \<Rightarrow> saved_states \<Rightarrow> saved_states" where
  "spec_write k v s = s\<lparr>st_current := (st_current s)(k \<mapsto> v), st_rolled_back := False\<rparr>"

definition spec_checkpoint :: "saved_states \<Rightarrow> saved_states" where
  "spec_checkpoint s =
    (if st_rolled_back s then s\<lparr>st_rolled_back := False\<rparr> else s\<lparr>st_saved := st_saved s @ [st_current s]\<rparr>)"

definition spec_rollback :: "saved_states \<Rightarrow> saved_states option" where
  "spec_rollback s =
    (if st_rolled_back s \<and> length (st_saved s) = 1 then None
     else let saved = (if st_rolled_back s then butlast (st_saved s) else st_saved s)
       in Some \<lparr>st_current = last saved, st_saved = saved, st_rolled_back = True\<rparr>)"

definition saved_of :: "journal \<Rightarrow> entries \<Rightarrow> saved_states" where
  "saved_of j es = \<lparr>st_current = om_get es, st_saved = map (\<lambda>n. om_get (undone j es n)) (jn_frames j),
    st_rolled_back = jn_rolled_back j\<rparr>"

lemma journal_frames_le: "journal_ok j \<Longrightarrow> n \<in> set (jn_frames j) \<Longrightarrow> n \<le> length (jn_undo j)"
proof -
  assume ok: "journal_ok j" and n: "n \<in> set (jn_frames j)"
  obtain fs f where fs: "jn_frames j = fs @ [f]"
    using ok by (metis journal_ok_def rev_exhaust)
  then have "n \<le> f"
    using ok n by (auto simp: journal_ok_def sorted_append)
  then show ?thesis
    using ok fs by (simp add: journal_ok_def)
qed

lemma journal_default_ok: "journal_ok journal_default"
  by (simp add: journal_default_def journal_ok_def)

lemma record_ok:
  assumes "journal_ok j" "om_ok es" "journal_record j es k v = (j', es')"
  shows "journal_ok j'" "om_ok es'" "saved_of j' es' = spec_write k v (saved_of j es)"
proof -
  let ?e = "\<lparr>ue_key = k, ue_previous = om_get es k\<rparr>"
  show "journal_ok j'" "om_ok es'"
    using assms by (auto simp: journal_record_def journal_ok_def Let_def split: if_splits)
  show "saved_of j' es' = spec_write k v (saved_of j es)"
  proof (cases "om_get es k = Some v")
    case True
    then have "(om_get es)(k \<mapsto> v) = om_get es"
      by (simp add: fun_upd_idem)
    then show ?thesis
      using True assms(3) by (auto simp: journal_record_def saved_of_def spec_write_def undone_def)
  next
    case False
    then have j': "j' = j\<lparr>jn_rolled_back := False, jn_undo := jn_undo j @ [?e]\<rparr>" "es' = om_put k v es"
      using assms(3) by (simp_all add: journal_record_def Let_def)
    have "undone j' es' n = undone j es n" if "n \<in> set (jn_frames j)" for n
      using journal_frames_le [OF assms(1) that] undo_write [OF assms(2)] by (simp add: undone_def j')
    then show ?thesis
      by (simp add: saved_of_def spec_write_def j')
  qed
qed

lemma checkpoint_ok:
  assumes "journal_ok j"
  shows "journal_ok (journal_checkpoint j)" "saved_of (journal_checkpoint j) es = spec_checkpoint (saved_of j es)"
  using assms
  by (auto simp: journal_checkpoint_def journal_ok_def saved_of_def spec_checkpoint_def undone_def sorted_append
      dest: journal_frames_le [OF assms])

lemma rollback_ok:
  assumes "journal_ok j" "om_ok es"
  shows "case (journal_rollback j es :: 'io branch_error + _) of
      Inl e \<Rightarrow> e = NoFrameToRollback \<and> spec_rollback (saved_of j es) = None
    | Inr (j', es') \<Rightarrow> journal_ok j' \<and> om_ok es' \<and> spec_rollback (saved_of j es) = Some (saved_of j' es')"
proof (cases "jn_rolled_back j \<and> length (jn_frames j) = 1")
  case True
  then show ?thesis
    by (simp add: journal_rollback_def spec_rollback_def saved_of_def)
next
  case False
  define fs where "fs = (if jn_rolled_back j then butlast (jn_frames j) else jn_frames j)"
  have frames: "jn_frames j \<noteq> []" "hd (jn_frames j) = 0" "sorted (jn_frames j)"
    using assms(1) by (simp_all add: journal_ok_def)
  obtain gs where gs: "jn_frames j = fs @ gs"
    unfolding fs_def using frames(1) by (metis append_Nil2 append_butlast_last_id)
  have "fs \<noteq> []"
    using False frames(1) by (cases "jn_frames j") (auto simp: fs_def)
  then have fs: "fs \<noteq> []" "hd fs = 0" "sorted fs"
    using frames gs by (auto simp: sorted_append)
  let ?n = "last fs"
  have n: "?n \<le> length (jn_undo j)"
    using fs(1) gs journal_frames_le [OF assms(1)] by (simp add: last_in_set)
  have below: "m \<le> ?n" if "m \<in> set fs" for m
    using fs(1,3) that by (cases fs rule: rev_cases) (auto simp: sorted_append)
  let ?j = "\<lparr>jn_undo = take ?n (jn_undo j), jn_frames = fs, jn_rolled_back = True\<rparr>" and ?es = "undone j es ?n"
  have res: "(journal_rollback j es :: 'io branch_error + _) = Inr (?j, ?es)"
    using False n by (auto simp: journal_rollback_def fs_def undo_to_eq undone_def Let_def)
  have saved: "undone ?j ?es m = undone j es m" if "m \<in> set fs" for m
  proof -
    have "drop m (take ?n (jn_undo j) @ drop ?n (jn_undo j)) = drop m (take ?n (jn_undo j)) @ drop ?n (jn_undo j)"
      using below [OF that] n by (simp del: append_take_drop_id)
    then have "drop m (jn_undo j) = drop m (take ?n (jn_undo j)) @ drop ?n (jn_undo j)"
      by simp
    then show ?thesis
      by (simp add: undone_def)
  qed
  have "spec_rollback (saved_of j es) = Some (saved_of ?j ?es)"
    using False fs(1) saved by (auto simp: spec_rollback_def saved_of_def fs_def map_butlast [symmetric] last_map Let_def)
  moreover have "journal_ok ?j" "om_ok ?es"
    using fs n undo_steps_ok [OF assms(2)] by (simp_all add: journal_ok_def undone_def)
  ultimately show ?thesis
    by (simp add: res)
qed

lemma rewind_mark:
  assumes "wm_undo_len m \<le> length (jn_undo j)"
  shows "journal_rewind j es m =
    (j\<lparr>jn_undo := take (wm_undo_len m) (jn_undo j), jn_rolled_back := wm_rolled_back m\<rparr>, undone j es (wm_undo_len m))"
  by (simp add: journal_rewind_def undo_to_eq [OF assms] undone_def)

section \<open>Sequences of operations\<close>

datatype journal_op = OpWrite cell_key "cell_value option" | OpCheckpoint | OpRollback

definition journal_do :: "journal_op \<Rightarrow> journal \<times> entries \<Rightarrow> 'io branch_error + (journal \<times> entries)" where
  "journal_do oper st = (case oper of
     OpWrite k v \<Rightarrow> Inr (journal_record (fst st) (snd st) k v)
   | OpCheckpoint \<Rightarrow> Inr (journal_checkpoint (fst st), snd st)
   | OpRollback \<Rightarrow> journal_rollback (fst st) (snd st))"

definition spec_do :: "journal_op \<Rightarrow> saved_states \<Rightarrow> 'io branch_error + saved_states" where
  "spec_do oper s = (case oper of
     OpWrite k v \<Rightarrow> Inr (spec_write k v s)
   | OpCheckpoint \<Rightarrow> Inr (spec_checkpoint s)
   | OpRollback \<Rightarrow> ok_or NoFrameToRollback (spec_rollback s))"

text \<open>Runs, an operation that fails leaving the state: the errors, in order, and the final state.\<close>

primrec run_ops :: "('op \<Rightarrow> 's \<Rightarrow> 'e + 's) \<Rightarrow> 'op list \<Rightarrow> 's \<Rightarrow> 'e option list \<times> 's" where
  "run_ops f [] s = ([], s)"
| "run_ops f (x # xs) s = (case f x s of
     Inl e \<Rightarrow> (let (es, s') = run_ops f xs s in (Some e # es, s'))
   | Inr s1 \<Rightarrow> (let (es, s') = run_ops f xs s1 in (None # es, s')))"

definition journal_state_ok :: "journal \<times> entries \<Rightarrow> bool" where
  "journal_state_ok st \<longleftrightarrow> journal_ok (fst st) \<and> om_ok (snd st)"

lemma journal_do_refines:
  assumes "journal_state_ok st"
  shows "case (journal_do oper st :: 'io branch_error + _) of
      Inl e \<Rightarrow> spec_do oper (saved_of (fst st) (snd st)) = Inl e
    | Inr st' \<Rightarrow> journal_state_ok st' \<and> spec_do oper (saved_of (fst st) (snd st)) = (Inr (saved_of (fst st') (snd st')) :: 'io branch_error + _)"
proof (cases oper)
  case (OpWrite k v)
  then show ?thesis
    using record_ok [of "fst st" "snd st" k v] assms
    by (cases "journal_record (fst st) (snd st) k v") (simp add: journal_do_def spec_do_def journal_state_ok_def)
next
  case OpCheckpoint
  then show ?thesis
    using checkpoint_ok(1) [of "fst st"] checkpoint_ok(2) [of "fst st" "snd st"] assms by (simp add: journal_do_def spec_do_def journal_state_ok_def)
next
  case OpRollback
  then show ?thesis
    using rollback_ok [of "fst st" "snd st", where ?'io = 'io] assms
    by (auto simp: journal_do_def spec_do_def journal_state_ok_def split: sum.splits)
qed

lemma run_refines:
  "journal_state_ok st \<Longrightarrow> run_ops journal_do opers st = ((errs :: 'io branch_error option list), st') \<Longrightarrow>
    journal_state_ok st' \<and> run_ops spec_do opers (saved_of (fst st) (snd st)) = (errs, saved_of (fst st') (snd st'))"
proof (induction opers arbitrary: st errs)
  case (Cons oper opers)
  show ?case
    using journal_do_refines [OF Cons.prems(1), of oper, where ?'io = 'io] Cons.prems Cons.IH
    by (auto simp: Let_def split: sum.splits prod.splits)
qed auto

text \<open>C14. The undo journal behaves as a stack of saved states: over any sequence of writes, checkpoints
  and rollbacks on a new branch, the staged cells and every rollback's outcome are those of a
  model that copies the whole cell map at each checkpoint and restores it on rollback. A write
  or checkpoint after a rollback reuses the frame; a rollback straight after another steps to the
  frame before, and fails only when none is left.\<close>

theorem journal_refines_saved_states:
  "case run_ops journal_do opers (journal_default, []) of (errs, j, es) \<Rightarrow>
     journal_ok j \<and> om_ok es \<and>
     run_ops spec_do opers \<lparr>st_current = Map.empty, st_saved = [Map.empty], st_rolled_back = False\<rparr> =
       ((errs :: 'io branch_error option list), saved_of j es)"
proof -
  have start: "journal_state_ok (journal_default, [])"
    "saved_of journal_default [] = \<lparr>st_current = Map.empty, st_saved = [Map.empty], st_rolled_back = False\<rparr>"
    by (simp_all add: journal_state_ok_def journal_default_ok) (simp add: saved_of_def journal_default_def undone_def)
  obtain errs j es where r: "run_ops journal_do opers (journal_default, []) = (errs :: 'io branch_error option list, j, es)"
    by (metis prod.collapse)
  show ?thesis
    using run_refines [OF start(1) r] unfolding r by (simp add: start(2) journal_state_ok_def)
qed

end
