(* ===== verification/Layers.thy ===== *)
theory Layers
  imports Prelude
begin

text \<open>
  An ordered map of staged entries over an ordered map of rows: a staged value replaces the row, a
  staged \<open>None\<close> (a tombstone) hides it. The branch overlay and the seal buffer are both such layers.
\<close>

definition stage :: "'k \<Rightarrow> 'v option \<Rightarrow> ('k, 'v) omap \<Rightarrow> ('k, 'v) omap" where
  "stage k v m = (case v of Some a \<Rightarrow> (k, a) # m | None \<Rightarrow> m)"

fun om_merge :: "('k::linorder, 'v) omap \<Rightarrow> ('k, 'v option) omap \<Rightarrow> ('k, 'v) omap" where
  "om_merge cs [] = cs"
| "om_merge [] ((k, v) # es) = stage k v (om_merge [] es)"
| "om_merge ((l, a) # cs) ((k, v) # es) =
    (if l < k then (l, a) # om_merge cs ((k, v) # es)
     else stage k v (om_merge (if l = k then cs else (l, a) # cs) es))"

definition visible :: "('k \<rightharpoonup> 'v) \<Rightarrow> ('k, 'v option) omap \<Rightarrow> 'k \<rightharpoonup> 'v" where
  "visible c es k = (case om_get es k of Some v \<Rightarrow> v | None \<Rightarrow> c k)"

definition keys_above :: "'k::linorder \<Rightarrow> ('k, 'v) omap \<Rightarrow> bool" where
  "keys_above q m \<longleftrightarrow> (\<forall>k \<in> fst ` set m. q < k)"

lemma keys_above_simps [simp]: "keys_above q []" "keys_above q (e # m) \<longleftrightarrow> q < fst e \<and> keys_above q m"
  by (simp_all add: keys_above_def)

lemma om_ok_above: "om_ok (e # m) \<longleftrightarrow> keys_above (fst e) m \<and> om_ok m"
  by (cases e) (simp add: om_ok_Cons keys_above_def)

lemma keys_above_trans: "keys_above q m \<Longrightarrow> p < q \<Longrightarrow> keys_above p m"
  by (auto simp: keys_above_def)

lemma keys_above_None: "keys_above q m \<Longrightarrow> om_get m q = None"
  unfolding map_of_eq_None_iff keys_above_def by blast

lemma stage_simps:
  "q < k \<Longrightarrow> keys_above q m \<Longrightarrow> keys_above q (stage k v m)"
  "keys_above k m \<Longrightarrow> om_ok m \<Longrightarrow> om_ok (stage k v m)"
  "keys_above k m \<Longrightarrow> om_get (stage k v m) = (om_get m)(k := v)"
  by (auto simp: stage_def om_ok_above fun_eq_iff keys_above_None split: option.split)

lemma merge_above: "keys_above q cs \<Longrightarrow> keys_above q es \<Longrightarrow> keys_above q (om_merge cs es)"
  by (induction cs es rule: om_merge.induct) (auto simp: stage_simps)

lemma visible_staged: "visible c ((k, v) # es) = (visible c es)(k := v)"
  by (auto simp: visible_def fun_eq_iff)

lemma visible_origin: "om_get es k = None \<Longrightarrow> visible (c(k := x)) es = (visible c es)(k := x)"
  by (auto simp: visible_def fun_eq_iff split: option.split)

lemma merge_visible:
  "om_ok cs \<Longrightarrow> om_ok es \<Longrightarrow> om_ok (om_merge cs es) \<and> om_get (om_merge cs es) = visible (om_get cs) es"
proof (induction cs es rule: om_merge.induct)
  case (1 cs)
  then show ?case
    by (simp add: visible_def fun_eq_iff)
next
  case (2 k v es)
  then have "keys_above k (om_merge [] es)"
    by (simp add: merge_above om_ok_above)
  then show ?case
    using 2 by (simp add: stage_simps om_ok_above visible_staged)
next
  case (3 l a cs k v es)
  have ok: "keys_above l cs" "om_ok cs" "keys_above k es" "om_ok es"
    using 3(3,4) by (simp_all add: om_ok_above)
  show ?case
  proof (cases "l < k")
    case True
    then have above: "keys_above l ((k, v) # es)"
      using ok(3) by (simp add: keys_above_trans)
    have "om_get (om_merge ((l, a) # cs) ((k, v) # es)) = (visible (om_get cs) ((k, v) # es))(l \<mapsto> a)"
      using 3(1) [OF True ok(2) 3(4)] True by (auto simp: fun_eq_iff)
    also have "\<dots> = visible (om_get ((l, a) # cs)) ((k, v) # es)"
      using visible_origin [OF keys_above_None [OF above], of "om_get cs" "Some a"] by (simp add: fun_upd_def)
    finally show ?thesis
      using 3(1) [OF True ok(2) 3(4)] True merge_above [OF ok(1) above] by (simp add: om_ok_above fun_upd_def)
  next
    case False
    let ?cs = "if l = k then cs else (l, a) # cs"
    have "om_ok ?cs" "keys_above k ?cs"
      using False ok by (auto simp: om_ok_above keys_above_trans)
    moreover have "(visible (om_get ?cs) es)(k := v) = (visible (om_get ((l, a) # cs)) es)(k := v)"
      by (auto simp: visible_def fun_eq_iff split: option.split)
    ultimately show ?thesis
      using 3(2) [OF False _ ok(4)] False merge_above [OF _ ok(3), of ?cs] by (simp add: stage_simps visible_staged fun_upd_def)
  qed
qed

end
