(* ===== verification/Branch_Scan.thy ===== *)
theory Branch_Scan
  imports Branch_Journal Layers
begin

text \<open>
  \<^verbatim>\<open>crates/branch/src/scan.rs\<close>: the lazy merge of the cells of the origin snapshot with the staged
  entries, over the keys with a given byte prefix. \<^verbatim>\<open>Peekable<Scan<C>>\<close> is a scan with the item that was
  peeked; the peekable range over the staged entries is the list of those that remain.
\<close>

section \<open>The merge\<close>

record 'cur peek_scan =
  pk_scan :: "'cur scan"
  pk_item :: "(storage_error + entry) option option"

definition pk_peek ::
  "('tx, 'cur, 'z) read_ops_scheme \<Rightarrow> 'cur peek_scan \<Rightarrow> (storage_error + entry) option \<times> 'cur peek_scan" where
  "pk_peek ops p = (case pk_item p of
     Some item \<Rightarrow> (item, p)
   | None \<Rightarrow> (let (item, s) = scan_next ops (pk_scan p) in (item, \<lparr>pk_scan = s, pk_item = Some item\<rparr>)))"

definition pk_next ::
  "('tx, 'cur, 'z) read_ops_scheme \<Rightarrow> 'cur peek_scan \<Rightarrow> (storage_error + entry) option \<times> 'cur peek_scan" where
  "pk_next ops p = (case pk_item p of
     Some item \<Rightarrow> (item, p\<lparr>pk_item := None\<rparr>)
   | None \<Rightarrow> (let (item, s) = scan_next ops (pk_scan p) in (item, p\<lparr>pk_scan := s\<rparr>)))"

record 'cur branch_scan =
  bs_origin :: "'cur peek_scan"
  bs_overlay :: entries
  bs_done :: bool

text \<open>\<^verbatim>\<open>lower_key\<close>: the padded bound has at least eight bytes, so that decoding it succeeds.\<close>

definition pad_key :: "bytes \<Rightarrow> bytes" where
  "pad_key bs = bs @ replicate (8 - length bs) 0"

definition lower_key :: "bytes \<Rightarrow> cell_key" where
  "lower_key bs = projr (key_decode (pad_key bs))"

definition prefix_end :: "bytes \<Rightarrow> cell_key bound" where
  "prefix_end pre = (case rposition (\<lambda>b. b \<noteq> 0xFF) pre of
     Some i \<Rightarrow> Excluded (lower_key (take (i + 1) (pre[i := pre ! i + 1])))
   | None \<Rightarrow> Unbounded)"

definition branch_scan_new ::
  "('tx, 'cur, 'z) read_ops_scheme \<Rightarrow> 'tx \<Rightarrow> entries \<Rightarrow> bytes \<Rightarrow> 'io branch_error + 'cur branch_scan" where
  "branch_scan_new ops origin es pre =
    attempt (map_err BranchStorage (scan_prefix ops origin CELL pre)) (\<lambda>s.
      Inr \<lparr>bs_origin = \<lparr>pk_scan = s, pk_item = None\<rparr>,
        bs_overlay = filter (\<lambda>(k, _). lower_key pre \<le> k \<and> below_bound (prefix_end pre) k) es, bs_done = False\<rparr>)"

definition decode_cell :: "entry \<Rightarrow> 'io branch_error + (cell_key \<times> cell_value)" where
  "decode_cell row =
    attempt (map_err BranchKey (key_decode (fst row))) (\<lambda>k.
    attempt (map_err BranchValue (cv_parse (snd row))) (\<lambda>v. Inr (k, v)))"

text \<open>\<^verbatim>\<open>advance\<close>: each turn of its loop returns or takes a staged entry.\<close>

function branch_scan_advance ::
  "('tx, 'cur, 'z) read_ops_scheme \<Rightarrow> 'cur branch_scan \<Rightarrow>
    ('io branch_error + (cell_key \<times> cell_value) option) \<times> 'cur branch_scan" where
  "branch_scan_advance ops s =
    (let (item, org) = pk_peek ops (bs_origin s) in
     case (item, bs_overlay s) of
       (Some (Inl e), _) \<Rightarrow> (Inl (BranchStorage e), s\<lparr>bs_origin := snd (pk_next ops org)\<rparr>)
     | (None, []) \<Rightarrow> (Inr None, s\<lparr>bs_origin := org\<rparr>)
     | (Some (Inr row), []) \<Rightarrow>
         (attempt (decode_cell row) (\<lambda>c. Inr (Some c)), s\<lparr>bs_origin := snd (pk_next ops org)\<rparr>)
     | (None, (k, v) # rest) \<Rightarrow>
         (case v of
            Some value \<Rightarrow> (Inr (Some (k, value)), s\<lparr>bs_origin := org, bs_overlay := rest\<rparr>)
          | None \<Rightarrow> branch_scan_advance ops (s\<lparr>bs_origin := org, bs_overlay := rest\<rparr>))
     | (Some (Inr row), (k, v) # rest) \<Rightarrow>
         if fst row < key_encode k then
           (attempt (decode_cell row) (\<lambda>c. Inr (Some c)), s\<lparr>bs_origin := snd (pk_next ops org)\<rparr>)
         else
           let s' = s\<lparr>bs_origin := (if fst row = key_encode k then snd (pk_next ops org) else org), bs_overlay := rest\<rparr> in
           (case v of
              Some value \<Rightarrow> (Inr (Some (k, value)), s')
            | None \<Rightarrow> branch_scan_advance ops s'))"
  by pat_completeness auto

termination
  by (relation "measure (\<lambda>(ops, s). length (bs_overlay s))") (auto dest: sym [of _ "bs_overlay _"])

declare branch_scan_advance.simps [simp del]

definition branch_scan_next ::
  "('tx, 'cur, 'z) read_ops_scheme \<Rightarrow> 'cur branch_scan \<Rightarrow>
    ('io branch_error + (cell_key \<times> cell_value)) option \<times> 'cur branch_scan" where
  "branch_scan_next ops s =
    (if bs_done s then (None, s)
     else case branch_scan_advance ops s of
       (Inr (Some row), s') \<Rightarrow> (Some (Inr row), s')
     | (Inr None, s') \<Rightarrow> (None, s'\<lparr>bs_done := True\<rparr>)
     | (Inl e, s') \<Rightarrow> (Some (Inl e), s'\<lparr>bs_done := True\<rparr>))"

text \<open>The items the iterator yields until it is exhausted; a consumer that stops early sees a prefix of them.\<close>

partial_function (option) branch_scan_items ::
  "('tx, 'cur, 'z) read_ops_scheme \<Rightarrow> 'cur branch_scan \<Rightarrow> ('io branch_error + (cell_key \<times> cell_value)) list option" where
  "branch_scan_items ops s =
    (case branch_scan_next ops s of
       (None, _) \<Rightarrow> Some []
     | (Some item, s') \<Rightarrow> Option.bind (branch_scan_items ops s') (\<lambda>items. Some (item # items)))"

section \<open>The range of staged keys\<close>

lemma zeros_le: "replicate n (0 :: byte) \<le> r" if "n \<le> length r"
  using that
proof (induction n arbitrary: r)
  case (Suc n)
  then obtain b r' where r: "r = b # r'" "n \<le> length r'"
    by (cases r) auto
  then show ?case
    using Suc.IH [of r'] word_gt_0 [of b] by (cases "b = 0") auto
qed simp

lemma append_zeros_le: "p \<le> x \<Longrightarrow> length p + n \<le> length x \<Longrightarrow> p @ replicate n (0 :: byte) \<le> x"
proof (induction p arbitrary: x)
  case Nil
  then show ?case
    by (simp add: zeros_le)
next
  case (Cons b p)
  then show ?case
    by (cases x) auto
qed

lemma pad_key_le: "8 \<le> length x \<Longrightarrow> pad_key p \<le> x \<longleftrightarrow> p \<le> x"
  using append_zeros_le [of p x "8 - length p"] list_le_append [of p "replicate (8 - length p) 0"]
  by (cases "length p \<le> 8") (auto simp: pad_key_def)

lemma encode_lower: "key_encode (lower_key p) = pad_key p"
proof -
  have "8 \<le> length (pad_key p)"
    by (simp add: pad_key_def)
  then obtain k where "key_decode (pad_key p) = Inr k"
    by (simp add: key_decode_def)
  then show ?thesis
    using key_encode_decode by (simp add: lower_key_def)
qed

lemma key_encode_le [simp]: "key_encode k \<le> key_encode l \<longleftrightarrow> k \<le> l"
  by (simp add: le_less)

lemma encode_length: "8 \<le> length (key_encode k)"
  by (simp add: key_encode_eq)

lemma lower_key_le: "lower_key p \<le> k \<longleftrightarrow> p \<le> key_encode k"
  using pad_key_le [OF encode_length] by (simp add: encode_lower flip: key_encode_le)

text \<open>The successor of a prefix, as the term ranges compute it.\<close>

lemma rposition_snoc: "rposition P (xs @ [x]) = (if P x then Some (length xs) else rposition P xs)"
  by (simp add: rposition_def option.map_comp comp_def)

lemma rposition_less: "rposition P xs = Some i \<Longrightarrow> i < length xs"
  by (induction xs rule: rev_induct) (auto simp: rposition_snoc rposition_def split: if_splits)

lemma prefix_end_snoc:
  "prefix_end (p @ [b]) = (if b \<noteq> 0xFF then Excluded (lower_key (p @ [b + 1])) else prefix_end p)"
  by (auto simp: prefix_end_def rposition_snoc nth_append list_update_append dest: rposition_less split: option.split)

lemma below_prefix_end: "below_bound (prefix_end p) k \<longleftrightarrow> below_bound (past p) (key_encode k)"
proof (induction p rule: rev_induct)
  case Nil
  then show ?case
    by (simp add: prefix_end_def past.simps rposition_def below_bound_def)
next
  case (snoc b p)
  have "k < lower_key q \<longleftrightarrow> key_encode k < q" for q
    using lower_key_le [of q k] by (simp add: not_le [symmetric])
  then show ?case
    using snoc.IH by (subst past.simps) (simp add: prefix_end_snoc below_bound_def)
qed

lemma staged_range: "lower_key p \<le> k \<and> below_bound (prefix_end p) k \<longleftrightarrow> prefix p (key_encode k)"
  by (simp add: lower_key_le below_prefix_end prefix_past)

section \<open>The scan is the merge\<close>

lemma scan_collect_Nil: "scan_collect ops s = Some (Inr []) \<Longrightarrow> fst (scan_next ops s) = None"
  by (subst (asm) scan_collect.simps) (auto simp: try_simps split: prod.splits option.splits sum.splits bind_splits)

lemma scan_collect_Cons:
  "scan_collect ops s = Some (Inr (row # rows)) \<Longrightarrow> \<exists>s'. scan_next ops s = (Some (Inr row), s') \<and> scan_collect ops s' = Some (Inr rows)"
  by (subst (asm) scan_collect.simps) (auto simp: try_simps split: prod.splits option.splits sum.splits bind_splits)

definition cell_entry :: "cell_key \<times> cell_value \<Rightarrow> entry" where
  "cell_entry c = (key_encode (fst c), cv_bytes (snd c))"

lemma decode_cell_entry: "cv_ok (snd c) \<Longrightarrow> decode_cell (cell_entry c) = Inr c"
  by (simp add: decode_cell_def cell_entry_def cv_ok_def)

text \<open>What the origin side still holds.\<close>

definition origin_left :: "('tx, 'cur, 'z) read_ops_scheme \<Rightarrow> 'cur peek_scan \<Rightarrow> (cell_key, cell_value) omap \<Rightarrow> bool" where
  "origin_left ops p cs \<longleftrightarrow> (\<forall>c \<in> set cs. cv_ok (snd c)) \<and> (case pk_item p of
     None \<Rightarrow> scan_collect ops (pk_scan p) = Some (Inr (map cell_entry cs))
   | Some None \<Rightarrow> cs = []
   | Some (Some (Inl _)) \<Rightarrow> False
   | Some (Some (Inr row)) \<Rightarrow> \<exists>c cs'. cs = c # cs' \<and> row = cell_entry c \<and>
       scan_collect ops (pk_scan p) = Some (Inr (map cell_entry cs')))"

lemma origin_peek:
  assumes "origin_left ops p cs"
  shows "\<exists>p'. pk_peek ops p = (case cs of [] \<Rightarrow> None | c # _ \<Rightarrow> Some (Inr (cell_entry c)), p') \<and> origin_left ops p' cs \<and>
    (\<forall>c cs'. cs = c # cs' \<longrightarrow> origin_left ops (snd (pk_next ops p')) cs')"
proof (cases cs)
  case Nil
  then have "\<exists>p'. pk_peek ops p = (None, p') \<and> origin_left ops p' []"
    using assms scan_collect_Nil [of ops "pk_scan p"]
    by (auto simp: pk_peek_def origin_left_def split: option.splits sum.splits prod.splits)
  then show ?thesis
    using Nil by auto
next
  case (Cons c cs')
  then have "\<exists>p'. pk_peek ops p = (Some (Inr (cell_entry c)), p') \<and> origin_left ops p' cs \<and> origin_left ops (snd (pk_next ops p')) cs'"
    using assms scan_collect_Cons [of ops "pk_scan p"]
    by (fastforce simp: pk_peek_def pk_next_def origin_left_def split: option.splits sum.splits prod.splits)
  then show ?thesis
    using Cons by auto
qed

definition advance_gives ::
  "('tx, 'cur, 'z) read_ops_scheme \<Rightarrow> bool \<Rightarrow> (cell_key, cell_value) omap \<Rightarrow> ('io branch_error + (cell_key \<times> cell_value) option) \<times> 'cur branch_scan \<Rightarrow> bool" where
  "advance_gives ops dn rows r \<longleftrightarrow> (case rows of
      [] \<Rightarrow> fst r = Inr None
    | c # rest \<Rightarrow> fst r = Inr (Some c) \<and> bs_done (snd r) = dn \<and>
        (\<exists>cs'. origin_left ops (bs_origin (snd r)) cs' \<and> om_merge cs' (bs_overlay (snd r)) = rest))"

lemma advance_merge:
  assumes "origin_left ops (bs_origin s) cs"
  shows "advance_gives ops (bs_done s) (om_merge cs (bs_overlay s)) (branch_scan_advance ops s :: ('io branch_error + _) \<times> _)"
  using assms
proof (induction "bs_overlay s" arbitrary: s cs)
  case Nil
  obtain p' where p': "pk_peek ops (bs_origin s) = (case cs of [] \<Rightarrow> None | c # _ \<Rightarrow> Some (Inr (cell_entry c)), p')"
    "\<And>c cs'. cs = c # cs' \<Longrightarrow> origin_left ops (snd (pk_next ops p')) cs'"
    using origin_peek [OF Nil(2)] by blast
  have "cs = c # cs' \<Longrightarrow> cv_ok (snd c)" for c cs'
    using Nil(2) by (simp add: origin_left_def)
  then show ?case
    using p' Nil(1) [symmetric]
    by (cases cs) (auto simp: branch_scan_advance.simps [of ops s] decode_cell_entry advance_gives_def)
next
  case (Cons e es)
  obtain k v where e: "e = (k, v)"
    by (cases e)
  have ov: "bs_overlay s = (k, v) # es"
    using Cons(2) e by simp
  obtain p' where p': "pk_peek ops (bs_origin s) = (case cs of [] \<Rightarrow> None | c # _ \<Rightarrow> Some (Inr (cell_entry c)), p')" "origin_left ops p' cs"
    "\<And>c cs'. cs = c # cs' \<Longrightarrow> origin_left ops (snd (pk_next ops p')) cs'"
    using origin_peek [OF Cons(3)] by blast
  have step: "advance_gives ops (bs_done s) (stage k v (om_merge cs1 es))
      (case v of None \<Rightarrow> branch_scan_advance ops (s\<lparr>bs_origin := p1, bs_overlay := es\<rparr>)
        | Some a \<Rightarrow> (Inr (Some (k, a)) :: 'io branch_error + _, s\<lparr>bs_origin := p1, bs_overlay := es\<rparr>))"
    if "origin_left ops p1 cs1" for p1 cs1
    using Cons(1) [of "s\<lparr>bs_origin := p1, bs_overlay := es\<rparr>" cs1] that
    by (cases v) (auto simp: stage_def advance_gives_def)
  show ?case
  proof (cases cs)
    case Nil
    then show ?thesis
      using p'(1,2) step [of p' "[]"] by (simp add: branch_scan_advance.simps [of ops s] ov cong: option.case_cong)
  next
    case (Cons c cs')
    obtain l a where c: "c = (l, a)"
      by (cases c)
    have "cv_ok a"
      using p'(2) Cons c by (simp add: origin_left_def)
    then have dec: "decode_cell (cell_entry c) = (Inr c :: 'io branch_error + _)"
      by (simp add: decode_cell_entry c)
    have rest: "origin_left ops (snd (pk_next ops p')) cs'"
      using p'(3) Cons .
    consider "l < k" | "l = k" | "k < l"
      by fastforce
    then show ?thesis
    proof cases
      case 1
      then show ?thesis
        using p'(1) rest dec
        by (auto simp: branch_scan_advance.simps [of ops s] ov Cons c advance_gives_def cell_entry_def)
    next
      case 2
      then show ?thesis
        using p'(1) step [OF rest]
        by (simp add: branch_scan_advance.simps [of ops s] ov Cons c cell_entry_def Let_def)
    next
      case 3
      then have "l \<noteq> k" "\<not> l < k"
        by auto
      then show ?thesis
        using p'(1) step [OF p'(2)]
        by (simp add: branch_scan_advance.simps [of ops s] ov Cons c cell_entry_def Let_def)
    qed
  qed
qed

lemma items_merge:
  assumes "origin_left ops (bs_origin s) cs" "\<not> bs_done s"
  shows "branch_scan_items ops s = Some (map Inr (om_merge cs (bs_overlay s)) :: ('io branch_error + _) list)"
  using assms
proof (induction "om_merge cs (bs_overlay s)" arbitrary: s cs)
  case Nil
  then show ?case
    using advance_merge [OF Nil(2), where ?'io = 'io]
    by (subst branch_scan_items.simps)
      (auto simp: branch_scan_next_def advance_gives_def split: prod.splits)
next
  case (Cons c rest)
  obtain s' cs' where s': "branch_scan_advance ops s = (Inr (Some c) :: 'io branch_error + _, s')" "\<not> bs_done s'"
      "origin_left ops (bs_origin s') cs'" "rest = om_merge cs' (bs_overlay s')"
    using advance_merge [OF Cons(3), where ?'io = 'io] Cons(4) unfolding Cons(2) [symmetric] advance_gives_def
    by (cases "branch_scan_advance ops s :: ('io branch_error + _) \<times> _") auto
  then show ?case
    using Cons(1) [OF s'(4,3,2)] Cons(4) unfolding Cons(2) [symmetric] by (subst branch_scan_items.simps) (simp add: branch_scan_next_def)
qed

section \<open>Scanning a branch\<close>

lemma cell_rows_entries:
  assumes "om_ok rs" "cell_rows c rs"
  shows "\<exists>cs. filter (\<lambda>e. prefix p (fst e)) rs = map cell_entry cs \<and> (\<forall>e \<in> set cs. cv_ok (snd e)) \<and> om_ok cs \<and>
    (\<forall>k. om_get cs k = (if prefix p (key_encode k) then c k else None))"
proof -
  let ?rs = "filter (\<lambda>e. prefix p (fst e)) rs"
  define cs where "cs = map (\<lambda>e. projr (decode_cell e :: unit branch_error + _)) ?rs"
  have ok: "om_ok ?rs"
    using assms(1) by simp
  have decode: "\<exists>d. e = cell_entry d \<and> cv_ok (snd d) \<and> c (fst d) = Some (snd d)" if "e \<in> set rs" for e
  proof -
    have "om_get rs (fst e) = Some (snd e)"
      using om_get_iff [OF assms(1)] that by (simp add: prod.collapse)
    then obtain k v where "key_decode (fst e) = Inr k" "c k = Some v" "snd e = cv_bytes v"
      using assms(2) by (auto simp: cell_rows_def split: sum.splits)
    moreover from this have "cv_ok v"
      using assms(2) by (auto simp: cell_rows_def ran_def)
    ultimately show ?thesis
      by (intro exI [of _ "(k, v)"]) (auto simp: cell_entry_def key_decode_iff prod_eq_iff)
  qed
  have each: "cell_entry (projr (decode_cell e :: unit branch_error + _)) = e \<and>
      cv_ok (snd (projr (decode_cell e :: unit branch_error + _)))" if "e \<in> set rs" for e
    using decode [OF that] by (auto simp: decode_cell_entry)
  have map: "?rs = map cell_entry cs"
    unfolding cs_def using each by (auto simp: comp_def intro!: map_idI [symmetric])
  have valid: "\<forall>e \<in> set cs. cv_ok (snd e)"
    unfolding cs_def using each by auto
  have "sorted_wrt (<) (map (\<lambda>d. key_encode (fst d)) cs)"
    using ok unfolding map om_ok_def by (simp add: cell_entry_def comp_def)
  then have oks: "om_ok cs"
    by (simp add: om_ok_def sorted_wrt_map)
  have "om_get cs k = Some v \<longleftrightarrow> prefix p (key_encode k) \<and> c k = Some v" for k v
  proof -
    have "om_get cs k = Some v \<longleftrightarrow> (k, v) \<in> set cs"
      by (rule om_get_iff [OF oks])
    also have "\<dots> \<longleftrightarrow> cv_ok v \<and> cell_entry (k, v) \<in> set ?rs"
    proof
      assume "(k, v) \<in> set cs"
      then show "cv_ok v \<and> cell_entry (k, v) \<in> set ?rs"
        unfolding map using valid by auto
    next
      assume r: "cv_ok v \<and> cell_entry (k, v) \<in> set ?rs"
      then have "projr (decode_cell (cell_entry (k, v)) :: unit branch_error + _) = (k, v)"
        by (simp add: decode_cell_entry)
      then show "(k, v) \<in> set cs"
        unfolding cs_def using r by force
    qed
    also have "\<dots> \<longleftrightarrow> prefix p (key_encode k) \<and> c k = Some v"
      using om_get_iff [OF assms(1), of "key_encode k" "cv_bytes v"] cell_rows_get [OF assms(2), of k] assms(2)
      by (auto simp: cell_entry_def cell_rows_def ran_def cv_ok_def)
    finally show ?thesis .
  qed
  then have "om_get cs k = (if prefix p (key_encode k) then c k else None)" for k
    by (cases "om_get cs k"; cases "c k") (auto, metis option.distinct(1))
  then show ?thesis
    using map valid oks by blast
qed

context read_tx
begin

lemma branch_scan_law:
  assumes "tx_ok tx" "cell_rows c (view tx CELL)" "om_ok es"
  shows "\<exists>s rows. branch_scan_new ops tx es p = (Inr s :: 'io branch_error + _) \<and>
    branch_scan_items ops s = Some (map Inr rows :: ('io branch_error + _) list) \<and> om_ok rows \<and>
    (\<forall>k. om_get rows k = (if prefix p (key_encode k) then visible c es k else None))"
proof -
  obtain sc where sc: "scan_prefix ops tx CELL p = Inr sc"
      "scan_collect ops sc = Some (Inr (filter (\<lambda>e. prefix p (fst e)) (view tx CELL)))"
    using scan_prefix_rows [OF assms(1) table_names(1)] by blast
  obtain cs where cs: "filter (\<lambda>e. prefix p (fst e)) (view tx CELL) = map cell_entry cs" "\<forall>e \<in> set cs. cv_ok (snd e)"
      "om_ok cs" "\<forall>k. om_get cs k = (if prefix p (key_encode k) then c k else None)"
    using cell_rows_entries [OF view_ok [OF assms(1)] assms(2)] by blast
  define es' where "es' = filter (\<lambda>(k, _). lower_key p \<le> k \<and> below_bound (prefix_end p) k) es"
  let ?s = "\<lparr>bs_origin = \<lparr>pk_scan = sc, pk_item = None\<rparr>, bs_overlay = es', bs_done = False\<rparr>"
  have es': "om_ok es'" "es' = filter (\<lambda>e. prefix p (key_encode (fst e))) es"
    using assms(3) by (simp_all add: es'_def staged_range case_prod_unfold)
  have "om_get es' k = (if prefix p (key_encode k) then om_get es k else None)" for k
    unfolding es'(2) by (induction es) auto
  then have "visible (om_get cs) es' k = (if prefix p (key_encode k) then visible c es k else None)" for k
    using cs(4) by (auto simp: visible_def split: option.split)
  moreover have "branch_scan_new ops tx es p = (Inr ?s :: 'io branch_error + _)"
    by (simp add: branch_scan_new_def sc(1) es'_def)
  moreover have "branch_scan_items ops ?s = Some (map Inr (om_merge cs es') :: ('io branch_error + _) list)"
    using items_merge [of ops ?s cs] sc(2) cs(1,2) by (simp add: origin_left_def)
  ultimately show ?thesis
    using merge_visible [OF cs(3) es'(1)] by auto
qed

end

end
