(* ===== verification/Branch_Overlay.thy ===== *)
theory Branch_Overlay
  imports Branch_Scan
begin

text \<open>
  \<^verbatim>\<open>crates/branch/src/overlay.rs\<close>: the staged cells of a branch over its origin snapshot. The callback of a
  write group is a program over the operations that \<^verbatim>\<open>CellWrite\<close> offers: it reads cells, scans
  prefixes, puts and deletes, and ends with a result, an error or a panic.
\<close>

section \<open>The overlay\<close>

record overlay =
  ov_entries :: entries
  ov_journal :: journal

definition overlay_new :: overlay where
  "overlay_new = \<lparr>ov_entries = [], ov_journal = journal_default\<rparr>"

definition overlay_version :: "overlay \<Rightarrow> u64" where
  "overlay_version ov = journal_version (ov_journal ov)"

definition overlay_get ::
  "('tx, 'cur, 'z) read_ops_scheme \<Rightarrow> 'tx \<Rightarrow> overlay \<Rightarrow> cell_key \<Rightarrow> 'io branch_error + cell_value option" where
  "overlay_get ops origin ov key = (case om_get (ov_entries ov) key of
     Some value \<Rightarrow> Inr value
   | None \<Rightarrow>
       attempt (map_err BranchStorage (tx_get ops origin CELL (key_encode key))) (\<lambda>row. case row of
         None \<Rightarrow> Inr None
       | Some bs \<Rightarrow> attempt (map_err BranchValue (cv_parse bs)) (\<lambda>v. Inr (Some v))))"

definition overlay_scan_prefix ::
  "('tx, 'cur, 'z) read_ops_scheme \<Rightarrow> 'tx \<Rightarrow> overlay \<Rightarrow> bytes \<Rightarrow> 'io branch_error + 'cur branch_scan" where
  "overlay_scan_prefix ops origin ov pre = branch_scan_new ops origin (ov_entries ov) pre"

text \<open>\<^verbatim>\<open>CellWrite::set\<close>, \<^verbatim>\<open>put\<close> and \<^verbatim>\<open>delete\<close>\<close>

definition overlay_set :: "overlay \<Rightarrow> cell_key \<Rightarrow> cell_value option \<Rightarrow> overlay" where
  "overlay_set ov key value =
    (let (j, es) = journal_record (ov_journal ov) (ov_entries ov) key value in \<lparr>ov_entries = es, ov_journal = j\<rparr>)"

definition overlay_put :: "overlay \<Rightarrow> cell_key \<Rightarrow> cell_value \<Rightarrow> overlay" where
  "overlay_put ov key value = overlay_set ov key (Some value)"

definition overlay_delete :: "overlay \<Rightarrow> cell_key \<Rightarrow> overlay" where
  "overlay_delete ov key = overlay_set ov key None"

definition overlay_checkpoint :: "overlay \<Rightarrow> overlay" where
  "overlay_checkpoint ov = ov\<lparr>ov_journal := journal_checkpoint (ov_journal ov)\<rparr>"

definition overlay_rollback :: "overlay \<Rightarrow> 'io branch_error + overlay" where
  "overlay_rollback ov =
    attempt (journal_rollback (ov_journal ov) (ov_entries ov)) (\<lambda>(j, es). Inr \<lparr>ov_entries = es, ov_journal = j\<rparr>)"

definition overlay_changes :: "overlay \<Rightarrow> cell_change list" where
  "overlay_changes ov = map (\<lambda>(key, value). case value of Some v \<Rightarrow> CellPut key v | None \<Rightarrow> CellDelete key) (ov_entries ov)"

section \<open>Callbacks\<close>

text \<open>A scan hands all its items to the program: while the scan is borrowed the overlay
  cannot change, so that a callback which stops early looks at a prefix of them.\<close>

datatype ('io, 'e, 'a) cell_program =
    Finish "'e + 'a"
  | Unwind
  | GetCell cell_key "'io branch_error + cell_value option \<Rightarrow> ('io, 'e, 'a) cell_program"
  | ScanCells bytes "('io branch_error + ('io branch_error + (cell_key \<times> cell_value)) list) option \<Rightarrow> ('io, 'e, 'a) cell_program"
  | PutCell cell_key cell_value "('io, 'e, 'a) cell_program"
  | DeleteCell cell_key "('io, 'e, 'a) cell_program"

datatype ('e, 'a) callback_result = Returned "'e + 'a" | Panicked

definition scan_outcome ::
  "('tx, 'cur, 'z) read_ops_scheme \<Rightarrow> 'tx \<Rightarrow> overlay \<Rightarrow> bytes \<Rightarrow>
    ('io branch_error + ('io branch_error + (cell_key \<times> cell_value)) list) option" where
  "scan_outcome ops origin ov pre = (case overlay_scan_prefix ops origin ov pre of
     Inl e \<Rightarrow> Some (Inl e) | Inr s \<Rightarrow> map_option Inr (branch_scan_items ops s))"

primrec run_program ::
  "('tx, 'cur, 'z) read_ops_scheme \<Rightarrow> 'tx \<Rightarrow> ('io, 'e, 'a) cell_program \<Rightarrow> overlay \<Rightarrow> ('e, 'a) callback_result \<times> overlay" where
  "run_program ops origin (Finish r) ov = (Returned r, ov)"
| "run_program ops origin Unwind ov = (Panicked, ov)"
| "run_program ops origin (GetCell k f) ov = run_program ops origin (f (overlay_get ops origin ov k)) ov"
| "run_program ops origin (ScanCells p f) ov = run_program ops origin (f (scan_outcome ops origin ov p)) ov"
| "run_program ops origin (PutCell k v p) ov = run_program ops origin p (overlay_put ov k v)"
| "run_program ops origin (DeleteCell k p) ov = run_program ops origin p (overlay_delete ov k)"

text \<open>\<^verbatim>\<open>CellOverlay::write\<close> with \<^verbatim>\<open>Drop for CellWrite\<close>: an error or a panic drops the writer before it
  is marked as completed, which rewinds the journal.\<close>

definition overlay_rewind :: "overlay \<Rightarrow> write_mark \<Rightarrow> overlay" where
  "overlay_rewind ov mark =
    (let (j, es) = journal_rewind (ov_journal ov) (ov_entries ov) mark in \<lparr>ov_entries = es, ov_journal = j\<rparr>)"

definition overlay_write ::
  "('tx, 'cur, 'z) read_ops_scheme \<Rightarrow> 'tx \<Rightarrow> ('io, 'e, 'a) cell_program \<Rightarrow> overlay \<Rightarrow> ('e, 'a) callback_result \<times> overlay" where
  "overlay_write ops origin oper ov =
    (let mark = journal_mark (ov_journal ov);
         (result, ov') = run_program ops origin oper ov in
     case result of
       Returned (Inr a) \<Rightarrow> (result, ov')
     | _ \<Rightarrow> (result, overlay_rewind ov' mark))"

section \<open>Write groups are atomic\<close>

definition overlay_ok :: "overlay \<Rightarrow> bool" where
  "overlay_ok ov \<longleftrightarrow> journal_ok (ov_journal ov) \<and> om_ok (ov_entries ov)"

text \<open>Every value that is staged, or that a rollback would stage again, is a well-formed cell.\<close>

definition staged_ok :: "overlay \<Rightarrow> bool" where
  "staged_ok ov \<longleftrightarrow> (\<forall>k v. om_get (ov_entries ov) k = Some (Some v) \<longrightarrow> cv_ok v) \<and>
    (\<forall>e \<in> set (jn_undo (ov_journal ov)). \<forall>v. ue_previous e = Some (Some v) \<longrightarrow> cv_ok v)"

primrec program_ok :: "('io, 'e, 'a) cell_program \<Rightarrow> bool" where
  "program_ok (Finish r) \<longleftrightarrow> True"
| "program_ok Unwind \<longleftrightarrow> True"
| "program_ok (GetCell k f) \<longleftrightarrow> (\<forall>r. program_ok (f r))"
| "program_ok (ScanCells p f) \<longleftrightarrow> (\<forall>r. program_ok (f r))"
| "program_ok (PutCell k v p) \<longleftrightarrow> cv_ok v \<and> program_ok p"
| "program_ok (DeleteCell k p) \<longleftrightarrow> program_ok p"

text \<open>What a group may do before it ends: write more, on top of the journal it found.\<close>

definition overlay_extends :: "overlay \<Rightarrow> overlay \<Rightarrow> bool" where
  "overlay_extends ov ov' \<longleftrightarrow>
    jn_frames (ov_journal ov') = jn_frames (ov_journal ov) \<and> om_ok (ov_entries ov') \<and>
    take (length (jn_undo (ov_journal ov))) (jn_undo (ov_journal ov')) = jn_undo (ov_journal ov) \<and>
    length (jn_undo (ov_journal ov)) \<le> length (jn_undo (ov_journal ov')) \<and>
    undone (ov_journal ov') (ov_entries ov') (length (jn_undo (ov_journal ov))) = ov_entries ov"

lemma overlay_extends_refl: "om_ok (ov_entries ov) \<Longrightarrow> overlay_extends ov ov"
  by (simp add: overlay_extends_def undone_def)

lemma overlay_extends_set:
  assumes "overlay_extends ov ov'"
  shows "overlay_extends ov (overlay_set ov' k v)"
  using assms undo_write [of "ov_entries ov'" k v]
  by (auto simp: overlay_extends_def overlay_set_def journal_record_def undone_def Let_def)

lemma run_program_extends: "overlay_extends ov ov' \<Longrightarrow> overlay_extends ov (snd (run_program ops origin oper ov'))"
  by (induction oper arbitrary: ov') (simp_all add: overlay_put_def overlay_delete_def overlay_extends_set)

lemma overlay_rewind_extends: "overlay_extends ov ov' \<Longrightarrow> overlay_rewind ov' (journal_mark (ov_journal ov)) = ov"
  by (cases ov; cases "ov_journal ov"; cases "ov_journal ov'")
    (simp add: overlay_rewind_def overlay_extends_def journal_mark_def rewind_mark)

lemma overlay_write_atomic:
  assumes "om_ok (ov_entries ov)" "overlay_write ops origin oper ov = (result, ov')" "\<nexists>a. result = Returned (Inr a)"
  shows "ov' = ov"
  using assms overlay_rewind_extends [OF run_program_extends [OF overlay_extends_refl], of ov ops origin oper]
  by (cases "run_program ops origin oper ov") (auto simp: overlay_write_def Let_def split: callback_result.splits sum.splits)

section \<open>What a group does\<close>

definition cells_under :: "bytes \<Rightarrow> (cell_key \<rightharpoonup> cell_value) \<Rightarrow> (cell_key \<times> cell_value) list" where
  "cells_under p c = map (\<lambda>k. (k, the (c k))) (sorted_list_of_set {k \<in> dom c. prefix p (key_encode k)})"

text \<open>The specification of a callback: it reads and writes the visible cells directly.\<close>

primrec spec_program ::
  "('io, 'e, 'a) cell_program \<Rightarrow> (cell_key \<rightharpoonup> cell_value) \<Rightarrow> ('e, 'a) callback_result \<times> (cell_key \<rightharpoonup> cell_value)" where
  "spec_program (Finish r) c = (Returned r, c)"
| "spec_program Unwind c = (Panicked, c)"
| "spec_program (GetCell k f) c = spec_program (f (Inr (c k))) c"
| "spec_program (ScanCells p f) c = spec_program (f (Some (Inr (map Inr (cells_under p c))))) c"
| "spec_program (PutCell k v p) c = spec_program p (c(k \<mapsto> v))"
| "spec_program (DeleteCell k p) c = spec_program p (c(k := None))"

lemma overlay_set_ok:
  assumes "overlay_ok ov"
  shows "overlay_ok (overlay_set ov k v)" "om_get (ov_entries (overlay_set ov k v)) = (om_get (ov_entries ov))(k \<mapsto> v)"
    "staged_ok ov \<Longrightarrow> pred_option cv_ok v \<Longrightarrow> staged_ok (overlay_set ov k v)"
proof -
  show "overlay_ok (overlay_set ov k v)"
    using record_ok [of "ov_journal ov" "ov_entries ov" k v] assms
    by (cases "journal_record (ov_journal ov) (ov_entries ov) k v") (simp add: overlay_ok_def overlay_set_def)
  show "om_get (ov_entries (overlay_set ov k v)) = (om_get (ov_entries ov))(k \<mapsto> v)"
    by (auto simp: overlay_set_def journal_record_def Let_def fun_upd_idem)
  show "staged_ok (overlay_set ov k v)" if "staged_ok ov" "pred_option cv_ok v"
    using that by (auto simp: staged_ok_def overlay_set_def journal_record_def Let_def split: if_splits)
qed

lemma run_program_ok:
  "overlay_ok ov \<Longrightarrow> overlay_ok (snd (run_program ops origin oper ov))"
  "overlay_ok ov \<Longrightarrow> staged_ok ov \<Longrightarrow> program_ok oper \<Longrightarrow> staged_ok (snd (run_program ops origin oper ov))"
proof -
  show "overlay_ok ov \<Longrightarrow> overlay_ok (snd (run_program ops origin oper ov))"
    by (induction oper arbitrary: ov) (simp_all add: overlay_put_def overlay_delete_def overlay_set_ok)
  show "overlay_ok ov \<Longrightarrow> staged_ok ov \<Longrightarrow> program_ok oper \<Longrightarrow> staged_ok (snd (run_program ops origin oper ov))"
    by (induction oper arbitrary: ov) (simp_all add: overlay_put_def overlay_delete_def overlay_set_ok)
qed

lemma visible_set: "overlay_ok ov \<Longrightarrow> visible c (ov_entries (overlay_set ov k v)) = (visible c (ov_entries ov))(k := v)"
  by (auto simp: visible_def fun_eq_iff overlay_set_ok)

lemma omap_rows:
  assumes "om_ok m"
  shows "m = map (\<lambda>k. (k, the (om_get m k))) (sorted_list_of_set (dom (om_get m)))"
proof -
  have keys: "sorted_list_of_set (dom (om_get m)) = map fst m"
    unfolding dom_map_of_conv_image_fst list.set_map [symmetric]
    using assms by (intro sorted_list_of_set.idem_if_sorted_distinct) (simp_all add: om_ok_def strict_sorted_iff)
  have "(fst e, the (om_get m (fst e))) = e" if "e \<in> set m" for e
    using om_get_iff [OF assms, of "fst e" "snd e"] that by simp
  then show ?thesis
    unfolding keys by (simp add: comp_def map_idI)
qed

context read_tx
begin

lemma overlay_get_law:
  assumes "tx_ok tx" "cell_rows c (view tx CELL)"
  shows "overlay_get ops tx ov k = Inr (visible c (ov_entries ov) k)"
proof (cases "c k")
  case (Some v)
  then have "cv_parse (cv_bytes v) = Inr v"
    using assms(2) by (simp add: cv_parse_ok cell_rows_def ranI)
  then show ?thesis
    using Some get_law [OF assms(1)] cell_rows_get [OF assms(2), of k] by (simp add: overlay_get_def visible_def split: option.split)
qed (use get_law [OF assms(1)] cell_rows_get [OF assms(2), of k] in \<open>simp add: overlay_get_def visible_def split: option.split\<close>)

lemma scan_outcome_law:
  assumes "tx_ok tx" "cell_rows c (view tx CELL)" "overlay_ok ov"
  defines "w \<equiv> visible c (ov_entries ov)"
  shows "scan_outcome ops tx ov p = Some (Inr (map Inr (cells_under p w) :: ('io branch_error + _) list) :: 'io branch_error + _)"
proof -
  obtain s rows where r: "branch_scan_new ops tx (ov_entries ov) p = (Inr s :: 'io branch_error + _)"
      "branch_scan_items ops s = Some (map Inr rows :: ('io branch_error + _) list)" "om_ok rows"
      "\<forall>k. om_get rows k = (if prefix p (key_encode k) then w k else None)"
    using branch_scan_law [OF assms(1,2), of "ov_entries ov" p] assms(3) unfolding overlay_ok_def w_def by blast
  have dom: "dom (om_get rows) = {k \<in> dom w. prefix p (key_encode k)}"
  proof (rule set_eqI)
    fix k
    show "k \<in> dom (om_get rows) \<longleftrightarrow> k \<in> {k \<in> dom w. prefix p (key_encode k)}"
      using r(4) [rule_format, of k] by (simp add: domIff)
  qed
  have fin: "finite {k \<in> dom w. prefix p (key_encode k)}"
    unfolding dom [symmetric] by (rule finite_dom_map_of)
  have "rows = cells_under p w"
    using omap_rows [OF r(3)] r(4) fin unfolding dom cells_under_def by (auto intro!: map_cong)
  then show ?thesis
    using r(1,2) by (simp add: scan_outcome_def overlay_scan_prefix_def)
qed

lemma run_program_law:
  fixes oper :: "('io, 'e, 'a) cell_program"
  assumes "tx_ok tx" "cell_rows c (view tx CELL)" "overlay_ok ov"
  shows "spec_program oper (visible c (ov_entries ov)) =
    map_prod id (\<lambda>ov'. visible c (ov_entries ov')) (run_program ops tx oper ov)"
  using assms(3)
proof (induction oper arbitrary: ov)
  case (GetCell k f)
  then show ?case
    by (simp add: overlay_get_law [OF assms(1,2)])
next
  case (ScanCells p f)
  then show ?case
    by (simp add: scan_outcome_law [OF assms(1,2)])
qed (simp_all add: overlay_put_def overlay_delete_def overlay_set_ok flip: visible_set)

end

lemma overlay_write_law:
  fixes oper :: "('io, 'e, 'a) cell_program"
  assumes "mem_ok tx" "cell_rows c (mem_view tx CELL)" "overlay_ok ov"
  shows "case overlay_write mem_read_ops tx oper ov of (result, ov') \<Rightarrow>
    overlay_ok ov' \<and> result = fst (spec_program oper (visible c (ov_entries ov))) \<and>
    (if \<exists>a. result = Returned (Inr a) then visible c (ov_entries ov') = snd (spec_program oper (visible c (ov_entries ov)))
     else ov' = ov)"
proof -
  obtain result ov1 where run: "run_program mem_read_ops tx oper ov = (result, ov1)"
    by (cases "run_program mem_read_ops tx oper ov")
  have spec: "spec_program oper (visible c (ov_entries ov)) = (result, visible c (ov_entries ov1))"
    using memr.run_program_law [OF assms, of oper] by (simp add: run)
  obtain ov' where w: "overlay_write mem_read_ops tx oper ov = (result, ov')" "(\<exists>a. result = Returned (Inr a)) \<longrightarrow> ov' = ov1"
  proof
    show "overlay_write mem_read_ops tx oper ov = (result, snd (overlay_write mem_read_ops tx oper ov))"
      "(\<exists>a. result = Returned (Inr a)) \<longrightarrow> snd (overlay_write mem_read_ops tx oper ov) = ov1"
      by (auto simp: overlay_write_def run Let_def split: callback_result.split sum.split)
  qed
  moreover have "ov' = ov" if "\<nexists>a. result = Returned (Inr a)"
    using overlay_write_atomic [OF _ w(1) that] assms(3) by (simp add: overlay_ok_def)
  ultimately show ?thesis
    using run_program_ok(1) [OF assms(3), of mem_read_ops tx oper] assms(3) by (auto simp: run spec)
qed

section \<open>Properties\<close>

text \<open>C13. A write group is atomic. When the callback returns a value, its reads and scans saw the
  branch's cells with its own writes included, and exactly those writes remain staged; when
  it returns an error or panics, the staged cells, the undo journal and the checkpoint
  frames are those from before the call.\<close>

theorem write_group_atomic:
  fixes oper :: "('io, 'e, 'a) cell_program"
  assumes "mem_ok tx" "cell_rows c (mem_view tx CELL)" "overlay_ok ov"
  shows "case overlay_write mem_read_ops tx oper ov of (result, ov') \<Rightarrow>
    overlay_ok ov' \<and> result = fst (spec_program oper (visible c (ov_entries ov))) \<and>
    (if \<exists>a. result = Returned (Inr a) then visible c (ov_entries ov') = snd (spec_program oper (visible c (ov_entries ov)))
     else ov' = ov)"
  by (rule overlay_write_law [OF assms])

theorem write_group_atomic_witness:
  "overlay_write mem_read_ops \<lparr>tx_state = []\<rparr>
     (PutCell demo_key (from_u32 7) (GetCell demo_key (\<lambda>r. Finish (Inl r)) :: ('io, _, unit) cell_program)) overlay_new =
    (Returned (Inl (Inr (Some (from_u32 7)))), overlay_new)"
proof -
  have "cell_rows Map.empty (mem_view \<lparr>tx_state = []\<rparr> CELL)"
    by (auto simp: cell_rows_def split: sum.splits)
  moreover have "overlay_ok overlay_new"
    by (simp add: overlay_ok_def overlay_new_def journal_default_ok)
  ultimately show ?thesis
    using write_group_atomic [OF mem_ok_empty, of Map.empty overlay_new
        "PutCell demo_key (from_u32 7) (GetCell demo_key (\<lambda>r. Finish (Inl r)) :: ('io, _, unit) cell_program)"]
    by (auto split: prod.splits)
qed

end
