(* ===== verification/Branch_Buffer.thy ===== *)
theory Branch_Buffer
  imports Branch_Types Layers
begin

text \<open>
  \<^verbatim>\<open>crates/branch/src/buffer.rs\<close>: storage writes staged over a read snapshot. The buffer is a write transaction
  over any read transaction; its cursor merges the origin's rows with the staged ones, in both directions.
  \<^verbatim>\<open>Position\<close> is \<open>cursor_position\<close>, its \<^verbatim>\<open>Start\<close> being \<open>Key\<close>.
\<close>

section \<open>The buffer\<close>

type_synonym buf_rows = "(bytes, bytes option) omap"
type_synonym buf_writes = "(table, buf_rows) omap"

record 'tx buffered =
  bf_origin :: 'tx
  bf_writes :: buf_writes

definition buffered_new :: "'tx \<Rightarrow> 'tx buffered" where
  "buffered_new origin = \<lparr>bf_origin = origin, bf_writes = []\<rparr>"

definition buf_get ::
  "('tx, 'cur, 'z) read_ops_scheme \<Rightarrow> 'tx buffered \<Rightarrow> table \<Rightarrow> bytes \<Rightarrow> storage_error + bytes option" where
  "buf_get ops tx t k =
    attempt (table_validate t) (\<lambda>_.
      case Option.bind (om_get (bf_writes tx) t) (\<lambda>rows. om_get rows k) of
        Some value \<Rightarrow> Inr value
      | None \<Rightarrow> tx_get ops (bf_origin tx) t k)"

definition staged_rows :: "'tx buffered \<Rightarrow> table \<Rightarrow> buf_rows" where
  "staged_rows tx t = (case om_get (bf_writes tx) t of None \<Rightarrow> [] | Some rows \<Rightarrow> rows)"

definition buf_stage :: "'tx buffered \<Rightarrow> table \<Rightarrow> bytes \<Rightarrow> bytes option \<Rightarrow> 'tx buffered" where
  "buf_stage tx t k value = tx\<lparr>bf_writes := om_put t (om_put k value (staged_rows tx t)) (bf_writes tx)\<rparr>"

definition buf_put :: "'tx buffered \<Rightarrow> table \<Rightarrow> bytes \<Rightarrow> bytes \<Rightarrow> storage_error + 'tx buffered" where
  "buf_put tx t k value = attempt (table_validate t) (\<lambda>_. Inr (buf_stage tx t k (Some value)))"

definition buf_insert ::
  "('tx, 'cur, 'z) read_ops_scheme \<Rightarrow> 'tx buffered \<Rightarrow> table \<Rightarrow> bytes \<Rightarrow> bytes \<Rightarrow> storage_error + 'tx buffered" where
  "buf_insert ops tx t k value =
    attempt (buf_get ops tx t k) (\<lambda>old. if old \<noteq> None then Inl AlreadyExists else buf_put tx t k value)"

definition buf_delete ::
  "('tx, 'cur, 'z) read_ops_scheme \<Rightarrow> 'tx buffered \<Rightarrow> table \<Rightarrow> bytes \<Rightarrow> storage_error + (bool \<times> 'tx buffered)" where
  "buf_delete ops tx t k =
    attempt (buf_get ops tx t k) (\<lambda>old.
      let existed = (old \<noteq> None) in
      Inr (existed, if existed then buf_stage tx t k None else tx))"

text \<open>The default of the trait.\<close>

definition buf_is_empty :: "'tx buffered \<Rightarrow> storage_error + bool" where
  "buf_is_empty tx = Inl (Backend ''backend cannot inspect its table catalogue'')"

section \<open>The cursor\<close>

record ('tx, 'cur) buf_cursor =
  bq_origin :: 'tx
  bq_table :: table
  bq_cursor :: 'cur
  bq_rows :: "buf_rows option"
  bq_position :: cursor_position

definition buf_open_cursor ::
  "('tx, 'cur, 'z) read_ops_scheme \<Rightarrow> 'tx buffered \<Rightarrow> table \<Rightarrow> bytes \<Rightarrow> storage_error + ('tx, 'cur) buf_cursor" where
  "buf_open_cursor ops tx t k =
    attempt (table_validate t) (\<lambda>_.
    attempt (tx_cursor ops (bf_origin tx) t k) (\<lambda>c.
      Inr \<lparr>bq_origin = bf_origin tx, bq_table = t, bq_cursor = c, bq_rows = om_get (bf_writes tx) t, bq_position = Key k\<rparr>))"

definition toward :: "bool \<Rightarrow> cursor_position \<Rightarrow> bytes \<Rightarrow> bool" where
  "toward forward pos = (if forward then after_position pos else before_position pos)"

definition boundary :: "bool \<Rightarrow> cursor_position" where
  "boundary forward = (if forward then After else Before)"

text \<open>\<^verbatim>\<open>range(..).find_map(..)\<close>, reversed when moving back: the nearest staged row that is not a tombstone.\<close>

definition staged_row :: "bool \<Rightarrow> cursor_position \<Rightarrow> buf_rows option \<Rightarrow> entry option" where
  "staged_row forward pos rows = (case rows of None \<Rightarrow> None | Some rs \<Rightarrow>
     let in_range = filter (\<lambda>e. toward forward pos (fst e)) rs;
         live = List.map_filter (\<lambda>(k, v). map_option (Pair k) v) (if forward then in_range else rev in_range)
     in case live of [] \<Rightarrow> None | e # _ \<Rightarrow> Some e)"

definition cur_move :: "('tx, 'cur, 'z) read_ops_scheme \<Rightarrow> bool \<Rightarrow> 'cur \<Rightarrow> storage_error + (entry option \<times> 'cur)" where
  "cur_move ops forward = (if forward then cur_next ops else cur_prev ops)"

definition shadowed :: "cursor_position \<Rightarrow> buf_rows option \<Rightarrow> bytes \<Rightarrow> bool" where
  "shadowed pos rows k \<longleftrightarrow> pos = At k \<or> (case rows of None \<Rightarrow> False | Some rs \<Rightarrow> om_get rs k \<noteq> None)"

text \<open>The loop that passes over shadowed rows of the origin. A cursor that advances meets each shadowed
  key at most once, so that one turn more than there are staged rows, and one for the row itself,
  always suffice (\<open>buf_skip_law\<close>).\<close>

primrec buf_skip ::
  "('tx, 'cur, 'z) read_ops_scheme \<Rightarrow> bool \<Rightarrow> cursor_position \<Rightarrow> buf_rows option \<Rightarrow> nat \<Rightarrow> 'cur \<Rightarrow>
    storage_error + (entry option \<times> 'cur)" where
  "buf_skip ops forward pos rows 0 c = Inl (Backend ''origin cursor does not advance'')"
| "buf_skip ops forward pos rows (Suc n) c =
    attempt (cur_move ops forward c) (\<lambda>(row, c'). case row of
      None \<Rightarrow> Inr (None, c')
    | Some (k, v) \<Rightarrow> if shadowed pos rows k then buf_skip ops forward pos rows n c' else Inr (Some (k, v), c'))"

definition skip_fuel :: "buf_rows option \<Rightarrow> nat" where
  "skip_fuel rows = (case rows of None \<Rightarrow> 0 | Some rs \<Rightarrow> length rs) + 2"

definition nearer_row :: "bool \<Rightarrow> entry option \<Rightarrow> entry option \<Rightarrow> entry option" where
  "nearer_row forward origin staged = (case (origin, staged) of
     (Some a, Some b) \<Rightarrow> Some (if (fst a < fst b) = forward then a else b)
   | (Some a, None) \<Rightarrow> Some a
   | (None, b) \<Rightarrow> b)"

definition buf_step ::
  "('tx, 'cur, 'z) read_ops_scheme \<Rightarrow> bool \<Rightarrow> ('tx, 'cur) buf_cursor \<Rightarrow> storage_error + (entry option \<times> ('tx, 'cur) buf_cursor)" where
  "buf_step ops forward c =
    (if bq_position c = boundary forward then Inr (None, c)
     else
       attempt (case bq_position c of
           Key k \<Rightarrow> tx_cursor ops (bq_origin c) (bq_table c) k
         | At k \<Rightarrow> tx_cursor ops (bq_origin c) (bq_table c) k
         | _ \<Rightarrow> Inr (bq_cursor c)) (\<lambda>cur.
       let staged = staged_row forward (bq_position c) (bq_rows c) in
       attempt (buf_skip ops forward (bq_position c) (bq_rows c) (skip_fuel (bq_rows c)) cur) (\<lambda>(origin, cur').
         let row = nearer_row forward origin staged in
         Inr (row, c\<lparr>bq_cursor := cur', bq_position := (case row of Some (k, _) \<Rightarrow> At k | None \<Rightarrow> boundary forward)\<rparr>))))"

definition buf_ops :: "('tx, 'cur, 'z) read_ops_scheme \<Rightarrow> ('tx buffered, ('tx, 'cur) buf_cursor) write_ops" where
  "buf_ops ops = \<lparr>tx_get = buf_get ops, tx_cursor = buf_open_cursor ops, cur_next = buf_step ops True,
    cur_prev = buf_step ops False, tx_is_empty = buf_is_empty, tx_put = buf_put, tx_insert = buf_insert ops,
    tx_delete = buf_delete ops\<rparr>"

section \<open>The view\<close>

definition buf_view :: "('tx \<Rightarrow> table \<Rightarrow> rows) \<Rightarrow> 'tx buffered \<Rightarrow> table \<Rightarrow> rows" where
  "buf_view view tx t = om_merge (view (bf_origin tx) t) (staged_rows tx t)"

definition buf_writes_ok :: "buf_writes \<Rightarrow> bool" where
  "buf_writes_ok ws \<longleftrightarrow> om_ok ws \<and> (\<forall>e \<in> set ws. table_ok (fst e) \<and> om_ok (snd e))"

definition buf_ok :: "('tx \<Rightarrow> bool) \<Rightarrow> 'tx buffered \<Rightarrow> bool" where
  "buf_ok tx_ok tx \<longleftrightarrow> tx_ok (bf_origin tx) \<and> buf_writes_ok (bf_writes tx)"

definition cursor_rows :: "('tx, 'cur) buf_cursor \<Rightarrow> buf_rows" where
  "cursor_rows c = (case bq_rows c of None \<Rightarrow> [] | Some rs \<Rightarrow> rs)"

definition buf_cur_view :: "('tx \<Rightarrow> table \<Rightarrow> rows) \<Rightarrow> ('tx, 'cur) buf_cursor \<Rightarrow> rows \<times> cursor_position" where
  "buf_cur_view view c = (om_merge (view (bq_origin c) (bq_table c)) (cursor_rows c), bq_position c)"

definition buf_cur_ok ::
  "('tx \<Rightarrow> table \<Rightarrow> rows) \<Rightarrow> ('tx \<Rightarrow> bool) \<Rightarrow> ('cur \<Rightarrow> rows \<times> cursor_position) \<Rightarrow> ('cur \<Rightarrow> bool) \<Rightarrow> ('tx, 'cur) buf_cursor \<Rightarrow> bool" where
  "buf_cur_ok view tx_ok cur_view cur_ok c \<longleftrightarrow>
    tx_ok (bq_origin c) \<and> table_ok (bq_table c) \<and> om_ok (cursor_rows c) \<and> cur_ok (bq_cursor c) \<and>
    (\<exists>pos. cur_view (bq_cursor c) = (view (bq_origin c) (bq_table c), pos) \<and>
      (bq_position c \<in> {Before, After} \<longrightarrow> view (bq_origin c) (bq_table c) \<noteq> [] \<longrightarrow> pos = bq_position c))"

lemma staged_rows_ok: "buf_writes_ok (bf_writes tx) \<Longrightarrow> om_ok (staged_rows tx t)"
  by (auto simp: staged_rows_def buf_writes_ok_def dest!: map_of_SomeD split: option.split)

section \<open>Moving in a direction\<close>

definition om_first :: "bool \<Rightarrow> ('k \<Rightarrow> bool) \<Rightarrow> ('k, 'v) omap \<Rightarrow> ('k \<times> 'v) option" where
  "om_first forward P m = (if forward then om_next P m else om_last P m)"

definition ahead :: "bool \<Rightarrow> 'k::linorder \<Rightarrow> 'k \<Rightarrow> bool" where
  "ahead forward k k' = (if forward then k < k' else k' < k)"

lemma om_first_Some:
  "om_ok m \<Longrightarrow> om_first forward P m = Some (k, v) \<longleftrightarrow>
    om_get m k = Some v \<and> P k \<and> (\<forall>k' \<in> dom (om_get m). P k' \<longrightarrow> k' = k \<or> ahead forward k k')"
  by (auto simp: om_first_def om_next_Some om_last_Some ahead_def le_less)

lemma om_first_None: "om_first forward P m = None \<longleftrightarrow> (\<forall>k \<in> dom (om_get m). \<not> P k)"
  by (simp add: om_first_def om_next_None om_last_None)

lemma ahead_simps: "ahead forward a b \<Longrightarrow> ahead forward b c \<Longrightarrow> ahead forward a c" "\<not> ahead forward a a"
  "a \<noteq> b \<Longrightarrow> \<not> ahead forward a b \<Longrightarrow> ahead forward b a"
  by (auto simp: ahead_def split: if_splits)

lemma toward_At: "toward forward (At k) k' \<longleftrightarrow> ahead forward k k'"
  by (simp add: toward_def ahead_def)

lemma toward_Key: "toward forward (Key k) k' \<longleftrightarrow> k' = k \<or> ahead forward k k'"
  by (auto simp: toward_def ahead_def)

lemma toward_boundary: "\<not> toward forward (boundary forward) k"
  by (simp add: toward_def boundary_def)

lemma toward_ahead: "toward forward pos k \<Longrightarrow> ahead forward k k' \<Longrightarrow> toward forward pos k'"
  by (cases pos) (auto simp: toward_def ahead_def split: if_splits)

lemma om_first_cong: "(\<And>k. k \<in> dom (om_get m) \<Longrightarrow> P k \<longleftrightarrow> Q k) \<Longrightarrow> om_first forward P m = om_first forward Q m"
  by (auto simp: om_first_def om_next_def om_last_def dom_map_of_conv_image_fst intro!: find_cong) force+

text \<open>The first entry of one layer or the other is the first of the merged map.\<close>

lemma om_get_live: "om_ok rs \<Longrightarrow> om_get (om_merge [] rs) k = (case om_get rs k of Some v \<Rightarrow> v | None \<Rightarrow> None)"
  using merge_visible [of "[]" rs] by (simp add: visible_def)

lemma live_rows: "List.map_filter (\<lambda>(k, v). map_option (Pair k) v) rs = om_merge [] rs"
  by (induction rs) (auto simp: map_filter_simps stage_def split: option.splits)

lemma live_filter: "om_merge [] (filter (\<lambda>e. P (fst e)) rs) = filter (\<lambda>e. P (fst e)) (om_merge [] rs)"
  by (induction rs) (auto simp: stage_def split: option.splits)

lemma map_filter_rev: "List.map_filter f (rev xs) = rev (List.map_filter f xs)"
  by (induction xs) (auto simp: List.map_filter_def)

lemma find_filter: "find P xs = (case filter P xs of [] \<Rightarrow> None | x # _ \<Rightarrow> Some x)"
  by (induction xs) auto

lemma live_rev: "om_merge [] (rev rs) = rev (om_merge [] rs)"
  unfolding live_rows [symmetric] by (rule map_filter_rev)

lemma staged_row_first:
  "staged_row forward pos (Some rs) = om_first forward (toward forward pos) (om_merge [] rs)"
  by (simp add: staged_row_def Let_def live_rows live_rev live_filter om_first_def om_next_def om_last_def find_filter rev_filter)

lemma nearer_first:
  assumes "om_ok m" "om_ok rs"
  shows "nearer_row forward (om_first forward (\<lambda>k. P k \<and> om_get rs k = None) m) (om_first forward P (om_merge [] rs)) =
    om_first forward P (om_merge m rs)"
proof -
  let ?Q = "\<lambda>k. P k \<and> om_get rs k = None" and ?L = "om_merge [] rs" and ?M = "om_merge m rs"
  have ok: "om_ok ?M" "om_ok ?L" and get: "\<And>k. om_get ?M k = visible (om_get m) rs k"
    using merge_visible [OF assms] merge_visible [of "[]" rs] assms(2) by simp_all
  have M: "om_get ?M k = (if om_get rs k = None then om_get m k else om_get ?L k)" for k
    by (auto simp: get visible_def om_get_live [OF assms(2)] split: option.split)
  have L: "om_get rs k \<noteq> None" if "om_get ?L k = Some v" for k v
    using that by (auto simp: om_get_live [OF assms(2)] split: option.splits)
  have best: "om_first forward P ?M = Some (k, v)"
    if "om_get ?M k = Some v" "P k" "\<And>k'. k' \<in> dom (om_get m) \<Longrightarrow> ?Q k' \<Longrightarrow> k' = k \<or> ahead forward k k'"
      "\<And>k'. k' \<in> dom (om_get ?L) \<Longrightarrow> P k' \<Longrightarrow> k' = k \<or> ahead forward k k'" for k v
  proof -
    have "k' = k \<or> ahead forward k k'" if "k' \<in> dom (om_get ?M)" "P k'" for k'
      using that \<open>\<And>k'. k' \<in> dom (om_get m) \<Longrightarrow> ?Q k' \<Longrightarrow> k' = k \<or> ahead forward k k'\<close>
        \<open>\<And>k'. k' \<in> dom (om_get ?L) \<Longrightarrow> P k' \<Longrightarrow> k' = k \<or> ahead forward k k'\<close>
      by (cases "om_get rs k' = None") (simp_all add: M domIff)
    then show ?thesis
      unfolding om_first_Some [OF ok(1)] using that(1,2) by blast
  qed
  show ?thesis
  proof (cases "om_first forward ?Q m"; cases "om_first forward P ?L")
    assume n: "om_first forward ?Q m = None" "om_first forward P ?L = None"
    then have "om_first forward P ?M = None"
      unfolding om_first_None by (auto simp: M domIff split: if_splits)
    then show ?thesis
      by (simp add: n nearer_row_def)
  next
    fix b assume n: "om_first forward ?Q m = None" and b: "om_first forward P ?L = Some b"
    obtain k v where kv: "b = (k, v)"
      by (cases b)
    have "om_first forward P ?M = Some (k, v)"
      using n b unfolding kv om_first_None om_first_Some [OF ok(2)] by (intro best) (auto simp: M dest: L)
    then show ?thesis
      by (simp add: n b kv nearer_row_def)
  next
    fix a assume a: "om_first forward ?Q m = Some a" and n: "om_first forward P ?L = None"
    obtain k v where kv: "a = (k, v)"
      by (cases a)
    have "om_first forward P ?M = Some (k, v)"
      using n a unfolding kv om_first_None om_first_Some [OF assms(1)] by (intro best) (auto simp: M)
    then show ?thesis
      by (simp add: n a kv nearer_row_def)
  next
    fix a b assume a: "om_first forward ?Q m = Some a" and b: "om_first forward P ?L = Some b"
    obtain k v l w where kv: "a = (k, v)" "b = (l, w)"
      by (cases a; cases b)
    note A = a [unfolded kv om_first_Some [OF assms(1)]] and B = b [unfolded kv om_first_Some [OF ok(2)]]
    have ne: "k \<noteq> l"
      using A B by (auto dest: L)
    show ?thesis
    proof (cases "ahead forward k l")
      case True
      then have "om_first forward P ?M = Some (k, v)"
        using A B by (intro best) (auto simp: M intro: ahead_simps(1))
      moreover have "(k < l) = forward"
        using True by (auto simp: ahead_def split: if_splits)
      ultimately show ?thesis
        by (simp add: a b kv nearer_row_def)
    next
      case False
      then have behind: "ahead forward l k"
        using ne ahead_simps(3) by blast
      then have "om_first forward P ?M = Some (l, w)"
        using A B by (intro best) (auto simp: M intro: ahead_simps(1) dest: L)
      moreover have "(k < l) \<noteq> forward"
        using behind ne by (auto simp: ahead_def split: if_splits)
      ultimately show ?thesis
        by (simp add: a b kv nearer_row_def)
    qed
  qed
qed

context read_tx
begin

lemma move_law:
  assumes "cur_ok c" "cur_view c = (rs, pos)"
  shows "\<exists>c' pos'. cur_move ops forward c = Inr (om_first forward (toward forward pos) rs, c') \<and> cur_ok c' \<and>
    cur_view c' = (rs, pos') \<and>
    (rs \<noteq> [] \<longrightarrow> pos' = cursor_move (om_first forward (toward forward pos) rs) (boundary forward))"
  using next_law [OF assms] prev_law [OF assms]
  by (cases forward) (simp_all add: cur_move_def om_first_def toward_def boundary_def)

text \<open>Enough fuel: the loop ends at the nearest row that is not shadowed.\<close>

lemma skip_law:
  assumes "cur_ok c" "cur_view c = (m, pos)" "om_ok m"
    "card {k \<in> dom (om_get m). toward forward pos k \<and> shadowed at rows k} < n"
  shows "\<exists>c' pos'. buf_skip ops forward at rows n c =
      Inr (om_first forward (\<lambda>k. toward forward pos k \<and> \<not> shadowed at rows k) m, c') \<and> cur_ok c' \<and>
    cur_view c' = (m, pos') \<and>
    (om_first forward (\<lambda>k. toward forward pos k \<and> \<not> shadowed at rows k) m = None \<longrightarrow> m \<noteq> [] \<longrightarrow> pos' = boundary forward)"
  using assms
proof (induction n arbitrary: c pos)
  case (Suc n)
  let ?row = "om_first forward (toward forward pos) m" and ?S = "shadowed at rows"
  obtain c' pos' where c': "cur_move ops forward c = Inr (?row, c')" "cur_ok c'" "cur_view c' = (m, pos')"
      "m \<noteq> [] \<longrightarrow> pos' = cursor_move ?row (boundary forward)"
    using move_law [OF Suc.prems(1,2), of forward] by blast
  show ?case
  proof (cases ?row)
    case None
    then have "om_first forward (\<lambda>k. toward forward pos k \<and> \<not> ?S k) m = None"
      by (simp add: om_first_None)
    then show ?thesis
      using c' None by (auto simp: cursor_move_def)
  next
    case (Some e)
    obtain k v where e: "e = (k, v)"
      by (cases e)
    have near: "om_get m k = Some v" "toward forward pos k" "\<forall>k' \<in> dom (om_get m). toward forward pos k' \<longrightarrow> k' = k \<or> ahead forward k k'"
      using Some unfolding e om_first_Some [OF Suc.prems(3)] by auto
    show ?thesis
    proof (cases "?S k")
      case False
      then have "om_first forward (\<lambda>k. toward forward pos k \<and> \<not> ?S k) m = Some (k, v)"
        unfolding om_first_Some [OF Suc.prems(3)] using near by auto
      then show ?thesis
        using c' Some False by (auto simp: e)
    next
      case True
      have pos': "pos' = At k" "m \<noteq> []"
        using c'(4) near(1) by (auto simp: Some e cursor_move_def)
      let ?T = "{k' \<in> dom (om_get m). toward forward pos' k' \<and> ?S k'}"
      have "?T \<subseteq> {k' \<in> dom (om_get m). toward forward pos k' \<and> ?S k'} - {k}"
        using toward_ahead [OF near(2)] ahead_simps(2) by (auto simp: pos' toward_At)
      moreover have "k \<in> {k' \<in> dom (om_get m). toward forward pos k' \<and> ?S k'}"
        using near(1,2) True by auto
      moreover have fin: "finite {k' \<in> dom (om_get m). toward forward pos k' \<and> ?S k'}"
        using finite_dom_map_of [of m] by (rule rev_finite_subset) auto
      ultimately have "card ?T < card {k' \<in> dom (om_get m). toward forward pos k' \<and> ?S k'}"
        by (intro psubset_card_mono) auto
      then have "card ?T < n"
        using Suc.prems(4) by simp
      moreover have "om_first forward (\<lambda>k. toward forward pos' k \<and> \<not> ?S k) m = om_first forward (\<lambda>k. toward forward pos k \<and> \<not> ?S k) m"
        using near toward_ahead [OF near(2)] True by (intro om_first_cong) (auto simp: pos' toward_At)
      ultimately show ?thesis
        using Suc.IH [OF c'(2,3) Suc.prems(3)] c'(1) True by (simp add: Some e)
    qed
  qed
qed simp

text \<open>One step of the buffered cursor.\<close>

lemma step_law:
  assumes "buf_cur_ok view tx_ok cur_view cur_ok c" "buf_cur_view view c = (rs, pos)"
  shows "\<exists>c'. buf_step ops forward c = Inr (om_first forward (toward forward pos) rs, c') \<and>
    buf_cur_ok view tx_ok cur_view cur_ok c' \<and>
    buf_cur_view view c' = (rs, cursor_move (om_first forward (toward forward pos) rs) (boundary forward))"
proof (cases "bq_position c = boundary forward")
  case True
  then have "pos = boundary forward"
    using assms(2) by (simp add: buf_cur_view_def)
  then have "om_first forward (toward forward pos) rs = None"
    by (simp add: om_first_None toward_boundary)
  then show ?thesis
    using True assms by (auto simp: buf_step_def cursor_move_def buf_cur_view_def)
next
  case False
  let ?m = "view (bq_origin c) (bq_table c)" and ?es = "cursor_rows c"
  let ?pick = "\<lambda>k. toward forward pos k \<and> om_get ?es k = None"
  have ok: "tx_ok (bq_origin c)" "table_ok (bq_table c)" "om_ok ?es" "om_ok ?m" and pos: "bq_position c = pos"
    and rs: "rs = om_merge ?m ?es"
    using assms view_ok by (auto simp: buf_cur_ok_def buf_cur_view_def)
  obtain cur p where cur: "(case pos of Key k \<Rightarrow> tx_cursor ops (bq_origin c) (bq_table c) k
      | At k \<Rightarrow> tx_cursor ops (bq_origin c) (bq_table c) k | _ \<Rightarrow> Inr (bq_cursor c)) = Inr cur" "cur_ok cur" "cur_view cur = (?m, p)"
    "\<And>k. k \<in> dom (om_get ?m) \<Longrightarrow> toward forward p k \<and> pos \<noteq> At k \<longleftrightarrow> toward forward pos k"
  proof (cases "pos \<in> {Before, After}")
    case True
    obtain p where "cur_ok (bq_cursor c)" "cur_view (bq_cursor c) = (?m, p)" "?m \<noteq> [] \<longrightarrow> p = pos"
      using assms(1) True pos unfolding buf_cur_ok_def by metis
    then show thesis
      using True by (intro that [of "bq_cursor c" p]) (auto split: cursor_position.splits)
  next
    case False
    then obtain k where k: "pos = Key k \<or> pos = At k"
      by (cases pos) auto
    obtain cur where "tx_cursor ops (bq_origin c) (bq_table c) k = Inr cur" "cur_ok cur" "cur_view cur = (?m, Key k)"
      using cursor_law [OF ok(1,2)] by blast
    then show thesis
      using k by (intro that [of cur "Key k"]) (auto simp: toward_Key toward_At ahead_simps(2))
  qed
  have shadow: "shadowed pos (bq_rows c) k \<longleftrightarrow> pos = At k \<or> om_get ?es k \<noteq> None" for k
    by (auto simp: shadowed_def cursor_rows_def split: option.split)
  have "{k \<in> dom (om_get ?m). toward forward p k \<and> shadowed pos (bq_rows c) k} \<subseteq> {k. pos = At k} \<union> dom (om_get ?es)"
    by (auto simp: shadow)
  moreover have fin: "finite ({k. pos = At k} \<union> dom (om_get ?es))"
    by (cases pos) (auto simp: finite_dom_map_of)
  moreover have "card ({k. pos = At k} \<union> dom (om_get ?es)) \<le> 1 + length ?es"
  proof -
    have "card (dom (om_get ?es)) \<le> length ?es"
      unfolding dom_map_of_conv_image_fst by (rule order_trans [OF card_image_le card_length]) simp
    moreover have "card {k. pos = At k} \<le> 1"
      by (cases pos) simp_all
    ultimately show ?thesis
      using card_Un_le [of "{k. pos = At k}" "dom (om_get ?es)"] by linarith
  qed
  ultimately have "card {k \<in> dom (om_get ?m). toward forward p k \<and> shadowed pos (bq_rows c) k} \<le> 1 + length ?es"
    by (meson card_mono order_trans)
  then have fuel: "card {k \<in> dom (om_get ?m). toward forward p k \<and> shadowed pos (bq_rows c) k} < skip_fuel (bq_rows c)"
    by (simp add: skip_fuel_def cursor_rows_def split: option.splits)
  have same: "om_first forward (\<lambda>k. toward forward p k \<and> \<not> shadowed pos (bq_rows c) k) ?m = om_first forward ?pick ?m"
    using cur(4) by (intro om_first_cong) (auto simp: shadow)
  obtain cur' p' where skip: "buf_skip ops forward pos (bq_rows c) (skip_fuel (bq_rows c)) cur = Inr (om_first forward ?pick ?m, cur')"
      "cur_ok cur'" "cur_view cur' = (?m, p')" "om_first forward ?pick ?m = None \<longrightarrow> ?m \<noteq> [] \<longrightarrow> p' = boundary forward"
    using skip_law [OF cur(2,3) ok(4) fuel] unfolding same by (elim exE conjE) (rule that)
  have staged: "staged_row forward pos (bq_rows c) = om_first forward (toward forward pos) (om_merge [] ?es)"
    using staged_row_first [of forward pos] by (cases "bq_rows c") (simp_all add: cursor_rows_def staged_row_def om_first_def)
  let ?row = "om_first forward (toward forward pos) rs"
  have row: "nearer_row forward (om_first forward ?pick ?m) (om_first forward (toward forward pos) (om_merge [] ?es)) = ?row"
    unfolding rs by (rule nearer_first [OF ok(4,3)])
  let ?c = "c\<lparr>bq_cursor := cur', bq_position := (case ?row of Some (k, _) \<Rightarrow> At k | None \<Rightarrow> boundary forward)\<rparr>"
  have step: "buf_step ops forward c = Inr (?row, ?c)"
    using False cur(1) by (simp add: buf_step_def pos skip(1) staged row Let_def)
  have position: "bq_position ?c = cursor_move ?row (boundary forward)"
    by (auto simp: cursor_move_def split: option.split)
  have "p' = bq_position ?c" if "bq_position ?c \<in> {Before, After}" "?m \<noteq> []"
  proof -
    have "?row = None"
      using that(1) by (auto split: option.splits)
    then have "om_first forward ?pick ?m = None"
      unfolding row [symmetric] by (simp add: nearer_row_def split: option.splits)
    then show ?thesis
      using skip(4) that(2) \<open>?row = None\<close> by simp
  qed
  then have "buf_cur_ok view tx_ok cur_view cur_ok ?c"
    using ok skip(2,3) by (auto simp: buf_cur_ok_def cursor_rows_def)
  then show ?thesis
    using step position rs by (auto simp: buf_cur_view_def cursor_rows_def)
qed

lemma buf_view_ok: "buf_ok tx_ok tx \<Longrightarrow> om_ok (buf_view view tx t)"
  "buf_ok tx_ok tx \<Longrightarrow> om_get (buf_view view tx t) = visible (om_get (view (bf_origin tx) t)) (staged_rows tx t)"
  using merge_visible [of "view (bf_origin tx) t" "staged_rows tx t"] view_ok [of "bf_origin tx" t] staged_rows_ok [of tx t]
  by (auto simp: buf_view_def buf_ok_def)

lemma buf_stage_law:
  assumes "buf_ok tx_ok tx" "table_ok t" "om_ok rs" "om_get rs = (om_get (buf_view view tx t))(k := v)"
  shows "buf_ok tx_ok (buf_stage tx t k v)" "buf_view view (buf_stage tx t k v) = (buf_view view tx)(t := rs)"
proof -
  have ok: "om_ok (staged_rows tx t)"
    using assms(1) by (simp add: buf_ok_def staged_rows_ok)
  show staged: "buf_ok tx_ok (buf_stage tx t k v)"
    using assms(1,2) ok set_om_put [of t "om_put k v (staged_rows tx t)" "bf_writes tx"]
    by (auto simp: buf_ok_def buf_stage_def buf_writes_ok_def)
  have origin: "bf_origin (buf_stage tx t k v) = bf_origin tx"
    by (simp add: buf_stage_def)
  have rows: "staged_rows (buf_stage tx t k v) = (staged_rows tx)(t := om_put k v (staged_rows tx t))"
    by (auto simp: staged_rows_def buf_stage_def fun_eq_iff split: option.split)
  have "buf_view view (buf_stage tx t k v) u = buf_view view tx u" if "u \<noteq> t" for u
    using that by (simp add: buf_view_def rows origin)
  moreover have "buf_view view (buf_stage tx t k v) t = rs"
  proof (rule om_eqI)
    have "om_get (buf_view view (buf_stage tx t k v) t) = visible (om_get (view (bf_origin tx) t)) (om_put k v (staged_rows tx t))"
      using buf_view_ok(2) [OF staged, of t] by (simp add: rows origin)
    then show "om_get (buf_view view (buf_stage tx t k v) t) = om_get rs"
      using assms(4) buf_view_ok(2) [OF assms(1), of t] by (auto simp: visible_def fun_eq_iff)
  qed (use buf_view_ok(1) [OF staged] assms(3) in simp_all)
  ultimately show "buf_view view (buf_stage tx t k v) = (buf_view view tx)(t := rs)"
    by auto
qed

lemma buf_get_law:
  assumes "buf_ok tx_ok tx" "table_ok t"
  shows "buf_get ops tx t k = Inr (om_get (buf_view view tx t) k)"
  using get_law [of "bf_origin tx" t k] assms buf_view_ok(2) [OF assms(1), of t]
  by (auto simp: buf_get_def buf_ok_def visible_def staged_rows_def split: option.split)

lemma buffered_write_tx:
  "write_tx (buf_ops ops) (buf_view view) (buf_ok tx_ok) (buf_cur_view view) (buf_cur_ok view tx_ok cur_view cur_ok)"
proof unfold_locales
  fix tx t k v
  assume ok: "buf_ok tx_ok tx" and t: "table_ok t"
  note stage = buf_stage_law [OF ok t] and view = buf_view_ok(1) [OF ok]
  have put: "buf_put tx t k v = Inr (buf_stage tx t k (Some v))"
    using t by (simp add: buf_put_def)
  show "\<exists>tx'. tx_put (buf_ops ops) tx t k v = Inr tx' \<and> buf_ok tx_ok tx' \<and> buf_view view tx' = (buf_view view tx)(t := om_put k v (buf_view view tx t))"
    using stage [of "om_put k v (buf_view view tx t)" k "Some v"] view by (simp add: buf_ops_def put)
  show "\<exists>tx'. tx_insert (buf_ops ops) tx t k v = Inr tx' \<and> buf_ok tx_ok tx' \<and> buf_view view tx' = (buf_view view tx)(t := om_put k v (buf_view view tx t))"
    if "om_get (buf_view view tx t) k = None"
    using that stage [of "om_put k v (buf_view view tx t)" k "Some v"] view
    by (simp add: buf_ops_def buf_insert_def put buf_get_law [OF ok t])
  show "tx_insert (buf_ops ops) tx t k v = Inl AlreadyExists" if "om_get (buf_view view tx t) k \<noteq> None"
    using that by (simp add: buf_ops_def buf_insert_def buf_get_law [OF ok t])
  show "\<exists>tx'. tx_delete (buf_ops ops) tx t k = Inr (om_get (buf_view view tx t) k \<noteq> None, tx') \<and> buf_ok tx_ok tx' \<and>
      buf_view view tx' = (buf_view view tx)(t := om_del k (buf_view view tx t))"
  proof (cases "om_get (buf_view view tx t) k = None")
    case True
    then have "om_del k (buf_view view tx t) = buf_view view tx t"
      using view by (intro om_eqI) (auto simp: fun_upd_idem)
    then show ?thesis
      using True ok by (auto simp: buf_ops_def buf_delete_def buf_get_law [OF ok t])
  next
    case False
    then show ?thesis
      using stage [of "om_del k (buf_view view tx t)" k None] view
      by (simp add: buf_ops_def buf_delete_def buf_get_law [OF ok t] Let_def)
  qed
  show "tx_get (buf_ops ops) tx t k = Inr (om_get (buf_view view tx t) k)"
    by (simp add: buf_ops_def buf_get_law [OF ok t])
  show "\<exists>c. tx_cursor (buf_ops ops) tx t k = Inr c \<and> buf_cur_ok view tx_ok cur_view cur_ok c \<and> buf_cur_view view c = (buf_view view tx t, Key k)"
  proof -
    obtain c where c: "tx_cursor ops (bf_origin tx) t k = Inr c" "cur_ok c" "cur_view c = (view (bf_origin tx) t, Key k)"
      using cursor_law [OF _ t] ok unfolding buf_ok_def by blast
    let ?c = "\<lparr>bq_origin = bf_origin tx, bq_table = t, bq_cursor = c, bq_rows = om_get (bf_writes tx) t, bq_position = Key k\<rparr>"
    have "cursor_rows ?c = staged_rows tx t"
      by (simp add: cursor_rows_def staged_rows_def)
    moreover have "om_ok (staged_rows tx t)"
      using ok by (simp add: buf_ok_def staged_rows_ok)
    ultimately have "buf_cur_ok view tx_ok cur_view cur_ok ?c" "buf_cur_view view ?c = (buf_view view tx t, Key k)"
      using c t ok by (simp_all add: buf_cur_ok_def buf_cur_view_def buf_view_def buf_ok_def)
    then show ?thesis
      using c(1) t by (simp add: buf_ops_def buf_open_cursor_def)
  qed
next
  show "om_ok (buf_view view tx t)" if "buf_ok tx_ok tx" for tx t
    by (rule buf_view_ok(1) [OF that])
next
  fix c rs pos
  assume c: "buf_cur_ok view tx_ok cur_view cur_ok c" "buf_cur_view view c = (rs, pos)"
  show "\<exists>c' pos'. cur_next (buf_ops ops) c = Inr (om_next (after_position pos) rs, c') \<and> buf_cur_ok view tx_ok cur_view cur_ok c' \<and>
      buf_cur_view view c' = (rs, pos') \<and> (rs \<noteq> [] \<longrightarrow> pos' = cursor_move (om_next (after_position pos) rs) After)"
    using step_law [OF c, of True] by (auto simp: buf_ops_def om_first_def toward_def boundary_def)
  show "\<exists>c' pos'. cur_prev (buf_ops ops) c = Inr (om_last (before_position pos) rs, c') \<and> buf_cur_ok view tx_ok cur_view cur_ok c' \<and>
      buf_cur_view view c' = (rs, pos') \<and> (rs \<noteq> [] \<longrightarrow> pos' = cursor_move (om_last (before_position pos) rs) Before)"
    using step_law [OF c, of False] by (auto simp: buf_ops_def om_first_def toward_def boundary_def)
qed

end

end
