(* ===== verification/Branch_Seal.thy ===== *)
theory Branch_Seal
  imports Branch_Overlay Branch_Buffer
begin

text \<open>
  \<^verbatim>\<open>crates/branch/src/seal.rs\<close> and \<^verbatim>\<open>commit.rs\<close>: sealing applies the staged cells and the postings they imply to a
  buffer over the origin snapshot; committing replays the buffered rows into a writer and moves the head.
  What has to hold of a committed state is \<open>committed_at\<close>: the head row names both roots, the roots commit to
  the cells and to the index, and the index is the one the cells imply.
\<close>

section \<open>Sealing\<close>

record sealed_commit =
  sd_commit_id :: commit_id
  sd_state_root :: hash
  sd_index_root :: hash
  sd_cells :: cells_update
  sd_index :: index_update
  sd_writes :: buf_writes

definition seal_term :: "cell_key \<Rightarrow> cell_value option \<Rightarrow> 'io branch_error + index_term option" where
  "seal_term key value = (case value of
     Some v \<Rightarrow>
       if cv_is_indexable v then
         attempt (map_err BranchTerm (term_from_cell_name (key_name key) (as_view v))) (\<lambda>t. Inr (Some t))
       else Inr None
   | None \<Rightarrow> Inr None)"

definition seal_change :: "cell_value_change \<Rightarrow> posting_change list \<Rightarrow> 'io branch_error + posting_change list" where
  "seal_change change postings =
    attempt (seal_term (ch_key change) (ch_before change)) (\<lambda>before.
    attempt (seal_term (ch_key change) (ch_after change)) (\<lambda>after.
      if before = after then Inr postings
      else
        let rid = record_id (ch_key change);
            removed = (case before of Some t \<Rightarrow> [PostingRemove t rid] | None \<Rightarrow> []);
            added = (case after of Some t \<Rightarrow> [PostingAdd t rid] | None \<Rightarrow> [])
        in Inr (postings @ removed @ added)))"

definition seal_postings :: "cell_value_change list \<Rightarrow> 'io branch_error + posting_change list" where
  "seal_postings changed = try_fold seal_change changed []"

definition roots_key :: "head \<Rightarrow> cell_key" where
  "roots_key h = CellKey (sys_id ROOTS) (to_be (commit_num (hd_commit_id h)))"

definition next_commit :: "commit_id \<Rightarrow> 'io branch_error + commit_id" where
  "next_commit n = (if commit_num n = - 1 then Inl CommitNumberExhausted else Inr (CommitId (commit_num n + 1)))"

definition seal_compute ::
  "('tx, 'cur, 'z) read_ops_scheme \<Rightarrow> ('b, 't, 'io) roaring \<Rightarrow> (bytes \<Rightarrow> hash) \<Rightarrow> 'tx \<Rightarrow> overlay \<Rightarrow>
    'io branch_error + sealed_commit" where
  "seal_compute ops R H origin ov =
    attempt (read_head_state ops origin) (\<lambda>h.
    attempt (next_commit (hd_commit_id h)) (\<lambda>n.
    attempt (map_err BranchCells (cell_reopen ops H origin (hd_state_root h))) (\<lambda>cell_root.
    attempt (map_err BranchIndex (index_reopen ops H origin (hd_index_root h))) (\<lambda>index_root.
    attempt (map_err BranchStorage (tx_get ops origin CELL (key_encode (roots_key h)))) (\<lambda>row.
    if row \<noteq> None then Inl RootsCellExists
    else
      attempt (map_err BranchValue (ref_new Bytes (hd_state_root h @ hd_index_root h) False)) (\<lambda>roots_value.
      let changes = overlay_changes ov @ [CellPut (roots_key h) (cv_from roots_value)] in
      attempt (map_err BranchCells (cells_apply (buf_ops ops) H (buffered_new origin) cell_root changes)) (\<lambda>(cells, tx).
      attempt (seal_postings (changed_cells cells)) (\<lambda>postings.
      attempt (map_err BranchIndex (index_apply (buf_ops ops) R H tx index_root postings)) (\<lambda>(index, tx').
        Inr \<lparr>sd_commit_id = n, sd_state_root = root_hash H (cu_root cells), sd_index_root = root_hash H (iu_root index),
          sd_cells = cells, sd_index = index, sd_writes = bf_writes tx'\<rparr>)))))))))"

section \<open>Committing\<close>

text \<open>The replay of \<^verbatim>\<open>stage\<close>, and \<^verbatim>\<open>stage\<close>.\<close>

definition replay_row ::
  "('tx, 'cur, 'z) write_ops_scheme \<Rightarrow> table \<Rightarrow> bytes \<times> bytes option \<Rightarrow> 'tx \<Rightarrow> 'io branch_error + 'tx" where
  "replay_row ops t row tx = map_err BranchStorage (case snd row of
     Some value \<Rightarrow> tx_put ops tx t (fst row) value
   | None \<Rightarrow> attempt (tx_delete ops tx t (fst row)) (\<lambda>(_, tx'). Inr tx'))"

definition replay_writes :: "('tx, 'cur, 'z) write_ops_scheme \<Rightarrow> buf_writes \<Rightarrow> 'tx \<Rightarrow> 'io branch_error + 'tx" where
  "replay_writes ops writes tx = try_fold (\<lambda>(t, rows) tx. try_fold (replay_row ops t) rows tx) writes tx"

definition commit_stage ::
  "('tx, 'cur, 'z) write_ops_scheme \<Rightarrow> 'tx \<Rightarrow> commit_id \<Rightarrow> sealed_commit \<Rightarrow> 'io branch_error + 'tx" where
  "commit_stage ops tx origin sealed =
    attempt (read_head ops tx) (\<lambda>now.
      if now \<noteq> origin then Inl BranchConflict
      else
        attempt (replay_writes ops (sd_writes sealed) tx) (\<lambda>tx'.
          write_head ops tx' \<lparr>hd_commit_id = sd_commit_id sealed, hd_state_root = sd_state_root sealed,
            hd_index_root = sd_index_root sealed\<rparr>))"

section \<open>The index that cells imply\<close>

definition cell_term :: "cell_key \<Rightarrow> cell_value \<Rightarrow> index_term option" where
  "cell_term k v = (if cv_is_indexable v \<and> user_name (key_name k) \<and> indexable_type (cv_ty v)
     then Some (term_run (key_name k) (cv_ty v) @ tl (cv_bytes v)) else None)"

definition index_of :: "(cell_key \<rightharpoonup> cell_value) \<Rightarrow> index_term \<Rightarrow> u64 set" where
  "index_of c t = {record_id k | k v. c k = Some v \<and> cell_term k v = Some t}"

text \<open>A cell that is to be indexed has a name that a term can hold.\<close>

definition indexable_ok :: "cell_key \<Rightarrow> cell_value \<Rightarrow> bool" where
  "indexable_ok k v \<longleftrightarrow> cv_is_indexable v \<longrightarrow> user_name (key_name k) \<and> indexable_type (cv_ty v)"

definition opt_term :: "cell_key \<Rightarrow> cell_value option \<Rightarrow> index_term option" where
  "opt_term k x = Option.bind x (cell_term k)"

lemma term_from_cell_name_Inr:
  "term_from_cell_name name v = Inr t \<longleftrightarrow> user_name name \<and> indexable_type (ref_ty v) \<and> t = term_run name (ref_ty v) @ ref_value v"
  by (auto simp: term_from_cell_name_def term_name_str_def try_simps user_name_utf8)

lemma seal_term_eq: "seal_term k x = (Inr t :: 'io branch_error + _) \<longleftrightarrow> t = opt_term k x \<and> pred_option (indexable_ok k) x"
  by (cases x) (auto simp: seal_term_def opt_term_def cell_term_def indexable_ok_def try_simps term_from_cell_name_Inr as_view_def)

text \<open>Two cells of one record never have the same term.\<close>

lemma cell_term_key: "cell_term k v = Some t \<Longrightarrow> cell_term k' v' = Some t \<Longrightarrow> record_id k = record_id k' \<Longrightarrow> k = k'"
  by (auto simp: cell_term_def term_run_inject intro: cell_key.expand split: if_splits)

lemma index_of_mem: "rid \<in> index_of c t \<longleftrightarrow> (\<exists>k. record_id k = rid \<and> opt_term k (c k) = Some t)"
  by (auto simp: index_of_def opt_term_def Option.bind_eq_Some_conv)

definition change_postings :: "cell_key \<Rightarrow> cell_value option \<Rightarrow> cell_value option \<Rightarrow> posting_change list" where
  "change_postings k before after =
    (if opt_term k before = opt_term k after then []
     else (case opt_term k before of Some t \<Rightarrow> [PostingRemove t (record_id k)] | None \<Rightarrow> []) @
       (case opt_term k after of Some t \<Rightarrow> [PostingAdd t (record_id k)] | None \<Rightarrow> []))"

lemma apply_posting_mem:
  "rid \<in> apply_posting (PostingAdd t r) idx u \<longleftrightarrow> rid \<in> idx u \<or> u = t \<and> rid = r"
  "rid \<in> apply_posting (PostingRemove t r) idx u \<longleftrightarrow> rid \<in> idx u \<and> \<not> (u = t \<and> rid = r)"
  by (auto simp: apply_posting_def)

lemma change_postings_mem:
  "rid \<in> apply_postings (change_postings k before after) idx t \<longleftrightarrow>
    (if rid = record_id k \<and> opt_term k before \<noteq> opt_term k after \<and> (opt_term k after = Some t \<or> opt_term k before = Some t)
     then opt_term k after = Some t else rid \<in> idx t)"
  by (auto simp: change_postings_def apply_postings_def apply_posting_mem split: option.splits)

lemma index_of_change: "apply_postings (change_postings k (c k) x) (index_of c) = index_of (c(k := x))"
proof (intro ext set_eqI)
  fix t rid
  have other: "opt_term k' (c k') \<noteq> Some t" if "opt_term k y = Some t" "record_id k' = record_id k" "k' \<noteq> k" for k' y
    using that cell_term_key by (auto simp: opt_term_def Option.bind_eq_Some_conv)
  show "rid \<in> apply_postings (change_postings k (c k) x) (index_of c) t \<longleftrightarrow> rid \<in> index_of (c(k := x)) t"
  proof (cases "rid = record_id k \<and> opt_term k (c k) \<noteq> opt_term k x \<and> (opt_term k x = Some t \<or> opt_term k (c k) = Some t)")
    case True
    then have "opt_term k' ((c(k := x)) k') = Some t \<longleftrightarrow> k' = k \<and> opt_term k x = Some t" if "record_id k' = rid" for k'
      using other [of x k'] other [of "c k" k'] that by auto
    then have "(\<exists>k'. record_id k' = rid \<and> opt_term k' ((c(k := x)) k') = Some t) \<longleftrightarrow> opt_term k x = Some t"
      using True by metis
    then show ?thesis
      using True unfolding change_postings_mem index_of_mem by (simp only: if_True simp_thms)
  next
    case False
    then have "opt_term k' ((c(k := x)) k') = Some t \<longleftrightarrow> opt_term k' (c k') = Some t" if "record_id k' = rid" for k'
      using that by (cases "k' = k") auto
    then show ?thesis
      using False unfolding change_postings_mem index_of_mem by (simp only: if_False) blast
  qed
qed

lemma apply_postings_append: "apply_postings (xs @ ys) idx = apply_postings ys (apply_postings xs idx)"
  by (simp add: apply_postings_def)

lemma seal_change_eq:
  "seal_change \<lparr>ch_key = k, ch_before = b, ch_after = x\<rparr> ps = (Inr qs :: 'io branch_error + _) \<longleftrightarrow>
    pred_option (indexable_ok k) b \<and> pred_option (indexable_ok k) x \<and> qs = ps @ change_postings k b x"
  by (auto simp: seal_change_def try_simps seal_term_eq change_postings_def Let_def)

text \<open>The postings of a batch of changes with different keys.\<close>

lemma seal_fold:
  assumes "distinct (map fst es)" "\<forall>k v. c k = Some v \<longrightarrow> indexable_ok k v"
    "try_fold seal_change (map (\<lambda>(k, x). \<lparr>ch_key = k, ch_before = b k, ch_after = x\<rparr>) es) ps = (Inr qs :: 'io branch_error + _)"
    "\<forall>k \<in> fst ` set es. b k = c k"
  shows "(\<exists>rs. qs = ps @ rs \<and> apply_postings rs (index_of c) = index_of (put_all es c)) \<and>
    (\<forall>k v. put_all es c k = Some v \<longrightarrow> indexable_ok k v)"
  using assms
proof (induction es arbitrary: c ps)
  case Nil
  then show ?case
    by (simp add: put_all_def apply_postings_def)
next
  case (Cons e es)
  obtain k x where e: "e = (k, x)"
    by (cases e)
  obtain qs1 where q: "seal_change \<lparr>ch_key = k, ch_before = b k, ch_after = x\<rparr> ps = (Inr qs1 :: 'io branch_error + _)"
      "try_fold seal_change (map (\<lambda>(k, x). \<lparr>ch_key = k, ch_before = b k, ch_after = x\<rparr>) es) qs1 = (Inr qs :: 'io branch_error + _)"
    using Cons.prems(3) by (auto simp: e try_simps)
  have q1: "qs1 = ps @ change_postings k (c k) x" "pred_option (indexable_ok k) x"
    using q(1) Cons.prems(4) by (auto simp: seal_change_eq e)
  have ok: "\<forall>l v. (c(k := x)) l = Some v \<longrightarrow> indexable_ok l v"
    using Cons.prems(2) q1(2) by auto
  have distinct: "distinct (map fst es)"
    using Cons.prems(1) by simp
  have "\<forall>l \<in> fst ` set es. b l = (c(k := x)) l"
    using Cons.prems(1,4) by (auto simp: e)
  then obtain rs where "qs = qs1 @ rs" "apply_postings rs (index_of (c(k := x))) = index_of (put_all es (c(k := x)))"
      "\<forall>k' v. put_all es (c(k := x)) k' = Some v \<longrightarrow> indexable_ok k' v"
    using Cons.IH [OF _ ok q(2)] distinct by blast
  then show ?case
    using q1(1) by (auto simp: e put_all_def apply_postings_append index_of_change)
qed

lemma change_postings_terms: "ch \<in> set (change_postings k b x) \<Longrightarrow> posting_term ch \<in> set_option (opt_term k b) \<union> set_option (opt_term k x)"
  by (auto simp: change_postings_def posting_term_def split: if_splits option.splits)

lemma seal_fold_terms:
  assumes "try_fold seal_change (map (\<lambda>(k, x). \<lparr>ch_key = k, ch_before = b k, ch_after = x\<rparr>) es) ps = (Inr qs :: 'io branch_error + _)"
    "ch \<in> set qs"
  shows "ch \<in> set ps \<or> (\<exists>(k, x) \<in> set es. posting_term ch \<in> set_option (opt_term k (b k)) \<union> set_option (opt_term k x))"
  using assms
proof (induction es arbitrary: ps)
  case (Cons e es)
  obtain k x where e: "e = (k, x)"
    by (cases e)
  obtain qs1 where q: "seal_change \<lparr>ch_key = k, ch_before = b k, ch_after = x\<rparr> ps = (Inr qs1 :: 'io branch_error + _)"
      "try_fold seal_change (map (\<lambda>(k, x). \<lparr>ch_key = k, ch_before = b k, ch_after = x\<rparr>) es) qs1 = (Inr qs :: 'io branch_error + _)"
    using Cons.prems(1) by (auto simp: e try_simps)
  from Cons.IH [OF q(2) Cons.prems(2)] show ?case
  proof
    assume "ch \<in> set qs1"
    then show ?thesis
      using q(1) change_postings_terms [of ch k "b k" x] by (auto simp: seal_change_eq e)
  qed (auto simp: e)
qed simp

lemma cell_term_valid: "cv_ok v \<Longrightarrow> cell_term k v = Some t \<Longrightarrow> term_decode t = Inr t"
  by (auto simp: cell_term_def term_decode_iff cv_ok_iff cv_from_def ref_encode_eq ref_valid_def ref_new_def try_simps split: if_splits) blast+

section \<open>Committed states\<close>

definition committed_at ::
  "('tx \<Rightarrow> table \<Rightarrow> rows) \<Rightarrow> ('b, 't, 'io) roaring \<Rightarrow> (bytes \<Rightarrow> hash) \<Rightarrow> ('b \<Rightarrow> u32 set) \<Rightarrow> 'tx \<Rightarrow> head \<Rightarrow>
    (cell_key \<rightharpoonup> cell_value) \<Rightarrow> root_ref \<Rightarrow> root_ref \<Rightarrow> bool" where
  "committed_at view R H rset tx h c croot iroot \<longleftrightarrow> head_at view tx h \<and>
    cells_at view tx H croot c \<and> root_hash H croot = hd_state_root h \<and>
    index_at view R H rset tx iroot (index_of c) \<and> root_hash H iroot = hd_index_root h \<and>
    (\<forall>k v. c k = Some v \<longrightarrow> indexable_ok k v)"

definition roots_value :: "head \<Rightarrow> cell_value" where
  "roots_value h = cv_from \<lparr>ref_ty = Bytes, ref_value = hd_state_root h @ hd_index_root h, ref_indexable = False\<rparr>"

text \<open>The cells after a commit: those of the branch, and the roots of the commit before.\<close>

definition sealed_cells :: "head \<Rightarrow> (cell_key \<rightharpoonup> cell_value) \<Rightarrow> overlay \<Rightarrow> cell_key \<rightharpoonup> cell_value" where
  "sealed_cells h c ov = (visible c (ov_entries ov))(roots_key h \<mapsto> roots_value h)"

definition sealed_changes :: "head \<Rightarrow> overlay \<Rightarrow> cell_change list" where
  "sealed_changes h ov = overlay_changes ov @ [CellPut (roots_key h) (roots_value h)]"

text \<open>No two digests that a seal meets are equal by accident.\<close>

definition root_distinct :: "('tx \<Rightarrow> table \<Rightarrow> rows) \<Rightarrow> (bytes \<Rightarrow> hash) \<Rightarrow> 'tx \<Rightarrow> table \<Rightarrow> root_ref \<Rightarrow> bool" where
  "root_distinct view H tx t root \<longleftrightarrow> (root \<noteq> RootEmpty \<longrightarrow> root_hash H root \<noteq> H []) \<and>
    (\<forall>l. root = RootLeaf l \<longrightarrow> om_get (view tx t) (leaf_hash l) = None)"

definition seal_distinct ::
  "('tx, 'cur, 'z) read_ops_scheme \<Rightarrow> ('tx \<Rightarrow> table \<Rightarrow> rows) \<Rightarrow> ('b, 't, 'io) roaring \<Rightarrow> (bytes \<Rightarrow> hash) \<Rightarrow> 'tx \<Rightarrow> head \<Rightarrow>
    (cell_key \<rightharpoonup> cell_value) \<Rightarrow> root_ref \<Rightarrow> root_ref \<Rightarrow> overlay \<Rightarrow> bool" where
  "seal_distinct ops view R H tx h c croot iroot ov \<longleftrightarrow>
    root_distinct view H tx CELL_TRIE croot \<and> root_distinct view H tx INDEX_TRIE iroot \<and>
    no_collision H (dom c \<union> fst ` change_entry ` set (sealed_changes h ov)) \<and>
    inj_on (routing_path H) {t. index_of c t \<noteq> {}} \<and>
    (\<forall>u tx1 ps. cells_apply (buf_ops ops) H (buffered_new tx) croot (sealed_changes h ov) = Inr (u, tx1) \<longrightarrow>
      seal_postings (changed_cells u) = (Inr ps :: 'io branch_error + _) \<longrightarrow>
      inj_on (routing_path H) ({t. index_of c t \<noteq> {}} \<union> posting_term ` set ps) \<and>
      unclashed (buf_ops ops) (buf_view view) R H tx1 iroot ps)"

definition seal_error :: "'io branch_error \<Rightarrow> bool" where
  "seal_error e \<longleftrightarrow> e = CommitNumberExhausted \<or> e = RootsCellExists \<or> (\<exists>te. e = BranchTerm te) \<or>
    e = BranchCells (CellMerkle ConflictingBranch) \<or> (\<exists>ie. e = BranchIndex ie \<and> index_conflict ie)"

lemma changed_tables:
  "CELL \<notin> {INDEX, INDEX_TRIE, BITMAP_CONTAINER, BITMAP_TRIE}" "CELL_TRIE \<notin> {INDEX, INDEX_TRIE, BITMAP_CONTAINER, BITMAP_TRIE}"
  by (simp_all add: CELL_def CELL_TRIE_def INDEX_def INDEX_TRIE_def BITMAP_CONTAINER_def BITMAP_TRIE_def)

lemma cells_at_cong:
  assumes "view' tx' CELL = view tx CELL" "view' tx' CELL_TRIE = view tx CELL_TRIE"
  shows "cells_at view' tx' H root c \<longleftrightarrow> cells_at view tx H root c"
  using assms by (simp add: cells_at_def)

lemma index_at_cong:
  assumes "\<forall>t \<in> {INDEX, INDEX_TRIE, BITMAP_CONTAINER, BITMAP_TRIE}. view' tx' t = view tx t"
  shows "index_at view' R H rset tx' root idx \<longleftrightarrow> index_at view R H rset tx root idx"
  using assms by (simp add: index_at_def no_clash_def index_commits_def posting_holds_def bitmap_holds_def)

lemma head_at_cong: "view' tx' SUPERBLOCK = view tx SUPERBLOCK \<Longrightarrow> head_at view' tx' h \<longleftrightarrow> head_at view tx h"
  by (simp add: head_at_def)

lemma overlay_changes_entries: "map change_entry (overlay_changes ov) = ov_entries ov"
  by (auto simp: overlay_changes_def change_entry_def comp_def intro!: map_idI split: option.split prod.split)

lemma sealed_changes_effect: "overlay_ok ov \<Longrightarrow> apply_changes (sealed_changes h ov) c = sealed_cells h c ov"
proof -
  assume "overlay_ok ov"
  then have "distinct (map fst (ov_entries ov))"
    by (simp add: overlay_ok_def om_ok_distinct)
  then have "apply_changes (overlay_changes ov) c = visible c (ov_entries ov)"
    by (simp add: apply_changes_put_all overlay_changes_entries put_all_distinct visible_def fun_eq_iff)
  then show ?thesis
    by (simp add: sealed_changes_def sealed_cells_def apply_changes_def apply_change_def change_entry_def)
qed

lemma roots_value_new: "ref_new Bytes (hd_state_root h @ hd_index_root h) False =
    Inr \<lparr>ref_ty = Bytes, ref_value = hd_state_root h @ hd_index_root h, ref_indexable = False\<rparr>" "cv_ok (roots_value h)"
  by (simp_all add: ref_new_def typed_defs roots_value_def ref_valid_def)

lemma sealed_changes_ok: "staged_ok ov \<Longrightarrow> overlay_ok ov \<Longrightarrow> \<forall>ch \<in> set (sealed_changes h ov). change_ok ch"
proof
  fix ch assume ov: "staged_ok ov" "overlay_ok ov" and ch: "ch \<in> set (sealed_changes h ov)"
  show "change_ok ch"
  proof (cases "ch \<in> set (overlay_changes ov)")
    case True
    then have "change_entry ch \<in> set (ov_entries ov)"
      using overlay_changes_entries [of ov] by (metis image_eqI list.set_map)
    then have "om_get (ov_entries ov) (fst (change_entry ch)) = Some (snd (change_entry ch))"
      using ov(2) by (simp add: om_get_iff overlay_ok_def)
    then show ?thesis
      using ov(1) by (auto simp: change_ok_def staged_ok_def)
  next
    case False
    then show ?thesis
      using ch roots_value_new(2) by (auto simp: sealed_changes_def change_ok_def change_entry_def)
  qed
qed

lemma seal_term_Inl: "seal_term k x = (Inl e :: 'io branch_error + _) \<Longrightarrow> \<exists>te. e = BranchTerm te"
  by (auto simp: seal_term_def try_simps split: option.splits if_splits)

lemma seal_postings_Inl: "seal_postings changed = (Inl e :: 'io branch_error + _) \<Longrightarrow> \<exists>te. e = BranchTerm te"
proof -
  have "try_fold seal_change changed ps = (Inl e :: 'io branch_error + _) \<Longrightarrow> \<exists>te. e = BranchTerm te" for ps
    by (induction changed arbitrary: ps) (auto simp: try_simps seal_change_def Let_def dest: seal_term_Inl split: if_splits)
  then show "seal_postings changed = (Inl e :: 'io branch_error + _) \<Longrightarrow> \<exists>te. e = BranchTerm te"
    by (simp add: seal_postings_def)
qed

definition seal_result ::
  "('tx \<Rightarrow> table \<Rightarrow> rows) \<Rightarrow> ('tx \<Rightarrow> bool) \<Rightarrow> ('b, 't, 'io) roaring \<Rightarrow> (bytes \<Rightarrow> hash) \<Rightarrow> ('b \<Rightarrow> u32 set) \<Rightarrow> 'tx \<Rightarrow> head \<Rightarrow>
    (cell_key \<rightharpoonup> cell_value) \<Rightarrow> sealed_commit \<Rightarrow> bool" where
  "seal_result view tx_ok R H rset tx h c sd \<longleftrightarrow>
    commit_num (sd_commit_id sd) = commit_num (hd_commit_id h) + 1 \<and> commit_num (hd_commit_id h) \<noteq> - 1 \<and>
    sd_state_root sd = root_hash H (cu_root (sd_cells sd)) \<and> sd_index_root sd = root_hash H (iu_root (sd_index sd)) \<and>
    (let tx' = \<lparr>bf_origin = tx, bf_writes = sd_writes sd\<rparr> in
      buf_ok tx_ok tx' \<and> cells_at (buf_view view) tx' H (cu_root (sd_cells sd)) c \<and>
      index_at (buf_view view) R H rset tx' (iu_root (sd_index sd)) (index_of c) \<and>
      (\<forall>k v. c k = Some v \<longrightarrow> indexable_ok k v) \<and>
      (\<forall>t. t \<notin> {CELL, CELL_TRIE, INDEX, INDEX_TRIE, BITMAP_CONTAINER, BITMAP_TRIE} \<longrightarrow> buf_view view tx' t = view tx t))"

context read_tx
begin

lemma seal_opening:
  fixes R :: "('b, 't, 'io) roaring"
  assumes "hash_ok H" "tx_ok tx" "committed_at view R H rset tx h c croot iroot" "seal_distinct ops view R H tx h c croot iroot ov"
  shows "seal_compute ops R H tx ov =
    (if commit_num (hd_commit_id h) = - 1 then Inl CommitNumberExhausted
     else if c (roots_key h) \<noteq> None then Inl RootsCellExists
     else
       attempt (map_err BranchCells (cells_apply (buf_ops ops) H (buffered_new tx) croot (sealed_changes h ov))) (\<lambda>(cells, tx).
       attempt (seal_postings (changed_cells cells)) (\<lambda>postings.
       attempt (map_err BranchIndex (index_apply (buf_ops ops) R H tx iroot postings)) (\<lambda>(index, tx').
         Inr \<lparr>sd_commit_id = CommitId (commit_num (hd_commit_id h) + 1), sd_state_root = root_hash H (cu_root cells),
           sd_index_root = root_hash H (iu_root index), sd_cells = cells, sd_index = index, sd_writes = bf_writes tx'\<rparr>))))"
proof -
  have at: "head_at view tx h" "cells_at view tx H croot c" "hd_state_root h = root_hash H croot"
      "index_at view R H rset tx iroot (index_of c)" "hd_index_root h = root_hash H iroot"
    using assms(3) by (simp_all add: committed_at_def)
  have distinct: "root_distinct view H tx CELL_TRIE croot" "root_distinct view H tx INDEX_TRIE iroot"
    and keys: "no_collision H (dom c)"
    using assms(4) no_collision_subset by (auto simp: seal_distinct_def)
  have terms: "inj_on (routing_path H) {t. index_of c t \<noteq> {}}"
    using assms(4) by (simp add: seal_distinct_def)
  have cells: "cell_reopen ops H tx (root_hash H croot) = Inr croot"
    using distinct(1) by (intro reopen_law [OF assms(1,2) at(2) keys]) (auto simp: root_distinct_def)
  have index: "index_reopen ops H tx (root_hash H iroot) = (Inr iroot :: 'io index_error + _)"
    using distinct(2) by (intro index_reopen_law [OF assms(1,2) at(4) terms]) (auto simp: root_distinct_def)
  have row: "tx_get ops tx CELL (key_encode (roots_key h)) = Inr (map_option cv_bytes (c (roots_key h)))"
    using get_law [OF assms(2) table_names(1)] at(2) by (simp add: cells_at_def cell_rows_get)
  have roots: "cv_from \<lparr>ref_ty = Bytes, ref_value = hd_state_root h @ hd_index_root h, ref_indexable = False\<rparr> = roots_value h"
    by (simp add: roots_value_def)
  show ?thesis
    by (simp add: seal_compute_def read_head_state_law [OF assms(2) at(1)] next_commit_def at(3,5) cells index row
        roots_value_new(1) [of h, unfolded at(3,5)] roots [unfolded at(3,5)] sealed_changes_def Let_def)
qed

text \<open>A buffer keeps its origin.\<close>

lemma pinned_read_tx: "read_tx ops view (\<lambda>o'. o' = tx \<and> tx_ok o') cur_view cur_ok"
  by unfold_locales (use view_ok get_law cursor_law next_law prev_law in auto)

lemma buffered_new_law:
  assumes "tx_ok tx"
  shows "buf_ok (\<lambda>o'. o' = tx \<and> tx_ok o') (buffered_new tx)" "buf_view view (buffered_new tx) = view tx"
  using assms by (auto simp: buf_ok_def buffered_new_def buf_writes_ok_def buf_view_def staged_rows_def)

lemma seal_law:
  fixes R :: "('b, 't, 'io) roaring"
  assumes "roaring_ok R rset tset" "hash_ok H" "tx_ok tx" "committed_at view R H rset tx h c croot iroot"
    "overlay_ok ov" "staged_ok ov" "seal_distinct ops view R H tx h c croot iroot ov"
  shows "case seal_compute ops R H tx ov of
      Inl e \<Rightarrow> seal_error e
    | Inr sd \<Rightarrow> c (roots_key h) = None \<and> seal_result view tx_ok R H rset tx h (sealed_cells h c ov) sd"
proof -
  note W = read_tx.buffered_write_tx [OF pinned_read_tx [of tx]]
  let ?tx0 = "buffered_new tx" and ?chs = "sealed_changes h ov" and ?c = "sealed_cells h c ov"
  note tx0 = buffered_new_law [OF assms(3)]
  have at: "cells_at (buf_view view) ?tx0 H croot c" "index_at (buf_view view) R H rset ?tx0 iroot (index_of c)"
      "\<forall>k v. c k = Some v \<longrightarrow> indexable_ok k v"
    using assms(4) by (simp_all add: committed_at_def tx0(2) cells_at_cong [of "buf_view view" ?tx0 view tx] index_at_cong [of "buf_view view" ?tx0 view tx])
  have keys: "no_collision H (dom c \<union> fst ` change_entry ` set ?chs)"
    using assms(7) by (simp add: seal_distinct_def)
  note cells_law = write_tx.cells_apply_law [OF W assms(2) tx0(1) at(1) keys sealed_changes_ok [OF assms(6,5)], unfolded sealed_changes_effect [OF assms(5)]]
  show ?thesis
  proof (cases "commit_num (hd_commit_id h) = - 1 \<or> c (roots_key h) \<noteq> None")
    case True
    then show ?thesis
      by (auto simp: seal_opening [OF assms(2,3,4,7)] seal_error_def)
  next
    case False
    show ?thesis
    proof (cases "cells_apply (buf_ops ops) H ?tx0 croot ?chs")
      case (Inl e)
      then show ?thesis
        using cells_law False by (auto simp: seal_opening [OF assms(2,3,4,7)] seal_error_def)
    next
      case (Inr r)
      obtain u tx1 where r: "r = (u, tx1)"
        by (cases r)
      have tx1: "buf_ok (\<lambda>o'. o' = tx \<and> tx_ok o') tx1" "cells_at (buf_view view) tx1 H (cu_root u) ?c"
        "changed_cells u = map (\<lambda>(k, x). \<lparr>ch_key = k, ch_before = c k, ch_after = x\<rparr>) (net_changes c ?chs)"
        "\<forall>t. t \<noteq> CELL \<longrightarrow> t \<noteq> CELL_TRIE \<longrightarrow> buf_view view tx1 t = view tx t"
        using cells_law by (auto simp: Inr r tx0(2))
      have idx1: "index_at (buf_view view) R H rset tx1 iroot (index_of c)"
        using assms(4) tx1(4) changed_tables by (subst index_at_cong [of _ _ view tx]) (auto simp: committed_at_def)
      show ?thesis
      proof (cases "seal_postings (changed_cells u) :: 'io branch_error + _")
        case (Inl e)
        then show ?thesis
          using seal_postings_Inl [OF Inl] False by (auto simp: seal_opening [OF assms(2,3,4,7)] Inr r seal_error_def)
      next
        case ps: (Inr ps)
        let ?net = "net_changes c ?chs"
        have run: "try_fold seal_change (map (\<lambda>(k, x). \<lparr>ch_key = k, ch_before = c k, ch_after = x\<rparr>) ?net) [] = (Inr ps :: 'io branch_error + _)"
          using ps by (simp add: seal_postings_def tx1(3))
        have fold: "apply_postings ps (index_of c) = index_of ?c" "\<forall>k v. ?c k = Some v \<longrightarrow> indexable_ok k v"
          using seal_fold [OF _ at(3) run] net_changes_exact(1) [of c ?chs]
          by (auto simp: strict_sorted_iff net_effect sealed_changes_effect [OF assms(5)])
        have valid: "\<forall>ch \<in> set ps. term_decode (posting_term ch) = Inr (posting_term ch)"
        proof
          fix ch assume "ch \<in> set ps"
          then obtain k x where kx: "(k, x) \<in> set ?net" "posting_term ch \<in> set_option (opt_term k (c k)) \<union> set_option (opt_term k x)"
            using seal_fold_terms [OF run] by fastforce
          have "?c k = x"
            using kx(1) by (simp add: net_changes_exact(2) sealed_changes_effect [OF assms(5)])
          moreover have "\<forall>v \<in> ran c \<union> ran ?c. cv_ok v"
            using at(1) tx1(2) by (auto simp: cells_at_def cell_rows_def)
          ultimately obtain v where "cv_ok v" "cell_term k v = Some (posting_term ch)"
            using kx(2) by (auto simp: opt_term_def Option.bind_eq_Some_conv ran_def)
          then show "term_decode (posting_term ch) = Inr (posting_term ch)"
            by (rule cell_term_valid)
        qed
        have runs: "inj_on (routing_path H) ({t. index_of c t \<noteq> {}} \<union> posting_term ` set ps)"
            "unclashed (buf_ops ops) (buf_view view) R H tx1 iroot ps"
          using assms(7) Inr ps unfolding seal_distinct_def r by blast+
        from write_tx.index_apply_law [OF W assms(1,2) tx1(1) idx1 runs(1) valid runs(2)]
        show ?thesis
        proof (elim disjE exE conjE)
          fix e assume "index_apply (buf_ops ops) R H tx1 iroot ps = Inl e" "index_conflict e"
          then show ?thesis
            using False by (auto simp: seal_opening [OF assms(2,3,4,7)] Inr r ps seal_error_def)
        next
          fix after root' tx2
          let ?iu = "\<lparr>iu_root = root', changed_terms = map (change_of (term_roots (buf_view view) tx1) after)
            (filter (\<lambda>t. index_of c t \<noteq> apply_postings ps (index_of c) t) (map group_term (entry_groups ps)))\<rparr>"
          assume iu: "index_apply (buf_ops ops) R H tx1 iroot ps = Inr (?iu, tx2)" "buf_ok (\<lambda>o'. o' = tx \<and> tx_ok o') tx2"
            "index_at (buf_view view) R H rset tx2 root' (apply_postings ps (index_of c))"
            "\<forall>t. t \<notin> {INDEX, INDEX_TRIE, BITMAP_CONTAINER, BITMAP_TRIE} \<longrightarrow> buf_view view tx2 t = buf_view view tx1 t"
          have tx2: "\<lparr>bf_origin = tx, bf_writes = bf_writes tx2\<rparr> = tx2" "buf_ok tx_ok tx2"
            using iu(2) by (auto simp: buf_ok_def)
          have "cells_at (buf_view view) tx2 H (cu_root u) ?c"
            using tx1(2) iu(4) changed_tables by (subst cells_at_cong [of _ _ "buf_view view" tx1]) simp_all
          moreover have "\<forall>t. t \<notin> {CELL, CELL_TRIE, INDEX, INDEX_TRIE, BITMAP_CONTAINER, BITMAP_TRIE} \<longrightarrow> buf_view view tx2 t = view tx t"
            using iu(4) tx1(4) by auto
          ultimately show ?thesis
            using False tx2 iu(1,3) fold(1,2) by (simp add: seal_opening [OF assms(2,3,4,7)] Inr r ps seal_result_def)
        qed
      qed
    qed
  qed
qed

end

end
