(* ===== verification/Branch_Commit.thy ===== *)
theory Branch_Commit
  imports Branch_Seal
begin

text \<open>
  Replaying a sealed commit into a writer, and what a seal followed by its commit does to the store.
\<close>

section \<open>Replay\<close>

context write_tx
begin

lemma replay_rows_law:
  assumes "tx_ok tx" "table_ok t" "om_ok rows"
  shows "\<exists>tx'. try_fold (replay_row ops t) rows tx = (Inr tx' :: 'io branch_error + _) \<and> tx_ok tx' \<and>
    view tx' = (view tx)(t := om_merge (view tx t) rows)"
  using assms
proof (induction rows arbitrary: tx)
  case Nil
  then show ?case
    by simp
next
  case (Cons e rows)
  obtain k v where e: "e = (k, v)"
    by (cases e)
  have rows: "keys_above k rows" "om_ok rows"
    using Cons.prems(3) by (simp_all add: om_ok_above e)
  obtain tx1 where tx1: "replay_row ops t (k, v) tx = (Inr tx1 :: 'io branch_error + _)" "tx_ok tx1"
      "\<forall>u. u \<noteq> t \<longrightarrow> view tx1 u = view tx u" "om_get (view tx1 t) = (om_get (view tx t))(k := v)"
  proof -
    obtain tx1 where "(case v of Some v \<Rightarrow> tx_put ops tx t k v | None \<Rightarrow> attempt (tx_delete ops tx t k) (\<lambda>(_, tx'). Inr tx')) = Inr tx1"
        "tx_ok tx1" "\<forall>u. u \<noteq> t \<longrightarrow> view tx1 u = view tx u" "om_get (view tx1 t) = (om_get (view tx t))(k := v)"
      by (rule write_row [OF Cons.prems(1,2)])
    then show thesis
      using that [of tx1] unfolding replay_row_def fst_conv snd_conv by simp
  qed
  obtain tx2 where tx2: "try_fold (replay_row ops t) rows tx1 = (Inr tx2 :: 'io branch_error + _)" "tx_ok tx2"
      "view tx2 = (view tx1)(t := om_merge (view tx1 t) rows)"
    using Cons.IH [OF tx1(2) Cons.prems(2) rows(2)] by blast
  have "om_merge (view tx1 t) rows = om_merge (view tx t) ((k, v) # rows)"
  proof (rule om_eqI)
    have 1: "om_get (om_merge (view tx1 t) rows) = (visible (om_get (view tx t)) rows)(k := v)"
      using merge_visible [OF view_ok [OF tx1(2)] rows(2), of t] visible_origin [OF keys_above_None [OF rows(1)]] tx1(4) by simp
    have 2: "om_get (om_merge (view tx t) ((k, v) # rows)) = (visible (om_get (view tx t)) rows)(k := v)"
      using merge_visible [OF view_ok [OF Cons.prems(1)] Cons.prems(3), of t] by (simp add: e visible_staged)
    show "om_get (om_merge (view tx1 t) rows) = om_get (om_merge (view tx t) ((k, v) # rows))"
      using 1 2 by simp
  qed (use merge_visible [OF view_ok [OF tx1(2)] rows(2), of t] merge_visible [OF view_ok [OF Cons.prems(1)] Cons.prems(3), of t] in \<open>simp_all add: e\<close>)
  then show ?case
    using tx1(1,3) tx2 by (auto simp: e fun_eq_iff)
qed

lemma replay_writes_law:
  assumes "tx_ok tx" "buf_writes_ok ws"
  shows "\<exists>tx'. replay_writes ops ws tx = (Inr tx' :: 'io branch_error + _) \<and> tx_ok tx' \<and>
    (\<forall>t. view tx' t = om_merge (view tx t) (case om_get ws t of None \<Rightarrow> [] | Some rows \<Rightarrow> rows))"
  using assms
proof (induction ws arbitrary: tx)
  case Nil
  then show ?case
    by (simp add: replay_writes_def)
next
  case (Cons e ws)
  obtain t rows where e: "e = (t, rows)"
    by (cases e)
  have ws: "keys_above t ws" "buf_writes_ok ws" "table_ok t" "om_ok rows"
    using Cons.prems(2) by (simp_all add: buf_writes_ok_def om_ok_above e)
  obtain tx1 where tx1: "try_fold (replay_row ops t) rows tx = (Inr tx1 :: 'io branch_error + _)" "tx_ok tx1"
      "view tx1 = (view tx)(t := om_merge (view tx t) rows)"
    using replay_rows_law [OF Cons.prems(1) ws(3,4)] by blast
  obtain tx2 where "replay_writes ops ws tx1 = (Inr tx2 :: 'io branch_error + _)" "tx_ok tx2"
      "\<forall>u. view tx2 u = om_merge (view tx1 u) (case om_get ws u of None \<Rightarrow> [] | Some rows \<Rightarrow> rows)"
    using Cons.IH [OF tx1(2) ws(2)] by blast
  then show ?case
    using tx1(1,3) keys_above_None [OF ws(1)] by (auto simp: replay_writes_def e)
qed

end

section \<open>Publication\<close>

lemma root_hash_length:
  assumes "hash_ok H" "trie_ok tr" "represents tr rows [] root m"
  shows "length (root_hash H root) = 32"
proof -
  have "ref_sized (tr_width tr) root"
    using represents_sized [OF assms(3,2)] by simp
  then show ?thesis
    using assms(1) by (cases root) (auto simp: ref_sized_def root_hash_def hash_ok_def hash_parts_def)
qed

definition sealed_head :: "sealed_commit \<Rightarrow> head" where
  "sealed_head sd = \<lparr>hd_commit_id = sd_commit_id sd, hd_state_root = sd_state_root sd, hd_index_root = sd_index_root sd\<rparr>"

context write_tx
begin

lemma commit_stage_law:
  fixes R :: "('b, 't, 'io) roaring"
  assumes "hash_ok H" "tx_ok tx" "head_at view tx h" "seal_result view tx_ok R H rset tx h c sd"
  shows "\<exists>tx'. commit_stage ops tx (hd_commit_id h) sd = (Inr tx' :: 'io branch_error + _) \<and> tx_ok tx' \<and>
    committed_at view R H rset tx' (sealed_head sd) c (cu_root (sd_cells sd)) (iu_root (sd_index sd))"
proof -
  let ?b = "\<lparr>bf_origin = tx, bf_writes = sd_writes sd\<rparr>"
  let ?tables = "{CELL, CELL_TRIE, INDEX, INDEX_TRIE, BITMAP_CONTAINER, BITMAP_TRIE}"
  have sd: "sd_state_root sd = root_hash H (cu_root (sd_cells sd))" "sd_index_root sd = root_hash H (iu_root (sd_index sd))"
      "buf_ok tx_ok ?b" "cells_at (buf_view view) ?b H (cu_root (sd_cells sd)) c"
      "index_at (buf_view view) R H rset ?b (iu_root (sd_index sd)) (index_of c)" "\<forall>k v. c k = Some v \<longrightarrow> indexable_ok k v"
      "\<forall>t. t \<notin> ?tables \<longrightarrow> buf_view view ?b t = view tx t"
    using assms(4) by (simp_all add: seal_result_def Let_def)
  have "buf_writes_ok (sd_writes sd)"
    using sd(3) by (simp add: buf_ok_def)
  then obtain tx1 where tx1: "replay_writes ops (sd_writes sd) tx = (Inr tx1 :: 'io branch_error + _)" "tx_ok tx1"
      "\<forall>t. view tx1 t = buf_view view ?b t"
    using replay_writes_law [OF assms(2), of "sd_writes sd", where ?'io = 'io] by (auto simp: buf_view_def staged_rows_def)
  have "head_ok (sealed_head sd)"
    using sd(1,2,4,5) root_hash_length [OF assms(1) cell_trie_ok [OF assms(1)]] root_hash_length [OF assms(1) index_trie_ok [OF assms(1)]]
    by (auto simp: head_ok_def sealed_head_def cells_at_def index_at_def index_commits_def)
  then obtain tx2 where tx2: "write_head ops tx1 (sealed_head sd) = (Inr tx2 :: 'io branch_error + _)" "tx_ok tx2"
      "head_at view tx2 (sealed_head sd)" "view tx2 = (view tx1)(SUPERBLOCK := om_put HEAD_KEY (head_row (sealed_head sd)) (view tx1 SUPERBLOCK))"
    using write_head_law [OF tx1(2), of "sealed_head sd"] by blast
  have same: "view tx2 t = buf_view view ?b t" if "t \<noteq> SUPERBLOCK" for t
    using that tx1(3) tx2(4) by simp
  have "cells_at view tx2 H (cu_root (sd_cells sd)) c"
    using sd(4) superblock_tables(2,3) [THEN not_sym] by (subst cells_at_cong [of _ _ "buf_view view" ?b]) (simp_all add: same)
  moreover have "index_at view R H rset tx2 (iu_root (sd_index sd)) (index_of c)"
    using sd(5) superblock_tables(4) by (subst index_at_cong [of _ _ "buf_view view" ?b]) (auto simp: same)
  moreover have "commit_stage ops tx (hd_commit_id h) sd = (Inr tx2 :: 'io branch_error + _)"
    using tx1(1) tx2(1) by (simp add: commit_stage_def read_head_law [OF assms(2,3)] sealed_head_def)
  ultimately show ?thesis
    using tx2(2,3) sd(1,2,6) unfolding committed_at_def by (auto simp: sealed_head_def)
qed

end

section \<open>Properties\<close>

text \<open>C5. Sealing a branch and committing it takes one committed state to the next: if the head, the
  cells, both Merkle roots and the index of a snapshot agree, and the index is exactly the one
  the cells imply, then so it is after the commit, for the cells as the branch sees them together with
  the recorded roots of the commit before, under the next commit number. Sealing writes nothing;
  it fails only when the commit numbers are exhausted, the roots cell exists, a staged cell
  to be indexed has a name no term can hold, or stored contents collide.\<close>

theorem seal_commit_correct:
  fixes R :: "('b, 't, 'io) roaring"
  assumes "roaring_ok R rset tset" "hash_ok H" "mem_ok tx" "committed_at mem_view R H rset tx h c croot iroot"
    "overlay_ok ov" "staged_ok ov" "seal_distinct mem_read_ops mem_view R H tx h c croot iroot ov"
  shows "case seal_compute mem_read_ops R H tx ov of
      Inl e \<Rightarrow> seal_error e
    | Inr sd \<Rightarrow> commit_num (sd_commit_id sd) = commit_num (hd_commit_id h) + 1 \<and>
        (\<exists>tx'. commit_stage mem_ops tx (hd_commit_id h) sd = (Inr tx' :: 'io branch_error + _) \<and> mem_ok tx' \<and>
          committed_at mem_view R H rset tx' (sealed_head sd) (sealed_cells h c ov) (cu_root (sd_cells sd)) (iu_root (sd_index sd)))"
proof (cases "seal_compute mem_read_ops R H tx ov")
  case (Inr sd)
  then have result: "seal_result mem_view mem_ok R H rset tx h (sealed_cells h c ov) sd"
    using memr.seal_law [OF assms] by simp
  have "head_at mem_view tx h"
    using assms(4) by (simp add: committed_at_def)
  from mem.commit_stage_law [OF assms(2,3) this result] show ?thesis
    using result Inr by (simp add: seal_result_def)
qed (use memr.seal_law [OF assms] in simp)

text \<open>A store that holds nothing but the head of genesis.\<close>

definition demo_head :: head where
  "demo_head = \<lparr>hd_commit_id = GENESIS, hd_state_root = demo_hash [], hd_index_root = demo_hash []\<rparr>"

definition demo_store :: mem_tx where
  "demo_store = \<lparr>tx_state = [(SUPERBLOCK, [(HEAD_KEY, head_row demo_head)])]\<rparr>"

lemma demo_store_view: "mem_view demo_store SUPERBLOCK = [(HEAD_KEY, head_row demo_head)]"
  "t \<noteq> SUPERBLOCK \<Longrightarrow> mem_view demo_store t = []"
  by (simp_all add: demo_store_def mem_view_def table_rows_def)

lemma demo_store_ok: "mem_ok demo_store"
  by (simp add: demo_store_def mem_ok_def mem_state_ok_def om_ok_Cons)

lemma demo_committed: "committed_at mem_view list_roaring demo_hash set demo_store demo_head Map.empty RootEmpty RootEmpty"
proof -
  have tables: "mem_view demo_store t = []" if "t \<in> {CELL, CELL_TRIE, INDEX, INDEX_TRIE, BITMAP_CONTAINER, BITMAP_TRIE}" for t
    using that superblock_tables(2-4) by (intro demo_store_view(2)) auto
  have none: "index_of Map.empty = (\<lambda>_. {})"
    by (simp add: index_of_def fun_eq_iff)
  have "index_at mem_view list_roaring demo_hash set \<lparr>tx_state = []\<rparr> RootEmpty (\<lambda>_. {})"
    by (rule index_at_empty) simp
  then have "index_at mem_view list_roaring demo_hash set demo_store RootEmpty (\<lambda>_. {})"
    by (subst index_at_cong [of _ _ mem_view "\<lparr>tx_state = []\<rparr>"]) (simp_all add: tables)
  moreover have "cells_at mem_view demo_store demo_hash RootEmpty Map.empty"
    by (rule cells_at_empty) (simp add: tables)
  moreover have "head_at mem_view demo_store demo_head"
    using demo_hash_ok by (simp add: head_at_def demo_store_view head_ok_def demo_head_def hash_ok_def)
  ultimately show ?thesis
    by (simp add: committed_at_def none demo_head_def root_hash_def hash_parts_def)
qed

lemma demo_sealed_changes: "sealed_changes h overlay_new = [CellPut (roots_key h) (roots_value h)]"
  by (simp add: sealed_changes_def overlay_changes_def overlay_new_def)

lemma demo_normalize: "normalize_changes [CellPut k v] = [(k, Some v)]"
  by (simp add: normalize_changes_def change_entry_def)

lemma roots_value_plain: "\<not> cv_is_indexable (roots_value h)"
  by (simp add: cv_is_indexable_def roots_value_def cv_from_def ref_encode_eq ref_metadata_masks)

lemma demo_roots_postings: "seal_postings [\<lparr>ch_key = k, ch_before = None, ch_after = Some (roots_value h)\<rparr>] = Inr []"
  by (simp add: seal_postings_def seal_change_def seal_term_def roots_value_plain)

lemma demo_buffer: "buf_ok mem_ok (buffered_new demo_store)" "buf_view mem_view (buffered_new demo_store) = mem_view demo_store"
  using demo_store_ok by (simp_all add: buf_ok_def buffered_new_def buf_writes_ok_def buf_view_def staged_rows_def fun_eq_iff)

lemma demo_cells:
  assumes "cells_apply (buf_ops mem_read_ops) demo_hash (buffered_new demo_store) RootEmpty [CellPut k (roots_value h)] = Inr (u, tx1)"
  shows "changed_cells u = [\<lparr>ch_key = k, ch_before = None, ch_after = Some (roots_value h)\<rparr>]"
    "no_clash (buf_view mem_view) demo_hash tx1"
proof -
  have ok: "\<forall>ch \<in> set [CellPut k (roots_value h)]. change_ok ch"
    using roots_value_new(2) by (simp add: change_ok_def change_entry_def)
  have at: "cells_at (buf_view mem_view) (buffered_new demo_store) demo_hash RootEmpty Map.empty"
    using demo_committed by (subst cells_at_cong [of _ _ mem_view demo_store]) (simp_all add: demo_buffer(2) committed_at_def)
  have "no_collision demo_hash (dom Map.empty \<union> fst ` change_entry ` set [CellPut k (roots_value h)])"
    by (simp add: no_collision_def)
  note law = write_tx.cells_apply_law [OF memr.buffered_write_tx demo_hash_ok demo_buffer(1) at this ok, unfolded assms]
  show "changed_cells u = [\<lparr>ch_key = k, ch_before = None, ch_after = Some (roots_value h)\<rparr>]"
    using law by (simp add: net_changes_def demo_normalize)
  have "buf_view mem_view tx1 t = []" if "t \<in> {BITMAP_CONTAINER, BITMAP_TRIE}" for t
    using law that changed_tables superblock_tables(4) demo_store_view(2) [of t] by (auto simp: demo_buffer(2))
  then show "no_clash (buf_view mem_view) demo_hash tx1"
    by (simp add: no_clash_def)
qed

lemma demo_distinct: "seal_distinct mem_read_ops mem_view list_roaring demo_hash demo_store demo_head Map.empty RootEmpty RootEmpty overlay_new"
proof -
  have none: "index_of Map.empty = (\<lambda>_. {})"
    by (simp add: index_of_def fun_eq_iff)
  have "inj_on (routing_path demo_hash) ({t. index_of Map.empty t \<noteq> {}} \<union> posting_term ` set ps) \<and>
      unclashed (buf_ops mem_read_ops) (buf_view mem_view) list_roaring demo_hash tx1 RootEmpty ps"
    if "cells_apply (buf_ops mem_read_ops) demo_hash (buffered_new demo_store) RootEmpty (sealed_changes demo_head overlay_new) = Inr (u, tx1)"
      "seal_postings (changed_cells u) = (Inr ps :: unit branch_error + _)" for u tx1 ps
  proof -
    note cells = demo_cells [OF that(1) [unfolded demo_sealed_changes]]
    have "ps = []"
      using that(2) unfolding cells(1) by (simp add: demo_roots_postings)
    then show ?thesis
      using cells(2) by (simp add: none unclashed_def entry_groups_def normalize_postings_def)
  qed
  then show ?thesis
    by (simp add: seal_distinct_def root_distinct_def none demo_sealed_changes no_collision_def)
qed

lemma trie_apply_none: "trie_apply ops tr tx RootEmpty [] = Inr (RootEmpty, tx)"
proof -
  have "trie_build ops tr tx [] [] = Inr (Stored RootEmpty, tx)"
    by (subst trie_build.simps) simp
  then show ?thesis
    unfolding trie_apply_def by (subst apply_at.simps) (simp add: trie_rebuild_def map_filter_simps store_edited_def)
qed

lemma demo_seal: "\<exists>sd. seal_compute mem_read_ops list_roaring demo_hash demo_store overlay_new = Inr sd"
proof -
  let ?b = "buffered_new demo_store" and ?k = "roots_key demo_head" and ?v = "roots_value demo_head"
  have "CELL \<noteq> SUPERBLOCK"
    by (rule superblock_tables(2) [THEN not_sym])
  then have "tx_get (buf_ops mem_read_ops) ?b CELL x = Inr None" for x
    using memr.buf_get_law [OF demo_buffer(1) table_names(1), of x] by (simp add: buf_ops_def demo_buffer(2) demo_store_view(2))
  then have cells: "\<not> isl (cells_apply (buf_ops mem_read_ops) demo_hash ?b RootEmpty [CellPut ?k ?v])"
    by (simp add: cells_apply_def demo_normalize check_change_def read_value_def cell_check_def trie_get_def map_filter_simps
        cell_set_def trie_apply_single Let_def write_values_def) (simp add: buf_ops_def buf_put_def)
  have index: "\<not> isl (index_apply (buf_ops mem_read_ops) list_roaring demo_hash tx RootEmpty [])" for tx
    by (simp add: index_apply_def normalize_postings_def index_set_def trie_apply_none write_roots_def)
  obtain u tx1 where u: "cells_apply (buf_ops mem_read_ops) demo_hash ?b RootEmpty [CellPut ?k ?v] = Inr (u, tx1)"
    using cells by (cases "cells_apply (buf_ops mem_read_ops) demo_hash ?b RootEmpty [CellPut ?k ?v]") auto
  obtain r where "index_apply (buf_ops mem_read_ops) list_roaring demo_hash tx1 RootEmpty [] = Inr r"
    using index [of tx1] by (cases "index_apply (buf_ops mem_read_ops) list_roaring demo_hash tx1 RootEmpty []") auto
  then show ?thesis
    by (simp add: memr.seal_opening [OF demo_hash_ok demo_store_ok demo_committed demo_distinct] demo_sealed_changes u
        demo_cells(1) [OF u] demo_roots_postings case_prod_unfold) (simp add: demo_head_def GENESIS_def)
qed

theorem seal_commit_correct_witness:
  "\<exists>sd tx'. seal_compute mem_read_ops list_roaring demo_hash demo_store overlay_new = Inr sd \<and>
    commit_stage mem_ops demo_store GENESIS sd = (Inr tx' :: unit branch_error + _) \<and>
    committed_at mem_view list_roaring demo_hash set tx' (sealed_head sd) [roots_key demo_head \<mapsto> roots_value demo_head]
      (cu_root (sd_cells sd)) (iu_root (sd_index sd))"
proof -
  have ov: "overlay_ok overlay_new" "staged_ok overlay_new" "sealed_cells demo_head Map.empty overlay_new = [roots_key demo_head \<mapsto> roots_value demo_head]"
    by (simp_all add: overlay_ok_def staged_ok_def overlay_new_def journal_default_ok)
      (simp_all add: journal_default_def sealed_cells_def visible_def fun_eq_iff)
  have genesis: "hd_commit_id demo_head = GENESIS"
    by (simp add: demo_head_def)
  show ?thesis
    using seal_commit_correct [OF list_roaring_ok demo_hash_ok demo_store_ok demo_committed ov(1,2) demo_distinct] demo_seal
    by (auto simp: ov(3) genesis)
qed

end
