(* ===== verification/Branch_Replay.thy ===== *)
theory Branch_Replay
  imports Branch_Commit
begin

text \<open>
  The buffered transaction of \<^verbatim>\<open>crates/branch/src/buffer.rs\<close> against a store writer: any sequence of reads,
  scans and mutations has the same results on both, and replaying the buffered rows leaves the writer's rows.
\<close>

section \<open>Sequences of operations\<close>

datatype tx_op =
    TxGet table bytes
  | TxScan table bytes
  | TxPut table bytes bytes
  | TxInsert table bytes bytes
  | TxDelete table bytes

datatype tx_result = Found "bytes option" | Rows rows | Done | Deleted bool

primrec op_table :: "tx_op \<Rightarrow> table" where
  "op_table (TxGet t _) = t"
| "op_table (TxScan t _) = t"
| "op_table (TxPut t _ _) = t"
| "op_table (TxInsert t _ _) = t"
| "op_table (TxDelete t _) = t"

text \<open>One operation; an error leaves the transaction as it was, \<open>None\<close> is a scan that does not end.\<close>

primrec tx_exec :: "('tx, 'cur, 'z) write_ops_scheme \<Rightarrow> tx_op \<Rightarrow> 'tx \<Rightarrow> (storage_error + tx_result) option \<times> 'tx" where
  "tx_exec ops (TxGet t k) tx = (Some (map_sum id Found (tx_get ops tx t k)), tx)"
| "tx_exec ops (TxScan t p) tx =
    (case scan_prefix ops tx t p of
       Inl e \<Rightarrow> Some (Inl e)
     | Inr s \<Rightarrow> map_option (map_sum id Rows) (scan_collect ops s), tx)"
| "tx_exec ops (TxPut t k v) tx = (case tx_put ops tx t k v of Inl e \<Rightarrow> (Some (Inl e), tx) | Inr tx' \<Rightarrow> (Some (Inr Done), tx'))"
| "tx_exec ops (TxInsert t k v) tx = (case tx_insert ops tx t k v of Inl e \<Rightarrow> (Some (Inl e), tx) | Inr tx' \<Rightarrow> (Some (Inr Done), tx'))"
| "tx_exec ops (TxDelete t k) tx = (case tx_delete ops tx t k of Inl e \<Rightarrow> (Some (Inl e), tx) | Inr (b, tx') \<Rightarrow> (Some (Inr (Deleted b)), tx'))"

primrec tx_run :: "('tx, 'cur, 'z) write_ops_scheme \<Rightarrow> tx_op list \<Rightarrow> 'tx \<Rightarrow> (storage_error + tx_result) option list \<times> 'tx" where
  "tx_run ops [] tx = ([], tx)"
| "tx_run ops (op # os) tx = (let (r, tx') = tx_exec ops op tx; (rs, tx'') = tx_run ops os tx' in (r # rs, tx''))"

text \<open>What an operation does to the rows, whatever the transaction is.\<close>

primrec spec_exec :: "tx_op \<Rightarrow> (table \<Rightarrow> rows) \<Rightarrow> (storage_error + tx_result) option \<times> (table \<Rightarrow> rows)" where
  "spec_exec (TxGet t k) d = (Some (Inr (Found (om_get (d t) k))), d)"
| "spec_exec (TxScan t p) d = (Some (Inr (Rows (filter (\<lambda>e. prefix p (fst e)) (d t)))), d)"
| "spec_exec (TxPut t k v) d = (Some (Inr Done), d(t := om_put k v (d t)))"
| "spec_exec (TxInsert t k v) d =
    (if om_get (d t) k = None then (Some (Inr Done), d(t := om_put k v (d t))) else (Some (Inl AlreadyExists), d))"
| "spec_exec (TxDelete t k) d = (Some (Inr (Deleted (om_get (d t) k \<noteq> None))), d(t := om_del k (d t)))"

primrec spec_run :: "tx_op list \<Rightarrow> (table \<Rightarrow> rows) \<Rightarrow> (storage_error + tx_result) option list \<times> (table \<Rightarrow> rows)" where
  "spec_run [] d = ([], d)"
| "spec_run (op # os) d = (let (r, d') = spec_exec op d; (rs, d'') = spec_run os d' in (r # rs, d''))"

context write_tx
begin

lemma tx_exec_law:
  assumes "tx_ok tx" "table_ok (op_table op)"
  shows "\<exists>tx'. tx_exec ops op tx = (fst (spec_exec op (view tx)), tx') \<and> tx_ok tx' \<and> view tx' = snd (spec_exec op (view tx))"
proof (cases op)
  case (TxScan t p)
  then show ?thesis
    using scan_prefix_rows [OF assms(1), of t p] assms by auto
next
  case (TxInsert t k v)
  then show ?thesis
    using insert_law [OF assms(1), of t k v] insert_exists_law [OF assms(1), of t k v] assms by (cases "om_get (view tx t) k = None") auto
next
  case (TxPut t k v)
  then show ?thesis
    using put_law [OF assms(1), of t k v] assms by auto
next
  case (TxDelete t k)
  then show ?thesis
    using delete_law [OF assms(1), of t k] assms by auto
qed (use assms get_law in auto)

lemma tx_run_law:
  assumes "tx_ok tx" "\<forall>op \<in> set os. table_ok (op_table op)"
  shows "\<exists>tx'. tx_run ops os tx = (fst (spec_run os (view tx)), tx') \<and> tx_ok tx' \<and> view tx' = snd (spec_run os (view tx))"
  using assms
proof (induction os arbitrary: tx)
  case (Cons op os)
  obtain tx1 where tx1: "tx_exec ops op tx = (fst (spec_exec op (view tx)), tx1)" "tx_ok tx1" "view tx1 = snd (spec_exec op (view tx))"
    using tx_exec_law [OF Cons.prems(1), of op] Cons.prems(2) by auto
  obtain tx2 where "tx_run ops os tx1 = (fst (spec_run os (view tx1)), tx2)" "tx_ok tx2" "view tx2 = snd (spec_run os (view tx1))"
    using Cons.IH [OF tx1(2)] Cons.prems(2) by auto
  then show ?case
    using tx1 by (simp add: case_prod_unfold Let_def)
qed simp

end

section \<open>The buffer\<close>

text \<open>C17. A buffered transaction behaves as a writer of the store: any sequence of reads, prefix scans, puts, inserts
  and deletes gives the same results on a buffer over a snapshot as on a memory writer, the buffer then shows the
  writer's rows, and replaying the buffered rows into a writer over the snapshot leaves those rows too.\<close>

theorem buffered_as_writer:
  assumes "mem_ok tx" "\<forall>op \<in> set os. table_ok (op_table op)"
    "tx_run mem_ops os tx = (rs, w)" "tx_run (buf_ops mem_read_ops) os (buffered_new tx) = (rs', b)"
  shows "rs' = rs \<and> buf_view mem_view b = mem_view w \<and>
    (\<exists>tx'. replay_writes mem_ops (bf_writes b) tx = (Inr tx' :: 'io branch_error + _) \<and> mem_view tx' = mem_view w)"
proof -
  note new = memr.buffered_new_law [OF assms(1)]
  have w: "rs = fst (spec_run os (mem_view tx))" "mem_view w = snd (spec_run os (mem_view tx))"
    using mem.tx_run_law [OF assms(1,2)] assms(3) by auto
  have b: "rs' = fst (spec_run os (mem_view tx))" "buf_ok (\<lambda>o'. o' = tx \<and> mem_ok o') b" "buf_view mem_view b = snd (spec_run os (mem_view tx))"
    using write_tx.tx_run_law [OF read_tx.buffered_write_tx [OF memr.pinned_read_tx [of tx]] new(1) assms(2)] assms(4) new(2) by auto
  have "bf_origin b = tx"
    using b(2) by (simp add: buf_ok_def)
  then have "buf_view mem_view b t = om_merge (mem_view tx t) (case om_get (bf_writes b) t of None \<Rightarrow> [] | Some rows \<Rightarrow> rows)" for t
    by (simp add: buf_view_def staged_rows_def)
  moreover have "buf_writes_ok (bf_writes b)"
    using b(2) by (simp add: buf_ok_def)
  then obtain tx' where "replay_writes mem_ops (bf_writes b) tx = (Inr tx' :: 'io branch_error + _)"
      "\<forall>t. mem_view tx' t = om_merge (mem_view tx t) (case om_get (bf_writes b) t of None \<Rightarrow> [] | Some rows \<Rightarrow> rows)"
    using mem.replay_writes_law [OF assms(1), of "bf_writes b", where ?'io = 'io] by blast
  ultimately show ?thesis
    using w b by (auto simp: fun_eq_iff)
qed

definition demo_ops :: "tx_op list" where
  "demo_ops = [TxPut ''T'' [1] [5], TxInsert ''T'' [1] [6], TxDelete ''T'' [2], TxScan ''T'' []]"

definition demo_rows :: mem_tx where
  "demo_rows = \<lparr>tx_state = [(''T'', [([2], [7])])]\<rparr>"

theorem buffered_as_writer_witness:
  "\<exists>b w. tx_run (buf_ops mem_read_ops) demo_ops (buffered_new demo_rows) =
      ([Some (Inr Done), Some (Inl AlreadyExists), Some (Inr (Deleted True)), Some (Inr (Rows [([1], [5])]))], b) \<and>
    buf_view mem_view b ''T'' = [([1], [5])]"
proof -
  have ok: "mem_ok demo_rows" "\<forall>op \<in> set demo_ops. table_ok (op_table op)"
    by (simp_all add: demo_rows_def mem_ok_def mem_state_ok_def om_ok_Cons demo_ops_def table_ok_def)
  obtain rs w rs' b where runs: "tx_run mem_ops demo_ops demo_rows = (rs, w)" "tx_run (buf_ops mem_read_ops) demo_ops (buffered_new demo_rows) = (rs', b)"
    by (meson surj_pair)
  have "mem_view demo_rows ''T'' = [([2], [7])]"
    by (simp add: demo_rows_def mem_view_def table_rows_def)
  then have "rs = [Some (Inr Done), Some (Inl AlreadyExists), Some (Inr (Deleted True)), Some (Inr (Rows [([1], [5])]))]" "mem_view w ''T'' = [([1], [5])]"
    using mem.tx_run_law [OF ok] runs(1) by (auto simp: demo_ops_def om_del_def)
  then show ?thesis
    using buffered_as_writer [OF ok runs] runs(2) by auto
qed

end
