(* ===== verification/Branch_Manager.thy ===== *)
theory Branch_Manager
  imports Branch_Commit
begin

text \<open>
  \<^verbatim>\<open>crates/branch/src/manager.rs\<close>: the life cycle of branches over a memory store. The registry maps a branch id
  to its state; a slot that an operation sets to \<^verbatim>\<open>None\<close> is removed with its entry. An operation holds the
  branch lock throughout, so that it is one function from the manager to its result and the manager
  after it; a commit publishes under the store's writer lock, which other commits may take first, and
  is two functions. Poisoned branch locks are left out: the callbacks of \<^verbatim>\<open>with_slot\<close> never unwind through one.
\<close>

section \<open>State\<close>

record branch_state =
  br_commit_id :: commit_id
  br_overlay :: overlay
  br_sealed :: "sealed_commit option"

record branches =
  bm_store :: memory_store
  bm_branches :: "(branch_id, branch_state) omap"
  bm_next_id :: u64

definition require_open :: "branch_state \<Rightarrow> 'io branch_error + unit" where
  "require_open st = (if br_sealed st \<noteq> None then Inl BranchSealed else Inr ())"

definition state_seal ::
  "('b, 't, 'io) roaring \<Rightarrow> (bytes \<Rightarrow> hash) \<Rightarrow> mem_tx \<Rightarrow> branch_state \<Rightarrow> 'io branch_error + (sealed_commit \<times> branch_state)" where
  "state_seal R H origin st = (case br_sealed st of
     Some sd \<Rightarrow> Inr (sd, st)
   | None \<Rightarrow> attempt (seal_compute mem_read_ops R H origin (br_overlay st)) (\<lambda>sd. Inr (sd, st\<lparr>br_sealed := Some sd\<rparr>)))"

section \<open>Opening and admission\<close>

definition store_head :: "memory_store \<Rightarrow> 'io branch_error + commit_id" where
  "store_head s = attempt (map_err BranchStorage (begin_read s)) (read_head mem_read_ops)"

definition branches_new :: "memory_store \<Rightarrow> u64 \<Rightarrow> 'io branch_error + branches" where
  "branches_new s n =
    attempt (store_head s) (\<lambda>_. Inr \<lparr>bm_store = s, bm_branches = [], bm_next_id = n\<rparr>)"

definition branches_head :: "branches \<Rightarrow> 'io branch_error + commit_id" where
  "branches_head m = store_head (bm_store m)"

definition allocate_branch_id :: "u64 \<Rightarrow> 'io branch_error + (branch_id \<times> u64)" where
  "allocate_branch_id n = (if n = - 1 then Inl BranchNumberExhausted else Inr (BranchId n, n + 1))"

definition branches_begin :: "branches \<Rightarrow> ('io branch_error + branch_id) \<times> branches" where
  "branches_begin m = (case attempt (branches_head m) (\<lambda>h. attempt (allocate_branch_id (bm_next_id m)) (\<lambda>a. Inr (h, a))) of
     Inl e \<Rightarrow> (Inl e, m)
   | Inr (h, bid, n) \<Rightarrow>
       (Inr bid, m\<lparr>bm_next_id := n, bm_branches :=
         om_put bid \<lparr>br_commit_id = h, br_overlay = overlay_new, br_sealed = None\<rparr> (bm_branches m)\<rparr>))"

definition branches_remove :: "branches \<Rightarrow> branch_id \<Rightarrow> branches" where
  "branches_remove m bid = m\<lparr>bm_branches := om_del bid (bm_branches m)\<rparr>"

text \<open>\<^verbatim>\<open>with_slot\<close>: the operation gets the live state and the snapshot whose head was checked, and returns its
  result with the new content of the slot.\<close>

definition with_slot ::
  "branches \<Rightarrow> branch_id \<Rightarrow> 'io branch_error \<Rightarrow> (branch_state \<Rightarrow> mem_tx \<Rightarrow> 'r \<times> branch_state option) \<Rightarrow>
    ('io branch_error + 'r) \<times> branches" where
  "with_slot m bid stale_error operation = (case om_get (bm_branches m) bid of
     None \<Rightarrow> (Inl HandleInvalid, m)
   | Some st \<Rightarrow>
       (case attempt (map_err BranchStorage (begin_read (bm_store m))) (\<lambda>origin.
               attempt (read_head mem_read_ops origin) (\<lambda>now. Inr (origin, now))) of
          Inl e \<Rightarrow> (Inl e, m)
        | Inr (origin, now) \<Rightarrow>
            if now \<noteq> br_commit_id st then (Inl stale_error, branches_remove m bid)
            else let (r, slot) = operation st origin in
              (Inr r, case slot of
                 Some st' \<Rightarrow> m\<lparr>bm_branches := om_put bid st' (bm_branches m)\<rparr>
               | None \<Rightarrow> branches_remove m bid)))"

definition with_branch ::
  "branches \<Rightarrow> branch_id \<Rightarrow> (branch_state \<Rightarrow> mem_tx \<Rightarrow> 'r \<times> branch_state) \<Rightarrow> ('io branch_error + 'r) \<times> branches" where
  "with_branch m bid operation = with_slot m bid HandleInvalid (\<lambda>st origin. map_prod id Some (operation st origin))"

text \<open>\<^verbatim>\<open>with_branch(..)??\<close>: the error of the admission or of the operation.\<close>

definition flatten :: "('e + ('e + 'a)) \<times> 's \<Rightarrow> ('e + 'a) \<times> 's" where
  "flatten r = (attempt (fst r) id, snd r)"

section \<open>Operations\<close>

definition branches_info :: "branches \<Rightarrow> branch_id \<Rightarrow> ('io branch_error + branch_info) \<times> branches" where
  "branches_info m bid = with_branch m bid (\<lambda>st origin.
     (\<lparr>bi_commit_id = br_commit_id st, bi_branch_id = bid, bi_version = overlay_version (br_overlay st),
       bi_sealed = (br_sealed st \<noteq> None)\<rparr>, st))"

text \<open>A read callback is a program that only reads; whatever it does, the state stays as it was.\<close>

definition lift_callback :: "('e, 'a) callback_result \<Rightarrow> (('io, 'e) operation_error, 'a) callback_result" where
  "lift_callback result = (case result of Returned v \<Rightarrow> Returned (map_err OperationFailure v) | Panicked \<Rightarrow> Panicked)"

definition branches_read ::
  "branches \<Rightarrow> branch_id \<Rightarrow> ('io, 'e, 'a) cell_program \<Rightarrow> (('io, 'e) operation_error, 'a) callback_result \<times> branches" where
  "branches_read m bid operation =
    (let (r, m') = with_branch m bid (\<lambda>st origin. (lift_callback (fst (run_program mem_read_ops origin operation (br_overlay st))), st))
     in (case r of Inl e \<Rightarrow> Returned (Inl (BranchFailure e)) | Inr result \<Rightarrow> result, m'))"

text \<open>A panic of the callback is resumed after the overlay was rewound and the lock released.\<close>

definition branches_write ::
  "branches \<Rightarrow> branch_id \<Rightarrow> ('io, 'e, 'a) cell_program \<Rightarrow> (('io, 'e) operation_error, 'a) callback_result \<times> branches" where
  "branches_write m bid operation =
    (let (r, m') = with_branch m bid (\<lambda>st origin. case require_open st of
           Inl e \<Rightarrow> (Returned (Inl (BranchFailure e)), st)
         | Inr _ \<Rightarrow> (let (result, ov) = overlay_write mem_read_ops origin operation (br_overlay st)
             in (lift_callback result, st\<lparr>br_overlay := ov\<rparr>)))
     in (case r of Inl e \<Rightarrow> Returned (Inl (BranchFailure e)) | Inr result \<Rightarrow> result, m'))"

definition branches_checkpoint :: "branches \<Rightarrow> branch_id \<Rightarrow> ('io branch_error + unit) \<times> branches" where
  "branches_checkpoint m bid = flatten (with_branch m bid (\<lambda>st origin. case require_open st of
     Inl e \<Rightarrow> (Inl e, st)
   | Inr _ \<Rightarrow> (Inr (), st\<lparr>br_overlay := overlay_checkpoint (br_overlay st)\<rparr>)))"

definition branches_rollback :: "branches \<Rightarrow> branch_id \<Rightarrow> ('io branch_error + unit) \<times> branches" where
  "branches_rollback m bid = flatten (with_branch m bid (\<lambda>st origin.
     case attempt (require_open st) (\<lambda>_. overlay_rollback (br_overlay st)) of
       Inl e \<Rightarrow> (Inl e, st)
     | Inr ov \<Rightarrow> (Inr (), st\<lparr>br_overlay := ov\<rparr>)))"

definition branches_seal ::
  "('b, 't, 'io) roaring \<Rightarrow> (bytes \<Rightarrow> hash) \<Rightarrow> branches \<Rightarrow> branch_id \<Rightarrow> ('io branch_error + sealed_commit) \<times> branches" where
  "branches_seal R H m bid = flatten (with_branch m bid (\<lambda>st origin. case state_seal R H origin st of
     Inl e \<Rightarrow> (Inl e, st)
   | Inr (sd, st') \<Rightarrow> (Inr sd, st')))"

definition branches_discard :: "branches \<Rightarrow> branch_id \<Rightarrow> ('io branch_error + unit) \<times> branches" where
  "branches_discard m bid = with_slot m bid HandleInvalid (\<lambda>st origin. ((), None))"

text \<open>The two halves of \<^verbatim>\<open>commit\<close>: admission and sealing under the branch lock; publication under the writer
  lock too. \<open>None\<close> is a caller that waits for the writer.\<close>

definition commit_admit ::
  "('b, 't, 'io) roaring \<Rightarrow> (bytes \<Rightarrow> hash) \<Rightarrow> branches \<Rightarrow> branch_id \<Rightarrow> ('io branch_error + sealed_commit) \<times> branches" where
  "commit_admit R H m bid = flatten (with_slot m bid BranchConflict (\<lambda>st origin. case state_seal R H origin st of
     Inl e \<Rightarrow> (Inl e, Some st)
   | Inr (sd, st') \<Rightarrow> (Inr sd, Some st')))"

definition persist ::
  "memory_store \<Rightarrow> mem_tx \<Rightarrow> commit_id \<Rightarrow> sealed_commit \<Rightarrow> ('io branch_error + commit_id) \<times> memory_store" where
  "persist s tx origin sd = (case commit_stage mem_ops tx origin sd of
     Inl e \<Rightarrow> (Inl e, mem_abort s)
   | Inr tx' \<Rightarrow>
       (case mem_commit s tx' of
          Inl e \<Rightarrow> (Inl (BranchStorage e), mem_abort s)
        | Inr s' \<Rightarrow> (Inr (sd_commit_id sd), s')))"

definition commit_publish ::
  "branches \<Rightarrow> branch_id \<Rightarrow> sealed_commit \<Rightarrow> (('io branch_error + commit_id) \<times> branches) option" where
  "commit_publish m bid sd = (case om_get (bm_branches m) bid of
     None \<Rightarrow> Some (Inl HandleInvalid, m)
   | Some st \<Rightarrow>
       (case begin_write (bm_store m) of
          None \<Rightarrow> None
        | Some (Inl e) \<Rightarrow> Some (Inl (BranchStorage e), m)
        | Some (Inr (s, tx)) \<Rightarrow>
            let (r, s') = persist s tx (br_commit_id st) sd;
                m' = m\<lparr>bm_store := s'\<rparr>
            in Some (r, case r of
                 Inr _ \<Rightarrow> branches_remove m' bid
               | Inl e \<Rightarrow> if e = BranchConflict then branches_remove m' bid else m')))"

definition branches_commit ::
  "('b, 't, 'io) roaring \<Rightarrow> (bytes \<Rightarrow> hash) \<Rightarrow> branches \<Rightarrow> branch_id \<Rightarrow> (('io branch_error + commit_id) \<times> branches) option" where
  "branches_commit R H m bid = (case commit_admit R H m bid of
     (Inl e, m') \<Rightarrow> Some (Inl e, m')
   | (Inr sd, m') \<Rightarrow> commit_publish m' bid sd)"

end
