(* ===== verification/Record_State.thy ===== *)
theory Record_State
  imports Branch_Manager
begin

text \<open>
  \<^verbatim>\<open>crates/record/src\<close>: \<^verbatim>\<open>types.rs\<close>, \<^verbatim>\<open>error.rs\<close>, \<^verbatim>\<open>state.rs\<close> and \<^verbatim>\<open>committed.rs\<close>. What runs over a branch view is a cell
  program; programs compose with \<open>pbind\<close>, which is the sequencing of the source with its \<^verbatim>\<open>?\<close>.
\<close>

section \<open>Composing programs\<close>

primrec pbind :: "('io, 'e, 'a) cell_program \<Rightarrow> ('a \<Rightarrow> ('io, 'e, 'b) cell_program) \<Rightarrow> ('io, 'e, 'b) cell_program" where
  "pbind (Finish r) f = (case r of Inl e \<Rightarrow> Finish (Inl e) | Inr a \<Rightarrow> f a)"
| "pbind Unwind f = Unwind"
| "pbind (GetCell k g) f = GetCell k (\<lambda>r. pbind (g r) f)"
| "pbind (ScanCells p g) f = ScanCells p (\<lambda>r. pbind (g r) f)"
| "pbind (PutCell k v p) f = PutCell k v (pbind p f)"
| "pbind (DeleteCell k p) f = DeleteCell k (pbind p f)"

fun pfor :: "('x \<Rightarrow> ('io, 'e, unit) cell_program) \<Rightarrow> 'x list \<Rightarrow> ('io, 'e, unit) cell_program" where
  "pfor f [] = Finish (Inr ())"
| "pfor f (x # xs) = pbind (f x) (\<lambda>_. pfor f xs)"

lemma spec_pbind: "spec_program (pbind p f) c =
    (case spec_program p c of
       (Returned (Inr a), c') \<Rightarrow> spec_program (f a) c'
     | (Returned (Inl e), c') \<Rightarrow> (Returned (Inl e), c')
     | (Panicked, c') \<Rightarrow> (Panicked, c'))"
  by (induction p arbitrary: c) (auto split: sum.split)

lemma pbind_ok: "program_ok p \<Longrightarrow> (\<And>a. program_ok (f a)) \<Longrightarrow> program_ok (pbind p f)"
  by (induction p) (auto split: sum.split)

section \<open>Types and errors\<close>

datatype record_key = RecordKey (key_bytes: bytes)

datatype read_target = TargetHead | TargetBranch branch_id | TargetCommit commit_id

type_synonym record_cells = "(bytes, cell_value) omap"

datatype cell_patch = PatchSet cell_value | PatchRemove

type_synonym record_patch = "(bytes, cell_patch) omap"

record db_record =
  rec_key :: record_key
  rec_cells :: record_cells

text \<open>The message of \<^verbatim>\<open>InvalidArgument\<close> is the text of one of these.\<close>

datatype argument_error = BadName cell_name_error | BadValue cell_limit_error

datatype 'io record_error =
    RecordNotFound
  | RecordAlreadyExists
  | RecordReserved
  | RecordInvalidArgument argument_error
  | RecordCorruptState string
  | RecordIdExhausted
  | RecordCommitUnavailable commit_id commit_id
  | RecordCells cell_error
  | RecordStorage storage_error
  | RecordBranch "'io branch_error"

definition from_operation_error :: "('io, 'io record_error) operation_error \<Rightarrow> 'io record_error" where
  "from_operation_error error = (case error of BranchFailure e \<Rightarrow> RecordBranch e | OperationFailure e \<Rightarrow> e)"

section \<open>Engine state\<close>

text \<open>Calls on a branch view, with their errors converted by \<^verbatim>\<open>?\<close>. A scan that does not end is no outcome of a call.\<close>

definition read_cell :: "cell_key \<Rightarrow> ('io, 'io record_error, cell_value option) cell_program" where
  "read_cell k = GetCell k (\<lambda>r. Finish (map_err RecordBranch r))"

definition scan_cells :: "bytes \<Rightarrow> ('io, 'io record_error, ('io branch_error + (cell_key \<times> cell_value)) list) cell_program" where
  "scan_cells p = ScanCells p (\<lambda>r. case r of None \<Rightarrow> Unwind | Some r \<Rightarrow> Finish (map_err RecordBranch r))"

definition write_cell :: "cell_key \<Rightarrow> cell_value \<Rightarrow> ('io, 'e, unit) cell_program" where
  "write_cell k v = PutCell k v (Finish (Inr ()))"

definition erase_cell :: "cell_key \<Rightarrow> ('io, 'e, unit) cell_program" where
  "erase_cell k = DeleteCell k (Finish (Inr ()))"

definition binding :: "record_key \<Rightarrow> cell_key" where
  "binding key = CellKey (sys_id RECORD_KEYS) (key_bytes key)"

text \<open>\<^verbatim>\<open>.filter(|_| !value.is_indexable())\<close>\<close>

definition plain :: "cell_value \<Rightarrow> 'a option \<Rightarrow> 'a option" where
  "plain v x = (if cv_is_indexable v then None else x)"

definition bound_id :: "record_key \<Rightarrow> cell_value option \<Rightarrow> 'io record_error + u64 option" where
  "bound_id key binding_value = (case binding_value of
     None \<Rightarrow>
       if by_key (key_bytes key) \<noteq> None then Inl (RecordCorruptState ''reserved record binding missing'') else Inr None
   | Some value \<Rightarrow>
       attempt (ok_or (RecordCorruptState ''invalid record binding'') (plain value (cv_as_u64 value))) (\<lambda>rid.
         case by_key (key_bytes key) of
           Some r \<Rightarrow> if rid \<noteq> sys_id r then Inl (RecordCorruptState ''reserved record ID mismatch'') else Inr (Some rid)
         | None \<Rightarrow>
             if rid < FIRST_USER_RECORD_ID then Inl (RecordCorruptState ''user key bound to reserved ID'') else Inr (Some rid)))"

definition identity_key :: "cell_value \<Rightarrow> record_key option" where
  "identity_key v = map_option RecordKey (plain v (cv_as_bytes32 v))"

definition check_identity :: "record_key \<Rightarrow> cell_value option \<Rightarrow> 'io record_error + unit" where
  "check_identity key value =
    attempt (ok_or (RecordCorruptState ''bound record has no #key'') value) (\<lambda>identity.
      if identity_key identity \<noteq> Some key then Inl (RecordCorruptState ''binding and #key disagree'') else Inr ())"

definition resolve :: "record_key \<Rightarrow> ('io, 'io record_error, u64 option) cell_program" where
  "resolve key =
    pbind (read_cell (binding key)) (\<lambda>value.
    pbind (Finish (bound_id key value)) (\<lambda>found. case found of
      None \<Rightarrow> Finish (Inr None)
    | Some rid \<Rightarrow>
        pbind (read_cell (CellKey rid name_KEY)) (\<lambda>identity.
        pbind (Finish (check_identity key identity)) (\<lambda>_. Finish (Inr (Some rid))))))"

definition read_param :: "bytes \<Rightarrow> ('io, 'io record_error, u32) cell_program" where
  "read_param name =
    pbind (read_cell (CellKey (sys_id PARAMS) name)) (\<lambda>value.
    pbind (Finish (ok_or (RecordCorruptState ''required #params cell missing'') value)) (\<lambda>value.
      Finish (ok_or (RecordCorruptState ''invalid #params cell'') (plain value (cv_as_u32 value)))))"

definition read_limits :: "('io, 'io record_error, cell_limits) cell_program" where
  "read_limits =
    pbind (read_param name_MAX_CELL_NAME_LEN) (\<lambda>n.
    pbind (read_param name_MAX_STR_LEN) (\<lambda>s.
    pbind (read_param name_MAX_BYTES_LEN) (\<lambda>b.
      Finish (Inr \<lparr>max_cell_name_len = n, max_str_len = s, max_bytes_len = b\<rparr>))))"

definition allocator_key :: cell_key where
  "allocator_key = CellKey (sys_id ALLOC) name_NEXT_RECORD_ID"

definition next_id :: "('io, 'io record_error, u64 \<times> u64) cell_program" where
  "next_id =
    pbind (read_cell allocator_key) (\<lambda>value.
    pbind (Finish (ok_or (RecordCorruptState ''allocator missing'') value)) (\<lambda>value.
    pbind (Finish (ok_or (RecordCorruptState ''invalid allocator'') (plain value (cv_as_u64 value)))) (\<lambda>rid.
      if rid < FIRST_USER_RECORD_ID then Finish (Inl (RecordCorruptState ''allocator points to reserved ID''))
      else Finish (if rid = - 1 then Inl RecordIdExhausted else Inr (rid, rid + 1)))))"

section \<open>Committed reads\<close>

definition committed_snapshot :: "memory_store \<Rightarrow> commit_id option \<Rightarrow> 'io record_error + (mem_tx \<times> commit_id)" where
  "committed_snapshot store commit =
    attempt (map_err RecordStorage (begin_read store)) (\<lambda>tx.
    attempt (map_err RecordBranch (read_head mem_read_ops tx)) (\<lambda>h.
      case commit of
        Some requested \<Rightarrow> if requested \<noteq> h then Inl (RecordCommitUnavailable requested h) else Inr (tx, h)
      | None \<Rightarrow> Inr (tx, h)))"

definition read_cells ::
  "('tx, 'cur, 'z) read_ops_scheme \<Rightarrow> 'tx \<Rightarrow> u64 \<Rightarrow> bytes list option \<Rightarrow> ('io record_error + record_cells) option" where
  "read_cells ops tx rid proj = (case proj of
     Some names \<Rightarrow>
       Some (try_fold (\<lambda>name values.
         attempt (map_err RecordCells (cells_get ops tx (CellKey rid name))) (\<lambda>value.
           Inr (case value of Some v \<Rightarrow> om_put name v values | None \<Rightarrow> values))) names [])
   | None \<Rightarrow>
       (case scan_record ops tx rid of
          Inl e \<Rightarrow> Some (Inl (RecordCells e))
        | Inr s \<Rightarrow> map_option (\<lambda>rows.
            attempt (map_err RecordCells rows) (\<lambda>rows. Inr (foldl (\<lambda>values (address, v). om_put (key_name address) v values) [] rows)))
            (cell_scan_collect ops s)))"

definition read_committed_by_id ::
  "('tx, 'cur, 'z) read_ops_scheme \<Rightarrow> 'tx \<Rightarrow> u64 \<Rightarrow> bytes list option \<Rightarrow> ('io record_error + db_record) option" where
  "read_committed_by_id ops tx rid proj =
    (case attempt (map_err RecordCells (cells_get ops tx (CellKey rid name_KEY))) (\<lambda>value.
          attempt (ok_or (RecordCorruptState ''record has no #key'') value) (\<lambda>identity.
            ok_or (RecordCorruptState ''invalid #key'') (identity_key identity))) of
       Inl e \<Rightarrow> Some (Inl e)
     | Inr key \<Rightarrow> map_option (\<lambda>cells. attempt cells (\<lambda>cells. Inr \<lparr>rec_key = key, rec_cells = cells\<rparr>))
         (read_cells ops tx rid proj))"

definition read_committed_by_key ::
  "('tx, 'cur, 'z) read_ops_scheme \<Rightarrow> 'tx \<Rightarrow> record_key \<Rightarrow> bytes list option \<Rightarrow> ('io record_error + db_record) option" where
  "read_committed_by_key ops tx key proj =
    (case attempt (map_err RecordCells (cells_get ops tx (binding key))) (\<lambda>value.
          attempt (bound_id key value) (\<lambda>found.
          attempt (ok_or RecordNotFound found) (\<lambda>rid.
          attempt (map_err RecordCells (cells_get ops tx (CellKey rid name_KEY))) (\<lambda>identity.
          attempt (check_identity key identity) (\<lambda>_. Inr rid))))) of
       Inl e \<Rightarrow> Some (Inl e)
     | Inr rid \<Rightarrow> map_option (\<lambda>cells. attempt cells (\<lambda>cells. Inr \<lparr>rec_key = key, rec_cells = cells\<rparr>))
         (read_cells ops tx rid proj))"

end
