(* ===== verification/Record_Ops.thy ===== *)
theory Record_Ops
  imports Record_State
begin

text \<open>
  \<^verbatim>\<open>crates/record/src/crud.rs\<close>: the operations of \<^verbatim>\<open>Records\<close>. A mutation is one program run by \<^verbatim>\<open>Branches::write\<close>; reads go to
  a branch or to a committed snapshot.
\<close>

definition reject_reserved :: "record_key \<Rightarrow> 'io record_error + unit" where
  "reject_reserved key = (if by_key (key_bytes key) \<noteq> None then Inl RecordReserved else Inr ())"

definition validate_cell :: "cell_limits \<Rightarrow> bytes \<Rightarrow> cell_value option \<Rightarrow> 'io record_error + unit" where
  "validate_cell limits name value =
    attempt (map_err (RecordInvalidArgument \<circ> BadName) (limits_parse_user_name limits name)) (\<lambda>_.
      case value of
        Some v \<Rightarrow> map_err (RecordInvalidArgument \<circ> BadValue) (validate_value limits (as_view v))
      | None \<Rightarrow> Inr ())"

section \<open>The callbacks\<close>

text \<open>\<^verbatim>\<open>.next().transpose()?\<close>: only the first item of the scan is looked at.\<close>

definition first_row :: "('io branch_error + 'a) list \<Rightarrow> 'io record_error + 'a option" where
  "first_row items = (case items of
     [] \<Rightarrow> Inr None
   | item # _ \<Rightarrow> attempt (map_err RecordBranch item) (\<lambda>row. Inr (Some row)))"

definition create_program :: "record_key \<Rightarrow> record_cells \<Rightarrow> ('io, 'io record_error, record_key) cell_program" where
  "create_program key cell_values =
    pbind read_limits (\<lambda>limits.
    pbind (pfor (\<lambda>(name, value). Finish (validate_cell limits name (Some value))) cell_values) (\<lambda>_.
    pbind (resolve key) (\<lambda>found.
      if found \<noteq> None then Finish (Inl RecordAlreadyExists)
      else
        pbind next_id (\<lambda>(rid, next).
        pbind (scan_cells (to_be rid)) (\<lambda>items.
        pbind (Finish (first_row items)) (\<lambda>row.
          if row \<noteq> None then Finish (Inl (RecordCorruptState ''allocator points to occupied record''))
          else
            pbind (pfor (\<lambda>(name, value). write_cell (CellKey rid name) value) cell_values) (\<lambda>_.
            pbind (write_cell (CellKey rid name_KEY) (from_bytes32 (key_bytes key))) (\<lambda>_.
            pbind (write_cell (binding key) (from_u64 rid)) (\<lambda>_.
            pbind (write_cell allocator_key (from_u64 next)) (\<lambda>_. Finish (Inr key)))))))))))"

definition patch_value :: "cell_patch \<Rightarrow> cell_value option" where
  "patch_value change = (case change of PatchSet value \<Rightarrow> Some value | PatchRemove \<Rightarrow> None)"

definition patch_cell :: "cell_key \<Rightarrow> cell_patch \<Rightarrow> ('io, 'io record_error, unit) cell_program" where
  "patch_cell address change = (case change of
     PatchSet value \<Rightarrow>
       pbind (read_cell address) (\<lambda>old. if old \<noteq> Some value then write_cell address value else Finish (Inr ()))
   | PatchRemove \<Rightarrow>
       pbind (read_cell address) (\<lambda>old. if old \<noteq> None then erase_cell address else Finish (Inr ())))"

definition patch_program :: "record_key \<Rightarrow> record_patch \<Rightarrow> ('io, 'io record_error, unit) cell_program" where
  "patch_program key changes =
    pbind (resolve key) (\<lambda>found.
    pbind (Finish (ok_or RecordNotFound found)) (\<lambda>rid.
    pbind read_limits (\<lambda>limits.
    pbind (pfor (\<lambda>(name, change). Finish (validate_cell limits name (patch_value change))) changes) (\<lambda>_.
      pfor (\<lambda>(name, change). patch_cell (CellKey rid name) change) changes))))"

definition delete_program :: "record_key \<Rightarrow> ('io, 'io record_error, unit) cell_program" where
  "delete_program key =
    pbind (resolve key) (\<lambda>found.
    pbind (Finish (ok_or RecordNotFound found)) (\<lambda>rid.
    pbind (scan_cells (to_be rid)) (\<lambda>items.
    pbind (Finish (map_err RecordBranch (try_map (\<lambda>item. attempt item (\<lambda>(address, _). Inr address)) items))) (\<lambda>addresses.
    pbind (pfor erase_cell addresses) (\<lambda>_. erase_cell (binding key))))))"

definition read_branch_record :: "record_key \<Rightarrow> bytes list option \<Rightarrow> ('io, 'io record_error, db_record) cell_program" where
  "read_branch_record key proj =
    pbind (resolve key) (\<lambda>found.
    pbind (Finish (ok_or RecordNotFound found)) (\<lambda>rid.
    pbind (case proj of
       Some names \<Rightarrow> foldr (\<lambda>name rest values.
         pbind (read_cell (CellKey rid name)) (\<lambda>value.
           rest (case value of Some v \<Rightarrow> om_put name v values | None \<Rightarrow> values))) names (\<lambda>values. Finish (Inr values)) []
     | None \<Rightarrow>
         pbind (scan_cells (to_be rid)) (\<lambda>items.
           Finish (try_fold (\<lambda>item values.
             attempt (map_err RecordBranch item) (\<lambda>(address, v). Inr (om_put (key_name address) v values))) items [])))
      (\<lambda>cells. Finish (Inr \<lparr>rec_key = key, rec_cells = cells\<rparr>))))"

section \<open>Operations\<close>

text \<open>\<^verbatim>\<open>.map_err(Into::into)\<close> on what the manager returns.\<close>

definition from_operation ::
  "(('io, 'io record_error) operation_error, 'a) callback_result \<times> branches \<Rightarrow> ('io record_error, 'a) callback_result \<times> branches" where
  "from_operation r = (case fst r of
     Returned v \<Rightarrow> Returned (map_err from_operation_error v) | Panicked \<Rightarrow> Panicked, snd r)"

definition records_write ::
  "branches \<Rightarrow> branch_id \<Rightarrow> record_key \<Rightarrow> ('io, 'io record_error, 'a) cell_program \<Rightarrow> ('io record_error, 'a) callback_result \<times> branches" where
  "records_write m bid key program = (case reject_reserved key of
     Inl e \<Rightarrow> (Returned (Inl e), m)
   | Inr _ \<Rightarrow> from_operation (branches_write m bid program))"

definition records_create ::
  "branches \<Rightarrow> branch_id \<Rightarrow> record_key \<Rightarrow> record_cells \<Rightarrow> ('io record_error, record_key) callback_result \<times> branches" where
  "records_create m bid key cell_values = records_write m bid key (create_program key cell_values)"

definition records_patch ::
  "branches \<Rightarrow> branch_id \<Rightarrow> record_key \<Rightarrow> record_patch \<Rightarrow> ('io record_error, unit) callback_result \<times> branches" where
  "records_patch m bid key changes = records_write m bid key (patch_program key changes)"

definition records_delete ::
  "branches \<Rightarrow> branch_id \<Rightarrow> record_key \<Rightarrow> ('io record_error, unit) callback_result \<times> branches" where
  "records_delete m bid key = records_write m bid key (delete_program key)"

text \<open>\<open>None\<close> is a committed read whose scan does not end.\<close>

definition read_committed ::
  "memory_store \<Rightarrow> commit_id option \<Rightarrow> record_key \<Rightarrow> bytes list option \<Rightarrow> ('io record_error + db_record) option" where
  "read_committed store commit key proj = (case committed_snapshot store commit of
     Inl e \<Rightarrow> Some (Inl e)
   | Inr (tx, _) \<Rightarrow> read_committed_by_key mem_read_ops tx key proj)"

definition records_get ::
  "branches \<Rightarrow> read_target \<Rightarrow> record_key \<Rightarrow> bytes list option \<Rightarrow> (('io record_error, db_record) callback_result \<times> branches) option" where
  "records_get m target key proj = (case target of
     TargetBranch bid \<Rightarrow> Some (from_operation (branches_read m bid (read_branch_record key proj)))
   | TargetHead \<Rightarrow> map_option (\<lambda>r. (Returned r, m)) (read_committed (bm_store m) None key proj)
   | TargetCommit commit \<Rightarrow> map_option (\<lambda>r. (Returned r, m)) (read_committed (bm_store m) (Some commit) key proj))"

end
