(* ===== verification/Record_Laws.thy ===== *)
theory Record_Laws
  imports Record_Ops
begin

text \<open>
  The record layer against an abstract database, a map from keys to records. \<open>records_ok\<close> is the
  engine state the operations keep: parameters, allocator, and bindings that agree with the identity cells.
\<close>

section \<open>Engine cells\<close>

lemma field_not_indexable [simp]: "\<not> cv_is_indexable (field_from_typed ty v)"
  by (simp add: cv_is_indexable_def field_from_typed_def cv_from_def ref_encode_eq ref_metadata_masks)

lemma engine_values [simp]:
  "plain (from_u64 n) (cv_as_u64 (from_u64 n)) = Some n" "plain (from_u32 w) (cv_as_u32 (from_u32 w)) = Some w"
  "\<not> cv_is_indexable (from_u64 n)" "\<not> cv_is_indexable (from_u32 w)" "\<not> cv_is_indexable (from_bytes32 b)"
  "length b = 32 \<Longrightarrow> identity_key (from_bytes32 b) = Some (RecordKey b)"
  "cv_ok (from_u64 n)" "cv_ok (from_u32 w)" "length b = 32 \<Longrightarrow> cv_ok (from_bytes32 b)"
  by (simp_all add: plain_def identity_key_def typed_number_defs typed_array_defs typed_defs)

lemma by_key_iff: "by_key k = Some r \<longleftrightarrow> r \<in> set system_all \<and> sys_key r = k"
  unfolding by_key_def by (rule find_distinct_key [OF system_all_keys(1)])

lemma by_key_small: "by_key k = Some r \<Longrightarrow> sys_id r < FIRST_USER_RECORD_ID \<and> length k = 32"
  using system_all_keys(3) by (auto simp: by_key_iff)

lemma system_ids: "sys_id PARAMS = 0" "sys_id ALLOC = 1" "sys_id ROOTS = 2" "sys_id RECORD_KEYS = 3" "FIRST_USER_RECORD_ID = 64"
  by (simp_all add: PARAMS_def ALLOC_def ROOTS_def RECORD_KEYS_def system_record_def FIRST_USER_RECORD_ID_def)

lemma reserved_name_lengths: "length name_KEY = 4" "length name_NEXT_RECORD_ID = 13"
  by (simp_all add: name_KEY_def name_NEXT_RECORD_ID_def ascii_def)

section \<open>What programs do to the cells\<close>

lemma spec_calls [simp]:
  "spec_program (read_cell k) c = (Returned (Inr (c k)), c)"
  "spec_program (scan_cells p) c = (Returned (Inr (map Inr (cells_under p c))), c)"
  "spec_program (write_cell k v) c = (Returned (Inr ()), c(k \<mapsto> v))"
  "spec_program (erase_cell k) c = (Returned (Inr ()), c(k := None))"
  by (simp_all add: read_cell_def scan_cells_def write_cell_def erase_cell_def)

lemma spec_pfor_check: "spec_program (pfor (\<lambda>x. Finish (g x)) xs) c = (Returned (try_fold (\<lambda>x _. g x) xs ()), c)"
  by (induction xs) (auto simp: spec_pbind attempt_def split: sum.split)

lemma spec_pfor_update:
  assumes "\<And>x c. spec_program (f x) c = (Returned (Inr ()), c(k x := v x))"
  shows "spec_program (pfor f xs) c = (Returned (Inr ()), put_all (map (\<lambda>x. (k x, v x)) xs) c)"
  by (induction xs arbitrary: c) (simp_all add: spec_pbind assms put_all_def)

lemma spec_patch_cell: "spec_program (patch_cell a ch) c = (Returned (Inr ()), c(a := patch_value ch))"
  by (auto simp: patch_cell_def patch_value_def spec_pbind split: cell_patch.split)

lemma put_record:
  assumes "distinct (map fst xs)"
  shows "put_all (map (\<lambda>(n, x). (CellKey rid n, f x)) xs) c =
    (\<lambda>k. if record_id k = rid then (case map_of xs (key_name k) of Some x \<Rightarrow> f x | None \<Rightarrow> c k) else c k)"
proof -
  have "distinct (map fst (map (\<lambda>(n, x). (CellKey rid n, f x)) xs))"
    using assms by (simp add: comp_def case_prod_unfold distinct_map inj_on_def) 
  moreover have "map_of (map (\<lambda>(n, x). (CellKey rid n, f x)) xs) k = (if record_id k = rid then map_option f (map_of xs (key_name k)) else None)" for k
    by (cases k; induction xs) auto
  ultimately show ?thesis
    by (auto simp: fun_eq_iff put_all_distinct split: option.split)
qed

lemma erase_record: "put_all (map (\<lambda>k. (k, None)) ks) c = (\<lambda>k. if k \<in> set ks then None else c k)"
  by (induction ks arbitrary: c) (auto simp: put_all_def fun_eq_iff)

section \<open>The engine state\<close>

definition limits_at :: "(cell_key \<rightharpoonup> cell_value) \<Rightarrow> cell_limits \<Rightarrow> bool" where
  "limits_at c l \<longleftrightarrow>
    c (CellKey (sys_id PARAMS) name_MAX_CELL_NAME_LEN) = Some (from_u32 (max_cell_name_len l)) \<and>
    c (CellKey (sys_id PARAMS) name_MAX_STR_LEN) = Some (from_u32 (max_str_len l)) \<and>
    c (CellKey (sys_id PARAMS) name_MAX_BYTES_LEN) = Some (from_u32 (max_bytes_len l))"

abbreviation rkey_ok :: "record_key \<Rightarrow> bool" where
  "rkey_ok key \<equiv> length (key_bytes key) = 32"

abbreviation reserved_key :: "record_key \<Rightarrow> bool" where
  "reserved_key key \<equiv> by_key (key_bytes key) \<noteq> None"

definition id_fits :: "u64 \<Rightarrow> record_key \<Rightarrow> u64 \<Rightarrow> bool" where
  "id_fits n key rid \<longleftrightarrow> (case by_key (key_bytes key) of
     Some r \<Rightarrow> rid = sys_id r | None \<Rightarrow> FIRST_USER_RECORD_ID \<le> rid \<and> rid < n)"

text \<open>\<open>records_at c l n ids\<close>: the cells \<open>c\<close> hold the limits \<open>l\<close>, the next record id \<open>n\<close> and the bindings \<open>ids\<close>; every
  bound record carries its key, every cell of a user record belongs to a bound one, and only user records have
  indexed cells.\<close>

definition records_at :: "(cell_key \<rightharpoonup> cell_value) \<Rightarrow> cell_limits \<Rightarrow> u64 \<Rightarrow> (record_key \<rightharpoonup> u64) \<Rightarrow> bool" where
  "records_at c l n ids \<longleftrightarrow> finite (dom c) \<and> limits_at c l \<and> c allocator_key = Some (from_u64 n) \<and> FIRST_USER_RECORD_ID \<le> n \<and>
    (\<forall>key. rkey_ok key \<longrightarrow> c (binding key) = map_option from_u64 (ids key)) \<and>
    (\<forall>key rid. ids key = Some rid \<longrightarrow> rkey_ok key \<and> c (CellKey rid name_KEY) = Some (from_bytes32 (key_bytes key)) \<and> id_fits n key rid) \<and>
    (\<forall>r \<in> set system_all. ids (RecordKey (sys_key r)) = Some (sys_id r)) \<and>
    (\<forall>k. FIRST_USER_RECORD_ID \<le> record_id k \<longrightarrow> c k \<noteq> None \<longrightarrow> record_id k \<in> ran ids) \<and>
    (\<forall>k v. c k = Some v \<longrightarrow> cv_is_indexable v \<longrightarrow> FIRST_USER_RECORD_ID \<le> record_id k)"

lemma records_bound:
  assumes "records_at c l n ids" "ids key = Some rid"
  shows "rkey_ok key" "c (CellKey rid name_KEY) = Some (from_bytes32 (key_bytes key))" "id_fits n key rid"
  using assms unfolding records_at_def by blast+

lemma from_bytes32_inject: "from_bytes32 a = from_bytes32 b \<Longrightarrow> length a = 32 \<Longrightarrow> length b = 32 \<Longrightarrow> a = b"
  by (metis engine_values(6) option.inject record_key.inject)

lemma ids_inject:
  assumes "records_at c l n ids" "ids key = Some rid" "ids key' = Some rid"
  shows "key = key'"
proof -
  have "from_bytes32 (key_bytes key) = from_bytes32 (key_bytes key')"
    using records_bound(2) [OF assms(1,2)] records_bound(2) [OF assms(1,3)] by simp
  then have "key_bytes key = key_bytes key'"
    using records_bound(1) [OF assms(1,2)] records_bound(1) [OF assms(1,3)] by (rule from_bytes32_inject)
  then show ?thesis
    by (rule record_key.expand)
qed

lemma ids_below:
  assumes "records_at c l n ids" "ids key = Some rid"
  shows "rid < n"
proof -
  have "FIRST_USER_RECORD_ID \<le> n"
    using assms(1) by (simp add: records_at_def)
  then show ?thesis
    using records_bound(3) [OF assms] by_key_small [of "key_bytes key"]
    by (cases "by_key (key_bytes key)") (auto simp: id_fits_def)
qed

lemma free_record: "records_at c l n ids \<Longrightarrow> c (CellKey n name) = None"
proof (rule ccontr)
  assume at: "records_at c l n ids" and "c (CellKey n name) \<noteq> None"
  then have "record_id (CellKey n name) \<in> ran ids"
    unfolding records_at_def by (metis cell_key.sel(1))
  then have "n \<in> ran ids"
    by simp
  then show False
    using ids_below [OF at] by (auto simp: ran_def)
qed

lemma bound_id_law: "records_at c l n ids \<Longrightarrow> ids key = Some rid \<Longrightarrow> bound_id key (Some (from_u64 rid)) = Inr (Some rid)"
  using records_bound(3) [of c l n ids key rid] by (auto simp: bound_id_def ok_or_def id_fits_def split: option.splits)

lemma unbound_law:
  assumes "records_at c l n ids" "rkey_ok key" "ids key = None"
  shows "bound_id key (c (binding key)) = Inr None"
proof -
  have "\<not> reserved_key key"
  proof
    assume "reserved_key key"
    then obtain r where "r \<in> set system_all" "RecordKey (sys_key r) = key"
      by (cases key) (auto simp: by_key_iff)
    then show False
      using assms(1,3) by (auto simp: records_at_def)
  qed
  moreover have "c (binding key) = None"
    using assms by (simp add: records_at_def)
  ultimately show ?thesis
    by (simp add: bound_id_def)
qed

lemma resolve_law:
  assumes "records_at c l n ids" "rkey_ok key"
  shows "spec_program (resolve key) c = (Returned (Inr (ids key)), c)"
proof (cases "ids key")
  case None
  then show ?thesis
    by (simp add: resolve_def spec_pbind unbound_law [OF assms None])
next
  case (Some rid)
  note bound = records_bound [OF assms(1) Some]
  have "c (binding key) = Some (from_u64 rid)"
    using assms Some by (simp add: records_at_def)
  moreover have "identity_key (from_bytes32 (key_bytes key)) = Some key"
    using bound(1) by (cases key) simp
  ultimately show ?thesis
    using bound(2) Some by (simp add: resolve_def spec_pbind check_identity_def ok_or_def bound_id_law [OF assms(1) Some])
qed

lemma limits_law: "records_at c l n ids \<Longrightarrow> spec_program read_limits c = (Returned (Inr l), c)"
  by (simp add: records_at_def limits_at_def read_limits_def read_param_def spec_pbind ok_or_def)

lemma next_id_law:
  "records_at c l n ids \<Longrightarrow> spec_program next_id c = (Returned (if n = - 1 then Inl RecordIdExhausted else Inr (n, n + 1)), c)"
  by (auto simp: records_at_def next_id_def spec_pbind ok_or_def)

section \<open>The abstract database\<close>

type_synonym user_record = "bytes \<rightharpoonup> cell_value"

record database =
  db_limits :: cell_limits
  db_next :: u64
  db_records :: "record_key \<rightharpoonup> user_record"

definition record_at :: "(cell_key \<rightharpoonup> cell_value) \<Rightarrow> u64 \<Rightarrow> user_record" where
  "record_at c rid = (\<lambda>name. c (CellKey rid name))"

definition user_records :: "(cell_key \<rightharpoonup> cell_value) \<Rightarrow> (record_key \<rightharpoonup> u64) \<Rightarrow> record_key \<rightharpoonup> user_record" where
  "user_records c ids key = (if reserved_key key then None else map_option (record_at c) (ids key))"

definition database_at :: "(cell_key \<rightharpoonup> cell_value) \<Rightarrow> database \<Rightarrow> bool" where
  "database_at c d \<longleftrightarrow> (\<exists>ids. records_at c (db_limits d) (db_next d) ids \<and> db_records d = user_records c ids)"

definition validate_all :: "cell_limits \<Rightarrow> (bytes \<times> cell_value option) list \<Rightarrow> 'io record_error + unit" where
  "validate_all l xs = try_fold (\<lambda>(name, value) _. validate_cell l name value) xs ()"

definition spec_create :: "record_key \<Rightarrow> record_cells \<Rightarrow> database \<Rightarrow> 'io record_error + database" where
  "spec_create key xs d =
    attempt (validate_all (db_limits d) (map (map_prod id Some) xs)) (\<lambda>_.
      if db_records d key \<noteq> None then Inl RecordAlreadyExists
      else if db_next d = - 1 then Inl RecordIdExhausted
      else Inr (d\<lparr>db_next := db_next d + 1,
        db_records := (db_records d)(key \<mapsto> (om_get xs)(name_KEY \<mapsto> from_bytes32 (key_bytes key)))\<rparr>))"

definition spec_patch :: "record_key \<Rightarrow> record_patch \<Rightarrow> database \<Rightarrow> 'io record_error + database" where
  "spec_patch key changes d =
    attempt (ok_or RecordNotFound (db_records d key)) (\<lambda>r.
    attempt (validate_all (db_limits d) (map (map_prod id patch_value) changes)) (\<lambda>_.
      Inr (d\<lparr>db_records := (db_records d)(key \<mapsto>
        (\<lambda>name. case om_get changes name of Some ch \<Rightarrow> patch_value ch | None \<Rightarrow> r name))\<rparr>)))"

definition spec_delete :: "record_key \<Rightarrow> database \<Rightarrow> 'io record_error + database" where
  "spec_delete key d =
    attempt (ok_or RecordNotFound (db_records d key)) (\<lambda>_. Inr (d\<lparr>db_records := (db_records d)(key := None)\<rparr>))"

text \<open>Names that pass validation are not reserved.\<close>

lemma user_name_not_reserved: "user_name name_KEY = False"
  by (simp add: user_name_def name_KEY_def ascii_def name_body_def is_ascii_alphabetic_def)

lemma validate_all_names:
  "validate_all l xs = (Inr u :: 'io record_error + _) \<Longrightarrow> x \<in> set xs \<Longrightarrow> user_name (fst x)"
proof (induction xs)
  case (Cons y ys)
  have "validate_cell l (fst y) (snd y) = (Inr () :: 'io record_error + _)" "validate_all l ys = (Inr u :: 'io record_error + _)"
    using Cons.prems(1) by (auto simp: validate_all_def try_simps case_prod_unfold)
  moreover from this(1) have "user_name (fst y)"
    by (auto simp: validate_cell_def try_simps limits_parse_user_name_def parse_user_Inr)
  ultimately show ?case
    using Cons by auto
qed simp

end
