(* ===== verification/Branch_System.thy ===== *)
theory Branch_System
  imports Branch_Manager
begin

text \<open>
  Runs of the branch manager: any interleaving of operations on any number of branches, a commit split into
  its admission and its publication. The specification is a history of versions; a version is a head with the cells
  it stands for. The runs considered are those in which no two digests that a seal meets are equal by
  accident (\<open>seal_distinct\<close>).
\<close>

section \<open>Runs\<close>

record version =
  v_head :: head
  v_cells :: "cell_key \<rightharpoonup> cell_value"
  v_croot :: root_ref
  v_iroot :: root_ref

abbreviation v_id :: "version \<Rightarrow> commit_id" where
  "v_id v \<equiv> hd_commit_id (v_head v)"

record system =
  sys_m :: branches
  sys_pending :: "branch_id \<rightharpoonup> sealed_commit"
  sys_history :: "version list"

abbreviation latest :: "system \<Rightarrow> version" where
  "latest s \<equiv> last (sys_history s)"

definition snapshot :: "branches \<Rightarrow> mem_tx" where
  "snapshot m = \<lparr>tx_state = memory_store.committed (bm_store m)\<rparr>"

definition seal_allowed :: "('b, 't, 'io) roaring \<Rightarrow> (bytes \<Rightarrow> hash) \<Rightarrow> system \<Rightarrow> branch_id \<Rightarrow> bool" where
  "seal_allowed R H s bid \<longleftrightarrow> (\<forall>st. om_get (bm_branches (sys_m s)) bid = Some st \<longrightarrow> br_commit_id st = v_id (latest s) \<longrightarrow>
    br_sealed st = None \<longrightarrow>
    seal_distinct mem_read_ops mem_view R H (snapshot (sys_m s)) (v_head (latest s)) (v_cells (latest s))
      (v_croot (latest s)) (v_iroot (latest s)) (br_overlay st))"

definition next_version :: "version \<Rightarrow> overlay \<Rightarrow> sealed_commit \<Rightarrow> version" where
  "next_version v ov sd = \<lparr>v_head = sealed_head sd, v_cells = sealed_cells (v_head v) (v_cells v) ov,
    v_croot = cu_root (sd_cells sd), v_iroot = iu_root (sd_index sd)\<rparr>"

inductive branch_step :: "('b, 't, 'io) roaring \<Rightarrow> (bytes \<Rightarrow> hash) \<Rightarrow> system \<Rightarrow> system \<Rightarrow> bool" for R H where
  step_begin: "branches_begin (sys_m s) = (r :: 'io branch_error + _, m) \<Longrightarrow> branch_step R H s (s\<lparr>sys_m := m\<rparr>)"
| step_elsewhere: "bm_next_id (sys_m s) \<le> n \<Longrightarrow> branch_step R H s (s\<lparr>sys_m := (sys_m s)\<lparr>bm_next_id := n\<rparr>\<rparr>)"
| step_read: "sys_pending s bid = None \<Longrightarrow>
    branches_read (sys_m s) bid (oper :: ('io, 'io branch_error, unit) cell_program) = (r, m) \<Longrightarrow>
    branch_step R H s (s\<lparr>sys_m := m\<rparr>)"
| step_info: "sys_pending s bid = None \<Longrightarrow> branches_info (sys_m s) bid = (r :: 'io branch_error + _, m) \<Longrightarrow>
    branch_step R H s (s\<lparr>sys_m := m\<rparr>)"
| step_write: "sys_pending s bid = None \<Longrightarrow> program_ok oper \<Longrightarrow>
    branches_write (sys_m s) bid (oper :: ('io, 'io branch_error, unit) cell_program) = (r, m) \<Longrightarrow> branch_step R H s (s\<lparr>sys_m := m\<rparr>)"
| step_checkpoint: "sys_pending s bid = None \<Longrightarrow> branches_checkpoint (sys_m s) bid = (r :: 'io branch_error + _, m) \<Longrightarrow>
    branch_step R H s (s\<lparr>sys_m := m\<rparr>)"
| step_rollback: "sys_pending s bid = None \<Longrightarrow> branches_rollback (sys_m s) bid = (r :: 'io branch_error + _, m) \<Longrightarrow>
    branch_step R H s (s\<lparr>sys_m := m\<rparr>)"
| step_discard: "sys_pending s bid = None \<Longrightarrow> branches_discard (sys_m s) bid = (r :: 'io branch_error + _, m) \<Longrightarrow>
    branch_step R H s (s\<lparr>sys_m := m\<rparr>)"
| step_seal: "sys_pending s bid = None \<Longrightarrow> seal_allowed R H s bid \<Longrightarrow> branches_seal R H (sys_m s) bid = (r, m) \<Longrightarrow>
    branch_step R H s (s\<lparr>sys_m := m\<rparr>)"
| step_admit_failed: "sys_pending s bid = None \<Longrightarrow> seal_allowed R H s bid \<Longrightarrow> commit_admit R H (sys_m s) bid = (Inl e, m) \<Longrightarrow>
    branch_step R H s (s\<lparr>sys_m := m\<rparr>)"
| step_admit: "sys_pending s bid = None \<Longrightarrow> seal_allowed R H s bid \<Longrightarrow> commit_admit R H (sys_m s) bid = (Inr sd, m) \<Longrightarrow>
    branch_step R H s (s\<lparr>sys_m := m, sys_pending := (sys_pending s)(bid \<mapsto> sd)\<rparr>)"
| step_publish_failed: "sys_pending s bid = Some sd \<Longrightarrow> commit_publish (sys_m s) bid sd = Some (Inl e :: 'io branch_error + _, m) \<Longrightarrow>
    branch_step R H s (s\<lparr>sys_m := m, sys_pending := (sys_pending s)(bid := None)\<rparr>)"
| step_publish: "sys_pending s bid = Some sd \<Longrightarrow> om_get (bm_branches (sys_m s)) bid = Some st \<Longrightarrow>
    commit_publish (sys_m s) bid sd = Some (Inr n :: 'io branch_error + _, m) \<Longrightarrow>
    branch_step R H s (s\<lparr>sys_m := m, sys_pending := (sys_pending s)(bid := None),
      sys_history := sys_history s @ [next_version (latest s) (br_overlay st) sd]\<rparr>)"

section \<open>The invariant\<close>

definition version_at :: "('b, 't, 'io) roaring \<Rightarrow> (bytes \<Rightarrow> hash) \<Rightarrow> ('b \<Rightarrow> u32 set) \<Rightarrow> mem_tx \<Rightarrow> version \<Rightarrow> bool" where
  "version_at R H rset tx v \<longleftrightarrow> committed_at mem_view R H rset tx (v_head v) (v_cells v) (v_croot v) (v_iroot v)"

definition follows :: "version \<Rightarrow> version \<Rightarrow> bool" where
  "follows v v' \<longleftrightarrow> unat (commit_num (v_id v')) = unat (commit_num (v_id v)) + 1 \<and> v_cells v (roots_key (v_head v)) = None \<and>
    (\<exists>ov. overlay_ok ov \<and> v_cells v' = sealed_cells (v_head v) (v_cells v) ov)"

definition history_ok :: "version list \<Rightarrow> bool" where
  "history_ok vs \<longleftrightarrow> vs \<noteq> [] \<and> (\<forall>i. Suc i < length vs \<longrightarrow> follows (vs ! i) (vs ! Suc i))"

definition seal_fits :: "('b, 't, 'io) roaring \<Rightarrow> (bytes \<Rightarrow> hash) \<Rightarrow> ('b \<Rightarrow> u32 set) \<Rightarrow> mem_tx \<Rightarrow> version \<Rightarrow> branch_state \<Rightarrow> sealed_commit \<Rightarrow> bool" where
  "seal_fits R H rset tx v st sd \<longleftrightarrow> v_cells v (roots_key (v_head v)) = None \<and>
    seal_result mem_view mem_ok R H rset tx (v_head v) (sealed_cells (v_head v) (v_cells v) (br_overlay st)) sd"

definition branch_ok :: "('b, 't, 'io) roaring \<Rightarrow> (bytes \<Rightarrow> hash) \<Rightarrow> ('b \<Rightarrow> u32 set) \<Rightarrow> system \<Rightarrow> branch_state \<Rightarrow> bool" where
  "branch_ok R H rset s st \<longleftrightarrow> overlay_ok (br_overlay st) \<and> staged_ok (br_overlay st) \<and>
    unat (commit_num (br_commit_id st)) \<le> unat (commit_num (v_id (latest s))) \<and>
    (\<forall>sd. br_sealed st = Some sd \<longrightarrow> br_commit_id st = v_id (latest s) \<longrightarrow> seal_fits R H rset (snapshot (sys_m s)) (latest s) st sd)"

definition store_idle :: "memory_store \<Rightarrow> bool" where
  "store_idle m \<longleftrightarrow> \<not> writer_held m \<and> \<not> committed_poisoned m \<and> \<not> writer_poisoned m"

definition sys_inv :: "('b, 't, 'io) roaring \<Rightarrow> (bytes \<Rightarrow> hash) \<Rightarrow> ('b \<Rightarrow> u32 set) \<Rightarrow> system \<Rightarrow> bool" where
  "sys_inv R H rset s \<longleftrightarrow> history_ok (sys_history s) \<and> store_idle (bm_store (sys_m s)) \<and> mem_ok (snapshot (sys_m s)) \<and>
    version_at R H rset (snapshot (sys_m s)) (latest s) \<and> om_ok (bm_branches (sys_m s)) \<and>
    (\<forall>bid st. om_get (bm_branches (sys_m s)) bid = Some st \<longrightarrow> branch_num bid < bm_next_id (sys_m s) \<and> branch_ok R H rset s st) \<and>
    (\<forall>bid sd. sys_pending s bid = Some sd \<longrightarrow> (\<exists>st. om_get (bm_branches (sys_m s)) bid = Some st \<and> br_sealed st = Some sd))"

lemma idle_released: "store_idle m \<Longrightarrow> m\<lparr>writer_held := False\<rparr> = m"
  "store_idle m \<Longrightarrow> m\<lparr>memory_store.committed := c, writer_held := False\<rparr> = m\<lparr>memory_store.committed := c\<rparr>"
  by (cases m, simp add: store_idle_def)+

lemma begin_read_snapshot: "store_idle (bm_store m) \<Longrightarrow> begin_read (bm_store m) = Inr (snapshot m)"
  by (simp add: begin_read_def store_idle_def snapshot_def)

lemma head_latest:
  assumes "sys_inv R H rset s"
  shows "read_head mem_read_ops (snapshot (sys_m s)) = Inr (v_id (latest s))"
  using assms by (intro memr.read_head_law) (auto simp: sys_inv_def version_at_def committed_at_def)

lemma sys_inv_branch:
  assumes "sys_inv R H rset s" "om_get (bm_branches (sys_m s)) bid = Some st"
  shows "branch_num bid < bm_next_id (sys_m s)" "branch_ok R H rset s st"
  using assms unfolding sys_inv_def by blast+

lemma sys_inv_pending:
  assumes "sys_inv R H rset s" "sys_pending s bid = Some sd"
  obtains st where "om_get (bm_branches (sys_m s)) bid = Some st" "br_sealed st = Some sd"
  using assms unfolding sys_inv_def by blast

text \<open>Changing the registry.\<close>

lemma registry_inv:
  assumes "sys_inv R H rset s" "bm_store m = bm_store (sys_m s)" "om_ok (bm_branches m)"
    "\<And>b st. om_get (bm_branches m) b = Some st \<Longrightarrow> branch_num b < bm_next_id m \<and> branch_ok R H rset s st"
    "\<And>b sd. sys_pending s b = Some sd \<Longrightarrow> \<exists>st. om_get (bm_branches m) b = Some st \<and> br_sealed st = Some sd"
  shows "sys_inv R H rset (s\<lparr>sys_m := m\<rparr>)"
proof -
  have same: "snapshot m = snapshot (sys_m s)"
    by (simp add: snapshot_def assms(2))
  have ok: "branch_ok R H rset (s\<lparr>sys_m := m\<rparr>) st \<longleftrightarrow> branch_ok R H rset s st" for st
    by (simp add: branch_ok_def same)
  have "history_ok (sys_history s)" "store_idle (bm_store (sys_m s))" "mem_ok (snapshot (sys_m s))"
      "version_at R H rset (snapshot (sys_m s)) (latest s)"
    using assms(1) by (simp_all add: sys_inv_def)
  moreover have "\<forall>b st. om_get (bm_branches m) b = Some st \<longrightarrow> branch_num b < bm_next_id m \<and> branch_ok R H rset s st"
      "\<forall>b sd. sys_pending s b = Some sd \<longrightarrow> (\<exists>st. om_get (bm_branches m) b = Some st \<and> br_sealed st = Some sd)"
    using assms(4,5) by blast+
  moreover have sel: "sys_m (s\<lparr>sys_m := m\<rparr>) = m" "sys_pending (s\<lparr>sys_m := m\<rparr>) = sys_pending s" "sys_history (s\<lparr>sys_m := m\<rparr>) = sys_history s"
    by simp_all
  ultimately show ?thesis
    unfolding sys_inv_def sel same ok assms(2) using assms(3) by (intro conjI)
qed

lemma slot_inv:
  assumes "sys_inv R H rset s" "sys_pending s bid = None"
    "m = branches_remove (sys_m s) bid \<or> (\<exists>st. m = (sys_m s)\<lparr>bm_branches := om_put bid st (bm_branches (sys_m s))\<rparr> \<and>
      branch_num bid < bm_next_id (sys_m s) \<and> branch_ok R H rset s st)"
  shows "sys_inv R H rset (s\<lparr>sys_m := m\<rparr>)"
proof (rule registry_inv [OF assms(1)])
  show "bm_store m = bm_store (sys_m s)" "om_ok (bm_branches m)"
    using assms(1,3) by (auto simp: branches_remove_def sys_inv_def)
  have next_id: "bm_next_id m = bm_next_id (sys_m s)"
    using assms(3) by (auto simp: branches_remove_def)
  fix b st assume "om_get (bm_branches m) b = Some st"
  then have "om_get (bm_branches (sys_m s)) b = Some st \<or> (b = bid \<and> branch_num bid < bm_next_id (sys_m s) \<and> branch_ok R H rset s st)"
    using assms(3) by (auto simp: branches_remove_def split: if_splits)
  then show "branch_num b < bm_next_id m \<and> branch_ok R H rset s st"
    using sys_inv_branch [OF assms(1), of b st] by (auto simp: next_id)
next
  fix b sd assume b: "sys_pending s b = Some sd"
  then have "b \<noteq> bid"
    using assms(2) by auto
  moreover obtain st where "om_get (bm_branches (sys_m s)) b = Some st" "br_sealed st = Some sd"
    by (rule sys_inv_pending [OF assms(1) b])
  ultimately show "\<exists>st. om_get (bm_branches m) b = Some st \<and> br_sealed st = Some sd"
    using assms(3) by (auto simp: branches_remove_def)
qed

lemma with_slot_cases:
  assumes "sys_inv R H rset s"
  shows "with_slot (sys_m s) bid stale oper = (case om_get (bm_branches (sys_m s)) bid of
      None \<Rightarrow> (Inl HandleInvalid, sys_m s)
    | Some st \<Rightarrow> if br_commit_id st \<noteq> v_id (latest s) then (Inl stale, branches_remove (sys_m s) bid)
        else (Inr (fst (oper st (snapshot (sys_m s)))), case snd (oper st (snapshot (sys_m s))) of
          Some st' \<Rightarrow> (sys_m s)\<lparr>bm_branches := om_put bid st' (bm_branches (sys_m s))\<rparr>
        | None \<Rightarrow> branches_remove (sys_m s) bid))"
proof -
  have "store_idle (bm_store (sys_m s))"
    using assms by (simp add: sys_inv_def)
  then show ?thesis
    by (auto simp: with_slot_def begin_read_snapshot head_latest [OF assms] case_prod_unfold split: option.split)
qed

lemma with_slot_inv:
  assumes "sys_inv R H rset s" "sys_pending s bid = None"
    "\<And>st st'. om_get (bm_branches (sys_m s)) bid = Some st \<Longrightarrow> branch_ok R H rset s st \<Longrightarrow> br_commit_id st = v_id (latest s) \<Longrightarrow>
      snd (oper st (snapshot (sys_m s))) = Some st' \<Longrightarrow> branch_ok R H rset s st'"
  shows "sys_inv R H rset (s\<lparr>sys_m := snd (with_slot (sys_m s) bid stale oper)\<rparr>)"
proof (cases "om_get (bm_branches (sys_m s)) bid")
  case None
  then show ?thesis
    using assms(1) by (simp add: with_slot_cases [OF assms(1)])
next
  case (Some st)
  then have "branch_num bid < bm_next_id (sys_m s)" "branch_ok R H rset s st"
    using assms(1) by (auto simp: sys_inv_def)
  then show ?thesis
    using Some assms(3) [OF Some]
    by (intro slot_inv [OF assms(1,2)]) (auto simp: with_slot_cases [OF assms(1)] split: option.split)
qed

lemma with_branch_inv:
  assumes "sys_inv R H rset s" "sys_pending s bid = None" "m = snd (with_branch (sys_m s) bid oper)"
    "\<And>st. branch_ok R H rset s st \<Longrightarrow> branch_ok R H rset s (snd (oper st (snapshot (sys_m s))))"
  shows "sys_inv R H rset (s\<lparr>sys_m := m\<rparr>)"
  unfolding assms(3) with_branch_def
  by (rule with_slot_inv [OF assms(1,2)]) (use assms(4) in auto)

lemma unat_Suc: "n \<noteq> - 1 \<Longrightarrow> unat (n + 1) = Suc (unat n)" for n :: u64
proof -
  assume "n \<noteq> - 1"
  then have "1 + n \<noteq> 0"
    by (metis add.commute eq_neg_iff_add_eq_0)
  then show ?thesis
    by (simp add: unatSuc add.commute)
qed

section \<open>Overlays stay well-formed\<close>

lemma undo_steps_staged:
  "(\<forall>k v. om_get es k = Some (Some v) \<longrightarrow> cv_ok v) \<Longrightarrow> (\<forall>e \<in> set undo. \<forall>v. ue_previous e = Some (Some v) \<longrightarrow> cv_ok v) \<Longrightarrow>
    om_get (foldr undo_step undo es) k = Some (Some v) \<Longrightarrow> cv_ok v"
  by (induction undo arbitrary: k v) (auto simp: undo_step_def split: option.splits if_splits)

lemma overlay_new_ok: "overlay_ok overlay_new" "staged_ok overlay_new"
  by (simp_all add: overlay_ok_def staged_ok_def overlay_new_def journal_default_ok) (simp add: journal_default_def)

lemma overlay_write_ok:
  assumes "overlay_ok ov" "staged_ok ov" "program_ok oper"
  shows "overlay_ok (snd (overlay_write ops tx oper ov)) \<and> staged_ok (snd (overlay_write ops tx oper ov))"
proof (cases "\<exists>a. fst (overlay_write ops tx oper ov) = Returned (Inr a)")
  case True
  then have "snd (overlay_write ops tx oper ov) = snd (run_program ops tx oper ov)"
    by (auto simp: overlay_write_def Let_def split: prod.splits callback_result.splits sum.splits)
  then show ?thesis
    using run_program_ok(1) [OF assms(1), of ops tx oper] run_program_ok(2) [OF assms(1,2,3), of ops tx] by simp
next
  case False
  then have "snd (overlay_write ops tx oper ov) = ov"
    using overlay_write_atomic [of ov ops tx oper] assms(1) by (cases "overlay_write ops tx oper ov") (auto simp: overlay_ok_def)
  then show ?thesis
    using assms by simp
qed

lemma overlay_checkpoint_ok: "overlay_ok ov \<Longrightarrow> staged_ok ov \<Longrightarrow> overlay_ok (overlay_checkpoint ov) \<and> staged_ok (overlay_checkpoint ov)"
  using checkpoint_ok(1) [of "ov_journal ov"]
  by (simp add: overlay_ok_def overlay_checkpoint_def staged_ok_def) (simp add: journal_checkpoint_def Let_def)

lemma overlay_rollback_ok:
  assumes "overlay_ok ov" "staged_ok ov" "overlay_rollback ov = (Inr ov' :: 'io branch_error + _)"
  shows "overlay_ok ov' \<and> staged_ok ov'"
proof -
  obtain j es where r: "journal_rollback (ov_journal ov) (ov_entries ov) = (Inr (j, es) :: 'io branch_error + _)" "ov' = \<lparr>ov_entries = es, ov_journal = j\<rparr>"
    using assms(3) by (auto simp: overlay_rollback_def try_simps)
  have ok: "journal_ok j" "om_ok es"
    using rollback_ok [of "ov_journal ov" "ov_entries ov", where ?'io = 'io] assms(1) by (auto simp: overlay_ok_def r(1))
  obtain mark where es: "undo_to (jn_undo (ov_journal ov)) (ov_entries ov) mark = (jn_undo j, es)"
    using r(1) by (auto simp: journal_rollback_def Let_def split: if_splits prod.splits)
  have "jn_undo j = take mark (jn_undo (ov_journal ov)) \<and> es = foldr undo_step (drop mark (jn_undo (ov_journal ov))) (ov_entries ov)"
    using es undo_to_eq [of mark "jn_undo (ov_journal ov)"] undo_to_stop [of "jn_undo (ov_journal ov)" mark]
    by (cases "mark \<le> length (jn_undo (ov_journal ov))") auto
  then have "staged_ok ov'"
    using assms(2) undo_steps_staged [of "ov_entries ov" "drop mark (jn_undo (ov_journal ov))"]
    by (auto simp: staged_ok_def r(2) dest: in_set_takeD) (meson in_set_dropD)
  then show ?thesis
    using ok by (simp add: overlay_ok_def r(2))
qed

section \<open>Every step keeps the invariant\<close>

lemma branch_ok_overlay:
  "branch_ok R H rset s st \<Longrightarrow> br_sealed st = None \<Longrightarrow> overlay_ok ov \<Longrightarrow> staged_ok ov \<Longrightarrow> branch_ok R H rset s (st\<lparr>br_overlay := ov\<rparr>)"
  by (simp add: branch_ok_def)

lemma require_open_simps: "require_open st = (if br_sealed st = None then Inr () else Inl BranchSealed)"
  by (simp add: require_open_def)

lemma begin_inv:
  assumes "sys_inv R H rset s" "branches_begin (sys_m s) = (r :: 'io branch_error + _, m)"
  shows "sys_inv R H rset (s\<lparr>sys_m := m\<rparr>)"
proof (cases "bm_next_id (sys_m s) = - 1")
  case True
  then have "m = sys_m s"
    using assms(2) by (auto simp: branches_begin_def allocate_branch_id_def try_simps split: sum.splits prod.splits)
  then show ?thesis
    using assms(1) by simp
next
  case False
  let ?n = "bm_next_id (sys_m s)"
  let ?st = "\<lparr>br_commit_id = v_id (latest s), br_overlay = overlay_new, br_sealed = None\<rparr>"
  have head: "branches_head (sys_m s) = (Inr (v_id (latest s)) :: 'io branch_error + _)"
    using assms(1) by (simp add: branches_head_def store_head_def begin_read_snapshot head_latest [OF assms(1)] sys_inv_def)
  have m: "m = (sys_m s)\<lparr>bm_next_id := ?n + 1, bm_branches := om_put (BranchId ?n) ?st (bm_branches (sys_m s))\<rparr>"
    using assms(2) False by (simp add: branches_begin_def allocate_branch_id_def head)
  have new: "branch_ok R H rset s ?st"
    by (simp add: branch_ok_def overlay_new_ok)
  have less: "x < ?n + 1 \<longleftrightarrow> x \<le> ?n" for x
    using unat_Suc [OF False] by (simp add: word_less_nat_alt word_le_nat_alt less_Suc_eq_le)
  show ?thesis
  proof (rule registry_inv [OF assms(1)])
    show "bm_store m = bm_store (sys_m s)" "om_ok (bm_branches m)"
      using assms(1) by (auto simp: m sys_inv_def)
    fix b st assume "om_get (bm_branches m) b = Some st"
    then show "branch_num b < bm_next_id m \<and> branch_ok R H rset s st"
      using new sys_inv_branch [OF assms(1), of b st] by (auto simp: m less split: if_splits)
  next
    fix b sd assume b: "sys_pending s b = Some sd"
    obtain st where st: "om_get (bm_branches (sys_m s)) b = Some st" "br_sealed st = Some sd"
      by (rule sys_inv_pending [OF assms(1) b])
    have "b \<noteq> BranchId ?n"
      using sys_inv_branch(1) [OF assms(1) st(1)] by auto
    then show "\<exists>st. om_get (bm_branches m) b = Some st \<and> br_sealed st = Some sd"
      using st by (auto simp: m)
  qed
qed

lemma elsewhere_inv:
  assumes "sys_inv R H rset s" "bm_next_id (sys_m s) \<le> n"
  shows "sys_inv R H rset (s\<lparr>sys_m := (sys_m s)\<lparr>bm_next_id := n\<rparr>\<rparr>)"
proof (rule registry_inv [OF assms(1)])
  fix b st assume "om_get (bm_branches ((sys_m s)\<lparr>bm_next_id := n\<rparr>)) b = Some st"
  then show "branch_num b < bm_next_id ((sys_m s)\<lparr>bm_next_id := n\<rparr>) \<and> branch_ok R H rset s st"
    using sys_inv_branch [OF assms(1), of b st] assms(2) by simp
qed (use assms(1) in \<open>auto simp: sys_inv_def\<close>)

lemma read_inv:
  assumes "sys_inv R H rset s" "sys_pending s bid = None" "branches_read (sys_m s) bid (oper :: ('io, 'e, 'a) cell_program) = (r, m)"
  shows "sys_inv R H rset (s\<lparr>sys_m := m\<rparr>)"
proof (rule with_branch_inv [OF assms(1,2)])
  show "m = snd (with_branch (sys_m s) bid (\<lambda>st origin.
      (lift_callback (fst (run_program mem_read_ops origin oper (br_overlay st))) :: (('io, 'e) operation_error, 'a) callback_result, st)) ::
      ('io branch_error + _) \<times> _)"
    using arg_cong [OF assms(3), of snd] by (simp add: branches_read_def case_prod_unfold Let_def)
qed simp

lemma info_inv:
  assumes "sys_inv R H rset s" "sys_pending s bid = None" "branches_info (sys_m s) bid = (r :: 'io branch_error + _, m)"
  shows "sys_inv R H rset (s\<lparr>sys_m := m\<rparr>)"
  by (rule with_branch_inv [OF assms(1,2) arg_cong [OF assms(3) [symmetric], of snd, unfolded branches_info_def snd_conv]]) simp

lemma discard_inv: "sys_inv R H rset s \<Longrightarrow> sys_pending s bid = None \<Longrightarrow> branches_discard (sys_m s) bid = (r :: 'io branch_error + _, m) \<Longrightarrow>
    sys_inv R H rset (s\<lparr>sys_m := m\<rparr>)"
  using with_slot_inv [of R H rset s bid "\<lambda>st origin. ((), None)" "HandleInvalid :: 'io branch_error"]
  by (auto simp: branches_discard_def)

lemma write_inv:
  assumes "sys_inv R H rset s" "sys_pending s bid = None" "program_ok oper"
    "branches_write (sys_m s) bid (oper :: ('io, 'e, 'a) cell_program) = (r, m)"
  shows "sys_inv R H rset (s\<lparr>sys_m := m\<rparr>)"
proof (rule with_branch_inv [OF assms(1,2)])
  show "m = snd (with_branch (sys_m s) bid (\<lambda>st origin. case require_open st of
           Inl e \<Rightarrow> (Returned (Inl (BranchFailure e :: ('io, 'e) operation_error)), st)
         | Inr _ \<Rightarrow> (let (result, ov) = overlay_write mem_read_ops origin oper (br_overlay st)
             in (lift_callback result, st\<lparr>br_overlay := ov\<rparr>))) :: ('io branch_error + _) \<times> _)"
    using arg_cong [OF assms(4), of snd] by (simp add: branches_write_def case_prod_unfold Let_def)
qed (auto simp: require_open_simps case_prod_unfold Let_def branch_ok_def overlay_write_ok assms(3))

lemma checkpoint_inv:
  assumes "sys_inv R H rset s" "sys_pending s bid = None" "branches_checkpoint (sys_m s) bid = (r :: 'io branch_error + _, m)"
  shows "sys_inv R H rset (s\<lparr>sys_m := m\<rparr>)"
proof (rule with_branch_inv [OF assms(1,2)])
  show "m = snd (with_branch (sys_m s) bid (\<lambda>st origin. case require_open st of
      Inl e \<Rightarrow> (Inl e :: 'io branch_error + _, st)
    | Inr _ \<Rightarrow> (Inr (), st\<lparr>br_overlay := overlay_checkpoint (br_overlay st)\<rparr>)) :: ('io branch_error + _) \<times> _)"
    using arg_cong [OF assms(3), of snd] by (simp add: branches_checkpoint_def flatten_def)
qed (auto simp: require_open_simps branch_ok_def overlay_checkpoint_ok)

lemma rollback_inv:
  assumes "sys_inv R H rset s" "sys_pending s bid = None" "branches_rollback (sys_m s) bid = (r :: 'io branch_error + _, m)"
  shows "sys_inv R H rset (s\<lparr>sys_m := m\<rparr>)"
proof (rule with_branch_inv [OF assms(1,2)])
  show "m = snd (with_branch (sys_m s) bid (\<lambda>st origin.
     case attempt (require_open st) (\<lambda>_. overlay_rollback (br_overlay st)) of
       Inl e \<Rightarrow> (Inl e :: 'io branch_error + _, st)
     | Inr ov \<Rightarrow> (Inr (), st\<lparr>br_overlay := ov\<rparr>)) :: ('io branch_error + _) \<times> _)"
    using arg_cong [OF assms(3), of snd] by (simp add: branches_rollback_def flatten_def)
qed (auto simp: require_open_simps branch_ok_def dest: overlay_rollback_ok split: sum.split)

text \<open>A state after sealing.\<close>

lemma state_seal_ok:
  fixes R :: "('b, 't, 'io) roaring"
  assumes "roaring_ok R rset tset" "hash_ok H" "sys_inv R H rset s" "seal_allowed R H s bid"
    "om_get (bm_branches (sys_m s)) bid = Some st" "br_commit_id st = v_id (latest s)"
    "state_seal R H (snapshot (sys_m s)) st = Inr (sd, st')"
  shows "branch_ok R H rset s st' \<and> br_sealed st' = Some sd"
proof (cases "br_sealed st")
  case None
  have st: "branch_ok R H rset s st"
    using assms(3,5) by (simp add: sys_inv_def)
  have inv: "mem_ok (snapshot (sys_m s))" "version_at R H rset (snapshot (sys_m s)) (latest s)"
    using assms(3) by (simp_all add: sys_inv_def)
  have sd: "seal_compute mem_read_ops R H (snapshot (sys_m s)) (br_overlay st) = Inr sd" "st' = st\<lparr>br_sealed := Some sd\<rparr>"
    using assms(7) None by (auto simp: state_seal_def try_simps)
  have ov: "overlay_ok (br_overlay st)" "staged_ok (br_overlay st)"
    using st by (simp_all add: branch_ok_def)
  have "seal_distinct mem_read_ops mem_view R H (snapshot (sys_m s)) (v_head (latest s)) (v_cells (latest s))
      (v_croot (latest s)) (v_iroot (latest s)) (br_overlay st)"
    using assms(4-6) None by (simp add: seal_allowed_def)
  from memr.seal_law [OF assms(1,2) inv(1) inv(2) [unfolded version_at_def] ov this]
  have "seal_fits R H rset (snapshot (sys_m s)) (latest s) st' sd"
    by (simp add: sd seal_fits_def)
  then show ?thesis
    using st by (simp add: branch_ok_def sd(2))
next
  case (Some sd')
  then have "st' = st" "sd = sd'"
    using assms(7) by (simp_all add: state_seal_def)
  then show ?thesis
    using Some assms(3,5) by (simp add: sys_inv_def)
qed

lemma seal_inv:
  fixes R :: "('b, 't, 'io) roaring"
  assumes "roaring_ok R rset tset" "hash_ok H" "sys_inv R H rset s" "sys_pending s bid = None" "seal_allowed R H s bid"
  shows "sys_inv R H rset (s\<lparr>sys_m := snd (with_slot (sys_m s) bid stale (\<lambda>st origin. case state_seal R H origin st of
     Inl e \<Rightarrow> (Inl e, Some st)
   | Inr (sd, st') \<Rightarrow> (Inr sd, Some st')))\<rparr>)"
proof (rule with_slot_inv [OF assms(3,4)])
  fix st st'
  assume st: "om_get (bm_branches (sys_m s)) bid = Some st" "branch_ok R H rset s st" "br_commit_id st = v_id (latest s)"
    "snd (case state_seal R H (snapshot (sys_m s)) st of Inl e \<Rightarrow> (Inl e, Some st) | Inr (sd, st') \<Rightarrow> (Inr sd, Some st')) = Some st'"
  show "branch_ok R H rset s st'"
    using st state_seal_ok [OF assms(1-3,5) st(1,3)] by (auto split: sum.splits prod.splits)
qed

text \<open>Publication: the branch whose origin is still the head commits, every other is refused; either way it is gone.\<close>

lemma persist_law:
  fixes R :: "('b, 't, 'io) roaring"
  assumes "hash_ok H" "sys_inv R H rset s" "om_get (bm_branches (sys_m s)) bid = Some st" "br_sealed st = Some sd"
    "br_commit_id st = v_id (latest s)"
  shows "\<exists>tx'. commit_publish (sys_m s) bid sd = Some (Inr (sd_commit_id sd) :: 'io branch_error + _,
      branches_remove ((sys_m s)\<lparr>bm_store := (bm_store (sys_m s))\<lparr>memory_store.committed := tx_state tx'\<rparr>\<rparr>) bid) \<and>
    mem_ok tx' \<and> version_at R H rset tx' (next_version (latest s) (br_overlay st) sd)"
proof -
  let ?tx = "snapshot (sys_m s)"
  have idle: "store_idle (bm_store (sys_m s))" and ok: "mem_ok ?tx" and head: "head_at mem_view ?tx (v_head (latest s))"
    and "branch_ok R H rset s st"
    using assms(2,3) by (auto simp: sys_inv_def version_at_def committed_at_def)
  then have "seal_result mem_view mem_ok R H rset ?tx (v_head (latest s)) (sealed_cells (v_head (latest s)) (v_cells (latest s)) (br_overlay st)) sd"
    using assms(4,5) by (simp add: branch_ok_def seal_fits_def)
  from mem.commit_stage_law [OF assms(1) ok head this] obtain tx' where tx':
      "commit_stage mem_ops ?tx (br_commit_id st) sd = (Inr tx' :: 'io branch_error + _)" "mem_ok tx'"
      "version_at R H rset tx' (next_version (latest s) (br_overlay st) sd)"
    by (auto simp: version_at_def next_version_def assms(5))
  have "begin_write (bm_store (sys_m s)) = Some (Inr ((bm_store (sys_m s))\<lparr>writer_held := True\<rparr>, ?tx))"
    using idle begin_read_snapshot [OF idle] by (simp add: begin_write_def store_idle_def)
  then show ?thesis
    using tx' idle assms(3) by (auto simp: commit_publish_def persist_def mem_commit_def idle_released [OF idle] store_idle_def intro!: exI [of _ tx'])
qed

lemma refuse_law:
  assumes "sys_inv R H rset s" "om_get (bm_branches (sys_m s)) bid = Some st" "br_commit_id st \<noteq> v_id (latest s)"
  shows "commit_publish (sys_m s) bid sd = Some (Inl BranchConflict :: 'io branch_error + _, branches_remove (sys_m s) bid)"
proof -
  have idle: "store_idle (bm_store (sys_m s))"
    using assms(1) by (simp add: sys_inv_def)
  have "read_head mem_ops (snapshot (sys_m s)) = (Inr (v_id (latest s)) :: 'io branch_error + _)"
    using assms(1) by (intro mem.read_head_law) (auto simp: sys_inv_def version_at_def committed_at_def)
  then have "commit_stage mem_ops (snapshot (sys_m s)) (br_commit_id st) sd = (Inl BranchConflict :: 'io branch_error + _)"
    using assms(3) by (simp add: commit_stage_def)
  moreover have "begin_write (bm_store (sys_m s)) = Some (Inr ((bm_store (sys_m s))\<lparr>writer_held := True\<rparr>, snapshot (sys_m s)))"
    using idle begin_read_snapshot [OF idle] by (simp add: begin_write_def store_idle_def)
  ultimately show ?thesis
    using idle assms(2) by (simp add: commit_publish_def persist_def mem_abort_def idle_released [OF idle])
qed

lemma history_extend:
  assumes "history_ok vs" "follows (last vs) v"
  shows "history_ok (vs @ [v])"
proof -
  have "follows ((vs @ [v]) ! i) ((vs @ [v]) ! Suc i)" if "Suc i < length (vs @ [v])" for i
  proof (cases "Suc i = length vs")
    case True
    then have "vs ! i = last vs"
      using assms(1) by (metis diff_Suc_1 history_ok_def last_conv_nth)
    then show ?thesis
      using True assms(2) by (simp add: nth_append)
  qed (use assms(1) that in \<open>auto simp: history_ok_def nth_append\<close>)
  then show ?thesis
    by (simp add: history_ok_def)
qed

lemma publish_inv:
  fixes R :: "('b, 't, 'io) roaring"
  assumes "hash_ok H" "sys_inv R H rset s" "om_get (bm_branches (sys_m s)) bid = Some st" "br_sealed st = Some sd"
    "br_commit_id st = v_id (latest s)" "commit_publish (sys_m s) bid sd = Some (r :: 'io branch_error + _, m)"
  shows "sys_inv R H rset (s\<lparr>sys_m := m, sys_pending := (sys_pending s)(bid := None),
    sys_history := sys_history s @ [next_version (latest s) (br_overlay st) sd]\<rparr>)"
proof -
  let ?v = "next_version (latest s) (br_overlay st) sd"
  let ?s = "s\<lparr>sys_m := m, sys_pending := (sys_pending s)(bid := None), sys_history := sys_history s @ [?v]\<rparr>"
  obtain tx' where m: "m = branches_remove ((sys_m s)\<lparr>bm_store := (bm_store (sys_m s))\<lparr>memory_store.committed := tx_state tx'\<rparr>\<rparr>) bid"
      and tx': "mem_ok tx'" "version_at R H rset tx' ?v"
    using persist_law [OF assms(1-5)] assms(6) by auto
  have snap: "snapshot m = tx'"
    by (simp add: snapshot_def m branches_remove_def)
  have "branch_ok R H rset s st"
    by (rule sys_inv_branch [OF assms(2,3)])
  then have fits: "seal_fits R H rset (snapshot (sys_m s)) (latest s) st sd" and "overlay_ok (br_overlay st)"
    using assms(4,5) by (simp_all add: branch_ok_def)
  then have step: "follows (latest s) ?v" "unat (commit_num (v_id ?v)) = Suc (unat (commit_num (v_id (latest s))))"
    by (auto simp: follows_def next_version_def sealed_head_def seal_fits_def seal_result_def unat_Suc)
  have history: "history_ok (sys_history s @ [?v])"
    using assms(2) step(1) by (simp add: sys_inv_def history_extend)
  have branch: "branch_num b < bm_next_id m \<and> branch_ok R H rset ?s u" if "om_get (bm_branches m) b = Some u" for b u
  proof -
    have "om_get (bm_branches (sys_m s)) b = Some u"
      using that assms(2) by (simp add: m branches_remove_def sys_inv_def split: if_splits)
    then show ?thesis
      using sys_inv_branch [OF assms(2), of b u] step(2) by (auto simp: branch_ok_def m branches_remove_def)
  qed
  have pending: "\<exists>u. om_get (bm_branches m) b = Some u \<and> br_sealed u = Some x" if "sys_pending ?s b = Some x" for b x
  proof -
    have "b \<noteq> bid" "sys_pending s b = Some x"
      using that by (auto split: if_splits)
    then show ?thesis
      using assms(2) unfolding m branches_remove_def by (auto simp: sys_inv_def elim!: sys_inv_pending [OF assms(2)])
  qed
  have "store_idle (bm_store m)" "om_ok (bm_branches m)"
    using assms(2) by (simp_all add: sys_inv_def m branches_remove_def store_idle_def)
  then show ?thesis
    using branch pending history tx' unfolding sys_inv_def by (intro conjI allI impI) (simp_all add: snap)
qed

lemma refused_inv:
  assumes "sys_inv R H rset s" "sys_pending s bid = Some sd"
  shows "sys_inv R H rset (s\<lparr>sys_m := branches_remove (sys_m s) bid, sys_pending := (sys_pending s)(bid := None)\<rparr>)"
proof -
  have "branch_ok R H rset (s\<lparr>sys_pending := p\<rparr>) st \<longleftrightarrow> branch_ok R H rset s st" for p st
    by (simp add: branch_ok_def)
  then have "sys_inv R H rset (s\<lparr>sys_pending := (sys_pending s)(bid := None)\<rparr>)"
    using assms(1) by (auto simp: sys_inv_def)
  from slot_inv [OF this, of bid "branches_remove (sys_m s) bid"] show ?thesis
    by (cases s) simp
qed

lemma admitted_inv:
  fixes R :: "('b, 't, 'io) roaring"
  assumes "roaring_ok R rset tset" "hash_ok H" "sys_inv R H rset s" "sys_pending s bid = None" "seal_allowed R H s bid"
    "commit_admit R H (sys_m s) bid = (Inr sd, m)"
  shows "sys_inv R H rset (s\<lparr>sys_m := m, sys_pending := (sys_pending s)(bid \<mapsto> sd)\<rparr>)"
proof -
  have m: "m = snd (with_slot (sys_m s) bid (BranchConflict :: 'io branch_error) (\<lambda>st origin. case state_seal R H origin st of
      Inl e \<Rightarrow> (Inl e, Some st) | Inr (sd, st') \<Rightarrow> (Inr sd, Some st')))"
    using arg_cong [OF assms(6), of snd] by (simp add: commit_admit_def flatten_def)
  have inv: "sys_inv R H rset (s\<lparr>sys_m := m\<rparr>)"
    unfolding m by (rule seal_inv [OF assms(1-5)])
  obtain st st' where "om_get (bm_branches (sys_m s)) bid = Some st" "br_commit_id st = v_id (latest s)"
      "state_seal R H (snapshot (sys_m s)) st = Inr (sd, st')"
      "m = (sys_m s)\<lparr>bm_branches := om_put bid st' (bm_branches (sys_m s))\<rparr>"
    using assms(6) by (auto simp: commit_admit_def flatten_def with_slot_cases [OF assms(3)] split: option.splits if_splits sum.splits)
  then have "om_get (bm_branches m) bid = Some st' \<and> br_sealed st' = Some sd"
    using state_seal_ok [OF assms(1-3,5)] by simp
  moreover have "branch_ok R H rset (s\<lparr>sys_m := m, sys_pending := p\<rparr>) st \<longleftrightarrow> branch_ok R H rset (s\<lparr>sys_m := m\<rparr>) st" for p st
    by (simp add: branch_ok_def)
  ultimately show ?thesis
    using inv by (auto simp: sys_inv_def)
qed

lemma branch_step_inv:
  fixes R :: "('b, 't, 'io) roaring"
  assumes "roaring_ok R rset tset" "hash_ok H"
  shows "branch_step R H s s' \<Longrightarrow> sys_inv R H rset s \<Longrightarrow> sys_inv R H rset s'"
proof (induction rule: branch_step.induct)
  case (step_seal s bid r m)
  have "(\<lambda>st origin. map_prod id Some (case state_seal R H origin st of Inl e \<Rightarrow> (Inl e, st) | Inr (sd, st') \<Rightarrow> (Inr sd, st'))) =
      (\<lambda>st origin. case state_seal R H origin st of Inl e \<Rightarrow> (Inl e, Some st) | Inr (sd, st') \<Rightarrow> (Inr sd, Some st'))"
    by (auto simp: fun_eq_iff split: sum.split)
  then have "m = snd (with_slot (sys_m s) bid (HandleInvalid :: 'io branch_error) (\<lambda>st origin. case state_seal R H origin st of
      Inl e \<Rightarrow> (Inl e, Some st) | Inr (sd, st') \<Rightarrow> (Inr sd, Some st')))"
    using arg_cong [OF step_seal(3), of snd] by (simp add: branches_seal_def flatten_def with_branch_def)
  then show ?case
    using seal_inv [OF assms step_seal(4,1,2)] by simp
next
  case (step_admit_failed s bid e m)
  have "m = snd (with_slot (sys_m s) bid (BranchConflict :: 'io branch_error) (\<lambda>st origin. case state_seal R H origin st of
      Inl e \<Rightarrow> (Inl e, Some st) | Inr (sd, st') \<Rightarrow> (Inr sd, Some st')))"
    using arg_cong [OF step_admit_failed(3), of snd] by (simp add: commit_admit_def flatten_def)
  then show ?case
    using seal_inv [OF assms step_admit_failed(4,1,2)] by simp
next
  case (step_publish_failed s bid sd e m)
  obtain st where st: "om_get (bm_branches (sys_m s)) bid = Some st" "br_sealed st = Some sd"
    by (rule sys_inv_pending [OF step_publish_failed(3,1)])
  then have stale: "br_commit_id st \<noteq> v_id (latest s)"
    using persist_law [OF assms(2) step_publish_failed(3) st] step_publish_failed(2) by auto
  then show ?case
    using refuse_law [OF step_publish_failed(3) st(1) stale, of sd, where ?'io = 'io] step_publish_failed(2)
      refused_inv [OF step_publish_failed(3,1)] by simp
next
  case (step_publish s bid sd st n m)
  have "br_sealed st = Some sd"
    by (rule sys_inv_pending [OF step_publish(4,1)]) (use step_publish(2) in simp)
  moreover have "br_commit_id st = v_id (latest s)"
    using refuse_law [OF step_publish(4,2), of sd, where ?'io = 'io] step_publish(3) by auto
  ultimately show ?case
    using publish_inv [OF assms(2) step_publish(4,2) _ _ step_publish(3)] by simp
qed (auto intro: begin_inv elsewhere_inv read_inv info_inv write_inv checkpoint_inv rollback_inv discard_inv admitted_inv [OF assms])

end
