(* ===== verification/Branch_Runs.thy ===== *)
theory Branch_Runs
  imports Branch_System
begin

text \<open>
  What holds in every run of the branch manager: commits form one chain, a race between commits has one
  winner, handles over an old head are refused, and what a branch wrote is read back after its commit.
\<close>

section \<open>Reachable states\<close>

definition system_new :: "branches \<Rightarrow> version \<Rightarrow> system" where
  "system_new m v = \<lparr>sys_m = m, sys_pending = Map.empty, sys_history = [v]\<rparr>"

text \<open>A manager opened over a store that is free and holds a committed version.\<close>

definition opened :: "('b, 't, 'io) roaring \<Rightarrow> (bytes \<Rightarrow> hash) \<Rightarrow> ('b \<Rightarrow> u32 set) \<Rightarrow> memory_store \<Rightarrow> u64 \<Rightarrow> version \<Rightarrow> branches \<Rightarrow> bool" where
  "opened R H rset store n v m \<longleftrightarrow> store_idle store \<and> mem_ok \<lparr>tx_state = memory_store.committed store\<rparr> \<and>
    version_at R H rset \<lparr>tx_state = memory_store.committed store\<rparr> v \<and> branches_new store n = (Inr m :: 'io branch_error + _)"

definition runs :: "('b, 't, 'io) roaring \<Rightarrow> (bytes \<Rightarrow> hash) \<Rightarrow> system \<Rightarrow> system \<Rightarrow> bool" where
  "runs R H = (branch_step R H)\<^sup>*\<^sup>*"

lemma opened_inv:
  fixes R :: "('b, 't, 'io) roaring"
  assumes "opened R H rset store n v m"
  shows "sys_inv R H rset (system_new m v)"
proof -
  have "m = \<lparr>bm_store = store, bm_branches = [], bm_next_id = n\<rparr>"
    using assms by (auto simp: opened_def branches_new_def try_simps)
  then show ?thesis
    using assms by (auto simp: opened_def sys_inv_def system_new_def history_ok_def snapshot_def)
qed

lemma runs_inv:
  fixes R :: "('b, 't, 'io) roaring"
  assumes "roaring_ok R rset tset" "hash_ok H" "opened R H rset store n v m" "runs R H (system_new m v) s"
  shows "sys_inv R H rset s"
  using assms(4) unfolding runs_def
proof (induction rule: rtranclp_induct)
  case base
  show ?case
    by (rule opened_inv [OF assms(3)])
next
  case (step s s')
  then show ?case
    using branch_step_inv [OF assms(1,2)] by blast
qed

lemma step_history: "branch_step R H s s' \<Longrightarrow> \<exists>vs. sys_history s' = sys_history s @ vs"
  by (induction rule: branch_step.induct) auto

lemma runs_history: "runs R H s s' \<Longrightarrow> \<exists>vs. sys_history s' = sys_history s @ vs"
  unfolding runs_def by (induction rule: rtranclp_induct) (auto dest!: step_history)

section \<open>One chain of commits\<close>

lemma history_ids:
  assumes "history_ok vs" "i < length vs"
  shows "unat (commit_num (v_id (vs ! i))) = unat (commit_num (v_id (hd vs))) + i"
  using assms(2)
proof (induction i)
  case 0
  then show ?case
    by (simp add: hd_conv_nth)
next
  case (Suc i)
  then show ?case
    using assms(1) by (simp add: history_ok_def follows_def)
qed

text \<open>The cells a live branch reads.\<close>

lemma live_read:
  assumes "sys_inv R H rset s" "om_get (bm_branches (sys_m s)) bid = Some st"
  shows "overlay_get mem_read_ops (snapshot (sys_m s)) (br_overlay st) k = Inr (visible (v_cells (latest s)) (ov_entries (br_overlay st)) k)"
proof -
  have "cell_rows (v_cells (latest s)) (mem_view (snapshot (sys_m s)) CELL)" "mem_ok (snapshot (sys_m s))"
    using assms(1) by (simp_all add: sys_inv_def version_at_def committed_at_def cells_at_def)
  then show ?thesis
    by (intro memr.overlay_get_law)
qed

lemma read_live:
  assumes "sys_inv R H rset s" "om_get (bm_branches (sys_m s)) bid = Some st" "br_commit_id st = v_id (latest s)"
  shows "fst (branches_read (sys_m s) bid (GetCell k Finish)) =
    (Returned (Inr (visible (v_cells (latest s)) (ov_entries (br_overlay st)) k)) :: (('io, 'io branch_error) operation_error, _) callback_result)"
  using assms(2,3)
  by (simp add: branches_read_def with_branch_def case_prod_unfold Let_def with_slot_cases [OF assms(1)] live_read [OF assms(1,2)] lift_callback_def)

lemma publish_wins:
  fixes R :: "('b, 't, 'io) roaring"
  assumes "hash_ok H" "sys_inv R H rset s" "om_get (bm_branches (sys_m s)) bid = Some st" "br_sealed st = Some sd"
    "br_commit_id st = v_id (latest s)"
  shows "\<exists>m'. commit_publish (sys_m s) bid sd = Some (Inr (sd_commit_id sd) :: 'io branch_error + _, m') \<and>
    om_get (bm_branches m') bid = None \<and> unat (commit_num (sd_commit_id sd)) = unat (commit_num (v_id (latest s))) + 1 \<and>
    version_at R H rset (snapshot m') (next_version (latest s) (br_overlay st) sd) \<and>
    (\<forall>bid' st' sd'. om_get (bm_branches m') bid' = Some st' \<longrightarrow>
      commit_publish m' bid' sd' = Some (Inl BranchConflict :: 'io branch_error + _, branches_remove m' bid'))"
proof -
  obtain tx' :: mem_tx where publish: "commit_publish (sys_m s) bid sd = Some (Inr (sd_commit_id sd) :: 'io branch_error + _,
      branches_remove ((sys_m s)\<lparr>bm_store := (bm_store (sys_m s))\<lparr>memory_store.committed := tx_state tx'\<rparr>\<rparr>) bid)"
    using persist_law [OF assms] by blast
  let ?m = "branches_remove ((sys_m s)\<lparr>bm_store := (bm_store (sys_m s))\<lparr>memory_store.committed := tx_state tx'\<rparr>\<rparr>) bid"
  let ?v = "next_version (latest s) (br_overlay st) sd"
  let ?s = "s\<lparr>sys_m := ?m, sys_pending := (sys_pending s)(bid := None), sys_history := sys_history s @ [?v]\<rparr>"
  have inv: "sys_inv R H rset ?s"
    by (rule publish_inv [OF assms publish])
  have "seal_fits R H rset (snapshot (sys_m s)) (latest s) st sd"
    using sys_inv_branch [OF assms(2,3)] assms(4,5) by (simp add: branch_ok_def)
  then have id: "unat (commit_num (sd_commit_id sd)) = unat (commit_num (v_id (latest s))) + 1"
    by (simp add: seal_fits_def seal_result_def unat_Suc)
  have "commit_publish ?m bid' sd' = Some (Inl BranchConflict :: 'io branch_error + _, branches_remove ?m bid')"
    if "om_get (bm_branches ?m) bid' = Some st'" for bid' st' sd'
  proof -
    have "om_get (bm_branches (sys_m s)) bid' = Some st'"
      using that assms(2) by (simp add: branches_remove_def sys_inv_def split: if_splits)
    from sys_inv_branch(2) [OF assms(2) this] have "br_commit_id st' \<noteq> v_id ?v"
      using id by (auto simp: branch_ok_def next_version_def sealed_head_def)
    then show ?thesis
      using refuse_law [OF inv, of bid' st' sd', where ?'io = 'io] that by simp
  qed
  then show ?thesis
    using publish id inv assms(2) by (auto simp: sys_inv_def branches_remove_def)
qed

text \<open>C1. Commits form one chain: however operations on branches are interleaved, the store holds exactly the
  version of the last commit (head, cells, both roots and index agree), the commit numbers run without gap from the one the
  manager was opened on, and the cells of each version are those of the version before it with the staged
  cells of one branch and the record of the roots before.\<close>

theorem branch_history_linear:
  fixes R :: "('b, 't, 'io) roaring"
  assumes "roaring_ok R rset tset" "hash_ok H" "opened R H rset store n v m" "runs R H (system_new m v) s"
  shows "version_at R H rset (snapshot (sys_m s)) (latest s) \<and> hd (sys_history s) = v \<and>
    (\<forall>i < length (sys_history s). unat (commit_num (v_id (sys_history s ! i))) = unat (commit_num (v_id v)) + i) \<and>
    (\<forall>i. Suc i < length (sys_history s) \<longrightarrow> (\<exists>ov. overlay_ok ov \<and>
      v_cells (sys_history s ! Suc i) = sealed_cells (v_head (sys_history s ! i)) (v_cells (sys_history s ! i)) ov))"
proof -
  have inv: "sys_inv R H rset s"
    by (rule runs_inv [OF assms])
  then have ok: "history_ok (sys_history s)" "version_at R H rset (snapshot (sys_m s)) (latest s)"
    by (simp_all add: sys_inv_def)
  have "hd (sys_history s) = v"
    using runs_history [OF assms(4)] by (auto simp: system_new_def)
  then show ?thesis
    using ok history_ids [OF ok(1)] by (auto simp: history_ok_def follows_def)
qed

text \<open>C11. A commit that was admitted completes, and a race between commits has one winner: while the origin of the
  branch is the head, publication succeeds with the next number and makes the branch's cells the
  committed version, and every branch still registered then conflicts; once another commit moved the head, the
  publication is refused and the store is left as it was. The branch is consumed either way.\<close>

theorem commit_race:
  fixes R :: "('b, 't, 'io) roaring"
  assumes "roaring_ok R rset tset" "hash_ok H" "opened R H rset store n v m" "runs R H (system_new m v) s"
    "sys_pending s bid = Some sd"
  shows "\<exists>st r m'. om_get (bm_branches (sys_m s)) bid = Some st \<and> commit_publish (sys_m s) bid sd = Some (r :: 'io branch_error + _, m') \<and>
    om_get (bm_branches m') bid = None \<and>
    (if br_commit_id st = v_id (latest s)
     then r = Inr (sd_commit_id sd) \<and> unat (commit_num (sd_commit_id sd)) = unat (commit_num (v_id (latest s))) + 1 \<and>
       version_at R H rset (snapshot m') (next_version (latest s) (br_overlay st) sd) \<and>
       (\<forall>bid' st' sd'. om_get (bm_branches m') bid' = Some st' \<longrightarrow>
         commit_publish m' bid' sd' = Some (Inl BranchConflict :: 'io branch_error + _, branches_remove m' bid'))
     else r = Inl BranchConflict \<and> bm_store m' = bm_store (sys_m s))"
proof -
  have inv: "sys_inv R H rset s"
    by (rule runs_inv [OF assms(1-4)])
  obtain st where st: "om_get (bm_branches (sys_m s)) bid = Some st" "br_sealed st = Some sd"
    by (rule sys_inv_pending [OF inv assms(5)])
  show ?thesis
  proof (cases "br_commit_id st = v_id (latest s)")
    case True
    then show ?thesis
      using publish_wins [OF assms(2) inv st True] st(1) by auto
  next
    case False
    then show ?thesis
      using refuse_law [OF inv st(1) False, of sd, where ?'io = 'io] st(1) inv by (auto simp: branches_remove_def sys_inv_def)
  qed
qed

lemma with_slot_stale:
  assumes "sys_inv R H rset s" "om_get (bm_branches (sys_m s)) bid = Some st" "br_commit_id st \<noteq> v_id (latest s)"
  shows "with_slot (sys_m s) bid stale oper = (Inl stale, branches_remove (sys_m s) bid)"
  using assms(2,3) by (simp add: with_slot_cases [OF assms(1)])

text \<open>C15. A handle whose origin is no longer the head is refused by every operation with \<open>HandleInvalid\<close>, by \<^verbatim>\<open>commit\<close> with
  \<open>BranchConflict\<close>, and is released; nothing else of the manager changes.\<close>

theorem stale_handle_refused:
  fixes R :: "('b, 't, 'io) roaring" and oper :: "('io, 'e, 'a) cell_program"
  assumes "roaring_ok R rset tset" "hash_ok H" "opened R H rset store n v m" "runs R H (system_new m v) s"
    "om_get (bm_branches (sys_m s)) bid = Some st" "br_commit_id st \<noteq> v_id (latest s)"
  shows "branches_read (sys_m s) bid oper = (Returned (Inl (BranchFailure HandleInvalid)), branches_remove (sys_m s) bid) \<and>
    branches_write (sys_m s) bid oper = (Returned (Inl (BranchFailure HandleInvalid)), branches_remove (sys_m s) bid) \<and>
    branches_info (sys_m s) bid = (Inl HandleInvalid :: 'io branch_error + _, branches_remove (sys_m s) bid) \<and>
    branches_checkpoint (sys_m s) bid = (Inl HandleInvalid :: 'io branch_error + _, branches_remove (sys_m s) bid) \<and>
    branches_rollback (sys_m s) bid = (Inl HandleInvalid :: 'io branch_error + _, branches_remove (sys_m s) bid) \<and>
    branches_seal R H (sys_m s) bid = (Inl HandleInvalid, branches_remove (sys_m s) bid) \<and>
    branches_discard (sys_m s) bid = (Inl HandleInvalid :: 'io branch_error + _, branches_remove (sys_m s) bid) \<and>
    branches_commit R H (sys_m s) bid = Some (Inl BranchConflict, branches_remove (sys_m s) bid)"
proof -
  have inv: "sys_inv R H rset s"
    by (rule runs_inv [OF assms(1-4)])
  show ?thesis
    by (simp add: branches_read_def branches_write_def branches_info_def branches_checkpoint_def branches_rollback_def branches_seal_def
        branches_discard_def branches_commit_def commit_admit_def with_branch_def flatten_def with_slot_stale [OF inv assms(5,6)])
qed

section \<open>Reading back a commit\<close>

text \<open>What \<^verbatim>\<open>begin\<close> does in every reachable state.\<close>

lemma begin_law:
  assumes "sys_inv R H rset s" "bm_next_id (sys_m s) \<noteq> - 1"
  shows "branches_begin (sys_m s) = (Inr (BranchId (bm_next_id (sys_m s))) :: 'io branch_error + _,
    (sys_m s)\<lparr>bm_next_id := bm_next_id (sys_m s) + 1, bm_branches := om_put (BranchId (bm_next_id (sys_m s)))
      \<lparr>br_commit_id = v_id (latest s), br_overlay = overlay_new, br_sealed = None\<rparr> (bm_branches (sys_m s))\<rparr>)"
proof -
  have "branches_head (sys_m s) = (Inr (v_id (latest s)) :: 'io branch_error + _)"
    using assms(1) by (simp add: branches_head_def store_head_def begin_read_snapshot head_latest [OF assms(1)] sys_inv_def)
  then show ?thesis
    using assms(2) by (simp add: branches_begin_def allocate_branch_id_def)
qed

lemma publish_snapshot_read:
  assumes "sys_inv R H rset s" "bm_next_id (sys_m s) \<noteq> - 1"
  shows "\<exists>m. branches_begin (sys_m s) = (Inr (BranchId (bm_next_id (sys_m s))) :: 'io branch_error + _, m) \<and>
    (\<forall>k. fst (branches_read m (BranchId (bm_next_id (sys_m s))) (GetCell k Finish)) =
      (Returned (Inr (v_cells (latest s) k)) :: (('io, 'io branch_error) operation_error, _) callback_result))"
proof -
  let ?n = "bm_next_id (sys_m s)"
  let ?st = "\<lparr>br_commit_id = v_id (latest s), br_overlay = overlay_new, br_sealed = None\<rparr>"
  let ?m = "(sys_m s)\<lparr>bm_next_id := ?n + 1, bm_branches := om_put (BranchId ?n) ?st (bm_branches (sys_m s))\<rparr>"
  let ?s = "s\<lparr>sys_m := ?m\<rparr>"
  have begins: "branches_begin (sys_m s) = (Inr (BranchId ?n) :: 'io branch_error + _, ?m)"
    by (rule begin_law [OF assms])
  have inv: "sys_inv R H rset ?s"
    by (rule begin_inv [OF assms(1) begins])
  have "fst (branches_read ?m (BranchId ?n) (GetCell k Finish)) =
      (Returned (Inr (v_cells (latest s) k)) :: (('io, 'io branch_error) operation_error, _) callback_result)" for k
    using read_live [OF inv, of "BranchId ?n" ?st k, where ?'io = 'io] by (simp add: overlay_new_def visible_def)
  then show ?thesis
    using begins by blast
qed

text \<open>A successful commit is two steps of a run.\<close>

lemma commit_run:
  fixes R :: "('b, 't, 'io) roaring"
  assumes "roaring_ok R rset tset" "hash_ok H" "sys_inv R H rset s" "om_get (bm_branches (sys_m s)) bid = Some st"
    "sys_pending s bid = None" "seal_allowed R H s bid" "branches_commit R H (sys_m s) bid = Some (Inr c, m')"
  obtains s' sd where "runs R H s s'" "sys_m s' = m'" "latest s' = next_version (latest s) (br_overlay st) sd" "sys_inv R H rset s'"
proof -
  obtain sd m1 where admit: "commit_admit R H (sys_m s) bid = (Inr sd, m1)" "commit_publish m1 bid sd = Some (Inr c :: 'io branch_error + _, m')"
    using assms(7) by (auto simp: branches_commit_def split: prod.splits sum.splits)
  let ?s1 = "s\<lparr>sys_m := m1, sys_pending := (sys_pending s)(bid \<mapsto> sd)\<rparr>"
  have step1: "branch_step R H s ?s1"
    by (rule step_admit [OF assms(5,6) admit(1)])
  obtain st1 where st1: "om_get (bm_branches m1) bid = Some st1" "br_overlay st1 = br_overlay st"
    using admit(1) assms(4)
    by (auto simp: commit_admit_def flatten_def with_slot_cases [OF assms(3)] state_seal_def try_simps split: if_splits sum.splits option.splits)
  let ?s2 = "?s1\<lparr>sys_m := m', sys_pending := (sys_pending ?s1)(bid := None), sys_history := sys_history ?s1 @ [next_version (latest ?s1) (br_overlay st1) sd]\<rparr>"
  have step2: "branch_step R H ?s1 ?s2"
    by (rule step_publish [where n = c]) (use st1 admit(2) in simp_all)
  have run: "runs R H s ?s2"
    using step1 step2 unfolding runs_def by (meson rtranclp.rtrancl_into_rtrancl rtranclp.rtrancl_refl)
  have "sys_inv R H rset ?s2"
    by (rule branch_step_inv [OF assms(1,2) step2 branch_step_inv [OF assms(1,2) step1 assms(3)]])
  from that [OF run _ _ this] show thesis
    by (simp add: st1(2))
qed

text \<open>C16. What a branch wrote is read back after its commit: a branch begun after a successful \<^verbatim>\<open>commit\<close> reads, for every
  key, the cell the committed branch saw, and at the commit's own key the roots recorded by the seal.\<close>

theorem commit_read_back:
  fixes R :: "('b, 't, 'io) roaring"
  assumes "roaring_ok R rset tset" "hash_ok H" "opened R H rset store n v m" "runs R H (system_new m v) s"
    "om_get (bm_branches (sys_m s)) bid = Some st" "sys_pending s bid = None" "seal_allowed R H s bid"
    "branches_commit R H (sys_m s) bid = Some (Inr c, m')" "bm_next_id m' \<noteq> - 1"
  shows "\<exists>m''. branches_begin m' = (Inr (BranchId (bm_next_id m')) :: 'io branch_error + _, m'') \<and>
    (\<forall>k. fst (branches_read m'' (BranchId (bm_next_id m')) (GetCell k Finish)) =
      (Returned (Inr (sealed_cells (v_head (latest s)) (v_cells (latest s)) (br_overlay st) k)) :: (('io, 'io branch_error) operation_error, _) callback_result))"
proof -
  obtain s' sd where s': "sys_m s' = m'" "latest s' = next_version (latest s) (br_overlay st) sd" "sys_inv R H rset s'"
    by (rule commit_run [OF assms(1,2) runs_inv [OF assms(1-4)] assms(5-8)]) (rule that)
  then show ?thesis
    using publish_snapshot_read [OF s'(3), where ?'io = 'io] assms(9) by (simp add: next_version_def)
qed

section \<open>A run with two branches over genesis\<close>

definition demo_memory :: memory_store where
  "demo_memory = \<lparr>memory_store.committed = tx_state demo_store, writer_held = False, committed_poisoned = False, writer_poisoned = False\<rparr>"

definition demo_version :: version where
  "demo_version = \<lparr>v_head = demo_head, v_cells = Map.empty, v_croot = RootEmpty, v_iroot = RootEmpty\<rparr>"

definition demo_branches :: branches where
  "demo_branches = \<lparr>bm_store = demo_memory, bm_branches = [], bm_next_id = 0\<rparr>"

definition demo_branch :: branch_state where
  "demo_branch = \<lparr>br_commit_id = GENESIS, br_overlay = overlay_new, br_sealed = None\<rparr>"

definition demo_begun :: branches where
  "demo_begun = demo_branches\<lparr>bm_next_id := 2, bm_branches := om_put (BranchId 1) demo_branch (om_put (BranchId 0) demo_branch [])\<rparr>"

abbreviation demo_system0 :: system where
  "demo_system0 \<equiv> system_new demo_branches demo_version"

lemma demo_begin_read: "begin_read demo_memory = Inr demo_store"
  by (simp add: begin_read_def demo_memory_def)

lemma demo_read_head: "read_head mem_read_ops demo_store = Inr GENESIS"
proof -
  have "head_at mem_view demo_store demo_head"
    using demo_committed by (simp add: committed_at_def)
  from memr.read_head_law [OF demo_store_ok this] show ?thesis
    by (simp add: demo_head_def)
qed

lemma demo_opened: "opened list_roaring demo_hash set demo_memory 0 demo_version demo_branches"
proof -
  have "branches_new demo_memory 0 = (Inr demo_branches :: unit branch_error + _)"
    by (simp add: branches_new_def store_head_def demo_begin_read demo_read_head demo_branches_def)
  moreover have "\<lparr>tx_state = memory_store.committed demo_memory\<rparr> = demo_store"
    by (simp add: demo_memory_def)
  ultimately show ?thesis
    using demo_store_ok demo_committed by (simp add: opened_def version_at_def demo_version_def) (simp add: demo_memory_def store_idle_def)
qed

lemmas demo_inv = runs_inv [OF list_roaring_ok demo_hash_ok demo_opened]

abbreviation demo_system2 :: system where
  "demo_system2 \<equiv> demo_system0\<lparr>sys_m := demo_begun\<rparr>"

lemma demo_run: "runs list_roaring demo_hash demo_system0 demo_system2"
proof -
  have head: "branches_head m = Inr GENESIS" if "bm_store m = demo_memory" for m
    using that by (simp add: branches_head_def store_head_def demo_begin_read demo_read_head)
  let ?m = "demo_branches\<lparr>bm_next_id := 1, bm_branches := om_put (BranchId 0) demo_branch []\<rparr>"
  have one: "branches_begin demo_branches = (Inr (BranchId 0) :: unit branch_error + _, ?m)"
    by (simp add: branches_begin_def head allocate_branch_id_def demo_branches_def demo_branch_def)
  have two: "branches_begin ?m = (Inr (BranchId 1) :: unit branch_error + _, demo_begun)"
    by (simp add: branches_begin_def head allocate_branch_id_def demo_branches_def demo_branch_def demo_begun_def)
  have "branch_step list_roaring demo_hash demo_system0 (demo_system0\<lparr>sys_m := ?m\<rparr>)"
    by (rule step_begin [of _ "Inr (BranchId 0)"]) (simp add: system_new_def one)
  moreover have "branch_step list_roaring demo_hash (demo_system0\<lparr>sys_m := ?m\<rparr>) demo_system2"
    using step_begin [of "demo_system0\<lparr>sys_m := ?m\<rparr>" "Inr (BranchId 1)" demo_begun list_roaring demo_hash] two by simp
  ultimately show ?thesis
    unfolding runs_def by (meson rtranclp.rtrancl_into_rtrancl rtranclp.rtrancl_refl)
qed

lemma demo_snapshot: "snapshot demo_begun = demo_store"
  by (simp add: snapshot_def demo_begun_def demo_branches_def demo_memory_def)

lemma demo_slot: "om_get (bm_branches demo_begun) (BranchId 0) = Some demo_branch" "om_get (bm_branches demo_begun) (BranchId 1) = Some demo_branch"
  by (simp_all add: demo_begun_def)

lemma demo_latest: "latest demo_system0 = demo_version" "v_id demo_version = GENESIS"
  by (simp_all add: system_new_def demo_version_def demo_head_def)

lemma demo_allowed: "seal_allowed list_roaring demo_hash demo_system2 (BranchId 0)"
  using demo_distinct by (simp add: seal_allowed_def demo_slot demo_snapshot demo_latest demo_branch_def) (simp add: demo_version_def)

lemma demo_with_slot: "with_slot demo_begun (BranchId 0) stale oper = (Inr (fst (oper demo_branch demo_store)),
    case snd (oper demo_branch demo_store) of
      Some st' \<Rightarrow> demo_begun\<lparr>bm_branches := om_put (BranchId 0) st' (bm_branches demo_begun)\<rparr>
    | None \<Rightarrow> branches_remove demo_begun (BranchId 0))"
  using with_slot_cases [OF demo_inv [OF demo_run], of "BranchId 0" stale oper]
  by (simp add: demo_slot demo_snapshot demo_latest) (simp add: demo_branch_def cong: option.case_cong)

lemma demo_admit:
  obtains sd where "commit_admit list_roaring demo_hash demo_begun (BranchId 0) = (Inr sd,
    demo_begun\<lparr>bm_branches := om_put (BranchId 0) (demo_branch\<lparr>br_sealed := Some sd\<rparr>) (bm_branches demo_begun)\<rparr>)"
proof -
  obtain sd where "seal_compute mem_read_ops list_roaring demo_hash demo_store overlay_new = Inr sd"
    using demo_seal by blast
  then have "state_seal list_roaring demo_hash demo_store demo_branch = Inr (sd, demo_branch\<lparr>br_sealed := Some sd\<rparr>)"
    by (simp add: state_seal_def demo_branch_def)
  then show thesis
    by (intro that [of sd]) (simp add: commit_admit_def flatten_def demo_with_slot)
qed

text \<open>One branch admitted, and then committed.\<close>

lemma demo_pending:
  obtains sd m where "commit_admit list_roaring demo_hash demo_begun (BranchId 0) = (Inr sd, m)"
    "om_get (bm_branches m) (BranchId 0) = Some (demo_branch\<lparr>br_sealed := Some sd\<rparr>)" "om_get (bm_branches m) (BranchId 1) = Some demo_branch"
    "bm_next_id m = 2" "runs list_roaring demo_hash demo_system0 (demo_system0\<lparr>sys_m := m, sys_pending := [BranchId 0 \<mapsto> sd]\<rparr>)"
proof -
  obtain sd where sd: "commit_admit list_roaring demo_hash demo_begun (BranchId 0) = (Inr sd,
      demo_begun\<lparr>bm_branches := om_put (BranchId 0) (demo_branch\<lparr>br_sealed := Some sd\<rparr>) (bm_branches demo_begun)\<rparr>)" (is "_ = (_, ?m)")
    by (rule demo_admit)
  have "branch_step list_roaring demo_hash demo_system2 (demo_system0\<lparr>sys_m := ?m, sys_pending := [BranchId 0 \<mapsto> sd]\<rparr>)"
    using step_admit [OF _ demo_allowed, of sd ?m] sd by (simp add: system_new_def)
  then have "runs list_roaring demo_hash demo_system0 (demo_system0\<lparr>sys_m := ?m, sys_pending := [BranchId 0 \<mapsto> sd]\<rparr>)"
    using demo_run unfolding runs_def by (rule rtranclp.rtrancl_into_rtrancl [rotated])
  moreover have "bm_next_id ?m = 2"
    by (simp add: demo_begun_def)
  ultimately show thesis
    by (intro that [OF sd]) (simp_all add: demo_slot)
qed

lemma demo_committed_run:
  obtains sd m where "runs list_roaring demo_hash demo_system0
      (demo_system0\<lparr>sys_m := m, sys_history := [demo_version, next_version demo_version overlay_new sd]\<rparr>)"
    "commit_num (sd_commit_id sd) = 1" "om_get (bm_branches m) (BranchId 1) = Some demo_branch"
    "branches_commit list_roaring demo_hash demo_begun (BranchId 0) = Some (Inr (sd_commit_id sd), m)" "bm_next_id m = 2"
proof -
  obtain sd m where p: "commit_admit list_roaring demo_hash demo_begun (BranchId 0) = (Inr sd, m)"
      "om_get (bm_branches m) (BranchId 0) = Some (demo_branch\<lparr>br_sealed := Some sd\<rparr>)" "om_get (bm_branches m) (BranchId 1) = Some demo_branch"
      "bm_next_id m = 2" "runs list_roaring demo_hash demo_system0 (demo_system0\<lparr>sys_m := m, sys_pending := [BranchId 0 \<mapsto> sd]\<rparr>)" (is "runs _ _ _ ?s")
    by (rule demo_pending)
  have inv: "sys_inv list_roaring demo_hash set ?s"
    by (rule demo_inv [OF p(5)])
  have slot: "om_get (bm_branches (sys_m ?s)) (BranchId 0) = Some (demo_branch\<lparr>br_sealed := Some sd\<rparr>)"
      "br_sealed (demo_branch\<lparr>br_sealed := Some sd\<rparr>) = Some sd" "br_commit_id (demo_branch\<lparr>br_sealed := Some sd\<rparr>) = v_id (latest ?s)"
    by (simp_all add: p(2) demo_latest) (simp add: demo_branch_def)
  obtain tx' :: mem_tx where publish: "commit_publish m (BranchId 0) sd = Some (Inr (sd_commit_id sd) :: unit branch_error + _,
      branches_remove (m\<lparr>bm_store := (bm_store m)\<lparr>memory_store.committed := tx_state tx'\<rparr>\<rparr>) (BranchId 0))" (is "_ = Some (_, ?m)")
    using persist_law [OF demo_hash_ok inv slot] by auto
  have "branch_step list_roaring demo_hash ?s (demo_system0\<lparr>sys_m := ?m, sys_history := [demo_version, next_version demo_version overlay_new sd]\<rparr>)"
    using step_publish [of ?s "BranchId 0" sd "demo_branch\<lparr>br_sealed := Some sd\<rparr>" "sd_commit_id sd" ?m list_roaring demo_hash] p(2) publish
    by (simp add: system_new_def demo_branch_def)
  then have run: "runs list_roaring demo_hash demo_system0
      (demo_system0\<lparr>sys_m := ?m, sys_history := [demo_version, next_version demo_version overlay_new sd]\<rparr>)"
    using p(5) unfolding runs_def by (rule rtranclp.rtrancl_into_rtrancl [rotated])
  have "seal_fits list_roaring demo_hash set (snapshot (sys_m ?s)) (latest ?s) (demo_branch\<lparr>br_sealed := Some sd\<rparr>) sd"
    using sys_inv_branch(2) [OF inv slot(1)] slot(2,3) unfolding branch_ok_def by blast
  then have number: "commit_num (sd_commit_id sd) = 1"
    by (simp add: seal_fits_def seal_result_def demo_latest) (simp add: demo_version_def demo_head_def GENESIS_def)
  have "om_ok (bm_branches m)"
    using inv by (simp add: sys_inv_def)
  then have left: "om_get (bm_branches ?m) (BranchId 1) = Some demo_branch" "bm_next_id ?m = 2"
    using p(3,4) by (simp_all add: branches_remove_def)
  have "branches_commit list_roaring demo_hash demo_begun (BranchId 0) = Some (Inr (sd_commit_id sd), ?m)"
    by (simp add: branches_commit_def p(1) publish)
  from that [OF run number left(1) this left(2)] show thesis .
qed

text \<open>The properties at the run: the first of two branches over genesis commits, the second is then stale.\<close>

theorem branch_history_linear_witness:
  "\<exists>s sd. runs list_roaring demo_hash demo_system0 s \<and> sys_history s = [demo_version, next_version demo_version overlay_new sd] \<and>
    version_at list_roaring demo_hash set (snapshot (sys_m s)) (next_version demo_version overlay_new sd)"
  by (rule demo_committed_run) (use branch_history_linear [OF list_roaring_ok demo_hash_ok demo_opened] in fastforce)

theorem commit_race_witness:
  "\<exists>s sd m'. runs list_roaring demo_hash demo_system0 s \<and> sys_pending s (BranchId 0) = Some sd \<and>
    commit_publish (sys_m s) (BranchId 0) sd = Some (Inr (sd_commit_id sd) :: unit branch_error + _, m') \<and>
    version_at list_roaring demo_hash set (snapshot m') (next_version demo_version overlay_new sd)"
proof -
  obtain sd m where p: "om_get (bm_branches m) (BranchId 0) = Some (demo_branch\<lparr>br_sealed := Some sd\<rparr>)"
      "runs list_roaring demo_hash demo_system0 (demo_system0\<lparr>sys_m := m, sys_pending := [BranchId 0 \<mapsto> sd]\<rparr>)" (is "runs _ _ _ ?s")
    by (rule demo_pending) (rule that)
  have "sys_pending ?s (BranchId 0) = Some sd"
    by simp
  from commit_race [OF list_roaring_ok demo_hash_ok demo_opened p(2) this] show ?thesis
    using p by (intro exI [of _ ?s] exI [of _ sd]) (auto simp: demo_latest demo_branch_def)
qed

theorem stale_handle_refused_witness:
  "\<exists>s st. runs list_roaring demo_hash demo_system0 s \<and> om_get (bm_branches (sys_m s)) (BranchId 1) = Some st \<and>
    branches_commit list_roaring demo_hash (sys_m s) (BranchId 1) = Some (Inl BranchConflict, branches_remove (sys_m s) (BranchId 1))"
proof -
  obtain sd m where p: "runs list_roaring demo_hash demo_system0
      (demo_system0\<lparr>sys_m := m, sys_history := [demo_version, next_version demo_version overlay_new sd]\<rparr>)" (is "runs _ _ _ ?s")
      "commit_num (sd_commit_id sd) = 1" "om_get (bm_branches m) (BranchId 1) = Some demo_branch"
    by (rule demo_committed_run) (rule that)
  have "commit_num (br_commit_id demo_branch) \<noteq> commit_num (v_id (latest ?s))"
    using p(2) by (simp add: demo_branch_def next_version_def sealed_head_def GENESIS_def)
  then have "om_get (bm_branches (sys_m ?s)) (BranchId 1) = Some demo_branch" "br_commit_id demo_branch \<noteq> v_id (latest ?s)"
    using p(3) by auto
  from this stale_handle_refused [OF list_roaring_ok demo_hash_ok demo_opened p(1) this] p(1) show ?thesis
    by blast
qed

theorem commit_read_back_witness:
  "\<exists>c m' m''. branches_commit list_roaring demo_hash demo_begun (BranchId 0) = Some (Inr c, m') \<and>
    branches_begin m' = (Inr (BranchId 2) :: unit branch_error + _, m'') \<and>
    fst (branches_read m'' (BranchId 2) (GetCell (roots_key demo_head) Finish)) =
      (Returned (Inr (Some (roots_value demo_head))) :: ((unit, unit branch_error) operation_error, _) callback_result)"
proof -
  obtain sd :: sealed_commit and m where p: "branches_commit list_roaring demo_hash demo_begun (BranchId 0) = Some (Inr (sd_commit_id sd), m)" "bm_next_id m = 2"
    by (rule demo_committed_run) (rule that)
  have "om_get (bm_branches (sys_m demo_system2)) (BranchId 0) = Some demo_branch" "sys_pending demo_system2 (BranchId 0) = None"
      "branches_commit list_roaring demo_hash (sys_m demo_system2) (BranchId 0) = Some (Inr (sd_commit_id sd), m)" "bm_next_id m \<noteq> - 1"
    using p by (simp_all add: demo_slot system_new_def)
  note read = commit_read_back [OF list_roaring_ok demo_hash_ok demo_opened demo_run this(1,2) demo_allowed this(3,4), unfolded p(2)]
  have "sealed_cells (v_head (latest demo_system2)) (v_cells (latest demo_system2)) (br_overlay demo_branch) (roots_key demo_head) =
      Some (roots_value demo_head)"
    by (simp add: sealed_cells_def system_new_def demo_version_def)
  then show ?thesis
    using read p(1) by metis
qed

end
