(* ===== verification/Record_System.thy ===== *)
theory Record_System
  imports Record_Laws Branch_Runs
begin

text \<open>
  The mutations and reads of the record layer implement the abstract database, on the visible
  cells of a branch and across its commit.
\<close>

section \<open>Cells of one record\<close>

lemma prefix_record: "prefix (to_be rid) (key_encode k) \<longleftrightarrow> record_id k = rid"
proof
  assume "prefix (to_be rid) (key_encode k)"
  then obtain r where "to_be (record_id k) @ key_name k = to_be rid @ r"
    by (auto simp: prefix_def key_encode_def key_encode_into_def)
  then have "to_be (record_id k) = to_be rid"
    by (simp add: append_eq_append_conv)
  then show "record_id k = rid"
    by (simp add: to_be_inject)
qed (auto simp: key_encode_def key_encode_into_def)

lemma cells_under_record:
  assumes "finite (dom c)"
  shows "set (cells_under (to_be rid) c) = {(k, v). c k = Some v \<and> record_id k = rid}"
  using assms by (auto simp: cells_under_def prefix_record image_iff intro: domI)

section \<open>Mutations\<close>

lemma flip_validate: "try_fold (\<lambda>x _. validate_cell l (fst x) (g (snd x))) xs () = validate_all l (map (map_prod id g) xs)"
proof (induction xs)
  case (Cons x xs)
  then show ?case
    by (cases x) (auto simp: validate_all_def attempt_def split: sum.split)
qed (simp add: validate_all_def)

lemma create_steps:
  assumes "records_at c l n ids" "rkey_ok key"
  shows "spec_program (create_program key xs :: ('io, _, _) cell_program) c =
    (case validate_all l (map (map_prod id Some) xs) of
       Inl e \<Rightarrow> (Returned (Inl e), c)
     | Inr _ \<Rightarrow>
         if ids key \<noteq> None then (Returned (Inl RecordAlreadyExists), c)
         else if n = - 1 then (Returned (Inl RecordIdExhausted), c)
         else (Returned (Inr key), (put_all (map (\<lambda>(name, v). (CellKey n name, Some v)) xs) c)
           (CellKey n name_KEY \<mapsto> from_bytes32 (key_bytes key), binding key \<mapsto> from_u64 n, allocator_key \<mapsto> from_u64 (n + 1))))"
proof -
  have "c k = None" if "record_id k = n" for k
    using free_record [OF assms(1), of "key_name k"] that by (cases k) simp
  moreover have "finite (dom c)"
    using assms(1) by (simp add: records_at_def)
  ultimately have "set (cells_under (to_be n) c) = {}"
    by (subst cells_under_record) auto
  then have "cells_under (to_be n) c = []"
    by simp
  then have free: "first_row (map Inr (cells_under (to_be n) c)) = Inr None"
    by (simp add: first_row_def)
  have writes: "spec_program (pfor (\<lambda>x. write_cell (CellKey n (fst x)) (snd x)) xs) c =
      (Returned (Inr ()), put_all (map (\<lambda>x. (CellKey n (fst x), Some (snd x))) xs) c)" for c
    by (rule spec_pfor_update) simp
  show ?thesis
    unfolding create_program_def case_prod_unfold
    by (simp add: spec_pbind limits_law [OF assms(1)] spec_pfor_check flip_validate resolve_law [OF assms] next_id_law [OF assms(1)] free writes
        split: sum.split)
qed

lemma patch_steps:
  assumes "records_at c l n ids" "rkey_ok key"
  shows "spec_program (patch_program key changes :: ('io, _, _) cell_program) c =
    (case ids key of
       None \<Rightarrow> (Returned (Inl RecordNotFound), c)
     | Some rid \<Rightarrow>
         (case validate_all l (map (map_prod id patch_value) changes) of
            Inl e \<Rightarrow> (Returned (Inl e), c)
          | Inr _ \<Rightarrow> (Returned (Inr ()), put_all (map (\<lambda>(name, ch). (CellKey rid name, patch_value ch)) changes) c)))"
proof -
  have writes: "spec_program (pfor (\<lambda>x. patch_cell (CellKey rid (fst x)) (snd x)) changes) c =
      (Returned (Inr ()), put_all (map (\<lambda>x. (CellKey rid (fst x), patch_value (snd x))) changes) c)" for c rid
    by (rule spec_pfor_update) (simp add: spec_patch_cell)
  show ?thesis
    unfolding patch_program_def case_prod_unfold
    by (simp add: spec_pbind limits_law [OF assms(1)] spec_pfor_check flip_validate resolve_law [OF assms] writes ok_or_def
        split: sum.split option.split)
qed

lemma delete_steps:
  assumes "records_at c l n ids" "rkey_ok key"
  shows "spec_program (delete_program key :: ('io, _, _) cell_program) c =
    (case ids key of
       None \<Rightarrow> (Returned (Inl RecordNotFound), c)
     | Some rid \<Rightarrow> (Returned (Inr ()), (\<lambda>k. if record_id k = rid then None else c k)(binding key := None)))"
proof -
  have addresses: "map_err RecordBranch (try_map (\<lambda>item. attempt item (\<lambda>(address, _). Inr address)) (map Inr rows)) = Inr (map fst rows)" for rows
    by (induction rows) auto
  have erase: "spec_program (pfor erase_cell ks) c = (Returned (Inr ()), put_all (map (\<lambda>k. (k, None)) ks) c)" for ks c
    by (rule spec_pfor_update) simp
  have "finite (dom c)"
    using assms(1) by (simp add: records_at_def)
  then have "(\<lambda>k. if k \<in> fst ` set (cells_under (to_be rid) c) then None else c k) = (\<lambda>k. if record_id k = rid then None else c k)" for rid
    by (subst cells_under_record) (auto simp: fun_eq_iff image_iff)
  then show ?thesis
    unfolding delete_program_def
    by (simp add: spec_pbind resolve_law [OF assms] ok_or_def addresses erase erase_record del: map_map split: option.split)
qed

section \<open>The engine state is kept\<close>

lemma engine_keys:
  "binding key \<noteq> allocator_key" "allocator_key \<noteq> binding key"
  "rkey_ok key \<Longrightarrow> CellKey rid name_KEY \<noteq> binding key" "CellKey rid name_KEY \<noteq> allocator_key"
  "CellKey (sys_id PARAMS) name \<noteq> binding key" "CellKey (sys_id PARAMS) name \<noteq> allocator_key"
  "binding key = binding key' \<longleftrightarrow> key = key'"
  using reserved_name_lengths by (auto simp: binding_def allocator_key_def system_ids record_key.expand)

lemma user_record_keys: "FIRST_USER_RECORD_ID \<le> record_id k \<Longrightarrow> k \<noteq> allocator_key \<and> k \<noteq> binding key"
  by (cases k) (auto simp: system_ids allocator_key_def binding_def word_le_nat_alt)

lemma put_all_Cons: "put_all ((k, x) # es) c = put_all es (c(k := x))"
  by (simp add: put_all_def)

lemma put_all_finite: "finite (dom c) \<Longrightarrow> finite (dom (put_all es c))"
proof (induction es arbitrary: c)
  case (Cons e es)
  obtain k x where e: "e = (k, x)"
    by (cases e)
  have "finite (dom (c(k := x)))"
    using Cons.prems by (cases x) auto
  from Cons.IH [OF this] show ?case
    by (simp only: e put_all_Cons)
qed (simp add: put_all_def)

lemma indexed_records: "records_at c l n ids \<Longrightarrow> c k = Some v \<Longrightarrow> cv_is_indexable v \<Longrightarrow> FIRST_USER_RECORD_ID \<le> record_id k"
  unfolding records_at_def by blast

text \<open>Cells that agree on the engine's own records.\<close>

lemma records_at_change:
  assumes "records_at c l n ids" "FIRST_USER_RECORD_ID \<le> n'" "finite (dom c')"
    "\<And>k. record_id k = sys_id PARAMS \<Longrightarrow> c' k = c k" "c' allocator_key = Some (from_u64 n')"
    "\<And>key. rkey_ok key \<Longrightarrow> c' (binding key) = map_option from_u64 (ids' key)"
    "\<And>key rid. ids' key = Some rid \<Longrightarrow> rkey_ok key \<and> c' (CellKey rid name_KEY) = Some (from_bytes32 (key_bytes key)) \<and> id_fits n' key rid"
    "\<And>r. r \<in> set system_all \<Longrightarrow> ids' (RecordKey (sys_key r)) = Some (sys_id r)"
    "\<And>k. FIRST_USER_RECORD_ID \<le> record_id k \<Longrightarrow> c' k \<noteq> None \<Longrightarrow> record_id k \<in> ran ids'"
    "\<And>k v. c' k = Some v \<Longrightarrow> cv_is_indexable v \<Longrightarrow> FIRST_USER_RECORD_ID \<le> record_id k"
  shows "records_at c' l n' ids'"
proof -
  have "limits_at c' l"
    using assms(1,4) by (simp add: records_at_def limits_at_def)
  then show ?thesis
    using assms(2,3,5-10) unfolding records_at_def by blast
qed

lemma create_keeps:
  assumes "records_at c l n ids" "rkey_ok key" "\<not> reserved_key key" "ids key = None" "n \<noteq> - 1"
    "distinct (map fst xs)"
  defines "c' \<equiv> (put_all (map (\<lambda>(name, v). (CellKey n name, Some v)) xs) c)
    (CellKey n name_KEY \<mapsto> from_bytes32 (key_bytes key), binding key \<mapsto> from_u64 n, allocator_key \<mapsto> from_u64 (n + 1))"
  shows "records_at c' l (n + 1) (ids(key \<mapsto> n))"
    "user_records c' (ids(key \<mapsto> n)) = (user_records c ids)(key \<mapsto> (om_get xs)(name_KEY \<mapsto> from_bytes32 (key_bytes key)))"
proof -
  have n: "FIRST_USER_RECORD_ID \<le> n" "n < n + 1"
    using assms(1) unat_Suc [OF assms(5)] by (simp_all add: records_at_def word_less_nat_alt)
  then have far: "n \<noteq> 0" "n \<noteq> 1" "n \<noteq> 3"
    by (auto simp: system_ids word_le_nat_alt)
  have c': "c' k = (if k = allocator_key then Some (from_u64 (n + 1)) else if k = binding key then Some (from_u64 n)
      else if record_id k = n then ((om_get xs)(name_KEY \<mapsto> from_bytes32 (key_bytes key))) (key_name k) else c k)" for k
    using free_record [OF assms(1), of "key_name k"]
    by (cases k) (auto simp: c'_def put_record [OF assms(6)] split: option.split)
  have ids: "rid \<noteq> n" if "ids key' = Some rid" for key' rid
    using ids_below [OF assms(1) that] by auto
  show "records_at c' l (n + 1) (ids(key \<mapsto> n))"
  proof (rule records_at_change [OF assms(1)])
    show "finite (dom c')"
      using assms(1) by (simp add: c'_def records_at_def put_all_finite)
    fix k :: cell_key
    assume "record_id k = sys_id PARAMS"
    then show "c' k = c k"
      using far by (auto simp: c' system_ids allocator_key_def binding_def)
  next
    show "FIRST_USER_RECORD_ID \<le> n + 1" "c' allocator_key = Some (from_u64 (n + 1))"
      using n by (simp_all add: c')
  next
    fix key' assume "rkey_ok key'"
    then have "c (binding key') = map_option from_u64 (ids key')"
      using assms(1) by (simp add: records_at_def)
    moreover have "record_id (binding key') \<noteq> n"
      using far(3) by (simp add: binding_def system_ids)
    ultimately show "c' (binding key') = map_option from_u64 ((ids(key \<mapsto> n)) key')"
      by (simp add: c' engine_keys)
  next
    fix key' rid assume bound: "(ids(key \<mapsto> n)) key' = Some rid"
    have id: "c' (CellKey rid name_KEY) = (if rid = n then Some (from_bytes32 (key_bytes key)) else c (CellKey rid name_KEY))"
      using engine_keys(3) [OF assms(2), of rid] engine_keys(4) [of rid] by (simp add: c')
    show "rkey_ok key' \<and> c' (CellKey rid name_KEY) = Some (from_bytes32 (key_bytes key')) \<and> id_fits (n + 1) key' rid"
    proof (cases "key' = key")
      case True
      then show ?thesis
        using bound assms(2,3) n id by (simp add: id_fits_def)
    next
      case False
      then have "ids key' = Some rid"
        using bound by simp
      note old = records_bound [OF assms(1) this] ids [OF this]
      then show ?thesis
        using id n(2) by (auto simp: id_fits_def split: option.splits)
    qed
  next
    fix r assume "r \<in> set system_all"
    then show "(ids(key \<mapsto> n)) (RecordKey (sys_key r)) = Some (sys_id r)"
      using assms(1,3) by (auto simp: records_at_def by_key_iff)
  next
    fix k assume k: "FIRST_USER_RECORD_ID \<le> record_id k" "c' k \<noteq> None"
    then have "record_id k = n \<or> c k \<noteq> None"
      using user_record_keys [OF k(1)] by (auto simp: c' split: if_splits)
    then show "record_id k \<in> ran (ids(key \<mapsto> n))"
      using assms(1,4) k(1) unfolding records_at_def by (auto simp: ran_map_upd)
  next
    fix k v assume "c' k = Some v" "cv_is_indexable v"
    then show "FIRST_USER_RECORD_ID \<le> record_id k"
      using indexed_records [OF assms(1), of k v] n(1) by (auto simp: c' split: if_splits)
  qed
  have new: "record_at c' n = (om_get xs)(name_KEY \<mapsto> from_bytes32 (key_bytes key))"
    using user_record_keys [of "CellKey n _"] n(1) by (auto simp: record_at_def c' fun_eq_iff)
  have old: "record_at c' rid = record_at c rid" if "ids key' = Some rid" "\<not> reserved_key key'" for key' rid
    using user_record_keys [of "CellKey rid _"] records_bound(3) [OF assms(1) that(1)] that(2) ids [OF that(1)]
    by (auto simp: record_at_def c' fun_eq_iff id_fits_def)
  show "user_records c' (ids(key \<mapsto> n)) = (user_records c ids)(key \<mapsto> (om_get xs)(name_KEY \<mapsto> from_bytes32 (key_bytes key)))"
  proof
    fix key'
    show "user_records c' (ids(key \<mapsto> n)) key' = ((user_records c ids)(key \<mapsto> (om_get xs)(name_KEY \<mapsto> from_bytes32 (key_bytes key)))) key'"
      using new old [of key'] assms(3) by (cases "ids key'") (auto simp: user_records_def)
  qed
qed

lemma user_records_eq:
  assumes "reserved_key key \<Longrightarrow> r = None" "\<And>rid. \<not> reserved_key key \<Longrightarrow> ids key = Some rid \<Longrightarrow> r = Some (record_at c rid)"
    "ids key = None \<Longrightarrow> r = None"
  shows "user_records c ids key = r"
  using assms by (cases "ids key") (auto simp: user_records_def)

lemma user_id:
  assumes "records_at c l n ids" "ids key = Some rid" "\<not> reserved_key key"
  shows "FIRST_USER_RECORD_ID \<le> rid"
  using records_bound(3) [OF assms(1,2)] assms(3) by (auto simp: id_fits_def)

lemma patch_keeps:
  assumes "records_at c l n ids" "ids key = Some rid" "\<not> reserved_key key" "distinct (map fst xs)" "\<forall>x \<in> set xs. fst x \<noteq> name_KEY"
  defines "c' \<equiv> put_all (map (\<lambda>(name, ch). (CellKey rid name, patch_value ch)) xs) c"
  shows "records_at c' l n ids"
    "user_records c' ids = (user_records c ids)(key \<mapsto> (\<lambda>name. case om_get xs name of Some ch \<Rightarrow> patch_value ch | None \<Rightarrow> record_at c rid name))"
proof -
  note user = user_id [OF assms(1-3)]
  have c': "c' k = (if record_id k = rid then (case om_get xs (key_name k) of Some ch \<Rightarrow> patch_value ch | None \<Rightarrow> c k) else c k)" for k
    by (simp add: c'_def put_record [OF assms(4)])
  have same: "c' k = c k" if "record_id k < FIRST_USER_RECORD_ID \<or> key_name k = name_KEY" for k
    using that user assms(5) by (auto simp: c' split: option.split dest!: map_of_SomeD)
  show "records_at c' l n ids"
  proof (rule records_at_change [OF assms(1)])
    show "finite (dom c')"
      using assms(1) by (simp add: c'_def records_at_def put_all_finite)
    show "FIRST_USER_RECORD_ID \<le> n" "c' allocator_key = Some (from_u64 n)"
      using assms(1) same [of allocator_key] by (auto simp: records_at_def allocator_key_def system_ids)
  next
    fix k assume "record_id k = sys_id PARAMS"
    then show "c' k = c k"
      by (intro same) (simp add: system_ids)
  next
    fix key' assume "rkey_ok key'"
    then show "c' (binding key') = map_option from_u64 (ids key')"
      using assms(1) same [of "binding key'"] by (simp add: records_at_def binding_def system_ids)
  next
    fix key' rid' assume bound: "ids key' = Some rid'"
    show "rkey_ok key' \<and> c' (CellKey rid' name_KEY) = Some (from_bytes32 (key_bytes key')) \<and> id_fits n key' rid'"
      using records_bound [OF assms(1) bound] same [of "CellKey rid' name_KEY"] by simp
  next
    fix k assume k: "FIRST_USER_RECORD_ID \<le> record_id k" "c' k \<noteq> None"
    show "record_id k \<in> ran ids"
    proof (cases "record_id k = rid")
      case False
      then show ?thesis
        using assms(1) k unfolding records_at_def by (auto simp: c')
    qed (use assms(2) in \<open>auto intro: ranI\<close>)
  next
    fix k v assume "c' k = Some v" "cv_is_indexable v"
    then show "FIRST_USER_RECORD_ID \<le> record_id k"
      using indexed_records [OF assms(1), of k v] user by (auto simp: c' split: if_splits)
  qed (use assms(1) in \<open>auto simp: records_at_def\<close>)
  have "record_at c' rid' = record_at c rid'" if "ids key' = Some rid'" "key' \<noteq> key" for key' rid'
    using ids_inject [OF assms(1) that(1), of key] that assms(2) by (auto simp: record_at_def c' fun_eq_iff)
  moreover have "record_at c' rid = (\<lambda>name. case om_get xs name of Some ch \<Rightarrow> patch_value ch | None \<Rightarrow> record_at c rid name)"
    by (auto simp: record_at_def c' fun_eq_iff split: option.split)
  ultimately show "user_records c' ids = (user_records c ids)(key \<mapsto> (\<lambda>name. case om_get xs name of Some ch \<Rightarrow> patch_value ch | None \<Rightarrow> record_at c rid name))"
    using assms(2,3) by (intro ext user_records_eq) (auto simp: user_records_def split: if_splits)
qed

lemma delete_keeps:
  assumes "records_at c l n ids" "ids key = Some rid" "\<not> reserved_key key"
  defines "c' \<equiv> (\<lambda>k. if record_id k = rid then None else c k)(binding key := None)"
  shows "records_at c' l n (ids(key := None))" "user_records c' (ids(key := None)) = (user_records c ids)(key := None)"
proof -
  note user = user_id [OF assms(1-3)]
  have other: "rid' \<noteq> rid" if "ids key' = Some rid'" "key' \<noteq> key" for key' rid'
    using ids_inject [OF assms(1) that(1), of key] that assms(2) by auto
  have same: "c' k = c k" if "record_id k \<noteq> rid" "k \<noteq> binding key" for k
    using that by (simp add: c'_def)
  show "records_at c' l n (ids(key := None))"
  proof (rule records_at_change [OF assms(1)])
    have "dom c' \<subseteq> dom c"
      by (auto simp: c'_def split: if_splits)
    then show "finite (dom c')"
      using assms(1) finite_subset by (auto simp: records_at_def)
    have "sys_id ALLOC \<noteq> rid"
      using user by (auto simp: system_ids word_le_nat_alt)
    then show "FIRST_USER_RECORD_ID \<le> n" "c' allocator_key = Some (from_u64 n)"
      using assms(1) same [of allocator_key] engine_keys(2) [of key] by (auto simp: records_at_def) (simp add: allocator_key_def)
  next
    fix k assume "record_id k = sys_id PARAMS"
    then show "c' k = c k"
      using user by (intro same) (auto simp: system_ids binding_def word_le_nat_alt)
  next
    fix key' assume "rkey_ok key'"
    moreover have "record_id (binding key') \<noteq> rid"
      using user by (auto simp: system_ids binding_def word_le_nat_alt)
    ultimately show "c' (binding key') = map_option from_u64 ((ids(key := None)) key')"
      using assms(1) by (auto simp: c'_def engine_keys(7) records_at_def)
  next
    fix key' rid' assume bound: "(ids(key := None)) key' = Some rid'"
    then have old: "ids key' = Some rid'" "key' \<noteq> key"
      by (auto split: if_splits)
    show "rkey_ok key' \<and> c' (CellKey rid' name_KEY) = Some (from_bytes32 (key_bytes key')) \<and> id_fits n key' rid'"
      using records_bound [OF assms(1) old(1)] same [of "CellKey rid' name_KEY"] other [OF old]
        engine_keys(3) [OF records_bound(1) [OF assms(1,2)], of rid'] by simp
  next
    fix r assume "r \<in> set system_all"
    then show "(ids(key := None)) (RecordKey (sys_key r)) = Some (sys_id r)"
      using assms(1,3) by (auto simp: records_at_def by_key_iff)
  next
    fix k assume k: "FIRST_USER_RECORD_ID \<le> record_id k" "c' k \<noteq> None"
    then have "record_id k \<noteq> rid" "c k \<noteq> None"
      by (auto simp: c'_def split: if_splits)
    moreover obtain key' where "ids key' = Some (record_id k)"
      using assms(1) k(1) calculation(2) unfolding records_at_def by (auto simp: ran_def)
    ultimately show "record_id k \<in> ran (ids(key := None))"
      using assms(2) by (auto intro!: ranI [of _ key'])
  next
    fix k v assume "c' k = Some v" "cv_is_indexable v"
    then show "FIRST_USER_RECORD_ID \<le> record_id k"
      using indexed_records [OF assms(1), of k v] by (auto simp: c'_def split: if_splits)
  qed
  have "record_at c' rid' = record_at c rid'" if "ids key' = Some rid'" "key' \<noteq> key" "\<not> reserved_key key'" for key' rid'
    using other [OF that(1,2)] user_record_keys [of "CellKey rid' _"] user_id [OF assms(1) that(1,3)]
    by (auto simp: record_at_def c'_def fun_eq_iff)
  then show "user_records c' (ids(key := None)) = (user_records c ids)(key := None)"
    by (intro ext user_records_eq) (auto simp: user_records_def)
qed

section \<open>Simulation\<close>

text \<open>What a program has to do to implement a step of the abstract database.\<close>

definition simulates :: "('io, 'io record_error, 'a) cell_program \<Rightarrow> 'a \<Rightarrow> (database \<Rightarrow> 'io record_error + database) \<Rightarrow> bool" where
  "simulates p a f \<longleftrightarrow> (\<forall>c d. database_at c d \<longrightarrow> (case f d of
     Inl e \<Rightarrow> spec_program p c = (Returned (Inl e), c)
   | Inr d' \<Rightarrow> \<exists>c'. spec_program p c = (Returned (Inr a), c') \<and> database_at c' d'))"

lemma database_atI:
  "records_at c l n ids \<Longrightarrow> db_limits d = l \<Longrightarrow> db_next d = n \<Longrightarrow> db_records d = user_records c ids \<Longrightarrow> database_at c d"
  by (auto simp: database_at_def)

lemma user_records_None: "\<not> reserved_key key \<Longrightarrow> user_records c ids key = None \<longleftrightarrow> ids key = None"
  by (simp add: user_records_def)

lemma create_simulates:
  assumes "rkey_ok key" "\<not> reserved_key key" "om_ok xs"
  shows "simulates (create_program key xs :: ('io, _, _) cell_program) key (spec_create key xs)"
  unfolding simulates_def
proof (intro allI impI)
  fix c d assume "database_at c d"
  then obtain ids where at: "records_at c (db_limits d) (db_next d) ids" "db_records d = user_records c ids"
    by (auto simp: database_at_def)
  note steps = create_steps [OF at(1) assms(1), of xs, where ?'io = 'io]
  show "case spec_create key xs d of
      Inl e \<Rightarrow> spec_program (create_program key xs) c = (Returned (Inl e :: 'io record_error + _), c)
    | Inr d' \<Rightarrow> \<exists>c'. spec_program (create_program key xs) c = (Returned (Inr key :: 'io record_error + _), c') \<and> database_at c' d'"
  proof (cases "validate_all (db_limits d) (map (map_prod id Some) xs) :: 'io record_error + unit")
    case (Inl e)
    then show ?thesis
      using steps by (simp add: spec_create_def)
  next
    case (Inr u)
    show ?thesis
    proof (cases "ids key = None \<and> db_next d \<noteq> - 1")
      case True
      note keeps = create_keeps [OF at(1) assms(1,2) conjunct1 [OF True] conjunct2 [OF True] om_ok_distinct [OF assms(3)]]
      from database_atI [OF keeps(1)] keeps(2) show ?thesis
        using steps Inr True at(2) assms(2) by (auto simp: spec_create_def user_records_None)
    next
      case False
      then show ?thesis
        using steps Inr at(2) assms(2) by (auto simp: spec_create_def user_records_None)
    qed
  qed
qed

lemma patch_simulates:
  assumes "rkey_ok key" "\<not> reserved_key key" "om_ok xs"
  shows "simulates (patch_program key xs :: ('io, _, _) cell_program) () (spec_patch key xs)"
  unfolding simulates_def
proof (intro allI impI)
  fix c d assume "database_at c d"
  then obtain ids where at: "records_at c (db_limits d) (db_next d) ids" "db_records d = user_records c ids"
    by (auto simp: database_at_def)
  note steps = patch_steps [OF at(1) assms(1), of xs, where ?'io = 'io]
  show "case spec_patch key xs d of
      Inl e \<Rightarrow> spec_program (patch_program key xs) c = (Returned (Inl e :: 'io record_error + _), c)
    | Inr d' \<Rightarrow> \<exists>c'. spec_program (patch_program key xs) c = (Returned (Inr () :: 'io record_error + _), c') \<and> database_at c' d'"
  proof (cases "ids key")
    case None
    then show ?thesis
      using steps at(2) assms(2) by (simp add: spec_patch_def user_records_def ok_or_def)
  next
    case (Some rid)
    then have found: "db_records d key = Some (record_at c rid)"
      using at(2) assms(2) by (simp add: user_records_def)
    show ?thesis
    proof (cases "validate_all (db_limits d) (map (map_prod id patch_value) xs) :: 'io record_error + unit")
      case (Inl e)
      then show ?thesis
        using steps Some found by (simp add: spec_patch_def ok_or_def)
    next
      case (Inr u)
      have "fst x \<noteq> name_KEY" if "x \<in> set xs" for x
        using validate_all_names [OF Inr, of "map_prod id patch_value x"] that user_name_not_reserved by auto
      then have "\<forall>x \<in> set xs. fst x \<noteq> name_KEY"
        by blast
      note keeps = patch_keeps [OF at(1) Some assms(2) om_ok_distinct [OF assms(3)] this]
      from database_atI [OF keeps(1)] keeps(2) show ?thesis
        using steps Some found Inr at(2) by (auto simp: spec_patch_def ok_or_def)
    qed
  qed
qed

lemma delete_simulates:
  assumes "rkey_ok key" "\<not> reserved_key key"
  shows "simulates (delete_program key :: ('io, _, _) cell_program) () (spec_delete key)"
  unfolding simulates_def
proof (intro allI impI)
  fix c d assume "database_at c d"
  then obtain ids where at: "records_at c (db_limits d) (db_next d) ids" "db_records d = user_records c ids"
    by (auto simp: database_at_def)
  note steps = delete_steps [OF at(1) assms(1), where ?'io = 'io]
  show "case spec_delete key d of
      Inl e \<Rightarrow> spec_program (delete_program key) c = (Returned (Inl e :: 'io record_error + _), c)
    | Inr d' \<Rightarrow> \<exists>c'. spec_program (delete_program key) c = (Returned (Inr () :: 'io record_error + _), c') \<and> database_at c' d'"
  proof (cases "ids key")
    case None
    then show ?thesis
      using steps at(2) assms(2) by (simp add: spec_delete_def user_records_def ok_or_def)
  next
    case (Some rid)
    then have "db_records d key = Some (record_at c rid)"
      using at(2) assms(2) by (simp add: user_records_def)
    moreover note keeps = delete_keeps [OF at(1) Some assms(2)]
    ultimately show ?thesis
      using database_atI [OF keeps(1)] steps Some at(2) by (auto simp: spec_delete_def ok_or_def keeps(2))
  qed
qed

end
