(* ===== verification/Api_Genesis.thy ===== *)
theory Api_Genesis
  imports Record_System
begin

text \<open>
  \<^verbatim>\<open>crates/api/src\<close>: \<^verbatim>\<open>config.rs\<close>, \<^verbatim>\<open>open_error.rs\<close>, \<^verbatim>\<open>genesis.rs\<close> and \<^verbatim>\<open>open.rs\<close> over the memory backend. A hash provider per
  algorithm is the parameter \<open>Hs\<close>. Errors of the file system and of the YAML reader do not arise here.
\<close>

section \<open>Configuration\<close>

datatype hash_algorithm = Keccak256 | Blake3

record genesis =
  hash_function :: hash_algorithm
  genesis_limits :: cell_limits

datatype open_mode = CreateIfMissing | ExistingOnly | CreateNew

record open_config =
  oc_genesis :: genesis
  oc_mode :: open_mode

text \<open>The texts of \<^verbatim>\<open>InvalidConfig\<close>, with the numbers they show.\<close>

datatype config_error = ZeroNameLength | KeysTooLong u64 u64 | ValuesTooLong u64 u64

datatype 'io open_error =
    InvalidConfig config_error
  | NotInitialized
  | AlreadyInitialized
  | GenesisMismatch
  | OpenCorruptState string
  | UnsupportedFormat u32
  | UnsupportedHash u16
  | UnsupportedRoaring u16
  | OpenStorage storage_error
  | OpenCells cell_error
  | OpenBranch "'io branch_error"
  | OpenIndex "'io index_error"

definition genesis_validate :: "genesis \<Rightarrow> u64 \<Rightarrow> u64 \<Rightarrow> 'io open_error + unit" where
  "genesis_validate g max_key max_value =
    (let limits = genesis_limits g;
       name = ucast (max_cell_name_len limits) :: u64;
       key = max (max (name + 8) (name + 2 + max (ucast (max_str_len limits)) 32)) 40;
       value = max (1 + ucast (max (max_bytes_len limits) (max_str_len limits))) (16 * 1024) :: u64
     in if max_cell_name_len limits = 0 then Inl (InvalidConfig ZeroNameLength)
     else if key > max_key then Inl (InvalidConfig (KeysTooLong key max_key))
     else if value > max_value then Inl (InvalidConfig (ValuesTooLong value max_value))
     else Inr ())"

section \<open>Genesis cells\<close>

definition FORMAT :: u32 where "FORMAT = 1"
definition ROARING :: u16 where "ROARING = 1"

definition hash_id :: "hash_algorithm \<Rightarrow> u16" where
  "hash_id a = (case a of Keccak256 \<Rightarrow> 1 | Blake3 \<Rightarrow> 2)"

definition record_cells_of :: "(cell_key, cell_value) omap \<Rightarrow> system_record \<Rightarrow> (cell_key, cell_value) omap" where
  "record_cells_of cells r =
    om_put (CellKey (sys_id RECORD_KEYS) (sys_key r)) (from_u64 (sys_id r))
      (om_put (CellKey (sys_id r) name_KEY) (from_bytes32 (sys_key r)) cells)"

definition initial_cells :: "genesis \<Rightarrow> (cell_key, cell_value) omap" where
  "initial_cells g =
    (let limits = genesis_limits g;
       cells = foldl record_cells_of [] system_all;
       cells = foldl (\<lambda>cells (name, value). om_put (CellKey (sys_id PARAMS) name) (from_u32 value) cells) cells
         [(name_MAX_CELL_NAME_LEN, max_cell_name_len limits), (name_MAX_STR_LEN, max_str_len limits),
          (name_MAX_BYTES_LEN, max_bytes_len limits)]
     in om_put allocator_key (from_u64 FIRST_USER_RECORD_ID) cells)"

definition framed :: "bytes \<Rightarrow> bytes" where
  "framed bs = to_be (of_nat (length bs) :: u32) @ bs"

definition identity :: "genesis \<Rightarrow> (cell_key, cell_value) omap \<Rightarrow> (bytes \<Rightarrow> hash) \<Rightarrow> hash" where
  "identity g cells H =
    H (ascii ''golemdb/genesis/v1'' @ [0] @ to_be FORMAT @ to_be (hash_id (hash_function g)) @ to_be ROARING @
      to_be (of_nat (length cells) :: u32) @
      concat (map (\<lambda>(key, value). framed (key_encode key) @ framed (cv_bytes value)) cells))"

section \<open>Opening\<close>

record open_info =
  oi_created :: bool
  oi_commit_id :: commit_id
  oi_state_root :: hash
  oi_index_root :: hash
  oi_genesis_id :: hash

definition open_info_new :: "bool \<Rightarrow> head \<Rightarrow> hash \<Rightarrow> open_info" where
  "open_info_new created h genesis_id = \<lparr>oi_created = created, oi_commit_id = hd_commit_id h,
    oi_state_root = hd_state_root h, oi_index_root = hd_index_root h, oi_genesis_id = genesis_id\<rparr>"

definition FORMAT_KEY :: bytes where "FORMAT_KEY = ascii ''format''"
definition HASH_FN_KEY :: bytes where "HASH_FN_KEY = ascii ''hash_fn''"
definition ROARING_KEY :: bytes where "ROARING_KEY = ascii ''roaring''"
definition GENESIS_ID_KEY :: bytes where "GENESIS_ID_KEY = ascii ''genesis_id''"

definition metadata :: "('tx, 'cur, 'z) read_ops_scheme \<Rightarrow> nat \<Rightarrow> 'tx \<Rightarrow> bytes \<Rightarrow> 'io open_error + bytes" where
  "metadata ops n tx key =
    attempt (map_err OpenStorage (tx_get ops tx SUPERBLOCK key)) (\<lambda>row.
    attempt (ok_or (OpenCorruptState ''missing format or genesis metadata'') row) (\<lambda>bs.
      if length bs \<noteq> n then Inl (OpenCorruptState ''malformed format or genesis metadata'') else Inr bs))"

text \<open>The loop that takes as many rows as genesis has cells.\<close>

primrec take_rows :: "('tx, 'cur, 'z) read_ops_scheme \<Rightarrow> nat \<Rightarrow> 'cur \<Rightarrow> 'io open_error + 'cur" where
  "take_rows ops 0 c = Inr c"
| "take_rows ops (Suc n) c =
    attempt (map_err OpenStorage (cur_next ops c)) (\<lambda>(row, c').
    attempt (ok_or (OpenCorruptState ''incomplete genesis cells'') row) (\<lambda>_. take_rows ops n c'))"

definition allocator_value :: "cell_value \<Rightarrow> 'io open_error + u64" where
  "allocator_value v =
    ok_or (OpenCorruptState ''invalid allocator'')
      (case plain v (cv_as_u64 v) of Some rid \<Rightarrow> if rid \<ge> FIRST_USER_RECORD_ID then Some rid else None | None \<Rightarrow> None)"

definition previous_roots :: "('tx, 'cur, 'z) read_ops_scheme \<Rightarrow> 'tx \<Rightarrow> head \<Rightarrow> 'io open_error + (cell_key \<times> cell_value)" where
  "previous_roots ops tx h =
    (let key = CellKey (sys_id ROOTS) (to_be (commit_num (hd_commit_id h) - 1)) in
     attempt (map_err OpenCells (cells_get ops tx key)) (\<lambda>value.
     attempt (ok_or (OpenCorruptState ''missing previous commit roots'') value) (\<lambda>v.
       if cv_is_indexable v \<or> (case cv_as_bytes v of None \<Rightarrow> True | Some bs \<Rightarrow> length bs \<noteq> 64)
       then Inl (OpenCorruptState ''malformed previous commit roots'') else Inr (key, v))))"

definition genesis_exact :: "('tx, 'cur, 'z) read_ops_scheme \<Rightarrow> (bytes \<Rightarrow> hash) \<Rightarrow> 'tx \<Rightarrow> head \<Rightarrow> nat \<Rightarrow> 'io open_error + unit" where
  "genesis_exact ops H tx h n =
    attempt (map_err OpenStorage (tx_cursor ops tx CELL [])) (\<lambda>c.
    attempt (take_rows ops n c) (\<lambda>c.
    attempt (map_err OpenStorage (cur_next ops c)) (\<lambda>(row, _).
      if row \<noteq> None \<or> hd_index_root h \<noteq> H [] then Inl (OpenCorruptState ''unexpected data at genesis'') else Inr ())))"

definition validate_state ::
  "('tx, 'cur, 'z) write_ops_scheme \<Rightarrow> (bytes \<Rightarrow> hash) \<Rightarrow> 'tx \<Rightarrow> head \<Rightarrow> (cell_key, cell_value) omap \<Rightarrow> 'io open_error + 'tx" where
  "validate_state ops H tx h expected =
    attempt (map_err OpenCells (cell_reopen ops H tx (hd_state_root h))) (\<lambda>root.
    attempt (map_err OpenIndex (index_reopen ops H tx (hd_index_root h))) (\<lambda>_.
    attempt (map_err OpenCells (cells_get ops tx allocator_key)) (\<lambda>value.
    attempt (ok_or (OpenCorruptState ''missing allocator'') value) (\<lambda>allocator.
    attempt (allocator_value allocator) (\<lambda>next_id.
    if hd_commit_id h = GENESIS \<and> next_id \<noteq> FIRST_USER_RECORD_ID then Inl (OpenCorruptState ''genesis allocator has advanced'')
    else
      attempt (map_err OpenCells (scan_record ops tx next_id)) (\<lambda>scan.
      attempt (case fst (cell_scan_next ops scan) of
          None \<Rightarrow> Inr None | Some item \<Rightarrow> attempt (map_err OpenCells item) (\<lambda>row. Inr (Some row))) (\<lambda>row.
      if row \<noteq> None then Inl (OpenCorruptState ''allocator points to an occupied record'')
      else
        let expected = om_put allocator_key allocator expected in
        attempt (try_fold (\<lambda>(key, value) _.
          attempt (map_err OpenCells (cells_get ops tx key)) (\<lambda>found.
            if found \<noteq> Some value
            then Inl (OpenCorruptState ''missing or inconsistent reserved identity, binding, or parameter'')
            else Inr ())) expected ()) (\<lambda>_.
        attempt (if hd_commit_id h = GENESIS
            then attempt (genesis_exact ops H tx h (length expected)) (\<lambda>_. Inr expected)
            else attempt (previous_roots ops tx h) (\<lambda>(key, v). Inr (om_put key v expected))) (\<lambda>expected.
        attempt (map_err OpenCells (cells_apply ops H tx root (map (\<lambda>(key, value). CellPut key value) expected))) (\<lambda>(_, tx').
          Inr tx'))))))))))"

definition write_metadata ::
  "('tx, 'cur, 'z) write_ops_scheme \<Rightarrow> 'tx \<Rightarrow> genesis \<Rightarrow> hash \<Rightarrow> 'io open_error + 'tx" where
  "write_metadata ops tx g genesis_id =
    map_err OpenStorage (try_fold (\<lambda>(key, value) tx. tx_put ops tx SUPERBLOCK key value)
      [(FORMAT_KEY, to_be FORMAT), (HASH_FN_KEY, to_be (hash_id (hash_function g))), (ROARING_KEY, to_be ROARING),
       (GENESIS_ID_KEY, genesis_id)] tx)"

definition prepare ::
  "('tx, 'cur, 'z) write_ops_scheme \<Rightarrow> (bytes \<Rightarrow> hash) \<Rightarrow> 'tx \<Rightarrow> open_config \<Rightarrow> 'io open_error + (open_info \<times> 'tx)" where
  "prepare ops H tx config =
    (let g = oc_genesis config; cells = initial_cells g; genesis_id = identity g cells H in
     attempt (map_err OpenStorage (tx_get ops tx SUPERBLOCK HEAD_KEY)) (\<lambda>row.
     if row = None then
       attempt (map_err OpenStorage (tx_is_empty ops tx)) (\<lambda>empty.
       if \<not> empty then Inl (OpenCorruptState ''storage contains tables or rows but has no head'')
       else if oc_mode config = ExistingOnly then Inl NotInitialized
       else
         attempt (write_metadata ops tx g genesis_id) (\<lambda>tx.
         attempt (map_err OpenCells (cells_apply ops H tx RootEmpty (map (\<lambda>(key, value). CellPut key value) cells))) (\<lambda>(update, tx).
           let h = \<lparr>hd_commit_id = GENESIS, hd_state_root = root_hash H (cu_root update), hd_index_root = H []\<rparr> in
           attempt (map_err OpenBranch (write_head ops tx h)) (\<lambda>tx.
             Inr (open_info_new True h genesis_id, tx)))))
     else
       attempt (metadata ops 4 tx FORMAT_KEY) (\<lambda>bs.
       let format = from_be bs :: u32 in
       if format \<noteq> FORMAT then Inl (UnsupportedFormat format)
       else
         attempt (metadata ops 2 tx HASH_FN_KEY) (\<lambda>bs.
         let hash = from_be bs :: u16 in
         if hash \<notin> {1, 2} then Inl (UnsupportedHash hash)
         else
           attempt (metadata ops 2 tx ROARING_KEY) (\<lambda>bs.
           let roaring = from_be bs :: u16 in
           if roaring \<noteq> ROARING then Inl (UnsupportedRoaring roaring)
           else
             attempt (metadata ops 32 tx GENESIS_ID_KEY) (\<lambda>stored_id.
             if hash \<noteq> hash_id (hash_function g) \<or> stored_id \<noteq> genesis_id then Inl GenesisMismatch
             else
               attempt (map_err OpenBranch (read_head_state ops tx)) (\<lambda>h.
               attempt (validate_state ops H tx h cells) (\<lambda>tx.
               if oc_mode config = CreateNew then Inl AlreadyInitialized
               else Inr (open_info_new False h genesis_id, tx)))))))))"

text \<open>The memory store keeps the default ceilings of \<^verbatim>\<open>Store\<close>. \<open>None\<close> is an opener that waits for the writer lock.\<close>

definition open_store ::
  "(hash_algorithm \<Rightarrow> bytes \<Rightarrow> hash) \<Rightarrow> memory_store \<Rightarrow> open_config \<Rightarrow> (('io open_error + open_info) \<times> memory_store) option" where
  "open_store Hs store config = (case genesis_validate (oc_genesis config) (- 1) (- 1) of
     Inl e \<Rightarrow> Some (Inl e, store)
   | Inr _ \<Rightarrow> (case begin_write store of
       None \<Rightarrow> None
     | Some (Inl e) \<Rightarrow> Some (Inl (OpenStorage e), store)
     | Some (Inr (store, tx)) \<Rightarrow> Some
         (case prepare mem_ops (Hs (hash_function (oc_genesis config))) tx config of
            Inl e \<Rightarrow> (Inl e, mem_abort store)
          | Inr (info, tx) \<Rightarrow>
              if oi_created info
              then (case mem_commit store tx of Inl e \<Rightarrow> (Inl (OpenStorage e), mem_abort store) | Inr store \<Rightarrow> (Inr info, store))
              else (Inr info, mem_abort store))))"

end
