(* ===== verification/Record_Runs.thy ===== *)
theory Record_Runs
  imports Api_Genesis
begin

text \<open>
  Genesis is an empty database, and on a live branch of any run the operations of \<^verbatim>\<open>Records\<close> are the
  steps of the abstract database.
\<close>

section \<open>Genesis is an empty database\<close>

lemma record_cells_of_get: "om_get (record_cells_of m r) = (om_get m)
    (CellKey (sys_id r) name_KEY \<mapsto> from_bytes32 (sys_key r), CellKey (sys_id RECORD_KEYS) (sys_key r) \<mapsto> from_u64 (sys_id r))"
  by (simp add: record_cells_of_def)

lemma genesis_bindings:
  assumes "distinct (map sys_key rs)" "length key = 32"
  shows "om_get (foldl record_cells_of m rs) (CellKey (sys_id RECORD_KEYS) key) =
    (case find (\<lambda>r. sys_key r = key) rs of Some r \<Rightarrow> Some (from_u64 (sys_id r)) | None \<Rightarrow> om_get m (CellKey (sys_id RECORD_KEYS) key))"
  using assms(1)
proof (induction rs arbitrary: m)
  case (Cons r rs)
  have "find (\<lambda>r. sys_key r = key) rs = None" if "sys_key r = key"
    using Cons.prems that by (auto simp: find_None_iff) (metis imageI)
  moreover have "name_KEY \<noteq> key"
    using assms(2) reserved_name_lengths by auto
  ultimately show ?case
    using Cons by (auto simp: record_cells_of_def split: option.split)
qed simp

lemma genesis_identities:
  assumes "distinct (map sys_id rs)" "\<forall>r \<in> set rs. length (sys_key r) = 32" "r \<in> set rs"
  shows "om_get (foldl record_cells_of m rs) (CellKey (sys_id r) name_KEY) = Some (from_bytes32 (sys_key r))"
proof -
  have names: "name_KEY \<noteq> sys_key s" if "s \<in> set rs" for s
    using assms(2) that reserved_name_lengths by auto
  have other: "om_get (foldl record_cells_of m rs) (CellKey i name_KEY) = om_get m (CellKey i name_KEY)"
    if "i \<notin> sys_id ` set rs" "\<forall>s \<in> set rs. name_KEY \<noteq> sys_key s" for i m and rs :: "system_record list"
    using that by (induction rs arbitrary: m) (auto simp: record_cells_of_def)
  show ?thesis
    using assms(1,3) names
  proof (induction rs arbitrary: m)
    case (Cons s rs)
    show ?case
    proof (cases "s = r")
      case True
      have "name_KEY \<noteq> sys_key r"
        using Cons.prems(2,3) by blast
      moreover have "om_get (foldl record_cells_of (record_cells_of m r) rs) (CellKey (sys_id r) name_KEY) =
          om_get (record_cells_of m r) (CellKey (sys_id r) name_KEY)"
        using Cons.prems True by (intro other) auto
      ultimately show ?thesis
        using True by (simp add: record_cells_of_get)
    qed (use Cons in auto)
  qed simp
qed

lemma genesis_domain:
  "om_get (foldl record_cells_of m rs) k \<noteq> None \<Longrightarrow> om_get m k \<noteq> None \<or> record_id k \<in> insert (sys_id RECORD_KEYS) (sys_id ` set rs)"
proof (induction rs arbitrary: m)
  case (Cons r rs)
  from Cons.IH [of "record_cells_of m r"] Cons.prems show ?case
    by (auto simp: record_cells_of_def split: if_splits)
qed simp

definition genesis_ids :: "record_key \<rightharpoonup> u64" where
  "genesis_ids key = map_option sys_id (by_key (key_bytes key))"

definition empty_database :: "cell_limits \<Rightarrow> database" where
  "empty_database l = \<lparr>db_limits = l, db_next = FIRST_USER_RECORD_ID, db_records = Map.empty\<rparr>"

lemma param_names: "distinct [name_KEY, name_MAX_CELL_NAME_LEN, name_MAX_STR_LEN, name_MAX_BYTES_LEN]"
  by (simp add: name_KEY_def name_MAX_CELL_NAME_LEN_def name_MAX_STR_LEN_def name_MAX_BYTES_LEN_def ascii_def)

lemma initial_cells_map: "om_get (initial_cells g) = (om_get (foldl record_cells_of [] system_all))
   (CellKey (sys_id PARAMS) name_MAX_CELL_NAME_LEN \<mapsto> from_u32 (max_cell_name_len (genesis_limits g)),
    CellKey (sys_id PARAMS) name_MAX_STR_LEN \<mapsto> from_u32 (max_str_len (genesis_limits g)),
    CellKey (sys_id PARAMS) name_MAX_BYTES_LEN \<mapsto> from_u32 (max_bytes_len (genesis_limits g)),
    allocator_key \<mapsto> from_u64 FIRST_USER_RECORD_ID)"
  by (simp add: initial_cells_def Let_def)

lemma initial_values_plain: "om_get (initial_cells g) k = Some v \<Longrightarrow> \<not> cv_is_indexable v"
proof -
  have fold: "\<not> cv_is_indexable v" if "om_get (foldl record_cells_of m rs) k = Some v" "\<And>k v. om_get m k = Some v \<Longrightarrow> \<not> cv_is_indexable v" for m rs k v
    using that
  proof (induction rs arbitrary: m)
    case (Cons r rs)
    have "\<not> cv_is_indexable v'" if "om_get (record_cells_of m r) k' = Some v'" for k' v'
      using that Cons.prems(2) [of k' v'] by (auto simp: record_cells_of_get from_u64_def from_bytes32_def split: if_splits)
    then show ?case
      using Cons.IH [of "record_cells_of m r"] Cons.prems(1) by simp
  qed simp
  assume "om_get (initial_cells g) k = Some v"
  then show "\<not> cv_is_indexable v"
    using fold [of "[]" system_all k v] by (auto simp: initial_cells_map from_u32_def from_u64_def split: if_splits)
qed

lemma genesis_database: "database_at (om_get (initial_cells g)) (empty_database (genesis_limits g))"
proof -
  let ?c = "om_get (initial_cells g)"
  have bindings: "?c (binding key) = map_option from_u64 (genesis_ids key)" if "rkey_ok key" for key
    using genesis_bindings [OF system_all_keys(1) that, of "[]"] engine_keys(5) [of _ key] engine_keys(1) [of key]
    by (auto simp: initial_cells_map genesis_ids_def by_key_def binding_def system_ids split: option.split)
  have identity: "?c (CellKey rid name_KEY) = Some (from_bytes32 (key_bytes key)) \<and> rkey_ok key \<and> id_fits n key rid"
    if id: "genesis_ids key = Some rid" for key rid n
  proof -
    obtain r where r: "by_key (key_bytes key) = Some r" "rid = sys_id r"
      using id by (auto simp: genesis_ids_def)
    then have "om_get (foldl record_cells_of [] system_all) (CellKey rid name_KEY) = Some (from_bytes32 (key_bytes key))"
      using genesis_identities [OF system_all_keys(2), of r "[]"] system_all_keys(3) by (auto simp: by_key_iff)
    then show ?thesis
      using r by_key_small [OF r(1)] param_names engine_keys(4) [of rid] by (auto simp: initial_cells_map id_fits_def)
  qed
  have "record_id k < FIRST_USER_RECORD_ID" if "?c k \<noteq> None" for k
    using that genesis_domain [of "[]" system_all k] system_all_keys(3)
    by (auto simp: initial_cells_map system_ids allocator_key_def split: if_splits)
  then have small: "record_id k \<in> ran genesis_ids" if "FIRST_USER_RECORD_ID \<le> record_id k" "?c k \<noteq> None" for k
    using that leD by blast
  have catalogue: "genesis_ids (RecordKey (sys_key r)) = Some (sys_id r)" if "r \<in> set system_all" for r
  proof -
    have "by_key (sys_key r) = Some r"
      using that by (simp add: by_key_iff)
    then show ?thesis
      by (simp add: genesis_ids_def)
  qed
  have "limits_at ?c (genesis_limits g)"
    using param_names engine_keys(6) by (auto simp: limits_at_def initial_cells_map)
  moreover have "finite (dom ?c)"
    by (simp add: finite_dom_map_of)
  moreover have "?c allocator_key = Some (from_u64 FIRST_USER_RECORD_ID)"
    by (simp add: initial_cells_map)
  ultimately have at: "records_at ?c (genesis_limits g) FIRST_USER_RECORD_ID genesis_ids"
    unfolding records_at_def using bindings identity small catalogue initial_values_plain by auto
  have "user_records ?c genesis_ids = Map.empty"
    by (auto simp: user_records_def genesis_ids_def fun_eq_iff)
  then show ?thesis
    by (intro database_atI [OF at]) (simp_all add: empty_database_def)
qed

section \<open>Operations on a branch\<close>

text \<open>\<open>branch_db s bid d\<close>: the branch is live and open, and the cells it sees are those of the database \<open>d\<close>.\<close>

definition open_branch :: "system \<Rightarrow> branch_id \<Rightarrow> branch_state \<Rightarrow> bool" where
  "open_branch s bid st \<longleftrightarrow> om_get (bm_branches (sys_m s)) bid = Some st \<and> br_commit_id st = v_id (latest s) \<and> br_sealed st = None"

definition branch_db :: "system \<Rightarrow> branch_id \<Rightarrow> database \<Rightarrow> bool" where
  "branch_db s bid d \<longleftrightarrow> (\<exists>st. open_branch s bid st \<and> database_at (visible (v_cells (latest s)) (ov_entries (br_overlay st))) d)"

lemma om_put_same: "om_ok m \<Longrightarrow> om_get m k = Some v \<Longrightarrow> om_put k v m = m"
  by (intro om_eqI) auto

lemma latest_rows:
  assumes "sys_inv R H rset s"
  shows "mem_ok (snapshot (sys_m s))" "cell_rows (v_cells (latest s)) (mem_view (snapshot (sys_m s)) CELL)"
  using assms by (simp_all add: sys_inv_def version_at_def committed_at_def cells_at_def)

lemma branches_write_law:
  fixes p :: "('io, 'e, 'a) cell_program"
  assumes "sys_inv R H rset s" "open_branch s bid st"
  shows "branches_write (sys_m s) bid p = (case overlay_write mem_read_ops (snapshot (sys_m s)) p (br_overlay st) of
    (result, ov) \<Rightarrow> (lift_callback result,
      (sys_m s)\<lparr>bm_branches := om_put bid (st\<lparr>br_overlay := ov\<rparr>) (bm_branches (sys_m s))\<rparr>))"
  using assms(2)
  by (simp add: open_branch_def branches_write_def with_branch_def with_slot_cases [OF assms(1)] require_open_simps case_prod_unfold Let_def)

lemma branches_write_spec:
  fixes p :: "('io, 'e, 'a) cell_program"
  assumes "sys_inv R H rset s" "open_branch s bid st" "spec_program p (visible (v_cells (latest s)) (ov_entries (br_overlay st))) = (result, c')"
  shows "case result of
      Returned (Inr a) \<Rightarrow> \<exists>ov. branches_write (sys_m s) bid p = (Returned (Inr a),
        (sys_m s)\<lparr>bm_branches := om_put bid (st\<lparr>br_overlay := ov\<rparr>) (bm_branches (sys_m s))\<rparr>) \<and> visible (v_cells (latest s)) (ov_entries ov) = c'
    | Returned (Inl e) \<Rightarrow> branches_write (sys_m s) bid p = (Returned (Inl (OperationFailure e)), sys_m s)
    | Panicked \<Rightarrow> branches_write (sys_m s) bid p = (Panicked, sys_m s)"
proof -
  have st: "om_get (bm_branches (sys_m s)) bid = Some st"
    using assms(2) by (simp add: open_branch_def)
  then have "om_put bid st (bm_branches (sys_m s)) = bm_branches (sys_m s)"
    using assms(1) by (intro om_put_same) (simp_all add: sys_inv_def)
  then have same: "(sys_m s)\<lparr>bm_branches := om_put bid (st\<lparr>br_overlay := br_overlay st\<rparr>) (bm_branches (sys_m s))\<rparr> = sys_m s"
    by simp
  have "overlay_ok (br_overlay st)"
    using sys_inv_branch(2) [OF assms(1) st] by (simp add: branch_ok_def)
  note law = overlay_write_law [OF latest_rows [OF assms(1)] this, of p, unfolded assms(3)]
  obtain r ov where w: "overlay_write mem_read_ops (snapshot (sys_m s)) p (br_overlay st) = (r, ov)"
    by (cases "overlay_write mem_read_ops (snapshot (sys_m s)) p (br_overlay st)")
  show ?thesis
    using law same by (auto simp: branches_write_law [OF assms(1,2)] w lift_callback_def split: callback_result.splits sum.splits)
qed

text \<open>What an operation on the branch has to give for an outcome of the abstract database: on an error nothing
  changes, otherwise the branch holds the next database, and the store and the other branches are as before.\<close>

definition reflects ::
  "system \<Rightarrow> branch_id \<Rightarrow> 'a \<Rightarrow> 'io record_error + database \<Rightarrow> ('io record_error, 'a) callback_result \<times> branches \<Rightarrow> bool" where
  "reflects s bid a outcome r \<longleftrightarrow> (case outcome of
     Inl e \<Rightarrow> r = (Returned (Inl e), sys_m s)
   | Inr d' \<Rightarrow> fst r = Returned (Inr a) \<and> branch_db (s\<lparr>sys_m := snd r\<rparr>) bid d' \<and> bm_store (snd r) = bm_store (sys_m s) \<and>
       (\<forall>b. b \<noteq> bid \<longrightarrow> om_get (bm_branches (snd r)) b = om_get (bm_branches (sys_m s)) b))"

definition guarded :: "record_key \<Rightarrow> (database \<Rightarrow> 'io record_error + database) \<Rightarrow> database \<Rightarrow> 'io record_error + database" where
  "guarded key f d = (if reserved_key key then Inl RecordReserved else f d)"

lemma records_write_law:
  fixes p :: "('io, 'io record_error, 'a) cell_program"
  assumes "sys_inv R H rset s" "branch_db s bid d" "\<not> reserved_key key \<Longrightarrow> simulates p a f"
  shows "reflects s bid a (guarded key f d) (records_write (sys_m s) bid key p)"
proof (cases "reserved_key key")
  case True
  then show ?thesis
    by (auto simp: reflects_def guarded_def records_write_def reject_reserved_def)
next
  case False
  obtain st where st: "open_branch s bid st" "database_at (visible (v_cells (latest s)) (ov_entries (br_overlay st))) d"
    using assms(2) by (auto simp: branch_db_def)
  have calls: "records_write (sys_m s) bid key p = from_operation (branches_write (sys_m s) bid p)"
    using False by (simp add: records_write_def reject_reserved_def)
  show ?thesis
  proof (cases "f d")
    case (Inl e)
    then have "spec_program p (visible (v_cells (latest s)) (ov_entries (br_overlay st))) =
        (Returned (Inl e), visible (v_cells (latest s)) (ov_entries (br_overlay st)))"
      using assms(3) [OF False] st(2) unfolding simulates_def by fastforce
    from branches_write_spec [OF assms(1) st(1) this] show ?thesis
      using False Inl by (simp add: reflects_def guarded_def calls from_operation_def from_operation_error_def)
  next
    case (Inr d')
    then obtain c' where c': "spec_program p (visible (v_cells (latest s)) (ov_entries (br_overlay st))) = (Returned (Inr a), c')" "database_at c' d'"
      using assms(3) [OF False] st(2) unfolding simulates_def by fastforce
    from branches_write_spec [OF assms(1) st(1) c'(1)] show ?thesis
      using False Inr c'(2) st(1)
      by (auto simp: reflects_def guarded_def calls from_operation_def branch_db_def open_branch_def)
  qed
qed

section \<open>Record operations are steps of the branch system\<close>

text \<open>The calls of a program without what it returns.\<close>

primrec forget :: "('io, 'e, 'a) cell_program \<Rightarrow> ('io, 'io branch_error, unit) cell_program" where
  "forget (Finish r) = Finish (case r of Inl _ \<Rightarrow> Inl HandleInvalid | Inr _ \<Rightarrow> Inr ())"
| "forget Unwind = Unwind"
| "forget (GetCell k f) = GetCell k (\<lambda>r. forget (f r))"
| "forget (ScanCells p f) = ScanCells p (\<lambda>r. forget (f r))"
| "forget (PutCell k v p) = PutCell k v (forget p)"
| "forget (DeleteCell k p) = DeleteCell k (forget p)"

definition succeeded :: "('e, 'a) callback_result \<Rightarrow> bool" where
  "succeeded r \<longleftrightarrow> (\<exists>a. r = Returned (Inr a))"

lemma forget_run:
  "snd (run_program ops tx (forget p) ov) = snd (run_program ops tx p ov) \<and>
   succeeded (fst (run_program ops tx (forget p) ov)) = succeeded (fst (run_program ops tx p ov))"
  by (induction p arbitrary: ov) (auto simp: succeeded_def split: sum.splits)

lemma overlay_write_snd:
  "snd (overlay_write ops tx p ov) = (if succeeded (fst (run_program ops tx p ov)) then snd (run_program ops tx p ov)
    else overlay_rewind (snd (run_program ops tx p ov)) (journal_mark (ov_journal ov)))"
  by (cases "run_program ops tx p ov") (auto simp: overlay_write_def succeeded_def Let_def split: callback_result.split sum.split)

lemma forget_ok: "program_ok (forget p) = program_ok p"
  by (induction p) auto

lemma open_not_pending:
  assumes "sys_inv R H rset s" "open_branch s bid st"
  shows "sys_pending s bid = None"
proof (rule ccontr)
  assume "sys_pending s bid \<noteq> None"
  then obtain sd where "sys_pending s bid = Some sd"
    by blast
  from sys_inv_pending [OF assms(1) this] obtain st' where "om_get (bm_branches (sys_m s)) bid = Some st'" "br_sealed st' = Some sd"
    by blast
  then show False
    using assms(2) by (simp add: open_branch_def)
qed

lemma records_step:
  fixes R :: "('b, 't, 'io) roaring" and p :: "('io, 'io record_error, 'a) cell_program"
  assumes "sys_inv R H rset s" "open_branch s bid st" "program_ok p" "runs R H s0 s"
  shows "runs R H s0 (s\<lparr>sys_m := snd (records_write (sys_m s) bid key p)\<rparr>)"
proof (cases "reserved_key key")
  case True
  then show ?thesis
    using assms(4) by (auto simp: records_write_def reject_reserved_def)
next
  case False
  have "snd (overlay_write mem_read_ops tx (forget p) ov) = snd (overlay_write mem_read_ops tx p ov)" for tx ov
    using forget_run [of mem_read_ops tx p ov] by (simp add: overlay_write_snd)
  then have "snd (branches_write (sys_m s) bid (forget p)) = snd (branches_write (sys_m s) bid p)"
    by (simp add: branches_write_law [OF assms(1,2)] case_prod_unfold)
  then have same: "snd (records_write (sys_m s) bid key p) = snd (branches_write (sys_m s) bid (forget p))"
    using False by (simp add: records_write_def reject_reserved_def from_operation_def)
  have "sys_pending s bid = None"
    by (rule open_not_pending [OF assms(1,2)])
  then have "branch_step R H s (s\<lparr>sys_m := snd (branches_write (sys_m s) bid (forget p))\<rparr>)"
    by (rule step_write [where oper = "forget p" and r = "fst (branches_write (sys_m s) bid (forget p))"]) (simp_all add: forget_ok assms(3))
  then show ?thesis
    using assms(4) unfolding same runs_def by (rule rtranclp.rtrancl_into_rtrancl [rotated])
qed

lemma finish_ok: "program_ok (Finish r)" "program_ok (read_cell k)" "program_ok (scan_cells p)" "program_ok (erase_cell k)"
  "cv_ok v \<Longrightarrow> program_ok (write_cell k v)"
  by (auto simp: read_cell_def scan_cells_def erase_cell_def write_cell_def split: option.split)

lemma pfor_ok: "(\<And>x. x \<in> set xs \<Longrightarrow> program_ok (f x)) \<Longrightarrow> program_ok (pfor f xs)"
  by (induction xs) (auto intro!: pbind_ok)

lemma state_programs_ok: "program_ok (resolve key)" "program_ok read_limits" "program_ok next_id"
  by (auto simp: resolve_def read_limits_def read_param_def next_id_def simp del: pbind.simps intro!: pbind_ok finish_ok split: option.split)

lemma create_ok: "rkey_ok key \<Longrightarrow> (\<And>x. x \<in> set xs \<Longrightarrow> cv_ok (snd x)) \<Longrightarrow> program_ok (create_program key xs)"
  by (auto simp: create_program_def simp del: pbind.simps intro!: pbind_ok pfor_ok finish_ok state_programs_ok split: prod.split)

lemma patch_cell_ok: "(\<And>v. ch = PatchSet v \<Longrightarrow> cv_ok v) \<Longrightarrow> program_ok (patch_cell k ch)"
  by (auto simp: patch_cell_def simp del: pbind.simps intro!: pbind_ok finish_ok split: cell_patch.split)

lemma patch_ok: "(\<And>x v. x \<in> set xs \<Longrightarrow> snd x = PatchSet v \<Longrightarrow> cv_ok v) \<Longrightarrow> program_ok (patch_program key xs)"
  unfolding patch_program_def case_prod_unfold
  by (intro pbind_ok pfor_ok finish_ok state_programs_ok patch_cell_ok) blast

lemma delete_ok: "program_ok (delete_program key)"
  by (auto simp: delete_program_def simp del: pbind.simps intro!: pbind_ok pfor_ok finish_ok state_programs_ok)

lemma branch_db_open:
  assumes "branch_db s bid d"
  obtains st where "open_branch s bid st"
  using assms by (auto simp: branch_db_def)

section \<open>A branch that stages genesis\<close>

definition demo_genesis :: genesis where
  "demo_genesis = \<lparr>hash_function = Blake3, genesis_limits = \<lparr>max_cell_name_len = 32, max_str_len = 64, max_bytes_len = 64\<rparr>\<rparr>"

definition demo_record_key :: record_key where
  "demo_record_key = RecordKey (7 # replicate 31 7)"

definition genesis_program :: "('io, 'io branch_error, unit) cell_program" where
  "genesis_program = pfor (\<lambda>x. write_cell (fst x) (snd x)) (initial_cells demo_genesis)"

lemma initial_cells_ok: "om_ok (initial_cells g)"
proof -
  have "om_ok (foldl record_cells_of m rs)" if "om_ok m" for m rs
    using that by (induction rs arbitrary: m) (auto simp: record_cells_of_def)
  then show ?thesis
    by (auto simp: initial_cells_def Let_def)
qed

lemma initial_values_ok: "x \<in> set (initial_cells g) \<Longrightarrow> cv_ok (snd x)"
proof -
  have fold: "cv_ok v" if "om_get (foldl record_cells_of m rs) k = Some v" "\<And>k v. om_get m k = Some v \<Longrightarrow> cv_ok v" "set rs \<subseteq> set system_all" for m rs k v
    using that
  proof (induction rs arbitrary: m)
    case (Cons r rs)
    have "length (sys_key r) = 32"
      using Cons.prems(3) system_all_keys(3) by simp
    then have "cv_ok v'" if "om_get (record_cells_of m r) k' = Some v'" for k' v'
      using that Cons.prems(2) [of k' v'] by (auto simp: record_cells_of_get split: if_splits)
    then show ?case
      using Cons.IH [of "record_cells_of m r"] Cons.prems by simp
  qed simp
  assume "x \<in> set (initial_cells g)"
  then have "om_get (initial_cells g) (fst x) = Some (snd x)"
    by (simp add: om_get_iff [OF initial_cells_ok])
  then show "cv_ok (snd x)"
    using fold [of "[]" system_all "fst x" "snd x"] by (cases x) (auto simp: initial_cells_map split: if_splits)
qed

lemma put_all_genesis: "put_all (map (\<lambda>x. (fst x, Some (snd x))) (initial_cells g)) Map.empty = om_get (initial_cells g)"
proof -
  have "put_all (map (\<lambda>x. (fst x, Some (snd x))) xs) c = (\<lambda>k. case om_get xs k of Some v \<Rightarrow> Some v | None \<Rightarrow> c k)" if "distinct (map fst xs)"
    for xs :: "(cell_key, cell_value) omap" and c
    using that
  proof (induction xs arbitrary: c)
    case (Cons x xs)
    have "om_get xs (fst x) = None"
      using Cons.prems by (simp add: map_of_eq_None_iff)
    then show ?case
      using Cons by (cases x) (auto simp: put_all_Cons fun_eq_iff split: option.split)
  qed (simp add: put_all_def)
  from this [OF om_ok_distinct [OF initial_cells_ok]] show ?thesis
    by (auto simp: fun_eq_iff split: option.split)
qed

lemma demo_open: "open_branch demo_system2 (BranchId 0) demo_branch"
  by (simp add: open_branch_def demo_slot demo_latest) (simp add: demo_branch_def)

lemma staged_keys:
  "overlay_ok ov \<Longrightarrow> fst ` set (ov_entries (snd (run_program ops tx (pfor (\<lambda>x. write_cell (fst x) (snd x)) xs :: ('io, 'e, unit) cell_program) ov))) \<subseteq>
    fst ` set (ov_entries ov) \<union> fst ` set xs"
proof (induction xs arbitrary: ov)
  case (Cons x xs)
  have "dom (om_get (ov_entries (overlay_put ov (fst x) (snd x)))) = insert (fst x) (dom (om_get (ov_entries ov)))"
    using overlay_set_ok(2) [OF Cons.prems, of "fst x" "Some (snd x)"] by (simp add: overlay_put_def)
  then have keys: "fst ` set (ov_entries (overlay_put ov (fst x) (snd x))) = insert (fst x) (fst ` set (ov_entries ov))"
    by (simp add: dom_map_of_conv_image_fst)
  have "overlay_ok (overlay_put ov (fst x) (snd x))"
    using overlay_set_ok(1) [OF Cons.prems] by (simp add: overlay_put_def)
  from Cons.IH [OF this] show ?case
    unfolding keys by (auto simp: write_cell_def)
qed simp

lemma demo_genesis_branch:
  obtains s st where "runs list_roaring demo_hash demo_system0 s" "branch_db s (BranchId 0) (empty_database (genesis_limits demo_genesis))"
    "snapshot (sys_m s) = demo_store" "latest s = demo_version" "om_get (bm_branches (sys_m s)) (BranchId 0) = Some st"
    "fst ` set (ov_entries (br_overlay st)) \<subseteq> fst ` set (initial_cells demo_genesis)"
    "visible Map.empty (ov_entries (br_overlay st)) = om_get (initial_cells demo_genesis)"
proof -
  let ?p = "genesis_program :: (unit, _, _) cell_program"
  have inv: "sys_inv list_roaring demo_hash set demo_system2"
    by (rule demo_inv [OF demo_run])
  have empty: "v_cells demo_version = Map.empty" "br_overlay demo_branch = overlay_new" "visible Map.empty (ov_entries overlay_new) = Map.empty"
    by (simp_all add: demo_version_def demo_branch_def visible_def overlay_new_def fun_eq_iff)
  have spec: "spec_program ?p Map.empty = (Returned (Inr ()), om_get (initial_cells demo_genesis))"
    unfolding genesis_program_def put_all_genesis [symmetric] by (rule spec_pfor_update) simp
  have rows: "cell_rows Map.empty (mem_view demo_store CELL)"
    using latest_rows(2) [OF inv] by (simp add: demo_snapshot demo_latest empty)
  note law = overlay_write_law [OF demo_store_ok rows overlay_new_ok(1), of ?p, unfolded empty(3) spec]
  obtain ov where w: "overlay_write mem_read_ops demo_store ?p overlay_new = (Returned (Inr ()), ov)" "visible Map.empty (ov_entries ov) = om_get (initial_cells demo_genesis)"
    using law by (cases "overlay_write mem_read_ops demo_store ?p overlay_new") auto
  then have ov: "snd (overlay_write mem_read_ops demo_store ?p overlay_new) = ov"
    by simp
  let ?m = "demo_begun\<lparr>bm_branches := om_put (BranchId 0) (demo_branch\<lparr>br_overlay := ov\<rparr>) (bm_branches demo_begun)\<rparr>"
  have "succeeded (fst (run_program mem_read_ops demo_store ?p overlay_new))"
    using w(1) by (cases "run_program mem_read_ops demo_store ?p overlay_new")
      (auto simp: overlay_write_def succeeded_def Let_def split: callback_result.splits sum.splits)
  then have keys: "fst ` set (ov_entries ov) \<subseteq> fst ` set (initial_cells demo_genesis)"
    using staged_keys [OF overlay_new_ok(1), of mem_read_ops demo_store "initial_cells demo_genesis", where ?'io = unit and ?'e = "unit branch_error"]
    unfolding ov [symmetric] by (simp add: overlay_write_snd genesis_program_def) (simp add: overlay_new_def)
  have written: "branches_write demo_begun (BranchId 0) ?p = (Returned (Inr ()), ?m)"
    using branches_write_law [OF inv demo_open, of ?p] by (simp add: demo_snapshot empty w(1) lift_callback_def)
  have ok: "program_ok ?p"
    unfolding genesis_program_def by (intro pfor_ok finish_ok initial_values_ok)
  have "branch_step list_roaring demo_hash demo_system2 (demo_system2\<lparr>sys_m := ?m\<rparr>)"
    by (rule step_write [OF _ ok, of _ "BranchId 0"]) (use written in \<open>auto simp: system_new_def\<close>)
  then have run: "runs list_roaring demo_hash demo_system0 (demo_system2\<lparr>sys_m := ?m\<rparr>)"
    using demo_run unfolding runs_def by (rule rtranclp.rtrancl_into_rtrancl [rotated])
  have slot: "om_get (bm_branches (sys_m (demo_system2\<lparr>sys_m := ?m\<rparr>))) (BranchId 0) = Some (demo_branch\<lparr>br_overlay := ov\<rparr>)"
    by simp
  have db: "branch_db (demo_system2\<lparr>sys_m := ?m\<rparr>) (BranchId 0) (empty_database (genesis_limits demo_genesis))"
    unfolding branch_db_def open_branch_def
    by (rule exI [of _ "demo_branch\<lparr>br_overlay := ov\<rparr>"])
      (use genesis_database [of demo_genesis] demo_open in \<open>simp add: demo_latest w(2) open_branch_def empty\<close>)
  have tx: "snapshot (sys_m (demo_system2\<lparr>sys_m := ?m\<rparr>)) = demo_store" "latest (demo_system2\<lparr>sys_m := ?m\<rparr>) = demo_version"
    using demo_snapshot by (simp_all add: snapshot_def demo_latest)
  have overlay: "br_overlay (demo_branch\<lparr>br_overlay := ov\<rparr>) = ov"
    by simp
  show thesis
    by (rule that [OF run db tx slot]) (simp_all only: overlay keys w(2))
qed

lemma demo_cell_valid: "validate_cell (genesis_limits demo_genesis) (ascii ''a'') (Some (from_u32 7)) = Inr ()"
proof -
  have "limits_parse_user_name (genesis_limits demo_genesis) (ascii ''a'') = Inr (ascii ''a'')"
    by (simp add: limits_parse_user_name_def parse_user_Inr demo_genesis_def ascii_def user_name_def name_body_def is_ascii_alphabetic_def)
  then show ?thesis
    by (simp add: validate_cell_def validate_value_def from_u32_def)
qed

lemma demo_key_free: "rkey_ok demo_record_key" "\<not> reserved_key demo_record_key"
  by (simp_all add: demo_record_key_def by_key_def system_all_def PARAMS_def ALLOC_def ROOTS_def RECORD_KEYS_def ROOT_INDEX_def
    METERING_MODEL_def MODEL_WEIGHT_def system_record_def ascii_def)

end
