(* ===== verification/Record_Reads.thy ===== *)
theory Record_Reads
  imports Record_Runs
begin

text \<open>
  Reads of records: over a branch and over a committed snapshot they return the cells of the abstract record,
  projected. A commit carries the database of its branch to the store.
\<close>

section \<open>Collecting cells\<close>

definition project :: "bytes list option \<Rightarrow> user_record \<Rightarrow> user_record" where
  "project proj r = (case proj of None \<Rightarrow> r | Some names \<Rightarrow> r |` set names)"

definition cells_are :: "record_cells \<Rightarrow> user_record \<Rightarrow> bool" where
  "cells_are xs r \<longleftrightarrow> om_ok xs \<and> om_get xs = r"

text \<open>The two loops: over the names of a projection, and over the rows of a record.\<close>

abbreviation add_named :: "(bytes \<rightharpoonup> cell_value) \<Rightarrow> bytes \<Rightarrow> record_cells \<Rightarrow> record_cells" where
  "add_named r name values \<equiv> (case r name of Some v \<Rightarrow> om_put name v values | None \<Rightarrow> values)"

lemma collect_names:
  assumes "om_ok acc"
  shows "om_ok (fold (add_named r) names acc)" "om_get (fold (add_named r) names acc) = om_get acc ++ (r |` set names)"
proof -
  show "om_ok (fold (add_named r) names acc)"
    using assms by (induction names arbitrary: acc) (auto split: option.split)
  show "om_get (fold (add_named r) names acc) = om_get acc ++ (r |` set names)"
  proof (induction names arbitrary: acc)
    case (Cons name names)
    then show ?case
      by (auto simp: fun_eq_iff map_add_def restrict_map_def split: option.split)
  qed simp
qed

abbreviation add_row :: "(cell_key \<times> cell_value) \<Rightarrow> record_cells \<Rightarrow> record_cells" where
  "add_row row values \<equiv> om_put (key_name (fst row)) (snd row) values"

lemma collect_rows:
  assumes "set rows = {(k, v). c k = Some v \<and> record_id k = rid}"
  shows "cells_are (fold add_row rows []) (record_at c rid)"
proof -
  have ok: "om_ok (fold add_row rows acc)" if "om_ok acc" for acc rows
    using that by (induction rows arbitrary: acc) auto
  have sub: "om_get (fold add_row rows acc) n = (if \<exists>row \<in> set rows. key_name (fst row) = n then c (CellKey rid n) else om_get acc n)"
    if "\<And>k v. (k, v) \<in> set rows \<Longrightarrow> c k = Some v \<and> record_id k = rid" for acc n rows
    using that
  proof (induction rows arbitrary: acc)
    case (Cons row rows)
    have "c (fst row) = Some (snd row) \<and> record_id (fst row) = rid"
      by (rule Cons.prems) simp
    then have "c (CellKey rid (key_name (fst row))) = Some (snd row)"
      by (cases "fst row") simp
    moreover have "om_get (fold add_row rows (add_row row acc)) n =
        (if \<exists>row \<in> set rows. key_name (fst row) = n then c (CellKey rid n) else om_get (add_row row acc) n)"
      by (rule Cons.IH) (meson Cons.prems list.set_intros(2))
    ultimately show ?case
      by auto
  qed simp
  have "om_get (fold add_row rows []) n = c (CellKey rid n)" for n
  proof (cases "c (CellKey rid n)")
    case None
    then show ?thesis
      using sub [of rows "[]" n] assms by auto
  next
    case (Some v)
    then have "(CellKey rid n, v) \<in> set rows"
      using assms by simp
    then have "\<exists>row \<in> set rows. key_name (fst row) = n"
      by (intro bexI [of _ "(CellKey rid n, v)"]) simp_all
    then show ?thesis
      using sub [of rows "[]" n] assms by auto
  qed
  then show ?thesis
    using ok [of "[]"] by (simp add: cells_are_def record_at_def fun_eq_iff)
qed

lemma try_fold_pure: "try_fold (\<lambda>x acc. Inr (f x acc)) xs acc = Inr (fold f xs acc)"
  by (induction xs arbitrary: acc) simp_all

section \<open>Reading a branch\<close>

lemma spec_read_names:
  "spec_program (foldr (\<lambda>name rest values. pbind (read_cell (CellKey rid name)) (\<lambda>value.
      rest (case value of Some v \<Rightarrow> om_put name v values | None \<Rightarrow> values))) names (\<lambda>values. Finish (Inr values)) acc) c =
    (Returned (Inr (fold (add_named (record_at c rid)) names acc)), c)"
  by (induction names arbitrary: acc) (simp_all add: spec_pbind record_at_def)

lemma read_branch_law:
  fixes c :: "cell_key \<rightharpoonup> cell_value"
  assumes "records_at c l n ids" "rkey_ok key"
  shows "case ids key of
      None \<Rightarrow> spec_program (read_branch_record key proj :: ('io, _, _) cell_program) c = (Returned (Inl RecordNotFound), c)
    | Some rid \<Rightarrow> \<exists>xs. spec_program (read_branch_record key proj :: ('io, _, _) cell_program) c =
        (Returned (Inr \<lparr>rec_key = key, rec_cells = xs\<rparr>), c) \<and> cells_are xs (project proj (record_at c rid))"
proof (cases "ids key")
  case None
  then show ?thesis
    by (simp add: read_branch_record_def spec_pbind resolve_law [OF assms] ok_or_def)
next
  case (Some rid)
  show ?thesis
  proof (cases proj)
    case None
    have items: "try_fold (\<lambda>item values. attempt (map_err RecordBranch item) (\<lambda>(address, v). Inr (om_put (key_name address) v values)))
        (map Inr rows) acc = Inr (fold add_row rows acc)" for rows acc
      by (induction rows arbitrary: acc) (simp_all add: case_prod_unfold)
    have "finite (dom c)"
      using assms(1) by (simp add: records_at_def)
    then have "cells_are (fold add_row (cells_under (to_be rid) c) []) (record_at c rid)"
      by (intro collect_rows cells_under_record)
    then show ?thesis
      by (simp add: read_branch_record_def spec_pbind resolve_law [OF assms] ok_or_def Some None items project_def)
  next
    case names: (Some names)
    then show ?thesis
      using collect_names [of "[]" "record_at c rid" names]
      by (simp add: read_branch_record_def spec_pbind resolve_law [OF assms] ok_or_def Some spec_read_names project_def cells_are_def)
  qed
qed

section \<open>Reading a snapshot\<close>

lemma map_entries: "(\<And>e. e \<in> set es \<Longrightarrow> \<exists>x. e = f x \<and> P x) \<Longrightarrow> \<exists>xs. es = map f xs \<and> (\<forall>x \<in> set xs. P x)"
proof (induction es)
  case (Cons e es)
  then obtain x xs where "e = f x" "P x" "es = map f xs" "\<forall>x \<in> set xs. P x"
    by (metis list.set_intros(1,2))
  then show ?case
    by (intro exI [of _ "x # xs"]) simp
qed simp

lemma cell_entry_inj: "cell_entry a = cell_entry b \<Longrightarrow> cv_ok (snd a) \<Longrightarrow> cv_ok (snd b) \<Longrightarrow> a = b"
  using decode_cell_entry [of a] decode_cell_entry [of b] by (metis sum.inject(2))

lemma cell_scan_collect_rows:
  "scan_collect ops s = Some (Inr (map cell_entry cs)) \<Longrightarrow> \<forall>c \<in> set cs. cv_ok (snd c) \<Longrightarrow>
    cell_scan_collect ops \<lparr>cs_scan = s, cs_done = False\<rparr> = Some (Inr cs)"
proof (induction cs arbitrary: s)
  case Nil
  then show ?case
    using scan_collect_Nil [of ops s]
    by (cases "scan_next ops s") (subst cell_scan_collect.simps, simp add: cell_scan_next_def)
next
  case (Cons c cs)
  then obtain s' where s': "scan_next ops s = (Some (Inr (cell_entry c)), s')" "scan_collect ops s' = Some (Inr (map cell_entry cs))"
    using scan_collect_Cons [of ops s] by auto
  have "cell_scan_next ops \<lparr>cs_scan = s, cs_done = False\<rparr> = (Some (Inr c), \<lparr>cs_scan = s', cs_done = False\<rparr>)"
    using Cons.prems(2) by (simp add: cell_scan_next_def s'(1) cell_entry_def cv_ok_def)
  then show ?case
    using Cons.IH [OF s'(2)] Cons.prems(2) by (subst cell_scan_collect.simps) simp
qed

context read_tx
begin

lemma cell_row_iff:
  assumes "tx_ok tx" "cell_rows c (view tx CELL)"
  shows "e \<in> set (view tx CELL) \<longleftrightarrow> (\<exists>k v. e = cell_entry (k, v) \<and> c k = Some v)"
proof -
  have "e \<in> set (view tx CELL) \<longleftrightarrow> om_get (view tx CELL) (fst e) = Some (snd e)"
    using om_get_iff [OF view_ok [OF assms(1)], of CELL "fst e" "snd e"] by simp
  also have "\<dots> \<longleftrightarrow> (\<exists>k v. key_decode (fst e) = Inr k \<and> c k = Some v \<and> snd e = cv_bytes v)"
    using assms(2) by (auto simp: cell_rows_def split: sum.split)
  finally show ?thesis
    by (simp add: key_decode_iff cell_entry_def prod_eq_iff conj_commute conj_left_commute)
qed

lemma scan_record_law:
  assumes "tx_ok tx" "cell_rows c (view tx CELL)"
  obtains s rows where "scan_record ops tx rid = Inr s" "cell_scan_collect ops s = Some (Inr rows)"
    "set rows = {(k, v). c k = Some v \<and> record_id k = rid}"
proof -
  let ?raw = "filter (\<lambda>e. prefix (to_be rid) (fst e)) (view tx CELL)"
  have ok: "cv_ok v" if "c k = Some v" for k v
    using assms(2) that by (auto simp: cell_rows_def ran_def)
  have raw: "e \<in> set ?raw \<longleftrightarrow> (\<exists>k v. e = cell_entry (k, v) \<and> c k = Some v \<and> record_id k = rid)" for e
    unfolding set_filter mem_Collect_eq cell_row_iff [OF assms]
    by (auto simp: cell_entry_def prefix_record)
  have "\<exists>c0. e = cell_entry c0 \<and> c (fst c0) = Some (snd c0)" if "e \<in> set ?raw" for e
    using that unfolding raw by force
  from map_entries [of ?raw cell_entry, OF this] obtain cs where cs: "?raw = map cell_entry cs" "\<forall>c0 \<in> set cs. c (fst c0) = Some (snd c0)"
    by blast
  have member: "(k, v) \<in> set cs \<longleftrightarrow> cell_entry (k, v) \<in> set ?raw" if "cv_ok v" for k v
    unfolding cs(1) using cell_entry_inj [of "(k, v)"] ok cs(2) that by auto
  have "(k, v) \<in> set cs \<longleftrightarrow> c k = Some v \<and> record_id k = rid" for k v
  proof (cases "cv_ok v")
    case True
    then show ?thesis
      unfolding member [OF True] raw using cell_entry_inj [of "(k, v)"] ok by auto
  qed (use ok cs(2) in auto)
  then have rows: "set cs = {(k, v). c k = Some v \<and> record_id k = rid}"
    by auto
  obtain s where s: "scan_prefix ops tx CELL (to_be rid) = Inr s" "scan_collect ops s = Some (Inr (map cell_entry cs))"
    using scan_prefix_rows [OF assms(1), of CELL "to_be rid"] unfolding cs(1) by auto
  show thesis
  proof (rule that)
    show "scan_record ops tx rid = Inr \<lparr>cs_scan = s, cs_done = False\<rparr>"
      by (simp add: scan_record_def s(1))
    show "cell_scan_collect ops \<lparr>cs_scan = s, cs_done = False\<rparr> = Some (Inr cs)"
      using cs(2) ok by (intro cell_scan_collect_rows [OF s(2)]) blast
  qed (rule rows)
qed

lemma read_cells_law:
  assumes "tx_ok tx" "cell_rows c (view tx CELL)"
  shows "\<exists>xs. read_cells ops tx rid proj = Some (Inr xs :: 'io record_error + _) \<and> cells_are xs (project proj (record_at c rid))"
proof (cases proj)
  case None
  obtain s rows where s: "scan_record ops tx rid = Inr s" "cell_scan_collect ops s = Some (Inr rows)"
      "set rows = {(k, v). c k = Some v \<and> record_id k = rid}"
    by (rule scan_record_law [OF assms])
  have "read_cells ops tx rid None = Some (Inr (fold add_row rows []) :: 'io record_error + _)"
    by (simp add: read_cells_def s(1,2) foldl_conv_fold case_prod_unfold)
  then show ?thesis
    using collect_rows [OF s(3)] None by (simp add: project_def)
next
  case (Some names)
  have "read_cells ops tx rid (Some names) = Some (Inr (fold (add_named (record_at c rid)) names []) :: 'io record_error + _)"
    by (simp add: read_cells_def cells_get_def read_value_law [OF assms] try_fold_pure record_at_def)
  then show ?thesis
    using collect_names [of "[]" "record_at c rid" names] Some by (simp add: project_def cells_are_def)
qed

lemma read_by_key_law:
  assumes "tx_ok tx" "cell_rows c (view tx CELL)" "records_at c l n ids" "rkey_ok key"
  shows "case ids key of
      None \<Rightarrow> read_committed_by_key ops tx key proj = Some (Inl RecordNotFound :: 'io record_error + _)
    | Some rid \<Rightarrow> \<exists>xs. read_committed_by_key ops tx key proj = Some (Inr \<lparr>rec_key = key, rec_cells = xs\<rparr> :: 'io record_error + _) \<and>
        cells_are xs (project proj (record_at c rid))"
proof (cases "ids key")
  case None
  have "bound_id key (c (binding key)) = (Inr None :: 'io record_error + _)"
    by (rule unbound_law [OF assms(3,4) None])
  then show ?thesis
    by (simp add: None read_committed_by_key_def cells_get_def read_value_law [OF assms(1,2)] ok_or_def)
next
  case (Some rid)
  note bound = records_bound [OF assms(3) Some]
  have "c (binding key) = Some (from_u64 rid)"
    using assms(3,4) Some by (simp add: records_at_def)
  moreover have "identity_key (from_bytes32 (key_bytes key)) = Some key"
    using bound(1) by (cases key) simp
  moreover obtain xs where "read_cells ops tx rid proj = Some (Inr xs :: 'io record_error + _)" "cells_are xs (project proj (record_at c rid))"
    using read_cells_law [OF assms(1,2)] by blast
  ultimately show ?thesis
    by (simp add: Some read_committed_by_key_def cells_get_def read_value_law [OF assms(1,2)] bound(2) check_identity_def ok_or_def
        bound_id_law [OF assms(3) Some])
qed

lemma read_by_id_law:
  assumes "tx_ok tx" "cell_rows c (view tx CELL)" "records_at c l n ids" "ids key = Some rid"
  shows "\<exists>xs. read_committed_by_id ops tx rid proj = Some (Inr \<lparr>rec_key = key, rec_cells = xs\<rparr> :: 'io record_error + _) \<and>
    cells_are xs (project proj (record_at c rid))"
proof -
  note bound = records_bound [OF assms(3,4)]
  have "identity_key (from_bytes32 (key_bytes key)) = Some key"
    using bound(1) by (cases key) simp
  moreover obtain xs where "read_cells ops tx rid proj = Some (Inr xs :: 'io record_error + _)" "cells_are xs (project proj (record_at c rid))"
    using read_cells_law [OF assms(1,2)] by blast
  ultimately show ?thesis
    by (simp add: read_committed_by_id_def cells_get_def read_value_law [OF assms(1,2)] bound(2) ok_or_def)
qed

end

section \<open>Reads return the records of the database\<close>

definition found_as :: "record_key \<Rightarrow> bytes list option \<Rightarrow> database \<Rightarrow> 'io record_error + db_record \<Rightarrow> bool" where
  "found_as key proj d r \<longleftrightarrow> (case db_records d key of
     None \<Rightarrow> r = Inl RecordNotFound
   | Some x \<Rightarrow> \<exists>xs. r = Inr \<lparr>rec_key = key, rec_cells = xs\<rparr> \<and> cells_are xs (project proj x))"

lemma found_asI:
  assumes "db_records d = user_records c ids" "\<not> reserved_key key" "ids key = None \<Longrightarrow> r = Inl RecordNotFound"
    "\<And>rid. ids key = Some rid \<Longrightarrow> \<exists>xs. r = Inr \<lparr>rec_key = key, rec_cells = xs\<rparr> \<and> cells_are xs (project proj (record_at c rid))"
  shows "found_as key proj d r"
  using assms by (cases "ids key") (auto simp: found_as_def user_records_def)

lemma branches_read_spec:
  fixes p :: "('io, 'e, 'a) cell_program"
  assumes "sys_inv R H rset s" "open_branch s bid st" "spec_program p (visible (v_cells (latest s)) (ov_entries (br_overlay st))) = (result, c')"
  shows "branches_read (sys_m s) bid p = (lift_callback result, sys_m s)"
proof -
  have st: "om_get (bm_branches (sys_m s)) bid = Some st"
    using assms(2) by (simp add: open_branch_def)
  then have same: "om_put bid st (bm_branches (sys_m s)) = bm_branches (sys_m s)"
    using assms(1) by (intro om_put_same) (simp_all add: sys_inv_def)
  have "overlay_ok (br_overlay st)"
    using sys_inv_branch(2) [OF assms(1) st] by (simp add: branch_ok_def)
  from memr.run_program_law [OF latest_rows [OF assms(1)] this, of p]
  have "fst (run_program mem_read_ops (snapshot (sys_m s)) p (br_overlay st)) = result"
    by (simp add: assms(3) prod_eq_iff)
  then show ?thesis
    using assms(2) same
    by (simp add: open_branch_def branches_read_def with_branch_def with_slot_cases [OF assms(1)] case_prod_unfold Let_def)
qed

lemma get_branch_law:
  assumes "sys_inv R H rset s" "branch_db s bid d" "rkey_ok key" "\<not> reserved_key key"
  shows "\<exists>r. records_get (sys_m s) (TargetBranch bid) key proj = Some (Returned r :: ('io record_error, _) callback_result, sys_m s) \<and>
    found_as key proj d r"
proof -
  obtain st where st: "open_branch s bid st" "database_at (visible (v_cells (latest s)) (ov_entries (br_overlay st))) d" (is "database_at ?c d")
    using assms(2) by (auto simp: branch_db_def)
  then obtain ids where at: "records_at ?c (db_limits d) (db_next d) ids" "db_records d = user_records ?c ids"
    by (auto simp: database_at_def)
  note read = read_branch_law [OF at(1) assms(3), of proj, where ?'io = 'io]
  obtain r where r: "spec_program (read_branch_record key proj :: ('io, _, _) cell_program) ?c = (Returned r, ?c)"
    using read by (auto split: option.splits)
  have "records_get (sys_m s) (TargetBranch bid) key proj = Some (Returned r :: ('io record_error, _) callback_result, sys_m s)"
    by (cases r) (simp_all add: records_get_def branches_read_spec [OF assms(1) st(1) r] from_operation_def lift_callback_def from_operation_error_def)
  moreover have "found_as key proj d r"
    by (rule found_asI [OF at(2) assms(4)]) (use read in \<open>auto simp: r\<close>)
  ultimately show ?thesis
    by blast
qed

section \<open>A commit carries the database\<close>

lemma visible_none: "visible c [] = c"
  by (simp add: visible_def fun_eq_iff)

lemma roots_key_record: "record_id (roots_key h) = sys_id ROOTS" "length (key_name (roots_key h)) = 8"
  by (simp_all add: roots_key_def)

lemma database_at_roots:
  assumes "database_at c d" "\<not> cv_is_indexable x"
  shows "database_at (c(roots_key h \<mapsto> x)) d"
proof -
  obtain ids where at: "records_at c (db_limits d) (db_next d) ids" "db_records d = user_records c ids"
    using assms(1) by (auto simp: database_at_def)
  have other: "roots_key h \<noteq> k" if "record_id k \<noteq> sys_id ROOTS \<or> key_name k = name_KEY" for k
    using that roots_key_record [of h] reserved_name_lengths(1) by auto
  have "records_at (c(roots_key h \<mapsto> x)) (db_limits d) (db_next d) ids"
  proof (rule records_at_change [OF at(1)])
    fix k assume "record_id k = sys_id PARAMS"
    then show "(c(roots_key h \<mapsto> x)) k = c k"
      using other [of k] by (auto simp: system_ids)
  next
    show "(c(roots_key h \<mapsto> x)) allocator_key = Some (from_u64 (db_next d))"
      using at(1) other [of allocator_key] by (auto simp: records_at_def allocator_key_def system_ids)
  next
    fix key assume "rkey_ok key"
    then show "(c(roots_key h \<mapsto> x)) (binding key) = map_option from_u64 (ids key)"
      using at(1) other [of "binding key"] by (auto simp: records_at_def binding_def system_ids)
  next
    fix key rid assume id: "ids key = Some rid"
    show "rkey_ok key \<and> (c(roots_key h \<mapsto> x)) (CellKey rid name_KEY) = Some (from_bytes32 (key_bytes key)) \<and> id_fits (db_next d) key rid"
      using records_bound [OF at(1) id] other [of "CellKey rid name_KEY"] by auto
  next
    fix k assume "FIRST_USER_RECORD_ID \<le> record_id k" "(c(roots_key h \<mapsto> x)) k \<noteq> None"
    then show "record_id k \<in> ran ids"
      using at(1) roots_key_record(1) [of h] unfolding records_at_def by (auto simp: system_ids word_le_nat_alt split: if_splits)
  next
    fix k v assume "(c(roots_key h \<mapsto> x)) k = Some v" "cv_is_indexable v"
    then show "FIRST_USER_RECORD_ID \<le> record_id k"
      using indexed_records [OF at(1), of k v] assms(2) by (auto split: if_splits)
  qed (use at(1) in \<open>auto simp: records_at_def\<close>)
  moreover have "record_at (c(roots_key h \<mapsto> x)) rid = record_at c rid" if "ids key = Some rid" "\<not> reserved_key key" for key rid
  proof -
    have "rid \<noteq> sys_id ROOTS"
      using user_id [OF at(1) that] by (auto simp: system_ids word_le_nat_alt)
    then have "CellKey rid name \<noteq> roots_key h" for name
      using other [of "CellKey rid name"] by auto
    then show ?thesis
      by (simp add: record_at_def)
  qed
  then have "user_records (c(roots_key h \<mapsto> x)) ids = user_records c ids"
    by (intro ext user_records_eq) (auto simp: user_records_def)
  ultimately show ?thesis
    using at(2) by (auto simp: database_at_def)
qed

lemma get_committed_law:
  assumes "\<not> committed_poisoned (bm_store m)" "mem_ok (snapshot m)" "head_at mem_view (snapshot m) h"
    "cell_rows c (mem_view (snapshot m) CELL)" "database_at c d" "rkey_ok key" "\<not> reserved_key key"
    "target = TargetHead \<or> target = TargetCommit (hd_commit_id h)"
  shows "\<exists>r. records_get m target key proj = Some (Returned r :: ('io record_error, _) callback_result, m) \<and> found_as key proj d r"
proof -
  have head: "read_head mem_read_ops (snapshot m) = (Inr (hd_commit_id h) :: 'io branch_error + _)"
    by (rule memr.read_head_law [OF assms(2,3)])
  have begins: "begin_read (bm_store m) = Inr (snapshot m)"
    using assms(1) by (simp add: begin_read_def snapshot_def)
  obtain ids where at: "records_at c (db_limits d) (db_next d) ids" "db_records d = user_records c ids"
    using assms(5) by (auto simp: database_at_def)
  note read = memr.read_by_key_law [OF assms(2,4) at(1) assms(6), of proj, where ?'io = 'io]
  obtain r where r: "read_committed_by_key mem_read_ops (snapshot m) key proj = Some (r :: 'io record_error + _)"
    using read by (auto split: option.splits)
  have "records_get m target key proj = Some (Returned r :: ('io record_error, _) callback_result, m)"
    using assms(8) by (auto simp: records_get_def read_committed_def committed_snapshot_def begins head r)
  moreover have "found_as key proj d r"
    by (rule found_asI [OF at(2) assms(7)]) (use read in \<open>auto simp: r\<close>)
  ultimately show ?thesis
    by blast
qed

lemma get_other_commit:
  assumes "\<not> committed_poisoned (bm_store m)" "mem_ok (snapshot m)" "head_at mem_view (snapshot m) h" "n \<noteq> hd_commit_id h"
  shows "records_get m (TargetCommit n) key proj =
    Some (Returned (Inl (RecordCommitUnavailable n (hd_commit_id h))) :: ('io record_error, _) callback_result, m)"
proof -
  have "read_head mem_read_ops (snapshot m) = (Inr (hd_commit_id h) :: 'io branch_error + _)"
    by (rule memr.read_head_law [OF assms(2,3)])
  moreover have "begin_read (bm_store m) = Inr (snapshot m)"
    using assms(1) by (simp add: begin_read_def snapshot_def)
  ultimately show ?thesis
    using assms(4) by (simp add: records_get_def read_committed_def committed_snapshot_def)
qed

section \<open>The outcome of a commit\<close>

lemma commit_outcome:
  fixes R :: "('b, 't, 'io) roaring"
  assumes "roaring_ok R rset tset" "hash_ok H" "sys_inv R H rset s" "open_branch s bid st" "seal_allowed R H s bid"
  obtains e where "branches_commit R H (sys_m s) bid = Some (Inl e, sys_m s)" "seal_error e"
  | c m' where "branches_commit R H (sys_m s) bid = Some (Inr c, m')"
proof -
  have st: "om_get (bm_branches (sys_m s)) bid = Some st" "br_commit_id st = v_id (latest s)" "br_sealed st = None"
    using assms(4) by (simp_all add: open_branch_def)
  have ok: "overlay_ok (br_overlay st)" "staged_ok (br_overlay st)"
    using sys_inv_branch(2) [OF assms(3) st(1)] by (simp_all add: branch_ok_def)
  have at: "mem_ok (snapshot (sys_m s))" "committed_at mem_view R H rset (snapshot (sys_m s)) (v_head (latest s)) (v_cells (latest s)) (v_croot (latest s)) (v_iroot (latest s))"
    using assms(3) by (simp_all add: sys_inv_def version_at_def)
  have distinct: "seal_distinct mem_read_ops mem_view R H (snapshot (sys_m s)) (v_head (latest s)) (v_cells (latest s)) (v_croot (latest s)) (v_iroot (latest s)) (br_overlay st)"
    using assms(5) st unfolding seal_allowed_def by blast
  note seal = memr.seal_law [OF assms(1,2) at ok distinct]
  have same: "om_put bid st (bm_branches (sys_m s)) = bm_branches (sys_m s)"
    using assms(3) st(1) by (intro om_put_same) (simp_all add: sys_inv_def)
  show thesis
  proof (cases "seal_compute mem_read_ops R H (snapshot (sys_m s)) (br_overlay st)")
    case (Inl e)
    then have "branches_commit R H (sys_m s) bid = Some (Inl e, sys_m s)"
      using st same by (simp add: branches_commit_def commit_admit_def flatten_def with_slot_cases [OF assms(3)] state_seal_def)
    moreover have "seal_error e"
      using seal Inl by simp
    ultimately show thesis
      by (rule that(1))
  next
    case (Inr sd)
    let ?m = "(sys_m s)\<lparr>bm_branches := om_put bid (st\<lparr>br_sealed := Some sd\<rparr>) (bm_branches (sys_m s))\<rparr>"
    have admit: "commit_admit R H (sys_m s) bid = (Inr sd, ?m)"
      using st Inr by (simp add: commit_admit_def flatten_def with_slot_cases [OF assms(3)] state_seal_def)
    let ?s = "s\<lparr>sys_m := ?m, sys_pending := (sys_pending s)(bid \<mapsto> sd)\<rparr>"
    have "sys_inv R H rset ?s"
      by (rule admitted_inv [OF assms(1-3) open_not_pending [OF assms(3,4)] assms(5) admit])
    from publish_wins [OF assms(2) this, of bid "st\<lparr>br_sealed := Some sd\<rparr>" sd] st(2)
    obtain m' where "commit_publish ?m bid sd = Some (Inr (sd_commit_id sd) :: 'io branch_error + _, m')"
      by auto
    then show thesis
      by (intro that(2)) (simp add: branches_commit_def admit)
  qed
qed

section \<open>Properties\<close>

text \<open>C2. On a live, open branch whose cells are those of a database, creating, patching and deleting a record do
  what the abstract database does: the same result or error (reserved keys are refused), the next database on
  success and no change at all on an error, nothing changed in the store or in other branches; each is a step of
  the branch system. Reading a record on the branch returns its cells in that database.\<close>

theorem record_ops_refine:
  fixes R :: "('b, 't, 'io) roaring"
  assumes "roaring_ok R rset tset" "hash_ok H" "opened R H rset store n v m" "runs R H (system_new m v) s"
    "branch_db s bid d" "rkey_ok key" "om_ok xs" "om_ok changes" "\<forall>x \<in> set xs. cv_ok (snd x)"
    "\<forall>x \<in> set changes. \<forall>value. snd x = PatchSet value \<longrightarrow> cv_ok value"
  shows "let created = records_create (sys_m s) bid key xs :: ('io record_error, _) callback_result \<times> _;
      patched = records_patch (sys_m s) bid key changes :: ('io record_error, _) callback_result \<times> _;
      deleted = records_delete (sys_m s) bid key :: ('io record_error, _) callback_result \<times> _ in
    reflects s bid key (guarded key (spec_create key xs) d) created \<and> runs R H (system_new m v) (s\<lparr>sys_m := snd created\<rparr>) \<and>
    reflects s bid () (guarded key (spec_patch key changes) d) patched \<and> runs R H (system_new m v) (s\<lparr>sys_m := snd patched\<rparr>) \<and>
    reflects s bid () (guarded key (spec_delete key) d) deleted \<and> runs R H (system_new m v) (s\<lparr>sys_m := snd deleted\<rparr>) \<and>
    (\<not> reserved_key key \<longrightarrow> (\<exists>r. records_get (sys_m s) (TargetBranch bid) key proj =
      Some (Returned r :: ('io record_error, _) callback_result, sys_m s) \<and> found_as key proj d r))"
proof -
  have inv: "sys_inv R H rset s"
    by (rule runs_inv [OF assms(1-4)])
  obtain st where st: "open_branch s bid st"
    by (rule branch_db_open [OF assms(5)])
  have programs: "program_ok (create_program key xs :: ('io, _, _) cell_program)" "program_ok (patch_program key changes :: ('io, _, _) cell_program)"
    using assms(6,9,10) by (auto intro: create_ok patch_ok)
  show ?thesis
    unfolding Let_def records_create_def records_patch_def records_delete_def
    using records_write_law [OF inv assms(5) create_simulates [OF assms(6) _ assms(7)]]
      records_write_law [OF inv assms(5) patch_simulates [OF assms(6) _ assms(8)]]
      records_write_law [OF inv assms(5) delete_simulates [OF assms(6)]]
      records_step [OF inv st programs(1) assms(4)] records_step [OF inv st programs(2) assms(4)] records_step [OF inv st delete_ok assms(4)]
      get_branch_law [OF inv assms(5,6), of proj]
    by blast
qed

theorem record_ops_refine_witness:
  "\<exists>s d. runs list_roaring demo_hash demo_system0 s \<and> branch_db s (BranchId 0) d \<and>
    records_delete (sys_m s) (BranchId 0) demo_record_key = (Returned (Inl RecordNotFound) :: (unit record_error, _) callback_result, sys_m s) \<and>
    (\<exists>m. records_create (sys_m s) (BranchId 0) demo_record_key [(ascii ''a'', from_u32 7)] = (Returned (Inr demo_record_key) :: (unit record_error, _) callback_result, m) \<and>
      branch_db (s\<lparr>sys_m := m\<rparr>) (BranchId 0) (d\<lparr>db_next := 65, db_records := [demo_record_key \<mapsto>
        [ascii ''a'' \<mapsto> from_u32 7, name_KEY \<mapsto> from_bytes32 (key_bytes demo_record_key)]]\<rparr>))"
proof -
  let ?d = "empty_database (genesis_limits demo_genesis)" and ?xs = "[(ascii ''a'', from_u32 7)]"
  obtain s where s: "runs list_roaring demo_hash demo_system0 s" "branch_db s (BranchId 0) ?d"
    by (rule demo_genesis_branch) (rule that)
  have "spec_create demo_record_key ?xs ?d = (Inr (?d\<lparr>db_next := 65, db_records := [demo_record_key \<mapsto>
      [ascii ''a'' \<mapsto> from_u32 7, name_KEY \<mapsto> from_bytes32 (key_bytes demo_record_key)]]\<rparr>) :: unit record_error + _)"
    by (simp add: spec_create_def empty_database_def validate_all_def demo_cell_valid system_ids)
  moreover have "spec_delete demo_record_key ?d = (Inl RecordNotFound :: unit record_error + _)"
    by (simp add: spec_delete_def empty_database_def ok_or_def)
  ultimately show ?thesis
    using record_ops_refine [OF list_roaring_ok demo_hash_ok demo_opened s demo_key_free(1), of ?xs "[]"] s demo_key_free(2)
    by (intro exI [of _ s] exI [of _ ?d]) (auto simp: Let_def reflects_def guarded_def om_ok_Cons prod_eq_iff)
qed


text \<open>C18. Reading a record at the head, or at the commit the head names, returns exactly the cells of the record in the
  committed database, all of them or those of the projection that exist, or \<^verbatim>\<open>NotFound\<close>; any other commit is
  refused with both commit numbers; a read changes nothing.\<close>

theorem record_get_committed:
  assumes "\<not> committed_poisoned (bm_store m)" "mem_ok (snapshot m)" "head_at mem_view (snapshot m) h"
    "cell_rows c (mem_view (snapshot m) CELL)" "database_at c d" "rkey_ok key" "\<not> reserved_key key"
  shows "(\<forall>target \<in> {TargetHead, TargetCommit (hd_commit_id h)}.
      \<exists>r. records_get m target key proj = Some (Returned r :: ('io record_error, _) callback_result, m) \<and> found_as key proj d r) \<and>
    (\<forall>n. n \<noteq> hd_commit_id h \<longrightarrow> records_get m (TargetCommit n) key proj =
      Some (Returned (Inl (RecordCommitUnavailable n (hd_commit_id h))) :: ('io record_error, _) callback_result, m))"
  using get_committed_law [OF assms] get_other_commit [OF assms(1-3)] by blast

lemma commit_carries_law:
  fixes R :: "('b, 't, 'io) roaring"
  assumes "roaring_ok R rset tset" "hash_ok H" "sys_inv R H rset s" "branch_db s bid d" "seal_allowed R H s bid"
  obtains e where "branches_commit R H (sys_m s) bid = Some (Inl e, sys_m s)" "seal_error e"
  | c s' where "branches_commit R H (sys_m s) bid = Some (Inr c, sys_m s')" "runs R H s s'" "sys_inv R H rset s'"
    "database_at (v_cells (latest s')) d"
proof -
  obtain st where st: "open_branch s bid st" "database_at (visible (v_cells (latest s)) (ov_entries (br_overlay st))) d"
    using assms(4) by (auto simp: branch_db_def)
  then have slot: "om_get (bm_branches (sys_m s)) bid = Some st"
    by (simp add: open_branch_def)
  show thesis
  proof (rule commit_outcome [OF assms(1-3) st(1) assms(5)])
    fix c m' assume commit: "branches_commit R H (sys_m s) bid = Some (Inr c, m')"
    obtain s' sd where s': "runs R H s s'" "sys_m s' = m'" "latest s' = next_version (latest s) (br_overlay st) sd" "sys_inv R H rset s'"
      by (rule commit_run [OF assms(1-3) slot open_not_pending [OF assms(3) st(1)] assms(5) commit])
    have "database_at (v_cells (latest s')) d"
      using database_at_roots [OF st(2) roots_value_plain] by (simp add: s'(3) next_version_def sealed_cells_def)
    then show thesis
      by (rule that(2) [OF commit [folded s'(2)] s'(1,4)])
  qed (rule that(1))
qed


section \<open>A store that holds genesis\<close>

lemma cell_entries:
  assumes "om_ok cs" "\<And>x. x \<in> set cs \<Longrightarrow> cv_ok (snd x)"
  shows "om_ok (map cell_entry cs)" "cell_rows (om_get cs) (map cell_entry cs)"
proof -
  have "sorted_wrt (<) (map (key_encode \<circ> fst) cs)"
    using assms(1) by (simp add: om_ok_def sorted_wrt_map key_encode_less)
  then show "om_ok (map cell_entry cs)"
    by (simp add: om_ok_def comp_def cell_entry_def)
  have "om_get (map cell_entry cs) bs = (case key_decode bs of Inl _ \<Rightarrow> None | Inr k \<Rightarrow> map_option cv_bytes (om_get cs k))" for bs
  proof (cases "key_decode bs")
    case (Inr k)
    then have "bs = key_encode k"
      by (simp add: key_decode_iff)
    then show ?thesis
      by (induction cs) (auto simp: cell_entry_def)
  next
    case (Inl e)
    then have "key_encode k \<noteq> bs" for k
      by auto
    then show ?thesis
      using Inl by (auto simp: map_of_eq_None_iff cell_entry_def)
  qed
  then show "cell_rows (om_get cs) (map cell_entry cs)"
    using assms(2) by (auto simp: cell_rows_def ran_def om_get_iff [OF assms(1)])
qed

definition genesis_tx :: mem_tx where
  "genesis_tx = \<lparr>tx_state = om_put SUPERBLOCK [(HEAD_KEY, head_row demo_head)] [(CELL, map cell_entry (initial_cells demo_genesis))]\<rparr>"

definition genesis_branches :: branches where
  "genesis_branches = \<lparr>bm_store = new_store\<lparr>memory_store.committed := tx_state genesis_tx\<rparr>, bm_branches = [], bm_next_id = 0\<rparr>"

theorem record_get_committed_witness:
  "(\<exists>r. records_get genesis_branches TargetHead demo_record_key None = Some (Returned r :: (unit record_error, _) callback_result, genesis_branches) \<and>
     found_as demo_record_key None (empty_database (genesis_limits demo_genesis)) r) \<and>
   records_get genesis_branches (TargetCommit (CommitId 5)) demo_record_key None =
     Some (Returned (Inl (RecordCommitUnavailable (CommitId 5) GENESIS)) :: (unit record_error, _) callback_result, genesis_branches)"
proof -
  have view: "snapshot genesis_branches = genesis_tx" "mem_view genesis_tx SUPERBLOCK = [(HEAD_KEY, head_row demo_head)]"
      "mem_view genesis_tx CELL = map cell_entry (initial_cells demo_genesis)"
    using superblock_tables(2) by (simp_all add: snapshot_def genesis_branches_def genesis_tx_def mem_view_def)
      (simp_all add: table_rows_def)
  note rows = cell_entries [OF initial_cells_ok initial_values_ok, of demo_genesis]
  have ok: "mem_ok genesis_tx"
    unfolding mem_ok_def genesis_tx_def mem_tx.simps
    by (rule mem_state_ok_put) (use rows(1) in \<open>simp_all add: mem_state_ok_def om_ok_Cons\<close>)
  have head: "head_at mem_view genesis_tx demo_head"
    using demo_hash_ok by (simp add: head_at_def view head_ok_def demo_head_def hash_ok_def)
  have cells: "cell_rows (om_get (initial_cells demo_genesis)) (mem_view genesis_tx CELL)"
    unfolding view(3) by (rule rows(2))
  have key: "rkey_ok demo_record_key" "\<not> reserved_key demo_record_key"
    by (rule demo_key_free)+
  have "\<not> committed_poisoned (bm_store genesis_branches)"
    by (simp add: genesis_branches_def new_store_def)
  note get = record_get_committed [OF this, unfolded view(1), OF ok head cells genesis_database key, of None, where ?'io = unit]
  have "CommitId 5 \<noteq> hd_commit_id demo_head" "hd_commit_id demo_head = GENESIS"
    by (simp_all add: demo_head_def GENESIS_def)
  then show ?thesis
    using get by auto
qed

section \<open>The genesis branch may be sealed\<close>

lemma plain_postings:
  "\<forall>ch \<in> set chs. ch_before ch = None \<and> (\<forall>v. ch_after ch = Some v \<longrightarrow> \<not> cv_is_indexable v) \<Longrightarrow> seal_postings chs = (Inr [] :: 'io branch_error + _)"
  unfolding seal_postings_def
proof (induction chs)
  case (Cons ch chs)
  have "seal_change ch [] = (Inr [] :: 'io branch_error + _)"
    using Cons.prems by (auto simp: seal_change_def seal_term_def split: option.split)
  then show ?case
    using Cons by simp
qed simp

text \<open>Staged fields over a store with no cells: no digest is met twice if no two cell keys have one path.\<close>

lemma demo_fields_distinct:
  assumes "overlay_ok ov" "staged_ok ov" "\<And>k v. om_get (ov_entries ov) k = Some (Some v) \<Longrightarrow> \<not> cv_is_indexable v"
    "no_collision demo_hash (insert (roots_key demo_head) (fst ` set (ov_entries ov)))"
  shows "seal_distinct mem_read_ops mem_view list_roaring demo_hash demo_store demo_head Map.empty RootEmpty RootEmpty ov"
proof -
  have none: "index_of Map.empty = (\<lambda>_. {})"
    by (simp add: index_of_def fun_eq_iff)
  have keys: "fst ` change_entry ` set (sealed_changes demo_head ov) = insert (roots_key demo_head) (fst ` set (ov_entries ov))"
    by (simp add: sealed_changes_def overlay_changes_entries [of ov, symmetric] change_entry_def image_Un)
  then have collision: "no_collision demo_hash (dom Map.empty \<union> fst ` change_entry ` set (sealed_changes demo_head ov))"
    using assms(4) by simp
  have at: "cells_at (buf_view mem_view) (buffered_new demo_store) demo_hash RootEmpty Map.empty"
    using demo_committed by (subst cells_at_cong [of _ _ mem_view demo_store]) (simp_all add: demo_buffer(2) committed_at_def)
  note law = write_tx.cells_apply_law [OF memr.buffered_write_tx demo_hash_ok demo_buffer(1) at collision sealed_changes_ok [OF assms(2,1)],
      unfolded sealed_changes_effect [OF assms(1)]]
  have plain: "\<not> cv_is_indexable v" if "sealed_cells demo_head Map.empty ov k = Some v" for k v
    using that assms(3) [of k v] roots_value_plain
    by (auto simp: sealed_cells_def visible_def split: if_splits option.splits)
  have empty: "ps = [] \<and> no_clash (buf_view mem_view) demo_hash tx1"
    if app: "cells_apply (buf_ops mem_read_ops) demo_hash (buffered_new demo_store) RootEmpty (sealed_changes demo_head ov) = Inr (u, tx1)"
      and ps: "seal_postings (changed_cells u) = (Inr ps :: unit branch_error + _)" for u tx1 ps
  proof
    have changed: "changed_cells u = map (\<lambda>(k, x). \<lparr>ch_key = k, ch_before = None, ch_after = x\<rparr>) (net_changes Map.empty (sealed_changes demo_head ov))"
      using law by (simp add: app)
    have "sealed_cells demo_head Map.empty ov k = x" if "(k, x) \<in> set (net_changes Map.empty (sealed_changes demo_head ov))" for k x
      using net_changes_exact(2) [of k x Map.empty "sealed_changes demo_head ov"] that sealed_changes_effect [OF assms(1)] by simp
    then have "seal_postings (changed_cells u) = (Inr [] :: unit branch_error + _)"
      using plain by (intro plain_postings) (auto simp: changed, blast)
    then show "ps = []"
      using ps by simp
    have "buf_view mem_view tx1 t = []" if "t \<in> {BITMAP_CONTAINER, BITMAP_TRIE}" for t
      using law that changed_tables superblock_tables(4) demo_store_view(2) [of t] by (auto simp: app demo_buffer(2))
    then show "no_clash (buf_view mem_view) demo_hash tx1"
      by (simp add: no_clash_def)
  qed
  have "inj_on (routing_path demo_hash) ({t. index_of Map.empty t \<noteq> {}} \<union> posting_term ` set ps) \<and>
      unclashed (buf_ops mem_read_ops) (buf_view mem_view) list_roaring demo_hash tx1 RootEmpty ps"
    if "cells_apply (buf_ops mem_read_ops) demo_hash (buffered_new demo_store) RootEmpty (sealed_changes demo_head ov) = Inr (u, tx1)"
      "seal_postings (changed_cells u) = (Inr ps :: unit branch_error + _)" for u tx1 ps
    using empty [OF that] by (simp add: none unclashed_def entry_groups_def normalize_postings_def)
  then show ?thesis
    using collision by (simp add: seal_distinct_def root_distinct_def none)
qed

lemma genesis_paths: "distinct (map (cell_path demo_hash) (roots_key demo_head # map fst (initial_cells demo_genesis)))"
  by code_simp

lemma genesis_no_collision: "no_collision demo_hash (insert (roots_key demo_head) (fst ` set (initial_cells demo_genesis)))"
  using genesis_paths unfolding no_collision_def distinct_map by (simp only: list.simps set_map)

lemma demo_sealable:
  obtains s where "runs list_roaring demo_hash demo_system0 s" "branch_db s (BranchId 0) (empty_database (genesis_limits demo_genesis))"
    "seal_allowed list_roaring demo_hash s (BranchId 0)"
proof -
  obtain s st where s: "runs list_roaring demo_hash demo_system0 s" "branch_db s (BranchId 0) (empty_database (genesis_limits demo_genesis))"
      "snapshot (sys_m s) = demo_store" "latest s = demo_version" "om_get (bm_branches (sys_m s)) (BranchId 0) = Some st"
      "fst ` set (ov_entries (br_overlay st)) \<subseteq> fst ` set (initial_cells demo_genesis)"
      "visible Map.empty (ov_entries (br_overlay st)) = om_get (initial_cells demo_genesis)"
    by (rule demo_genesis_branch)
  have ok: "overlay_ok (br_overlay st)" "staged_ok (br_overlay st)"
    using sys_inv_branch(2) [OF demo_inv [OF s(1)] s(5)] by (simp_all add: branch_ok_def)
  have "\<not> cv_is_indexable v" if "om_get (ov_entries (br_overlay st)) k = Some (Some v)" for k v
    using that fun_cong [OF s(7), of k] initial_values_plain [of demo_genesis k v] by (simp add: visible_def)
  moreover have "no_collision demo_hash (insert (roots_key demo_head) (fst ` set (ov_entries (br_overlay st))))"
    using s(6) by (intro no_collision_subset [OF genesis_no_collision]) blast
  ultimately have "seal_distinct mem_read_ops mem_view list_roaring demo_hash demo_store demo_head Map.empty RootEmpty RootEmpty (br_overlay st)"
    by (rule demo_fields_distinct [OF ok])
  then have "seal_allowed list_roaring demo_hash s (BranchId 0)"
    using s(3-5) by (simp add: seal_allowed_def) (simp add: demo_version_def)
  with s(1,2) show thesis
    by (rule that)
qed


end
