(* ===== verification/Query_Plan.thy ===== *)
theory Query_Plan
  imports Record_Reads
begin

text \<open>
  \<^verbatim>\<open>crates/query/src\<close>: the request types of \<^verbatim>\<open>query_op\<close>, \<^verbatim>\<open>error.rs\<close>, admission of a filter (\<^verbatim>\<open>plan.rs\<close>), the seam
  \<^verbatim>\<open>PostingSource\<close> with its evaluation (\<^verbatim>\<open>eval.rs\<close>), and \<^verbatim>\<open>queries.rs\<close> over the memory store. An iterator is a state with
  a step; a loop over one is a partial function, \<open>None\<close> when it does not end.
\<close>

section \<open>Requests\<close>

datatype query_filter =
    FilterEq bytes cell_value
  | FilterIn bytes "cell_value list"
  | FilterRange bytes "cell_value bound" "cell_value bound"

datatype direction = Asc | Desc

record sort_key =
  sk_field :: bytes
  sk_ty :: cell_type
  sk_direction :: direction

definition sort_key_new :: "bytes \<Rightarrow> cell_type \<Rightarrow> direction \<Rightarrow> sort_key" where
  "sort_key_new field ty d = \<lparr>sk_field = field, sk_ty = ty, sk_direction = d\<rparr>"

definition sort_asc :: "bytes \<Rightarrow> cell_type \<Rightarrow> sort_key" where
  "sort_asc field ty = sort_key_new field ty Asc"

definition sort_desc :: "bytes \<Rightarrow> cell_type \<Rightarrow> sort_key" where
  "sort_desc field ty = sort_key_new field ty Desc"

datatype budget = Limited u64 | Unlimited

record query_op =
  qo_filter :: query_filter
  qo_sort :: "sort_key list"
  qo_projection :: "bytes list option"
  qo_limit :: "u64 option"
  qo_offset :: "u64 option"
  qo_with_total :: bool
  qo_budget :: "budget option"

definition query_from_filter :: "query_filter \<Rightarrow> query_op" where
  "query_from_filter f = \<lparr>qo_filter = f, qo_sort = [], qo_projection = None, qo_limit = None, qo_offset = None,
    qo_with_total = False, qo_budget = None\<rparr>"

definition query_sort :: "query_op \<Rightarrow> sort_key list \<Rightarrow> query_op" where
  "query_sort op keys = op\<lparr>qo_sort := keys\<rparr>"

definition query_only :: "query_op \<Rightarrow> bytes list \<Rightarrow> query_op" where
  "query_only op names = op\<lparr>qo_projection := Some (projection names)\<rparr>"

definition query_limit :: "query_op \<Rightarrow> u64 \<Rightarrow> query_op" where
  "query_limit op n = op\<lparr>qo_limit := Some n\<rparr>"

definition query_offset :: "query_op \<Rightarrow> u64 \<Rightarrow> query_op" where
  "query_offset op n = op\<lparr>qo_offset := Some n\<rparr>"

definition query_with_total :: "query_op \<Rightarrow> query_op" where
  "query_with_total op = op\<lparr>qo_with_total := True\<rparr>"

definition query_budget :: "query_op \<Rightarrow> budget \<Rightarrow> query_op" where
  "query_budget op b = op\<lparr>qo_budget := Some b\<rparr>"

record count_op =
  co_filter :: query_filter
  co_budget :: "budget option"

definition count_filter :: "query_filter \<Rightarrow> count_op" where
  "count_filter f = \<lparr>co_filter = f, co_budget = None\<rparr>"

definition count_budget :: "count_op \<Rightarrow> budget \<Rightarrow> count_op" where
  "count_budget op b = op\<lparr>co_budget := Some b\<rparr>"

record query_page =
  qp_records :: "db_record list"
  qp_total_matched :: "u64 option"
  qp_evaluated_at :: commit_id

text \<open>\<^verbatim>\<open>Internal\<close> boxes an error of the index or of the record layer.\<close>

datatype 'io query_error =
    QueryInvalidArgument bytes term_error
  | InvalidQuery string
  | QueryNotImplemented string
  | QueryCommitUnavailable commit_id commit_id
  | QueryInternalIndex "'io index_error"
  | QueryInternalRecord "'io record_error"

definition query_from_record :: "'io record_error \<Rightarrow> 'io query_error" where
  "query_from_record error = (case error of
     RecordCommitUnavailable requested h \<Rightarrow> QueryCommitUnavailable requested h
   | error \<Rightarrow> QueryInternalRecord error)"

section \<open>Admission\<close>

text \<open>The set of \<^verbatim>\<open>TermReads\<close> is the ascending list of its terms.\<close>

datatype plan = TermRead index_term | TermReads "index_term list" | PlanScan term_range | PlanEmpty

definition query_term :: "bytes \<Rightarrow> cell_value \<Rightarrow> 'io query_error + index_term" where
  "query_term field value = map_err (QueryInvalidArgument field) (term_from_cell_name field (as_view value))"

definition query_terms :: "bytes \<Rightarrow> cell_value list \<Rightarrow> 'io query_error + index_term list option" where
  "query_terms field values = (case values of
     [] \<Rightarrow> attempt (map_err (QueryInvalidArgument field) (term_check_cell_name field)) (\<lambda>_. Inr None)
   | first # rest \<Rightarrow>
       if list_ex (\<lambda>value. cv_ty value \<noteq> cv_ty first) rest then Inl (InvalidQuery ''`In` values must all have one type'')
       else attempt (try_map (query_term field) values) (\<lambda>ts. Inr (Some (sorted_list_of_set (set ts)))))"

definition query_range :: "bytes \<Rightarrow> cell_value bound \<Rightarrow> cell_value bound \<Rightarrow> 'io query_error + term_range option" where
  "query_range field lower upr =
    map_err (\<lambda>error. case error of
        RangeTerm source \<Rightarrow> QueryInvalidArgument field source
      | NoBound \<Rightarrow> InvalidQuery ''`Range` needs at least one bound''
      | RangeTypeMismatch _ _ \<Rightarrow> InvalidQuery ''`Range` bounds must have one type'')
      (range_between field (map_bound as_view lower) (map_bound as_view upr))"

definition plan_of :: "query_filter \<Rightarrow> 'io query_error + plan" where
  "plan_of f = (case f of
     FilterEq field value \<Rightarrow> attempt (query_term field value) (\<lambda>t. Inr (TermRead t))
   | FilterIn field values \<Rightarrow>
       attempt (query_terms field values) (\<lambda>ts. Inr (case ts of None \<Rightarrow> PlanEmpty | Some ts \<Rightarrow> TermReads ts))
   | FilterRange field lower upr \<Rightarrow>
       attempt (query_range field lower upr) (\<lambda>r. Inr (case r of None \<Rightarrow> PlanEmpty | Some r \<Rightarrow> PlanScan r)))"

section \<open>Posting sources\<close>

text \<open>\<^verbatim>\<open>PostingSource\<close>: the trait as a record of its methods, with the step of the iterator that \<^verbatim>\<open>scan\<close> returns.\<close>

record ('s, 'it, 't, 'io) posting_ops =
  po_postings :: "'s \<Rightarrow> index_term \<Rightarrow> 'io index_error + 't"
  po_scan :: "'s \<Rightarrow> term_range \<Rightarrow> 'io index_error + 'it"
  po_next :: "'s \<Rightarrow> 'it \<Rightarrow> ('io index_error + 't) option \<times> 'it"

record ('b, 't, 'io, 'tx) index_source =
  is_roaring :: "('b, 't, 'io) roaring"
  is_hasher :: "bytes \<Rightarrow> hash"
  is_tx :: 'tx

definition source_postings ::
  "('tx, 'cur, 'z) read_ops_scheme \<Rightarrow> ('b, 't, 'io, 'tx) index_source \<Rightarrow> index_term \<Rightarrow> 'io index_error + 't" where
  "source_postings ops s t =
    attempt (index_bitmap ops (is_roaring s) (is_hasher s) (is_tx s) t) (\<lambda>b.
      Inr (case b of None \<Rightarrow> tm_new (is_roaring s) | Some b \<Rightarrow> b))"

definition source_next ::
  "('tx, 'cur, 'z) read_ops_scheme \<Rightarrow> ('b, 't, 'io, 'tx) index_source \<Rightarrow> 'cur term_scan \<Rightarrow>
    ('io index_error + 't) option \<times> 'cur term_scan" where
  "source_next ops s it = (case term_scan_next ops (is_hasher s) it of
     (None, it') \<Rightarrow> (None, it')
   | (Some entry, it') \<Rightarrow>
       (Some (attempt entry (\<lambda>(_, root). index_bitmap_at ops (is_roaring s) (is_hasher s) (is_tx s) root)), it'))"

definition index_ops ::
  "('tx, 'cur, 'z) read_ops_scheme \<Rightarrow> (('b, 't, 'io, 'tx) index_source, 'cur term_scan, 't, 'io) posting_ops" where
  "index_ops ops = \<lparr>po_postings = source_postings ops, po_scan = (\<lambda>s r. index_terms ops (is_tx s) r), po_next = source_next ops\<rparr>"

section \<open>Evaluation\<close>

partial_function (option) union_fold ::
  "('b, 't, 'io) roaring \<Rightarrow> ('it \<Rightarrow> ('io index_error + 't) option \<times> 'it) \<Rightarrow> 't \<Rightarrow> 'it \<Rightarrow> ('io query_error + 't) option" where
  "union_fold R step acc it = (case step it of
     (None, _) \<Rightarrow> Some (Inr acc)
   | (Some (Inl e), _) \<Rightarrow> Some (Inl (QueryInternalIndex e))
   | (Some (Inr postings), it') \<Rightarrow> union_fold R step (bitmap_or_assign R acc postings) it')"

definition union_postings ::
  "('b, 't, 'io) roaring \<Rightarrow> ('it \<Rightarrow> ('io index_error + 't) option \<times> 'it) \<Rightarrow> 'it \<Rightarrow> ('io query_error + 't) option" where
  "union_postings R step it = union_fold R step (tm_new R) it"

text \<open>\<^verbatim>\<open>terms.iter().map(|term| source.postings(term))\<close>\<close>

definition term_reads ::
  "('s, 'it, 't, 'io) posting_ops \<Rightarrow> 's \<Rightarrow> index_term list \<Rightarrow> ('io index_error + 't) option \<times> index_term list" where
  "term_reads P s ts = (case ts of [] \<Rightarrow> (None, []) | t # ts' \<Rightarrow> (Some (po_postings P s t), ts'))"

definition match_set ::
  "('s, 'it, 't, 'io) posting_ops \<Rightarrow> ('b, 't, 'io) roaring \<Rightarrow> 's \<Rightarrow> plan \<Rightarrow> ('io query_error + 't) option" where
  "match_set P R s plan = (case plan of
     TermRead t \<Rightarrow> Some (map_err QueryInternalIndex (po_postings P s t))
   | TermReads ts \<Rightarrow> union_postings R (term_reads P s) ts
   | PlanScan r \<Rightarrow> (case po_scan P s r of
       Inl e \<Rightarrow> Some (Inl (QueryInternalIndex e))
     | Inr it \<Rightarrow> union_postings R (po_next P s) it)
   | PlanEmpty \<Rightarrow> Some (Inr (tm_new R)))"

section \<open>Queries\<close>

record 't evaluation =
  ev_snapshot :: mem_tx
  ev_head :: commit_id
  ev_matches :: 't

definition query_evaluate ::
  "('b, 't, 'io) roaring \<Rightarrow> (bytes \<Rightarrow> hash) \<Rightarrow> memory_store \<Rightarrow> commit_id option \<Rightarrow> query_filter \<Rightarrow> ('io query_error + 't evaluation) option" where
  "query_evaluate R H store commit f = (case plan_of f of
     Inl e \<Rightarrow> Some (Inl e)
   | Inr plan \<Rightarrow> (case committed_snapshot store commit of
       Inl e \<Rightarrow> Some (Inl (query_from_record e))
     | Inr (tx, h) \<Rightarrow> map_option (\<lambda>matches. attempt matches (\<lambda>m. Inr \<lparr>ev_snapshot = tx, ev_head = h, ev_matches = m\<rparr>))
         (match_set (index_ops mem_read_ops) R \<lparr>is_roaring = R, is_hasher = H, is_tx = tx\<rparr> plan)))"

fun read_ids :: "mem_tx \<Rightarrow> bytes list option \<Rightarrow> u64 list \<Rightarrow> ('io record_error + db_record list) option" where
  "read_ids tx proj [] = Some (Inr [])"
| "read_ids tx proj (i # is) = (case read_committed_by_id mem_read_ops tx i proj of
     None \<Rightarrow> None
   | Some (Inl e) \<Rightarrow> Some (Inl e)
   | Some (Inr r) \<Rightarrow> map_option (\<lambda>rs. attempt rs (\<lambda>rs. Inr (r # rs))) (read_ids tx proj is))"

definition queries_query ::
  "('b, 't, 'io) roaring \<Rightarrow> (bytes \<Rightarrow> hash) \<Rightarrow> memory_store \<Rightarrow> commit_id option \<Rightarrow> query_op \<Rightarrow> ('io query_error + query_page) option" where
  "queries_query R H store commit op =
    (if qo_sort op \<noteq> [] then Some (Inl (QueryNotImplemented ''query: sort''))
     else if qo_limit op \<noteq> None then Some (Inl (QueryNotImplemented ''query: limit''))
     else if qo_offset op \<noteq> None then Some (Inl (QueryNotImplemented ''query: offset''))
     else case query_evaluate R H store commit (qo_filter op) of
       None \<Rightarrow> None
     | Some (Inl e) \<Rightarrow> Some (Inl e)
     | Some (Inr ev) \<Rightarrow> map_option (\<lambda>records. attempt (map_err query_from_record records) (\<lambda>rs.
         Inr \<lparr>qp_records = rs, qp_total_matched = (if qo_with_total op then Some (tm_len R (ev_matches ev)) else None),
           qp_evaluated_at = ev_head ev\<rparr>)) (read_ids (ev_snapshot ev) (qo_projection op) (tm_iter R (ev_matches ev))))"

definition queries_count ::
  "('b, 't, 'io) roaring \<Rightarrow> (bytes \<Rightarrow> hash) \<Rightarrow> memory_store \<Rightarrow> commit_id option \<Rightarrow> count_op \<Rightarrow> ('io query_error + u64) option" where
  "queries_count R H store commit op =
    map_option (\<lambda>r. attempt r (\<lambda>ev. Inr (tm_len R (ev_matches ev)))) (query_evaluate R H store commit (co_filter op))"

end
