(* ===== verification/Query_Laws.thy ===== *)
theory Query_Laws
  imports Query_Plan
begin

text \<open>
  What a filter means for a record, and what evaluation computes: over any source that keeps the contract of
  \<^verbatim>\<open>PostingSource\<close> the match set is the union of the postings of the terms the filter admits; the index of the memory store
  is such a source; so a query returns the records of the abstract database that match.
\<close>

section \<open>What a filter means\<close>

fun filter_field :: "query_filter \<Rightarrow> bytes" where
  "filter_field (FilterEq field _) = field"
| "filter_field (FilterIn field _) = field"
| "filter_field (FilterRange field _ _) = field"

fun accepts_value :: "query_filter \<Rightarrow> cell_type \<Rightarrow> bytes \<Rightarrow> bool" where
  "accepts_value (FilterEq _ w) ty x \<longleftrightarrow> ty = cv_ty w \<and> x = cv_value w"
| "accepts_value (FilterIn _ ws) ty x \<longleftrightarrow> (\<exists>w \<in> set ws. ty = cv_ty w \<and> x = cv_value w)"
| "accepts_value (FilterRange _ lower upr) ty x \<longleftrightarrow> (\<forall>w \<in> set_bound lower \<union> set_bound upr. cv_ty w = ty) \<and>
     in_range (map_bound cv_value lower) (map_bound cv_value upr) x"

definition record_matches :: "query_filter \<Rightarrow> user_record \<Rightarrow> bool" where
  "record_matches f r \<longleftrightarrow> (\<exists>v. r (filter_field f) = Some v \<and> cv_is_indexable v \<and> accepts_value f (cv_ty v) (cv_value v))"

text \<open>A filter is admitted when its field has the grammar of an attribute name and its values are of one indexable type.\<close>

fun admissible :: "query_filter \<Rightarrow> bool" where
  "admissible (FilterEq field w) \<longleftrightarrow> user_name field \<and> indexable_type (cv_ty w)"
| "admissible (FilterIn field ws) \<longleftrightarrow> user_name field \<and> (\<exists>ty. indexable_type ty \<and> (\<forall>w \<in> set ws. cv_ty w = ty))"
| "admissible (FilterRange field lower upr) \<longleftrightarrow> user_name field \<and>
     (\<exists>ty. indexable_type ty \<and> bounds_of_type ty (map_bound as_view lower) (map_bound as_view upr))"

section \<open>Plans\<close>

definition plan_terms :: "plan \<Rightarrow> index_term set" where
  "plan_terms plan = (case plan of TermRead t \<Rightarrow> {t} | TermReads ts \<Rightarrow> set ts
     | PlanScan r \<Rightarrow> {t. in_range (range_lower r) (range_upper r) t} | PlanEmpty \<Rightarrow> {})"

definition plan_valid :: "plan \<Rightarrow> bool" where
  "plan_valid plan \<longleftrightarrow> (\<forall>r. plan = PlanScan r \<longrightarrow> range_ok (range_lower r) (range_upper r))"

lemma as_view_parts [simp]: "ref_ty (as_view v) = cv_ty v" "ref_value (as_view v) = cv_value v"
  by (simp_all add: as_view_def cv_value_def)

lemma query_term_Inr [try_simps]:
  "query_term field v = Inr t \<longleftrightarrow> user_name field \<and> indexable_type (cv_ty v) \<and> t = term_run field (cv_ty v) @ cv_value v"
  by (auto simp: query_term_def try_simps term_from_cell_name_Inr)

lemma term_check_cell_name_Inr [try_simps]: "term_check_cell_name field = Inr u \<longleftrightarrow> user_name field"
  by (auto simp: term_check_cell_name_def term_name_str_def try_simps user_name_utf8)

lemma query_terms_Inr:
  "query_terms field ws = (Inr ts :: 'io query_error + _) \<longleftrightarrow> admissible (FilterIn field ws) \<and>
    ts = (if ws = [] then None else Some (sorted_list_of_set ((\<lambda>w. term_run field (cv_ty w) @ cv_value w) ` set ws)))"
proof (cases ws)
  case Nil
  have "indexable_type (Uint W4)"
    by (simp add: indexable_type_def)
  then show ?thesis
    using Nil by (auto simp: query_terms_def try_simps)
next
  case (Cons w rest)
  have all: "try_map (query_term field) ws = (Inr us :: 'io query_error + _) \<longleftrightarrow> user_name field \<and> (\<forall>w \<in> set ws. indexable_type (cv_ty w)) \<and>
      us = map (\<lambda>w. term_run field (cv_ty w) @ cv_value w) ws" for us
    unfolding Cons by (auto simp: try_map_Inr list_all2_conv_all_nth try_simps nth_equalityI all_set_conv_all_nth)
  have types: "list_ex (\<lambda>value. cv_ty value \<noteq> cv_ty w) rest \<longleftrightarrow> \<not> (\<forall>w' \<in> set ws. cv_ty w' = cv_ty w)"
    by (simp add: Cons list_ex_iff)
  have w: "w \<in> set ws" "ws \<noteq> []"
    by (simp_all add: Cons)
  have eq: "query_terms field ws = (if list_ex (\<lambda>value. cv_ty value \<noteq> cv_ty w) rest then Inl (InvalidQuery ''`In` values must all have one type'')
      else attempt (try_map (query_term field) ws) (\<lambda>ts. Inr (Some (sorted_list_of_set (set ts)))) :: 'io query_error + _)"
    by (simp only: query_terms_def Cons list.case)
  have "admissible (FilterIn field ws) \<longleftrightarrow> user_name field \<and> (\<forall>w \<in> set ws. indexable_type (cv_ty w)) \<and> (\<forall>w' \<in> set ws. cv_ty w' = cv_ty w)"
    using w(1) unfolding admissible.simps by metis
  then show ?thesis
    unfolding eq types using w(2) by (simp add: attempt_eq_Inr all) blast
qed

lemma query_range_Inr:
  "query_range field lower upr = (Inr r :: 'io query_error + _) \<longleftrightarrow> range_between field (map_bound as_view lower) (map_bound as_view upr) = Inr r"
  by (simp add: query_range_def try_simps)

lemma bound_types: "bounds_of_type ty (map_bound as_view lower) (map_bound as_view upr) \<longleftrightarrow>
    (lower \<noteq> Unbounded \<or> upr \<noteq> Unbounded) \<and> (\<forall>w \<in> set_bound lower \<union> set_bound upr. cv_ty w = ty)"
  by (cases lower; cases upr) (auto simp: bounds_of_type_def)

lemma bound_values: "map_bound ref_value (map_bound as_view b) = map_bound cv_value b"
  by (cases b) simp_all

lemma plan_of_admissible: "(\<exists>plan. plan_of f = (Inr plan :: 'io query_error + _)) \<longleftrightarrow> admissible f"
proof (cases f)
  case (FilterRange field lower upr)
  let ?lo = "map_bound as_view lower" and ?up = "map_bound as_view upr"
  have "(\<exists>r. range_between field ?lo ?up = Inr r) \<longleftrightarrow> admissible f"
    unfolding FilterRange admissible.simps using range_between_Inr [of field ?lo ?up] range_between_ok [of field _ ?lo ?up] by blast
  then show ?thesis
    by (simp add: FilterRange plan_of_def try_simps query_range_Inr)
qed (auto simp: plan_of_def try_simps query_terms_Inr)

lemma plan_law:
  assumes "plan_of f = (Inr plan :: 'io query_error + _)"
  shows "user_name (filter_field f)" "plan_valid plan" "accepts_value f ty x \<Longrightarrow> indexable_type ty"
    "plan_terms plan = {term_run (filter_field f) ty @ x | ty x. accepts_value f ty x}"
proof -
  have "user_name (filter_field f) \<and> plan_valid plan \<and> (\<forall>ty x. accepts_value f ty x \<longrightarrow> indexable_type ty) \<and>
    plan_terms plan = {term_run (filter_field f) ty @ x | ty x. accepts_value f ty x}"
  proof (cases f)
    case (FilterRange field lower upr)
    then obtain r where r: "range_between field (map_bound as_view lower) (map_bound as_view upr) = Inr r"
        "plan = (case r of None \<Rightarrow> PlanEmpty | Some r \<Rightarrow> PlanScan r)"
      using assms by (auto simp: plan_of_def try_simps query_range_Inr)
    obtain ty where ty: "user_name field" "indexable_type ty" "bounds_of_type ty (map_bound as_view lower) (map_bound as_view upr)"
        "case r of
            None \<Rightarrow> \<forall>v. \<not> in_range (map_bound cv_value lower) (map_bound cv_value upr) v
          | Some r \<Rightarrow> range_ok (range_lower r) (range_upper r) \<and> (\<forall>k. in_range (range_lower r) (range_upper r) k \<longleftrightarrow>
              (\<exists>v. k = term_run field ty @ v \<and> in_range (map_bound cv_value lower) (map_bound cv_value upr) v))"
      by (rule range_between_selects [OF r(1), unfolded bound_values])
    have "accepts_value f ty' x \<longleftrightarrow> ty' = ty \<and> in_range (map_bound cv_value lower) (map_bound cv_value upr) x" for ty' x
      using ty(3) unfolding FilterRange bound_types by (cases lower; cases upr) auto
    then show ?thesis
      using ty(1,2,4) by (auto simp: FilterRange r(2) plan_valid_def plan_terms_def split: option.splits simp del: in_range_def)
  next
    case (FilterIn field ws)
    then show ?thesis
      using assms by (auto simp: plan_of_def try_simps query_terms_Inr plan_valid_def plan_terms_def split: if_splits) blast
  qed (use assms in \<open>auto simp: plan_of_def try_simps plan_valid_def plan_terms_def\<close>)
  then show "user_name (filter_field f)" "plan_valid plan" "accepts_value f ty x \<Longrightarrow> indexable_type ty"
    "plan_terms plan = {term_run (filter_field f) ty @ x | ty x. accepts_value f ty x}"
    by blast+
qed

section \<open>Unions\<close>

text \<open>\<open>yields step it as\<close>: the iterator \<open>it\<close> ends after the items \<open>as\<close>, none of them an error.\<close>

inductive yields :: "('it \<Rightarrow> ('e + 'a) option \<times> 'it) \<Rightarrow> 'it \<Rightarrow> 'a list \<Rightarrow> bool" for step where
  yields_end: "step it = (None, it') \<Longrightarrow> yields step it []"
| yields_item: "step it = (Some (Inr a), it') \<Longrightarrow> yields step it' as \<Longrightarrow> yields step it (a # as)"

lemma union_fold_law:
  assumes "roaring_ok R rset tset" "yields step it bs"
  shows "\<exists>u. union_fold R step acc it = Some (Inr u) \<and> tset u = tset acc \<union> (\<Union>b \<in> set bs. tset b)"
  using assms(2)
proof (induction arbitrary: acc rule: yields.induct)
  case (yields_end it it')
  then show ?case
    by (subst union_fold.simps) simp
next
  case (yields_item it b it' bs)
  obtain u where "union_fold R step (bitmap_or_assign R acc b) it' = Some (Inr u)"
      "tset u = tset (bitmap_or_assign R acc b) \<union> (\<Union>b \<in> set bs. tset b)"
    using yields_item.IH by blast
  moreover have "tset (bitmap_or_assign R acc b) = tset acc \<union> tset b"
    using assms(1) by (simp add: bitmap_or_assign_def roaring_ok_def roaring_treemap_def)
  ultimately show ?case
    using yields_item.hyps(1) by (subst union_fold.simps) (simp add: Un_assoc)
qed

lemma union_postings_law:
  assumes "roaring_ok R rset tset" "yields step it bs"
  shows "\<exists>u. union_postings R step it = Some (Inr u) \<and> tset u = (\<Union>b \<in> set bs. tset b)"
  using union_fold_law [OF assms, of "tm_new R"] assms(1) by (simp add: union_postings_def roaring_ok_def roaring_treemap_def)

section \<open>The contract of a posting source\<close>

text \<open>\<open>holds s tset idx\<close>: the source holds the posting sets \<open>idx\<close>, its bitmaps read by \<open>tset\<close>.\<close>

locale posting_source =
  fixes P :: "('s, 'it, 't, 'io) posting_ops"
    and holds :: "'s \<Rightarrow> ('t \<Rightarrow> u64 set) \<Rightarrow> (index_term \<Rightarrow> u64 set) \<Rightarrow> bool"
  assumes postings_law: "holds s tset idx \<Longrightarrow> \<exists>b. po_postings P s t = Inr b \<and> tset b = idx t"
    and scan_law: "holds s tset idx \<Longrightarrow> range_ok (range_lower r) (range_upper r) \<Longrightarrow>
      \<exists>it bs. po_scan P s r = Inr it \<and> yields (po_next P s) it bs \<and>
        (\<Union>b \<in> set bs. tset b) = (\<Union>t \<in> {t. in_range (range_lower r) (range_upper r) t}. idx t)"
begin

lemma term_reads_law: "holds s tset idx \<Longrightarrow> \<exists>bs. yields (term_reads P s) ts bs \<and> (\<Union>b \<in> set bs. tset b) = (\<Union>t \<in> set ts. idx t)"
proof (induction ts)
  case Nil
  have "yields (term_reads P s) [] []"
    by (rule yields_end) (simp add: term_reads_def)
  then show ?case
    by (intro exI [of _ "[]"]) simp
next
  case (Cons t ts)
  obtain b bs where "po_postings P s t = Inr b" "tset b = idx t" "yields (term_reads P s) ts bs" "(\<Union>b \<in> set bs. tset b) = (\<Union>t \<in> set ts. idx t)"
    using postings_law [OF Cons.prems, of t] Cons.IH [OF Cons.prems] by blast
  moreover from this have "yields (term_reads P s) (t # ts) (b # bs)"
    by (intro yields_item [of _ _ _ ts]) (simp_all add: term_reads_def)
  ultimately show ?case
    by (intro exI [of _ "b # bs"]) simp
qed

lemma match_set_law:
  assumes "roaring_ok R rset tset" "holds s tset idx" "plan_valid plan"
  shows "\<exists>b. match_set P R s plan = Some (Inr b) \<and> tset b = (\<Union>t \<in> plan_terms plan. idx t)"
proof (cases plan)
  case (TermRead t)
  then show ?thesis
    using postings_law [OF assms(2), of t] by (auto simp: match_set_def plan_terms_def)
next
  case (TermReads ts)
  obtain bs where "yields (term_reads P s) ts bs" "(\<Union>b \<in> set bs. tset b) = (\<Union>t \<in> set ts. idx t)"
    using term_reads_law [OF assms(2)] by blast
  then show ?thesis
    using union_postings_law [OF assms(1), of "term_reads P s" ts bs] TermReads by (simp add: match_set_def plan_terms_def)
next
  case (PlanScan r)
  then have "range_ok (range_lower r) (range_upper r)"
    using assms(3) by (simp add: plan_valid_def)
  then obtain it bs where "po_scan P s r = Inr it" "yields (po_next P s) it bs"
      "(\<Union>b \<in> set bs. tset b) = (\<Union>t \<in> {t. in_range (range_lower r) (range_upper r) t}. idx t)"
    using scan_law [OF assms(2), of r] by metis
  then show ?thesis
    using union_postings_law [OF assms(1), of "po_next P s" it bs] PlanScan by (simp add: match_set_def plan_terms_def)
next
  case PlanEmpty
  then show ?thesis
    using assms(1) by (simp add: match_set_def plan_terms_def roaring_ok_def roaring_treemap_def)
qed

end

section \<open>The index is a posting source\<close>

definition index_holds ::
  "('tx \<Rightarrow> bool) \<Rightarrow> ('tx \<Rightarrow> table \<Rightarrow> rows) \<Rightarrow> ('b, 't, 'io, 'tx) index_source \<Rightarrow> ('t \<Rightarrow> u64 set) \<Rightarrow> (index_term \<Rightarrow> u64 set) \<Rightarrow> bool" where
  "index_holds tx_ok view s tset idx \<longleftrightarrow> (\<exists>rset root. roaring_ok (is_roaring s) rset tset \<and> hash_ok (is_hasher s) \<and> tx_ok (is_tx s) \<and>
    index_at view (is_roaring s) (is_hasher s) rset (is_tx s) root idx)"

lemma source_yields:
  assumes "term_scan_collect ops (is_hasher s) it = Some (Inr rows :: 'io index_error + _)"
    "\<And>t h. (t, h) \<in> set rows \<Longrightarrow> \<exists>b. index_bitmap_at ops (is_roaring s) (is_hasher s) (is_tx s) h = (Inr b :: 'io index_error + _) \<and> tset b = idx t"
  shows "\<exists>bs. yields (source_next ops s) it bs \<and> (\<Union>b \<in> set bs. tset b) = (\<Union>t \<in> fst ` set rows. idx t)"
  using assms
proof (induction rows arbitrary: it)
  case Nil
  then obtain it' where "term_scan_next ops (is_hasher s) it = (None :: ('io index_error + _) option, it')"
    by (subst (asm) term_scan_collect.simps) (auto simp: try_simps split: prod.splits option.splits sum.splits bind_splits)
  then have "yields (source_next ops s) it []"
    by (intro yields_end [of _ _ it']) (simp add: source_next_def)
  then show ?case
    by (intro exI [of _ "[]"]) simp
next
  case (Cons row rows)
  obtain t h where row: "row = (t, h)"
    by (cases row)
  obtain it' where it': "term_scan_next ops (is_hasher s) it = (Some (Inr row :: 'io index_error + _), it')"
      "term_scan_collect ops (is_hasher s) it' = Some (Inr rows :: 'io index_error + _)"
    using Cons.prems(1) by (subst (asm) term_scan_collect.simps) (auto simp: try_simps split: prod.splits option.splits sum.splits bind_splits)
  obtain b where b: "index_bitmap_at ops (is_roaring s) (is_hasher s) (is_tx s) h = (Inr b :: 'io index_error + _)" "tset b = idx t"
    using Cons.prems(2) [of t h] by (auto simp: row)
  obtain bs where bs: "yields (source_next ops s) it' bs" "(\<Union>b \<in> set bs. tset b) = (\<Union>t \<in> fst ` set rows. idx t)"
    using Cons.IH [OF it'(2)] Cons.prems(2) by (meson list.set_intros(2))
  have "yields (source_next ops s) it (b # bs)"
    by (rule yields_item [OF _ bs(1)]) (simp add: source_next_def it'(1) row b(1))
  then show ?case
    using b(2) bs(2) by (intro exI [of _ "b # bs"]) (simp add: row)
qed

context read_tx
begin

lemma index_posting_source: "posting_source (index_ops ops :: (('b, 't, 'io, 'tx) index_source, 'cur term_scan, 't, 'io) posting_ops) (index_holds tx_ok view)"
proof
  fix s :: "('b, 't, 'io, 'tx) index_source" and tset idx t
  assume "index_holds tx_ok view s tset idx"
  then obtain rset root where s: "roaring_ok (is_roaring s) rset tset" "hash_ok (is_hasher s)" "tx_ok (is_tx s)"
      "index_at view (is_roaring s) (is_hasher s) rset (is_tx s) root idx"
    by (auto simp: index_holds_def)
  have "tset (tm_new (is_roaring s)) = {}"
    using s(1) by (simp add: roaring_ok_def roaring_treemap_def)
  then show "\<exists>b. po_postings (index_ops ops) s t = Inr b \<and> tset b = idx t"
    using index_bitmap_law [OF s, of t] by (auto simp: index_ops_def source_postings_def split: if_splits)
next
  fix s :: "('b, 't, 'io, 'tx) index_source" and tset idx and r :: term_range
  assume "index_holds tx_ok view s tset idx" and r: "range_ok (range_lower r) (range_upper r)"
  then obtain rset root where s: "roaring_ok (is_roaring s) rset tset" "hash_ok (is_hasher s)" "tx_ok (is_tx s)"
      "index_at view (is_roaring s) (is_hasher s) rset (is_tx s) root idx"
    by (auto simp: index_holds_def)
  let ?in = "in_range (range_lower r) (range_upper r)"
  obtain sc where sc: "scan_open ops (is_tx s) INDEX (range_lower r) (range_upper r) = Inr sc"
      "scan_collect ops sc = Some (Inr (filter (\<lambda>e. ?in (fst e)) (view (is_tx s) INDEX)))"
    using scan_open_rows [OF s(3) index_tables(1) r] by blast
  obtain rows where rows: "term_scan_collect ops (is_hasher s) \<lparr>ts_scan = sc, ts_done = False\<rparr> = Some (Inr rows :: 'io index_error + _)"
      "\<forall>t h. (t, h) \<in> set rows \<longleftrightarrow> ?in t \<and> term_roots view (is_tx s) t = Some h"
    using index_scan_law [OF s(2-4) sc(2)] by blast
  have bitmap: "\<exists>b. index_bitmap_at ops (is_roaring s) (is_hasher s) (is_tx s) h = (Inr b :: 'io index_error + _) \<and> tset b = idx t" if "(t, h) \<in> set rows" for t h
  proof -
    have root: "term_roots view (is_tx s) t = Some h"
      using rows(2) that by blast
    then have "idx t \<noteq> {}"
      using index_at_dom [OF s(4)] by blast
    then obtain b where b: "index_bitmap ops (is_roaring s) (is_hasher s) (is_tx s) t = Inr (Some b)" "tset b = idx t"
      using index_bitmap_law [OF s, of t] by auto
    have "no_clash view (is_hasher s) (is_tx s)" "posting_holds view (is_roaring s) (is_hasher s) rset (is_tx s) (term_roots view (is_tx s) t) (idx t)"
      using s(4) by (simp_all add: index_at_def)
    then show ?thesis
      using b root by (simp add: index_bitmap_def bitmap_root_law [OF s(2,3)] try_simps)
  qed
  have terms: "(\<Union>t \<in> fst ` set rows. idx t) = (\<Union>t \<in> {t. ?in t}. idx t)"
  proof -
    have "t \<in> fst ` set rows" if range: "?in t" and ne: "idx t \<noteq> {}" for t
    proof -
      obtain h where "term_roots view (is_tx s) t = Some h"
        using ne index_at_dom [OF s(4), of t] by blast
      then have "(t, h) \<in> set rows"
        using range rows(2) by blast
      then show ?thesis
        by (rule rev_image_eqI) simp
    qed
    moreover have "?in t" if "t \<in> fst ` set rows" for t
      using that rows(2) by force
    ultimately show ?thesis
      by blast
  qed
  obtain bs where "yields (source_next ops s) \<lparr>ts_scan = sc, ts_done = False\<rparr> bs" "(\<Union>b \<in> set bs. tset b) = (\<Union>t \<in> fst ` set rows. idx t)"
    using source_yields [where tset = tset and idx = idx, OF rows(1) bitmap] by metis
  then show "\<exists>it bs. po_scan (index_ops ops) s r = Inr it \<and> yields (po_next (index_ops ops) s) it bs \<and>
      (\<Union>b \<in> set bs. tset b) = (\<Union>t \<in> {t. ?in t}. idx t)"
    unfolding terms by (intro exI [of _ "\<lparr>ts_scan = sc, ts_done = False\<rparr>"] exI [of _ bs]) (simp add: index_ops_def index_terms_def sc(1))
qed

end

interpretation ix: posting_source "index_ops mem_read_ops" "index_holds mem_ok mem_view"
  by (rule memr.index_posting_source)

section \<open>The match set\<close>

lemma match_ids:
  assumes "plan_of f = (Inr plan :: 'io query_error + _)"
  shows "(\<Union>t \<in> plan_terms plan. index_of c t) = {rid. record_matches f (record_at c rid)}"
proof -
  note plan = plan_law [OF assms]
  have "rid \<in> (\<Union>t \<in> plan_terms plan. index_of c t) \<longleftrightarrow> (\<exists>v. c (CellKey rid (filter_field f)) = Some v \<and> cv_is_indexable v \<and>
      accepts_value f (cv_ty v) (cv_value v))" for rid
  proof
    assume "rid \<in> (\<Union>t \<in> plan_terms plan. index_of c t)"
    then obtain ty x k v where k: "accepts_value f ty x" "record_id k = rid" "c k = Some v" "cell_term k v = Some (term_run (filter_field f) ty @ x)"
      by (auto simp: plan(4) index_of_def)
    then have v: "cv_is_indexable v" "user_name (key_name k)" "term_run (key_name k) (cv_ty v) @ cv_value v = term_run (filter_field f) ty @ x"
      by (auto simp: cell_term_def cv_value_def split: if_splits)
    then have "key_name k = filter_field f \<and> cv_ty v = ty \<and> cv_value v = x"
      using term_run_inject [OF v(2) plan(1)] by blast
    with k v show "\<exists>v. c (CellKey rid (filter_field f)) = Some v \<and> cv_is_indexable v \<and> accepts_value f (cv_ty v) (cv_value v)"
      by (cases k) auto
  next
    assume "\<exists>v. c (CellKey rid (filter_field f)) = Some v \<and> cv_is_indexable v \<and> accepts_value f (cv_ty v) (cv_value v)"
    then obtain v where v: "c (CellKey rid (filter_field f)) = Some v" "cv_is_indexable v" "accepts_value f (cv_ty v) (cv_value v)"
      by blast
    let ?t = "term_run (filter_field f) (cv_ty v) @ cv_value v"
    have "cell_term (CellKey rid (filter_field f)) v = Some ?t"
      using plan(1) plan(3) [OF v(3)] v(2) by (simp add: cell_term_def cv_value_def)
    then have "rid \<in> index_of c ?t"
      using v(1) unfolding index_of_def by force
    moreover have "?t \<in> plan_terms plan"
      using v(3) by (auto simp: plan(4))
    ultimately show "rid \<in> (\<Union>t \<in> plan_terms plan. index_of c t)"
      by blast
  qed
  then show ?thesis
    by (auto simp: record_matches_def record_at_def)
qed

lemma match_bound:
  assumes "records_at c l n ids" "record_matches f (record_at c rid)"
  obtains key where "ids key = Some rid" "\<not> reserved_key key"
proof -
  obtain v where v: "c (CellKey rid (filter_field f)) = Some v" "cv_is_indexable v"
    using assms(2) by (auto simp: record_matches_def record_at_def)
  have user: "FIRST_USER_RECORD_ID \<le> rid"
    using indexed_records [OF assms(1) v] by simp
  then have "rid \<in> ran ids"
    using assms(1) v(1) unfolding records_at_def by (metis cell_key.sel(1) option.distinct(1))
  then obtain key where key: "ids key = Some rid"
    by (auto simp: ran_def)
  have "\<not> reserved_key key"
    using records_bound(3) [OF assms(1) key] user by_key_small [of "key_bytes key"]
    by (cases "by_key (key_bytes key)") (auto simp: id_fits_def)
  with key show thesis
    by (rule that)
qed

lemma matches_card:
  assumes "records_at c l n ids"
  shows "card {rid. record_matches f (record_at c rid)} < 2 ^ 64"
proof -
  have "(0 :: u64) \<notin> {rid. record_matches f (record_at c rid)}"
  proof
    assume "0 \<in> {rid. record_matches f (record_at c rid)}"
    then obtain key where "ids key = Some 0" "\<not> reserved_key key"
      using match_bound [OF assms] by blast
    then show False
      using user_id [OF assms] by (fastforce simp: FIRST_USER_RECORD_ID_def)
  qed
  then have "card {rid. record_matches f (record_at c rid)} < card (UNIV :: u64 set)"
    by (intro psubset_card_mono) auto
  then show ?thesis
    by (simp add: card_word)
qed

section \<open>Queries return the matching records\<close>

lemma read_ids_law:
  assumes "mem_ok tx" "cell_rows c (mem_view tx CELL)" "records_at c l n ids" "\<And>i. i \<in> set is \<Longrightarrow> i \<in> ran ids"
  shows "\<exists>rs. read_ids tx proj is = Some (Inr rs :: 'io record_error + _) \<and>
    list_all2 (\<lambda>i r. ids (rec_key r) = Some i \<and> cells_are (rec_cells r) (project proj (record_at c i))) is rs"
  using assms(4)
proof (induction "is")
  case (Cons i "is")
  obtain key where key: "ids key = Some i"
    using Cons.prems [of i] by (auto simp: ran_def)
  obtain xs where xs: "read_committed_by_id mem_read_ops tx i proj = Some (Inr \<lparr>rec_key = key, rec_cells = xs\<rparr> :: 'io record_error + _)"
      "cells_are xs (project proj (record_at c i))"
    using memr.read_by_id_law [OF assms(1-3) key] by blast
  obtain rs where "read_ids tx proj is = Some (Inr rs :: 'io record_error + _)"
      "list_all2 (\<lambda>i r. ids (rec_key r) = Some i \<and> cells_are (rec_cells r) (project proj (record_at c i))) is rs"
    using Cons.IH Cons.prems by (meson list.set_intros(2))
  with xs key show ?case
    by (intro exI [of _ "\<lparr>rec_key = key, rec_cells = xs\<rparr> # rs"]) simp
qed simp

text \<open>The records of a page: each matching record once, and nothing else.\<close>

definition page_of :: "query_filter \<Rightarrow> bytes list option \<Rightarrow> database \<Rightarrow> db_record list \<Rightarrow> bool" where
  "page_of f proj d rs \<longleftrightarrow> distinct (map rec_key rs) \<and>
    rec_key ` set rs = {key. \<exists>x. db_records d key = Some x \<and> record_matches f x} \<and>
    (\<forall>r \<in> set rs. \<exists>x. db_records d (rec_key r) = Some x \<and> cells_are (rec_cells r) (project proj x))"

lemma page_ofI:
  assumes "records_at c (db_limits d) (db_next d) ids" "db_records d = user_records c ids" "distinct is"
    "set is = {rid. record_matches f (record_at c rid)}"
    "list_all2 (\<lambda>i r. ids (rec_key r) = Some i \<and> cells_are (rec_cells r) (project proj (record_at c i))) is rs"
  shows "page_of f proj d rs"
proof -
  have ids: "is = map (the \<circ> ids \<circ> rec_key) rs"
    using assms(5) by (auto simp: list_all2_conv_all_nth intro: nth_equalityI)
  have each: "\<exists>i. ids (rec_key r) = Some i \<and> record_matches f (record_at c i) \<and> cells_are (rec_cells r) (project proj (record_at c i))" if "r \<in> set rs" for r
    using that assms(4,5) by (fastforce simp: in_set_conv_nth list_all2_conv_all_nth set_eq_iff)
  have rec: "db_records d key = Some (record_at c i)" if "ids key = Some i" "record_matches f (record_at c i)" for key i
  proof -
    have "\<not> reserved_key key"
      using match_bound [OF assms(1) that(2)] ids_inject [OF assms(1) that(1)] by metis
    then show ?thesis
      using that(1) by (simp add: assms(2) user_records_def)
  qed
  have "distinct (map rec_key rs)"
    using assms(3) unfolding ids by (simp add: distinct_map comp_inj_on_iff) (metis (no_types, lifting) comp_inj_on_iff inj_on_imageI2 o_assoc)
  moreover have "key \<in> rec_key ` set rs" if some: "db_records d key = Some x" and match: "record_matches f x" for key x
  proof -
    obtain i where i: "ids key = Some i" "x = record_at c i"
      using some by (auto simp: assms(2) user_records_def split: if_splits)
    then have "i \<in> set is"
      using assms(4) match by simp
    then obtain r where r: "r \<in> set rs" "i = the (ids (rec_key r))"
      by (auto simp: ids)
    then have "ids (rec_key r) = Some i"
      using each [OF r(1)] by auto
    then show ?thesis
      using r(1) ids_inject [OF assms(1) i(1)] by blast
  qed
  ultimately show ?thesis
    unfolding page_of_def using each rec by fastforce
qed

text \<open>In record ID order: the ids their keys are bound to ascend.\<close>

definition id_ordered :: "(cell_key \<rightharpoonup> cell_value) \<Rightarrow> db_record list \<Rightarrow> bool" where
  "id_ordered c rs \<longleftrightarrow> (\<exists>is. sorted_wrt (<) is \<and> list_all2 (\<lambda>i r. c (binding (rec_key r)) = Some (from_u64 i)) is rs)"

abbreviation committed_tx :: "memory_store \<Rightarrow> mem_tx" where
  "committed_tx store \<equiv> \<lparr>tx_state = memory_store.committed store\<rparr>"

lemma query_law:
  fixes R :: "('b, 't, 'io) roaring"
  assumes "roaring_ok R rset tset" "hash_ok H" "\<not> committed_poisoned store" "mem_ok (committed_tx store)"
    "head_at mem_view (committed_tx store) h" "cell_rows c (mem_view (committed_tx store) CELL)" "index_at mem_view R H rset (committed_tx store) iroot (index_of c)" "database_at c d"
    "commit = None \<or> commit = Some (hd_commit_id h)" "admissible f"
  shows "\<exists>m rs. query_evaluate R H store commit f = Some (Inr \<lparr>ev_snapshot = committed_tx store, ev_head = hd_commit_id h, ev_matches = m\<rparr>) \<and>
    read_ids (committed_tx store) proj (tm_iter R m) = Some (Inr rs :: 'io record_error + _) \<and> unat (tm_len R m) = length rs \<and> page_of f proj d rs \<and> id_ordered c rs"
proof -
  obtain ids where at: "records_at c (db_limits d) (db_next d) ids" "db_records d = user_records c ids"
    using assms(8) by (auto simp: database_at_def)
  obtain plan where plan: "plan_of f = (Inr plan :: 'io query_error + _)"
    using assms(10) plan_of_admissible by blast
  have "committed_snapshot store commit = (Inr (committed_tx store, hd_commit_id h) :: 'io record_error + _)"
    using assms(3,9) by (auto simp: committed_snapshot_def begin_read_def memr.read_head_law [OF assms(4,5)])
  moreover have "index_holds mem_ok mem_view \<lparr>is_roaring = R, is_hasher = H, is_tx = committed_tx store\<rparr> tset (index_of c)"
    using assms(1,2,4,7) by (auto simp: index_holds_def)
  from ix.match_set_law [OF assms(1) this plan_law(2) [OF plan]] obtain m where m: "match_set (index_ops mem_read_ops) R \<lparr>is_roaring = R, is_hasher = H, is_tx = committed_tx store\<rparr> plan = Some (Inr m)"
      "tset m = {rid. record_matches f (record_at c rid)}"
    unfolding match_ids [OF plan] by blast
  ultimately have eval: "query_evaluate R H store commit f = Some (Inr \<lparr>ev_snapshot = committed_tx store, ev_head = hd_commit_id h, ev_matches = m\<rparr>)"
    by (simp add: query_evaluate_def plan)
  have iter: "sorted_wrt (<) (tm_iter R m)" "set (tm_iter R m) = tset m" "card (tset m) < 2 ^ 64 \<longrightarrow> unat (tm_len R m) = card (tset m)"
    using assms(1) by (simp_all add: roaring_ok_def roaring_treemap_def)
  have "i \<in> ran ids" if "i \<in> set (tm_iter R m)" for i
    using that match_bound [OF at(1), of f i] unfolding iter(2) m(2) by (auto simp: ran_def)
  then obtain rs where rs: "read_ids (committed_tx store) proj (tm_iter R m) = Some (Inr rs :: 'io record_error + _)"
      "list_all2 (\<lambda>i r. ids (rec_key r) = Some i \<and> cells_are (rec_cells r) (project proj (record_at c i))) (tm_iter R m) rs"
    using read_ids_law [OF assms(4,6) at(1)] by blast
  have distinct: "distinct (tm_iter R m)"
    using iter(1) by (simp add: strict_sorted_iff)
  have "unat (tm_len R m) = length rs"
    using iter(3) matches_card [OF at(1), of f] distinct_card [OF distinct] list_all2_lengthD [OF rs(2)]
    unfolding m(2) iter(2) by simp
  moreover have "page_of f proj d rs"
    by (rule page_ofI [OF at distinct _ rs(2)]) (simp add: iter(2) m(2))
  moreover have "list_all2 (\<lambda>i r. c (binding (rec_key r)) = Some (from_u64 i)) (tm_iter R m) rs"
    using rs(2) by (rule list_all2_mono) (use at(1) in \<open>auto simp: records_at_def\<close>)
  then have "id_ordered c rs"
    unfolding id_ordered_def using iter(1) by blast
  ultimately show ?thesis
    using eval rs(1) by blast
qed

end
