(* ===== verification/Query_System.thy ===== *)
theory Query_System
  imports Query_Laws
begin

text \<open>
  Properties of queries over the committed state of the memory store: what a page holds, how a request fails, and that a
  query after a commit sees the database of the committed branch.
\<close>

section \<open>Requests that fail\<close>

text \<open>The shape of a leaf is checked before any term is built.\<close>

fun malformed :: "query_filter \<Rightarrow> bool" where
  "malformed (FilterEq _ _) = False"
| "malformed (FilterIn _ ws) = (\<exists>w \<in> set ws. \<exists>w' \<in> set ws. cv_ty w \<noteq> cv_ty w')"
| "malformed (FilterRange _ lower upr) = (lower = Unbounded \<and> upr = Unbounded \<or>
     (\<exists>w \<in> set_bound lower. \<exists>w' \<in> set_bound upr. cv_ty w \<noteq> cv_ty w'))"

lemma try_map_Inl: "try_map f xs = Inl e \<Longrightarrow> \<exists>x \<in> set xs. f x = Inl e"
  by (induction xs) (auto simp: attempt_def split: sum.splits)

lemma query_term_Inl: "query_term field w = (Inl e :: 'io query_error + _) \<Longrightarrow> \<exists>source. e = QueryInvalidArgument field source"
  by (auto simp: query_term_def map_err_def split: sum.splits)

lemma range_error:
  assumes "range_between field lower upr = Inl e"
  shows "case e of NoBound \<Rightarrow> lower = Unbounded \<and> upr = Unbounded
    | RangeTypeMismatch a b \<Rightarrow> \<exists>v \<in> set_bound lower. \<exists>w \<in> set_bound upr. ref_ty v \<noteq> ref_ty w
    | RangeTerm _ \<Rightarrow> \<not> (lower = Unbounded \<and> upr = Unbounded) \<and> (\<forall>v \<in> set_bound lower. \<forall>w \<in> set_bound upr. ref_ty v = ref_ty w)"
  using assms by (cases lower; cases upr)
    (auto simp: range_between_def bound_value_def range_bound_def attempt_def map_err_def Let_def split: sum.splits if_splits)

lemma plan_error:
  assumes "plan_of f = (Inl e :: 'io query_error + _)"
  shows "if malformed f then \<exists>reason. e = InvalidQuery reason else \<exists>source. e = QueryInvalidArgument (filter_field f) source"
proof (cases f)
  case (FilterEq field w)
  then show ?thesis
    using assms query_term_Inl by (fastforce simp: plan_of_def attempt_def split: sum.splits)
next
  case (FilterIn field ws)
  have terms: "query_terms field ws = (Inl e :: 'io query_error + _)"
    using assms FilterIn by (auto simp: plan_of_def attempt_def split: sum.splits)
  show ?thesis
  proof (cases ws)
    case Nil
    then show ?thesis
      using terms by (auto simp: FilterIn query_terms_def attempt_def map_err_def split: sum.splits)
  next
    case (Cons w rest)
    have one: "malformed f \<longleftrightarrow> list_ex (\<lambda>value. cv_ty value \<noteq> cv_ty w) rest"
      unfolding FilterIn malformed.simps Cons list_ex_iff by (simp; metis)
    have eq: "query_terms field ws = (if list_ex (\<lambda>value. cv_ty value \<noteq> cv_ty w) rest then Inl (InvalidQuery ''`In` values must all have one type'')
        else attempt (try_map (query_term field) ws) (\<lambda>ts. Inr (Some (sorted_list_of_set (set ts)))) :: 'io query_error + _)"
      by (simp only: query_terms_def Cons list.case)
    show ?thesis
    proof (cases "malformed f")
      case False
      then have "try_map (query_term field) ws = (Inl e :: 'io query_error + _)"
        using terms unfolding eq one by (cases "try_map (query_term field) ws :: 'io query_error + _") simp_all
      from try_map_Inl [OF this] obtain w where "query_term field w = (Inl e :: 'io query_error + _)"
        by blast
      then obtain source where "e = QueryInvalidArgument field source"
        using query_term_Inl by blast
      moreover have "filter_field f = field"
        by (simp add: FilterIn)
      ultimately show ?thesis
        using False by metis
    qed (use terms one eq in auto)
  qed
next
  case (FilterRange field lower upr)
  then obtain e' where e': "range_between field (map_bound as_view lower) (map_bound as_view upr) = Inl e'"
      "e = (case e' of
        RangeTerm source \<Rightarrow> QueryInvalidArgument field source
      | NoBound \<Rightarrow> InvalidQuery ''`Range` needs at least one bound''
      | RangeTypeMismatch _ _ \<Rightarrow> InvalidQuery ''`Range` bounds must have one type'')"
    using assms by (auto simp: plan_of_def query_range_def attempt_def map_err_def split: sum.splits)
  from range_error [OF e'(1)] show ?thesis
    by (cases lower; cases upr) (auto simp: FilterRange e'(2) split: range_error.splits)
qed

definition plain_query :: "query_op \<Rightarrow> bool" where
  "plain_query op \<longleftrightarrow> qo_sort op = [] \<and> qo_limit op = None \<and> qo_offset op = None"

text \<open>C21. How a request fails, in the order of its checks. A sort, a limit and an offset are refused first, each by name, before
  the filter is looked at. A filter is then admitted exactly when its field has the grammar of an attribute name and its values
  are all of one indexable type, with at least one bound in a range; otherwise the query and the count fail alike, with one error
  that no store and no commit can change: an invalid query when the leaf is malformed, else an invalid argument that names the
  field. Only then is state read, and a commit other than the head is refused with both commits named.\<close>

theorem query_errors:
  fixes R :: "('b, 't, 'io) roaring"
  shows "(qo_sort op \<noteq> [] \<longrightarrow> queries_query R H store commit op = Some (Inl (QueryNotImplemented ''query: sort''))) \<and>
    (qo_sort op = [] \<longrightarrow> qo_limit op \<noteq> None \<longrightarrow> queries_query R H store commit op = Some (Inl (QueryNotImplemented ''query: limit''))) \<and>
    (qo_sort op = [] \<longrightarrow> qo_limit op = None \<longrightarrow> qo_offset op \<noteq> None \<longrightarrow>
      queries_query R H store commit op = Some (Inl (QueryNotImplemented ''query: offset''))) \<and>
    ((\<exists>plan. plan_of f = (Inr plan :: 'io query_error + _)) \<longleftrightarrow> admissible f) \<and>
    (\<not> admissible f \<longrightarrow> (\<exists>e. (if malformed f then \<exists>reason. e = InvalidQuery reason else \<exists>source. e = QueryInvalidArgument (filter_field f) source) \<and>
      (\<forall>store commit b. queries_count R H store commit \<lparr>co_filter = f, co_budget = b\<rparr> = Some (Inl e)) \<and>
      (\<forall>store commit op. plain_query op \<longrightarrow> qo_filter op = f \<longrightarrow> queries_query R H store commit op = Some (Inl e)))) \<and>
    (admissible f \<longrightarrow> \<not> committed_poisoned store \<longrightarrow> mem_ok (committed_tx store) \<longrightarrow> head_at mem_view (committed_tx store) h \<longrightarrow> n \<noteq> hd_commit_id h \<longrightarrow>
      queries_count R H store (Some n) \<lparr>co_filter = f, co_budget = b\<rparr> = Some (Inl (QueryCommitUnavailable n (hd_commit_id h))) \<and>
      (plain_query op \<longrightarrow> qo_filter op = f \<longrightarrow> queries_query R H store (Some n) op = Some (Inl (QueryCommitUnavailable n (hd_commit_id h)))))"
proof (intro conjI)
  show "(\<exists>plan. plan_of f = (Inr plan :: 'io query_error + _)) \<longleftrightarrow> admissible f"
    by (rule plan_of_admissible)
  show "\<not> admissible f \<longrightarrow> (\<exists>e. (if malformed f then \<exists>reason. e = InvalidQuery reason else \<exists>source. e = QueryInvalidArgument (filter_field f) source) \<and>
      (\<forall>store commit b. queries_count R H store commit \<lparr>co_filter = f, co_budget = b\<rparr> = Some (Inl e)) \<and>
      (\<forall>store commit op. plain_query op \<longrightarrow> qo_filter op = f \<longrightarrow> queries_query R H store commit op = Some (Inl e)))"
  proof
    assume "\<not> admissible f"
    then obtain e where e: "plan_of f = (Inl e :: 'io query_error + _)"
      using plan_of_admissible [of f, where ?'io = 'io] by (cases "plan_of f :: 'io query_error + _") auto
    then have "query_evaluate R H store commit f = Some (Inl e)" for store commit
      by (simp add: query_evaluate_def)
    then show "\<exists>e. (if malformed f then \<exists>reason. e = InvalidQuery reason else \<exists>source. e = QueryInvalidArgument (filter_field f) source) \<and>
      (\<forall>store commit b. queries_count R H store commit \<lparr>co_filter = f, co_budget = b\<rparr> = Some (Inl e)) \<and>
      (\<forall>store commit op. plain_query op \<longrightarrow> qo_filter op = f \<longrightarrow> queries_query R H store commit op = Some (Inl e))"
      using plan_error [OF e] by (intro exI [of _ e]) (auto simp: queries_count_def queries_query_def plain_query_def)
  qed
  have "query_evaluate R H store (Some n) f = Some (Inl (QueryCommitUnavailable n (hd_commit_id h)))"
    if "admissible f" "\<not> committed_poisoned store" "mem_ok (committed_tx store)" "head_at mem_view (committed_tx store) h" "n \<noteq> hd_commit_id h"
  proof -
    have "committed_snapshot store (Some n) = (Inl (RecordCommitUnavailable n (hd_commit_id h)) :: 'io record_error + _)"
      using that(2,5) by (simp add: committed_snapshot_def begin_read_def memr.read_head_law [OF that(3,4)])
    then show ?thesis
      using plan_of_admissible [of f, where ?'io = 'io] that(1) by (auto simp: query_evaluate_def query_from_record_def)
  qed
  then show "admissible f \<longrightarrow> \<not> committed_poisoned store \<longrightarrow> mem_ok (committed_tx store) \<longrightarrow> head_at mem_view (committed_tx store) h \<longrightarrow> n \<noteq> hd_commit_id h \<longrightarrow>
      queries_count R H store (Some n) \<lparr>co_filter = f, co_budget = b\<rparr> = Some (Inl (QueryCommitUnavailable n (hd_commit_id h))) \<and>
      (plain_query op \<longrightarrow> qo_filter op = f \<longrightarrow> queries_query R H store (Some n) op = Some (Inl (QueryCommitUnavailable n (hd_commit_id h))))"
    by (auto simp: queries_count_def queries_query_def plain_query_def)
qed (simp_all add: queries_query_def)

section \<open>Pages\<close>

lemma query_page_law:
  fixes R :: "('b, 't, 'io) roaring"
  assumes "roaring_ok R rset tset" "hash_ok H" "\<not> committed_poisoned store" "mem_ok (committed_tx store)"
    "head_at mem_view (committed_tx store) h" "cell_rows c (mem_view (committed_tx store) CELL)"
    "index_at mem_view R H rset (committed_tx store) iroot (index_of c)" "database_at c d"
    "commit = None \<or> commit = Some (hd_commit_id h)" "admissible (qo_filter op)" "plain_query op"
  shows "\<exists>rs. queries_query R H store commit op = Some (Inr \<lparr>qp_records = rs,
      qp_total_matched = (if qo_with_total op then Some (of_nat (length rs)) else None), qp_evaluated_at = hd_commit_id h\<rparr>) \<and>
    queries_count R H store commit \<lparr>co_filter = qo_filter op, co_budget = b\<rparr> = Some (Inr (of_nat (length rs))) \<and>
    page_of (qo_filter op) (qo_projection op) d rs \<and> id_ordered c rs \<and> length rs < 2 ^ 64"
proof -
  obtain m rs where m: "query_evaluate R H store commit (qo_filter op) = Some (Inr \<lparr>ev_snapshot = committed_tx store, ev_head = hd_commit_id h, ev_matches = m\<rparr>)"
      "read_ids (committed_tx store) (qo_projection op) (tm_iter R m) = Some (Inr rs :: 'io record_error + _)"
      "unat (tm_len R m) = length rs" "page_of (qo_filter op) (qo_projection op) d rs" "id_ordered c rs"
    using query_law [OF assms(1-10)] by blast
  moreover have "tm_len R m = of_nat (length rs)" "length rs < 2 ^ 64"
    unfolding m(3) [symmetric] using unsigned_less [of "tm_len R m", where ?'a = nat] by simp_all
  ultimately show ?thesis
    using assms(11) by (intro exI [of _ rs]) (simp add: queries_query_def queries_count_def plain_query_def)
qed

section \<open>A store with one record\<close>

definition one_value :: cell_value where
  "one_value = cv_from \<lparr>ref_ty = Uint W4, ref_value = [0, 0, 0, 7], ref_indexable = True\<rparr>"

definition one_cells :: "(cell_key \<times> cell_value) list" where
  "one_cells = om_put allocator_key (from_u64 (FIRST_USER_RECORD_ID + 1)) (om_put (binding demo_record_key) (from_u64 FIRST_USER_RECORD_ID)
    (om_put (CellKey FIRST_USER_RECORD_ID name_KEY) (from_bytes32 (key_bytes demo_record_key))
    (om_put (CellKey FIRST_USER_RECORD_ID (ascii ''a'')) one_value (initial_cells demo_genesis))))"

definition one_database :: database where
  "one_database = \<lparr>db_limits = genesis_limits demo_genesis, db_next = FIRST_USER_RECORD_ID + 1,
    db_records = [demo_record_key \<mapsto> [ascii ''a'' \<mapsto> one_value, name_KEY \<mapsto> from_bytes32 (key_bytes demo_record_key)]]\<rparr>"

definition one_store :: memory_store where
  "one_store = new_store\<lparr>memory_store.committed := om_put SUPERBLOCK [(HEAD_KEY, head_row demo_head)]
    (om_put CELL (map cell_entry one_cells) (tx_state demo_tx2))\<rparr>"

lemma one_value_parts: "cv_ok one_value" "cv_is_indexable one_value" "cv_ty one_value = Uint W4" "cv_value one_value = [0, 0, 0, 7]"
proof -
  show "cv_ok one_value"
    unfolding one_value_def cv_ok_from by (simp add: ref_valid_def ref_new_def typed_defs)
qed (simp_all add: one_value_def cv_is_indexable_def cv_value_def cv_from_def ref_encode_eq ref_metadata_masks)

lemma one_database_at: "database_at (om_get one_cells) one_database"
proof -
  obtain ids where ids: "records_at (om_get (initial_cells demo_genesis)) (genesis_limits demo_genesis) FIRST_USER_RECORD_ID ids"
      "user_records (om_get (initial_cells demo_genesis)) ids = Map.empty"
    using genesis_database [of demo_genesis] by (auto simp: database_at_def empty_database_def)
  have none: "ids demo_record_key = None"
    using fun_cong [OF ids(2), of demo_record_key] demo_key_free(2) by (simp add: user_records_def)
  have last: "FIRST_USER_RECORD_ID \<noteq> - 1" "distinct (map fst [(ascii ''a'', one_value)])"
    by (simp_all add: FIRST_USER_RECORD_ID_def)
  have "om_get one_cells = (put_all (map (\<lambda>(name, v). (CellKey FIRST_USER_RECORD_ID name, Some v)) [(ascii ''a'', one_value)]) (om_get (initial_cells demo_genesis)))
    (CellKey FIRST_USER_RECORD_ID name_KEY \<mapsto> from_bytes32 (key_bytes demo_record_key), binding demo_record_key \<mapsto> from_u64 FIRST_USER_RECORD_ID,
      allocator_key \<mapsto> from_u64 (FIRST_USER_RECORD_ID + 1))"
    by (simp add: one_cells_def put_all_def fun_eq_iff)
  with create_keeps [OF ids(1) demo_key_free none last] show ?thesis
    by (auto simp: database_at_def one_database_def ids(2))
qed

lemma name_a: "user_name (ascii ''a'')"
  by (simp add: user_name_def ascii_def name_body_def is_ascii_alphabetic_def is_rest_def)

lemma one_index: "index_of (om_get one_cells) = (\<lambda>_. {})(demo_term := {64})"
proof -
  have a: "cell_term (CellKey FIRST_USER_RECORD_ID (ascii ''a'')) one_value = Some demo_term"
    using name_a one_value_parts by (simp add: cell_term_def demo_term_def cv_value_def indexable_type_def)
  have "opt_term k (om_get one_cells k) = (if k = CellKey FIRST_USER_RECORD_ID (ascii ''a'') then Some demo_term else None)" for k
  proof -
    have "om_get one_cells k = Some v \<Longrightarrow> cv_is_indexable v \<Longrightarrow> k = CellKey FIRST_USER_RECORD_ID (ascii ''a'')" for v
      using initial_values_plain [of demo_genesis k v] by (auto simp: one_cells_def split: if_splits)
    moreover have "om_get one_cells (CellKey FIRST_USER_RECORD_ID (ascii ''a'')) = Some one_value"
      using user_record_keys [of "CellKey FIRST_USER_RECORD_ID (ascii ''a'')"] by (simp add: one_cells_def name_KEY_def ascii_def)
    ultimately show ?thesis
      using a by (cases "om_get one_cells k") (auto simp: opt_term_def cell_term_def split: if_splits)
  qed
  then show ?thesis
    by (auto simp: fun_eq_iff index_of_mem FIRST_USER_RECORD_ID_def split: if_splits)
qed

lemma one_snapshot:
  "\<not> committed_poisoned one_store" "mem_ok (committed_tx one_store)" "head_at mem_view (committed_tx one_store) demo_head"
  "cell_rows (om_get one_cells) (mem_view (committed_tx one_store) CELL)"
  "index_at mem_view list_roaring demo_hash set (committed_tx one_store) (RootLeaf demo_leaf) (index_of (om_get one_cells))"
proof -
  have ok: "om_ok one_cells"
    by (simp add: one_cells_def initial_cells_ok)
  have vals: "cv_ok (snd x)" if "x \<in> set one_cells" for x
  proof -
    have "om_get one_cells (fst x) = Some (snd x)"
      using om_get_iff [OF ok, of "fst x" "snd x"] that by simp
    moreover have "cv_ok v" if "om_get (initial_cells demo_genesis) k = Some v" for k v
      using initial_values_ok [of "(k, v)" demo_genesis] om_get_iff [OF initial_cells_ok] that by fastforce
    moreover have "cv_ok (from_bytes32 (key_bytes demo_record_key))"
      using demo_key_free(1) by simp
    ultimately show ?thesis
      using one_value_parts(1) engine_values(7) [of FIRST_USER_RECORD_ID] engine_values(7) [of "FIRST_USER_RECORD_ID + 1"]
      by (auto simp: one_cells_def simp del: engine_values split: if_splits)
  qed
  note rows = cell_entries [OF ok vals]
  have view: "mem_view (committed_tx one_store) SUPERBLOCK = [(HEAD_KEY, head_row demo_head)]"
      "mem_view (committed_tx one_store) CELL = map cell_entry one_cells"
      "\<forall>t \<in> {INDEX, INDEX_TRIE, BITMAP_CONTAINER, BITMAP_TRIE}. mem_view (committed_tx one_store) t = mem_view demo_tx2 t"
    using superblock_tables(4) changed_tables(1) superblock_tables(2) [symmetric]
    by (auto simp: one_store_def mem_view_def table_rows_def)
  show "\<not> committed_poisoned one_store"
    by (simp add: one_store_def new_store_def)
  have "mem_state_ok (tx_state demo_tx2)"
    using demo_index_at(1) by (simp add: mem_ok_def)
  then show "mem_ok (committed_tx one_store)"
    unfolding mem_ok_def one_store_def by (auto intro!: mem_state_ok_put rows(1) simp: om_ok_Cons)
  show "head_at mem_view (committed_tx one_store) demo_head"
    using demo_hash_ok by (simp add: head_at_def view head_ok_def demo_head_def hash_ok_def)
  show "cell_rows (om_get one_cells) (mem_view (committed_tx one_store) CELL)"
    unfolding view(2) by (rule rows(2))
  show "index_at mem_view list_roaring demo_hash set (committed_tx one_store) (RootLeaf demo_leaf) (index_of (om_get one_cells))"
    unfolding one_index using demo_index_at(2) by (subst index_at_cong [where view = mem_view and tx = demo_tx2]) (rule view(3))
qed

section \<open>Properties\<close>

text \<open>C4. A query is exact. On a committed state whose cells hold a database and whose index is the index of those cells, an
  admitted query with no sort, limit or offset ends with a page evaluated at the head: it holds every record of the database
  whose attribute lies in the filter, each once, and no other, in record ID order, each with its projected cells; the total,
  when asked for, and the count of the same filter are the number of these records, which a \<^verbatim>\<open>u64\<close> holds.\<close>

theorem query_exact:
  fixes R :: "('b, 't, 'io) roaring"
  assumes "roaring_ok R rset tset" "hash_ok H" "\<not> committed_poisoned store" "mem_ok (committed_tx store)"
    "head_at mem_view (committed_tx store) h" "cell_rows c (mem_view (committed_tx store) CELL)"
    "index_at mem_view R H rset (committed_tx store) iroot (index_of c)" "database_at c d"
    "commit = None \<or> commit = Some (hd_commit_id h)" "admissible (qo_filter op)" "plain_query op"
  shows "\<exists>rs. queries_query R H store commit op = Some (Inr \<lparr>qp_records = rs,
      qp_total_matched = (if qo_with_total op then Some (of_nat (length rs)) else None), qp_evaluated_at = hd_commit_id h\<rparr>) \<and>
    queries_count R H store commit \<lparr>co_filter = qo_filter op, co_budget = b\<rparr> = Some (Inr (of_nat (length rs))) \<and>
    page_of (qo_filter op) (qo_projection op) d rs \<and> id_ordered c rs \<and> length rs < 2 ^ 64"
  by (rule query_page_law [OF assms])

definition one_range :: query_filter where
  "one_range = FilterRange (ascii ''a'') (Included one_value) Unbounded"

lemma one_matches: "admissible one_range" "{key. \<exists>x. db_records one_database key = Some x \<and> record_matches one_range x} = {demo_record_key}"
proof -
  show "admissible one_range"
    using name_a one_value_parts(3) by (auto simp: one_range_def bounds_of_type_def indexable_type_def)
  have "name_KEY \<noteq> ascii ''a''"
    by (simp add: name_KEY_def ascii_def)
  then have "record_matches one_range [ascii ''a'' \<mapsto> one_value, name_KEY \<mapsto> from_bytes32 (key_bytes demo_record_key)]"
    using one_value_parts(2) by (simp add: record_matches_def one_range_def in_range_def above_bound_def below_bound_def)
  then show "{key. \<exists>x. db_records one_database key = Some x \<and> record_matches one_range x} = {demo_record_key}"
    by (auto simp: one_database_def split: if_splits)
qed

lemma one_key_page: "distinct (map rec_key rs) \<Longrightarrow> rec_key ` set rs = {key} \<Longrightarrow> \<exists>r. rs = [r] \<and> rec_key r = key"
  by (cases rs rule: list.exhaust; cases "tl rs") auto

theorem query_exact_witness:
  "\<exists>r. queries_query list_roaring demo_hash one_store None (query_with_total (query_from_filter one_range)) =
      Some (Inr \<lparr>qp_records = [r], qp_total_matched = Some 1, qp_evaluated_at = GENESIS\<rparr>) \<and>
    queries_count list_roaring demo_hash one_store None (count_filter one_range) = Some (Inr 1) \<and>
    rec_key r = demo_record_key \<and> om_get (rec_cells r) (ascii ''a'') = Some one_value"
proof -
  let ?op = "query_with_total (query_from_filter one_range)"
  have op: "admissible (qo_filter ?op)" "plain_query ?op" "hd_commit_id demo_head = GENESIS"
    using one_matches(1) by (simp_all add: query_with_total_def query_from_filter_def plain_query_def demo_head_def GENESIS_def)
  obtain rs where rs: "queries_query list_roaring demo_hash one_store None ?op = Some (Inr \<lparr>qp_records = rs,
      qp_total_matched = Some (of_nat (length rs)), qp_evaluated_at = GENESIS\<rparr>)"
      "queries_count list_roaring demo_hash one_store None (count_filter one_range) = Some (Inr (of_nat (length rs)))"
      "page_of one_range None one_database rs"
    using query_exact [OF list_roaring_ok demo_hash_ok one_snapshot one_database_at _ op(1,2), of None None] op(3)
    by (auto simp: query_with_total_def query_from_filter_def count_filter_def)
  obtain r where r: "rs = [r]" "rec_key r = demo_record_key"
    using rs(3) one_key_page [of rs demo_record_key] unfolding page_of_def one_matches(2) by blast
  moreover have "name_KEY \<noteq> ascii ''a''"
    by (simp add: name_KEY_def ascii_def)
  ultimately have "om_get (rec_cells r) (ascii ''a'') = Some one_value"
    using rs(3) by (simp add: page_of_def one_database_def cells_are_def project_def)
  with rs(1,2) r show ?thesis
    by (intro exI [of _ r]) simp
qed

theorem query_errors_witness:
  "queries_query list_roaring demo_hash one_store None (query_limit (query_from_filter one_range) 3) =
      Some (Inl (QueryNotImplemented ''query: limit'')) \<and>
    (\<exists>reason. queries_count list_roaring demo_hash one_store (Some (CommitId 9)) (count_filter (FilterRange (ascii ''a'') Unbounded Unbounded)) =
      Some (Inl (InvalidQuery reason))) \<and>
    queries_count list_roaring demo_hash one_store (Some (CommitId 9)) (count_filter one_range) =
      Some (Inl (QueryCommitUnavailable (CommitId 9) GENESIS))"
proof -
  note errors = query_errors [where R = list_roaring and H = demo_hash and store = one_store]
  have "hd_commit_id demo_head = GENESIS" "CommitId 9 \<noteq> GENESIS"
    by (simp_all add: demo_head_def GENESIS_def)
  then have late: "queries_count list_roaring demo_hash one_store (Some (CommitId 9)) (count_filter one_range) =
      Some (Inl (QueryCommitUnavailable (CommitId 9) GENESIS))"
    using errors [where f = one_range and h = demo_head and n = "CommitId 9" and b = None] one_matches(1) one_snapshot(1-3)
    by (simp add: count_filter_def)
  have limit: "queries_query list_roaring demo_hash one_store None (query_limit (query_from_filter one_range) 3) =
      Some (Inl (QueryNotImplemented ''query: limit''))"
    using errors [where op = "query_limit (query_from_filter one_range) 3"] by (simp add: query_limit_def query_from_filter_def)
  let ?f = "FilterRange (ascii ''a'') Unbounded Unbounded"
  have "malformed ?f" "\<not> admissible ?f"
    by (simp_all add: bounds_of_type_def)
  then have "\<exists>reason. queries_count list_roaring demo_hash one_store (Some (CommitId 9)) (count_filter ?f) = Some (Inl (InvalidQuery reason))"
    using errors [where f = ?f] unfolding count_filter_def by metis
  with late limit show ?thesis
    by blast
qed



end
