(* ===== verification/Api_Open.thy ===== *)
theory Api_Open
  imports Record_Reads
begin

text \<open>
  Opening a database over the memory backend: creation gives the genesis state, reopening accepts every consistent
  state of the same genesis and changes nothing, and a store of another genesis is refused.
\<close>

section \<open>Metadata rows\<close>

definition metadata_rows :: "genesis \<Rightarrow> hash \<Rightarrow> (bytes \<times> bytes) list" where
  "metadata_rows g genesis_id = [(FORMAT_KEY, to_be FORMAT), (HASH_FN_KEY, to_be (hash_id (hash_function g))),
    (ROARING_KEY, to_be ROARING), (GENESIS_ID_KEY, genesis_id)]"

definition metadata_at :: "('tx \<Rightarrow> table \<Rightarrow> rows) \<Rightarrow> 'tx \<Rightarrow> genesis \<Rightarrow> hash \<Rightarrow> bool" where
  "metadata_at view tx g genesis_id \<longleftrightarrow> (\<forall>(key, value) \<in> set (metadata_rows g genesis_id). om_get (view tx SUPERBLOCK) key = Some value)"

lemma superblock_keys: "distinct [HEAD_KEY, FORMAT_KEY, HASH_FN_KEY, ROARING_KEY, GENESIS_ID_KEY]"
  by (simp add: HEAD_KEY_def FORMAT_KEY_def HASH_FN_KEY_def ROARING_KEY_def GENESIS_ID_KEY_def ascii_def)

context write_tx
begin

lemma put_rows_law:
  assumes "tx_ok tx" "table_ok t"
  shows "\<exists>tx'. try_fold (\<lambda>(key, value) tx. tx_put ops tx t key value) kvs tx = Inr tx' \<and> tx_ok tx' \<and>
    (\<forall>t'. t' \<noteq> t \<longrightarrow> view tx' t' = view tx t') \<and> om_get (view tx' t) = fold (\<lambda>(key, value) m. m(key \<mapsto> value)) kvs (om_get (view tx t))"
  using assms(1)
proof (induction kvs arbitrary: tx)
  case (Cons kv kvs)
  obtain k v where kv: "kv = (k, v)"
    by (cases kv)
  obtain tx1 where tx1: "tx_put ops tx t k v = Inr tx1" "tx_ok tx1" "view tx1 = (view tx)(t := om_put k v (view tx t))"
    using put_law [OF Cons.prems assms(2)] by blast
  then show ?case
    using Cons.IH [OF tx1(2)] by (auto simp: kv)
qed simp

lemma write_metadata_law:
  assumes "tx_ok tx"
  shows "\<exists>tx'. write_metadata ops tx g genesis_id = (Inr tx' :: 'io open_error + _) \<and> tx_ok tx' \<and> metadata_at view tx' g genesis_id \<and>
    (\<forall>t. t \<noteq> SUPERBLOCK \<longrightarrow> view tx' t = view tx t)"
proof -
  obtain tx' where tx': "try_fold (\<lambda>(key, value) tx. tx_put ops tx SUPERBLOCK key value) (metadata_rows g genesis_id) tx = Inr tx'" "tx_ok tx'"
      "\<forall>t. t \<noteq> SUPERBLOCK \<longrightarrow> view tx' t = view tx t"
      "om_get (view tx' SUPERBLOCK) = fold (\<lambda>(key, value) m. m(key \<mapsto> value)) (metadata_rows g genesis_id) (om_get (view tx SUPERBLOCK))"
    using put_rows_law [OF assms superblock_tables(1)] by blast
  have "metadata_at view tx' g genesis_id"
    using superblock_keys by (simp add: metadata_at_def tx'(4) metadata_rows_def)
  then show ?thesis
    using tx'(1-3) by (simp add: write_metadata_def metadata_rows_def)
qed

end

section \<open>Creation\<close>

abbreviation put_cells :: "(cell_key, cell_value) omap \<Rightarrow> cell_change list" where
  "put_cells cs \<equiv> map (\<lambda>(key, value). CellPut key value) cs"

lemma put_cells_entries: "map change_entry (put_cells cs) = map (\<lambda>x. (fst x, Some (snd x))) cs"
  by (auto simp: change_entry_def)

lemma put_cells_keys: "fst ` change_entry ` set (put_cells cs) = fst ` set cs"
  by (auto simp: image_image change_entry_def image_iff split: prod.splits) force+

lemma genesis_index: "index_of (om_get (initial_cells g)) = (\<lambda>_. {})"
  using initial_values_plain by (fastforce simp: index_of_def cell_term_def fun_eq_iff)

lemma prepare_creates:
  fixes R :: "('b, 't, 'io) roaring"
  assumes "hash_ok H" "no_collision H (fst ` set (initial_cells (oc_genesis config)))" "oc_mode config \<noteq> ExistingOnly"
  shows "case prepare mem_ops H \<lparr>tx_state = []\<rparr> config :: 'io open_error + _ of
      Inl e \<Rightarrow> e = OpenCells (CellMerkle ConflictingBranch)
    | Inr (info, tx') \<Rightarrow> \<exists>h croot. info = open_info_new True h (identity (oc_genesis config) (initial_cells (oc_genesis config)) H) \<and>
        hd_commit_id h = GENESIS \<and> mem_ok tx' \<and>
        committed_at mem_view R H rset tx' h (om_get (initial_cells (oc_genesis config))) croot RootEmpty \<and>
        metadata_at mem_view tx' (oc_genesis config) (identity (oc_genesis config) (initial_cells (oc_genesis config)) H)"
proof -
  let ?g = "oc_genesis config" and ?tx0 = "\<lparr>tx_state = []\<rparr>"
  let ?cells = "initial_cells ?g"
  let ?id = "identity ?g ?cells H"
  obtain tx1 where tx1: "write_metadata mem_ops ?tx0 ?g ?id = (Inr tx1 :: 'io open_error + _)" "mem_ok tx1" "metadata_at mem_view tx1 ?g ?id"
      "\<forall>t. t \<noteq> SUPERBLOCK \<longrightarrow> mem_view tx1 t = []"
    using mem.write_metadata_law [OF mem_ok_empty, of ?g ?id] by auto
  have empty: "cells_at mem_view tx1 H RootEmpty Map.empty"
    using tx1(4) superblock_tables(2) by (intro cells_at_empty) metis
  have ok: "\<forall>ch \<in> set (put_cells ?cells). change_ok ch"
    using initial_values_ok by (auto simp: change_ok_def change_entry_def)
  have "no_collision H (dom Map.empty \<union> fst ` change_entry ` set (put_cells ?cells))"
    using assms(2) by (simp only: put_cells_keys dom_empty Un_empty_left)
  note law = mem.cells_apply_law [OF assms(1) tx1(2) empty this ok]
  have map: "apply_changes (put_cells ?cells) Map.empty = om_get ?cells"
    unfolding apply_changes_put_all put_cells_entries by (rule put_all_genesis)
  have start: "prepare mem_ops H ?tx0 config = (attempt (map_err OpenCells (cells_apply mem_ops H tx1 RootEmpty (put_cells ?cells))) (\<lambda>(update, tx).
      let h = \<lparr>hd_commit_id = GENESIS, hd_state_root = root_hash H (cu_root update), hd_index_root = H []\<rparr> in
      attempt (map_err OpenBranch (write_head mem_ops tx h)) (\<lambda>tx. Inr (open_info_new True h ?id, tx))) :: 'io open_error + _)"
    using assms(3) mem.get_law [OF mem_ok_empty superblock_tables(1), of HEAD_KEY] tx1(1)
    by (simp add: prepare_def Let_def mem_ops_def mem_is_empty_def case_prod_unfold)
  show ?thesis
  proof (cases "cells_apply mem_ops H tx1 RootEmpty (put_cells ?cells)")
    case (Inl e)
    then show ?thesis
      using law by (simp add: start)
  next
    case (Inr r)
    obtain u tx2 where r: "r = (u, tx2)"
      by (cases r)
    have u: "mem_ok tx2" "cells_at mem_view tx2 H (cu_root u) (om_get ?cells)" "\<forall>t. t \<noteq> CELL \<longrightarrow> t \<noteq> CELL_TRIE \<longrightarrow> mem_view tx2 t = mem_view tx1 t"
      using law unfolding map by (simp_all add: Inr r)
    let ?h = "\<lparr>hd_commit_id = GENESIS, hd_state_root = root_hash H (cu_root u), hd_index_root = H []\<rparr>"
    have "head_ok ?h"
      using u(2) assms(1) root_hash_length [OF assms(1) cell_trie_ok [OF assms(1)]] by (auto simp: head_ok_def cells_at_def hash_ok_def)
    then obtain tx3 where tx3: "write_head mem_ops tx2 ?h = (Inr tx3 :: 'io branch_error + _)" "mem_ok tx3" "head_at mem_view tx3 ?h"
        "mem_view tx3 = (mem_view tx2)(SUPERBLOCK := om_put HEAD_KEY (head_row ?h) (mem_view tx2 SUPERBLOCK))"
      using mem.write_head_law [OF u(1)] by blast
    have index: "index_at mem_view R H rset tx3 RootEmpty (index_of (om_get ?cells))"
      unfolding genesis_index using u(3) tx1(4) superblock_tables(4) changed_tables
      by (subst index_at_cong [where view = mem_view and tx = ?tx0]) (auto simp: tx3(4) intro!: index_at_empty)
    have cells: "cells_at mem_view tx3 H (cu_root u) (om_get ?cells)"
      using u(2) superblock_tables(2,3) [symmetric] by (subst cells_at_cong [where view = mem_view and tx = tx2]) (auto simp: tx3(4))
    have "committed_at mem_view R H rset tx3 ?h (om_get ?cells) (cu_root u) RootEmpty"
      using tx3(3) cells index initial_values_plain by (auto simp: committed_at_def root_hash_def hash_parts_def indexable_ok_def)
    moreover have "metadata_at mem_view tx3 ?g ?id"
      using tx1(3) u(3) superblock_keys superblock_tables(2,3) by (auto simp: metadata_at_def metadata_rows_def tx3(4))
    ultimately show ?thesis
      using tx3(1,2) by (auto simp: start Inr r Let_def)
  qed
qed

section \<open>Validation\<close>

text \<open>What validation asks of the cells of a version: the engine's cells of genesis, the allocator apart; at genesis no other
  cells, and afterwards the roots of the commit before.\<close>

definition previous_key :: "head \<Rightarrow> cell_key" where
  "previous_key h = CellKey (sys_id ROOTS) (to_be (commit_num (hd_commit_id h) - 1))"

definition roots_cell :: "cell_value \<Rightarrow> bool" where
  "roots_cell v \<longleftrightarrow> \<not> cv_is_indexable v \<and> (\<exists>bs. cv_as_bytes v = Some bs \<and> length bs = 64)"

definition engine_cells :: "genesis \<Rightarrow> head \<Rightarrow> (cell_key \<rightharpoonup> cell_value) \<Rightarrow> bool" where
  "engine_cells g h c \<longleftrightarrow> (\<forall>k v. om_get (initial_cells g) k = Some v \<longrightarrow> k \<noteq> allocator_key \<longrightarrow> c k = Some v) \<and>
    (if hd_commit_id h = GENESIS then c = om_get (initial_cells g) else \<exists>v. c (previous_key h) = Some v \<and> roots_cell v)"

lemma cell_rows_unique:
  assumes "om_ok rs" "cell_rows (om_get cs) rs" "om_ok cs" "\<And>x. x \<in> set cs \<Longrightarrow> cv_ok (snd x)"
  shows "rs = map cell_entry cs"
  using cell_entries [OF assms(3,4)] assms(2) by (intro om_eqI [OF assms(1)]) (auto simp: cell_rows_def fun_eq_iff)

lemma index_empty_root:
  assumes "index_at view R H rset tx root (\<lambda>_. {})"
  shows "root = RootEmpty"
proof -
  have none: "term_roots view tx = Map.empty"
    by (rule ext) (use index_at_dom [OF assms] in blast)
  obtain m where "committed (routing_path H) (term_leaf_hash H) (term_roots view tx) m"
      "represents (index_trie H) (branch_rows view (index_trie H) tx) [] root m"
    using assms unfolding index_at_def index_commits_def by blast
  moreover from this(1) have "m = Map.empty"
    unfolding none by (auto simp: committed_def fun_eq_iff)
  ultimately show ?thesis
    using represents_empty_iff by blast
qed

context read_tx
begin

lemma take_rows_law:
  assumes "cur_ok c" "cur_view c = (rs, pos)" "om_ok rs" "n \<le> length (rows_after pos rs)"
  shows "\<exists>c' pos'. take_rows ops n c = (Inr c' :: 'io open_error + _) \<and> cur_ok c' \<and> cur_view c' = (rs, pos') \<and> rows_after pos' rs = drop n (rows_after pos rs)"
  using assms
proof (induction n arbitrary: c pos)
  case (Suc n)
  obtain e es where es: "rows_after pos rs = e # es"
    using Suc.prems(4) by (cases "rows_after pos rs") auto
  obtain c' pos' where c': "cur_next ops c = Inr (Some e, c')" "cur_ok c'" "cur_view c' = (rs, pos')" "rows_after pos' rs = es"
    using next_walk [OF Suc.prems(1-3)] by (auto simp: es)
  then show ?case
    using Suc.IH [OF c'(2,3) assms(3)] Suc.prems(4) by (auto simp: es ok_or_def)
qed simp

lemma genesis_exact_law:
  assumes "tx_ok tx" "length (view tx CELL) = n" "hd_index_root h = H []"
  shows "genesis_exact ops H tx h n = (Inr () :: 'io open_error + _)"
proof -
  obtain c where c: "tx_cursor ops tx CELL [] = Inr c" "cur_ok c" "cur_view c = (view tx CELL, Key [])"
    using cursor_law [OF assms(1) table_names(1)] by blast
  have all: "rows_after (Key []) (view tx CELL) = view tx CELL"
    by (simp add: rows_after_def)
  obtain c' pos' where c': "take_rows ops n c = (Inr c' :: 'io open_error + _)" "cur_ok c'" "cur_view c' = (view tx CELL, pos')" "rows_after pos' (view tx CELL) = []"
    using take_rows_law [OF c(2,3) view_ok [OF assms(1)], of n] assms(2) unfolding all by auto
  obtain c2 where "cur_next ops c' = Inr (None, c2)"
    using next_walk [OF c'(2,3) view_ok [OF assms(1)]] c'(4) by auto
  then show ?thesis
    using assms(3) c(1) c'(1) by (simp add: genesis_exact_def)
qed

lemma next_record_free:
  assumes "tx_ok tx" "cell_rows c (view tx CELL)" "\<And>k. record_id k = rid \<Longrightarrow> c k = None"
  shows "\<exists>s. scan_record ops tx rid = Inr s \<and> fst (cell_scan_next ops s) = None"
proof -
  obtain s rows where s: "scan_record ops tx rid = Inr s" "cell_scan_collect ops s = Some (Inr rows)"
      "set rows = {(k, v). c k = Some v \<and> record_id k = rid}"
    by (rule scan_record_law [OF assms(1,2)])
  have "set rows = {}"
    unfolding s(3) using assms(3) by fastforce
  then have "rows = []"
    by simp
  then have "fst (cell_scan_next ops s) = None"
    using s(2) by (subst (asm) cell_scan_collect.simps)
      (auto simp: try_simps split: prod.splits option.splits sum.splits bind_splits)
  then show ?thesis
    using s(1) by blast
qed

end

section \<open>Checking cells against their trie\<close>

context write_tx
begin

lemma trie_apply_nothing:
  assumes "trie_ok tr" "tx_ok tx" "represents tr (branch_rows view tr tx) [] root m"
  shows "trie_apply ops tr tx root [] = Inr (root, tx)"
proof (cases root)
  case RootEmpty
  then show ?thesis
    by (simp add: trie_apply_def, subst apply_at.simps) (simp add: trie_rebuild_def, subst trie_build.simps, simp add: store_edited_def map_filter_def)
next
  case (RootLeaf l)
  then show ?thesis
    by (simp add: trie_apply_def, subst apply_at.simps) (simp add: trie_rebuild_def, subst trie_build.simps, simp add: store_edited_def map_filter_def)
next
  case (RootBranch h)
  obtain node where "trie_load ops tr tx h [] = Inr node"
    using load_represented [OF assms(1,2) assms(3) [unfolded RootBranch]] by blast
  then show ?thesis
    by (simp add: trie_apply_def RootBranch, subst apply_at.simps)
      (simp, subst apply_rest.simps, simp add: split_prefix_def following_def rposition_def store_edited_def list_all2_conv_all_nth)
qed

lemma cells_apply_same:
  assumes "hash_ok H" "tx_ok tx" "cells_at view tx H root c" "no_collision H (dom c)" "\<And>k v. (k, v) \<in> set cs \<Longrightarrow> c k = Some v"
  shows "\<exists>u. cells_apply ops H tx root (put_cells cs) = Inr (u, tx)"
proof -
  have keys: "fst ` set (normalize_changes (put_cells cs)) = fst ` set cs"
    unfolding normalize_keys by (rule put_cells_keys)
  have "dom c \<union> fst ` set cs = dom c"
    using assms(5) by force
  then have "no_collision H (dom c \<union> fst ` set (normalize_changes (put_cells cs)))"
    using assms(4) by (simp add: keys)
  then obtain checked where checked: "try_map (\<lambda>(k, x). check_change ops H tx root k x) (normalize_changes (put_cells cs)) = Inr checked"
      "List.map_filter id checked = map (\<lambda>(k, x). (key_encode k, \<lparr>ch_key = k, ch_before = c k, ch_after = x\<rparr>)) (net_changes c (put_cells cs))"
    using check_changes_law [OF assms(1-3)] unfolding net_changes_def by blast
  have "apply_changes (put_cells cs) c = c"
    using assms(5) by (induction cs) (auto simp: apply_changes_def apply_change_def change_entry_def fun_upd_idem)
  then have "(k, x) \<notin> set (net_changes c (put_cells cs))" for k x
    by (auto simp: net_changes_exact(2))
  then have "net_changes c (put_cells cs) = []"
    by (metis list.set_intros(1) neq_Nil_conv surj_pair)
  moreover obtain m where "represents (cell_trie H) (branch_rows view (cell_trie H) tx) [] root m"
    using assms(3) by (auto simp: cells_at_def)
  ultimately show ?thesis
    using checked trie_apply_nothing [OF cell_trie_ok [OF assms(1)] assms(2)]
    by (simp add: cells_apply_def Let_def cell_set_def write_values_def)
qed

lemma validate_law:
  fixes R :: "('b, 't, 'io) roaring"
  assumes "hash_ok H" "tx_ok tx" "committed_at view R H rset tx h c croot iroot" "database_at c d" "engine_cells g h c" "no_collision H (dom c)"
    "inj_on (routing_path H) {t. index_of c t \<noteq> {}}" "root_distinct view H tx CELL_TRIE croot" "root_distinct view H tx INDEX_TRIE iroot"
  shows "validate_state ops H tx h (initial_cells g) = (Inr tx :: 'io open_error + _)"
proof -
  have at: "cells_at view tx H croot c" "hd_state_root h = root_hash H croot" "index_at view R H rset tx iroot (index_of c)" "hd_index_root h = root_hash H iroot"
    using assms(3) by (simp_all add: committed_at_def)
  have rows: "cell_rows c (view tx CELL)"
    using at(1) by (simp add: cells_at_def)
  have get: "cells_get ops tx k = Inr (c k)" for k
    by (simp add: cells_get_def read_value_law [OF assms(2) rows])
  have cells: "cell_reopen ops H tx (hd_state_root h) = Inr croot"
    unfolding at(2) using assms(8) by (intro reopen_law [OF assms(1,2) at(1) assms(6)]) (auto simp: root_distinct_def)
  have index: "index_reopen ops H tx (hd_index_root h) = (Inr iroot :: 'io index_error + _)"
    unfolding at(4) using assms(9) by (intro index_reopen_law [OF assms(1,2) at(3) assms(7)]) (auto simp: root_distinct_def)
  obtain ids where ids: "records_at c (db_limits d) (db_next d) ids"
    using assms(4) by (auto simp: database_at_def)
  let ?n = "db_next d"
  have alloc: "c allocator_key = Some (from_u64 ?n)" "FIRST_USER_RECORD_ID \<le> ?n"
    using ids by (simp_all add: records_at_def)
  have alloc_val: "allocator_value (from_u64 ?n) = (Inr ?n :: 'io open_error + _)"
    using alloc(2) by (simp add: allocator_value_def ok_or_def)
  have genesis: "?n = FIRST_USER_RECORD_ID" if "hd_commit_id h = GENESIS"
  proof -
    have "from_u64 ?n = from_u64 FIRST_USER_RECORD_ID"
      using assms(5) that alloc(1) by (simp add: engine_cells_def initial_cells_map)
    then show ?thesis
      by (metis engine_values(1) option.inject)
  qed
  obtain s where s: "scan_record ops tx ?n = Inr s" "fst (cell_scan_next ops s) = None"
    using next_record_free [OF assms(2) rows, of ?n] free_record [OF ids] by (metis cell_key.collapse)
  let ?expected = "om_put allocator_key (from_u64 ?n) (initial_cells g)"
  have ok: "om_ok ?expected"
    by (simp add: initial_cells_ok)
  have expected: "c k = Some v" if "(k, v) \<in> set ?expected" for k v
    using om_get_iff [OF ok, of k v] that alloc(1) assms(5) by (auto simp: engine_cells_def split: if_splits)
  have check: "try_fold (\<lambda>(key, value) _. if c key \<noteq> Some value then Inl (OpenCorruptState reason) else Inr ()) es () = (Inr () :: 'io open_error + _)"
    if "\<And>k v. (k, v) \<in> set es \<Longrightarrow> c k = Some v" for es reason
    using that by (induction es) auto
  have same: "\<exists>u. cells_apply ops H tx croot (put_cells es) = Inr (u, tx)" if "\<And>k v. (k, v) \<in> set es \<Longrightarrow> c k = Some v" for es
    using that by (rule cells_apply_same [OF assms(1,2) at(1) assms(6)])
  have not_advanced: "(hd_commit_id h = GENESIS \<and> ?n \<noteq> FIRST_USER_RECORD_ID) = False"
    using genesis by blast
  have start: "validate_state ops H tx h (initial_cells g) = (attempt (if hd_commit_id h = GENESIS
        then attempt (genesis_exact ops H tx h (length ?expected)) (\<lambda>_. Inr ?expected)
        else attempt (previous_roots ops tx h) (\<lambda>(key, v). Inr (om_put key v ?expected))) (\<lambda>expected.
      attempt (map_err OpenCells (cells_apply ops H tx croot (put_cells expected))) (\<lambda>(_, tx'). Inr tx')) :: 'io open_error + _)"
    by (simp add: not_advanced validate_state_def cells index get alloc(1) ok_or_def alloc_val s check [OF expected] Let_def)
  show ?thesis
  proof (cases "hd_commit_id h = GENESIS")
    case True
    then have c: "c = om_get (initial_cells g)"
      using assms(5) by (simp add: engine_cells_def)
    have all: "?expected = initial_cells g"
      using alloc(1) c by (intro om_put_same initial_cells_ok) simp
    have "view tx CELL = map cell_entry (initial_cells g)"
      using rows unfolding c by (intro cell_rows_unique view_ok assms(2) initial_cells_ok initial_values_ok)
    moreover have "hd_index_root h = H []"
      using index_empty_root [OF at(3) [unfolded c genesis_index]] at(4) by (simp add: root_hash_def hash_parts_def)
    ultimately have "genesis_exact ops H tx h (length ?expected) = (Inr () :: 'io open_error + _)"
      unfolding all by (intro genesis_exact_law assms(2)) simp_all
    then show ?thesis
      using same [of ?expected] expected by (auto simp: start True)
  next
    case False
    then obtain v where v: "c (previous_key h) = Some v" "roots_cell v"
      using assms(5) by (auto simp: engine_cells_def)
    then have "previous_roots ops tx h = (Inr (previous_key h, v) :: 'io open_error + _)"
      by (auto simp: previous_roots_def Let_def previous_key_def [symmetric] get ok_or_def roots_cell_def)
    moreover have "c k = Some x" if "(k, x) \<in> set (om_put (previous_key h) v ?expected)" for k x
      using that expected v(1) set_om_put [of "previous_key h" v ?expected] by auto
    ultimately show ?thesis
      using same [of "om_put (previous_key h) v ?expected"] False by (auto simp: start)
  qed
qed

end

section \<open>Opening an initialized store\<close>

lemma metadata_law:
  assumes "mem_ok tx" "metadata_at mem_view tx g genesis_id" "length genesis_id = 32"
  shows "metadata mem_ops 4 tx FORMAT_KEY = (Inr (to_be FORMAT) :: 'io open_error + _)"
    "metadata mem_ops 2 tx HASH_FN_KEY = (Inr (to_be (hash_id (hash_function g))) :: 'io open_error + _)"
    "metadata mem_ops 2 tx ROARING_KEY = (Inr (to_be ROARING) :: 'io open_error + _)"
    "metadata mem_ops 32 tx GENESIS_ID_KEY = (Inr genesis_id :: 'io open_error + _)"
proof -
  have row: "metadata mem_ops (length v) tx k = (Inr v :: 'io open_error + _)" if "(k, v) \<in> set (metadata_rows g genesis_id)" for k v
  proof -
    have "om_get (mem_view tx SUPERBLOCK) k = Some v"
      using assms(2) that by (auto simp: metadata_at_def)
    then show ?thesis
      using mem.get_law [OF assms(1) superblock_tables(1), of k] by (simp add: metadata_def ok_or_def)
  qed
  have sizes: "length (to_be FORMAT) = 4" "length (to_be (hash_id (hash_function g))) = 2" "length (to_be ROARING) = 2"
    by simp_all
  show "metadata mem_ops 4 tx FORMAT_KEY = (Inr (to_be FORMAT) :: 'io open_error + _)"
    using row [of FORMAT_KEY "to_be FORMAT"] unfolding sizes by (simp add: metadata_rows_def)
  show "metadata mem_ops 2 tx HASH_FN_KEY = (Inr (to_be (hash_id (hash_function g))) :: 'io open_error + _)"
    using row [of HASH_FN_KEY "to_be (hash_id (hash_function g))"] unfolding sizes by (simp add: metadata_rows_def)
  show "metadata mem_ops 2 tx ROARING_KEY = (Inr (to_be ROARING) :: 'io open_error + _)"
    using row [of ROARING_KEY "to_be ROARING"] unfolding sizes by (simp add: metadata_rows_def)
  show "metadata mem_ops 32 tx GENESIS_ID_KEY = (Inr genesis_id :: 'io open_error + _)"
    using row [of GENESIS_ID_KEY genesis_id] unfolding assms(3) by (simp add: metadata_rows_def)
qed

lemma prepare_initialized:
  assumes "mem_ok tx" "head_at mem_view tx h" "metadata_at mem_view tx g genesis_id" "length genesis_id = 32"
  shows "prepare mem_ops H tx config =
    (let cells = initial_cells (oc_genesis config); new_id = identity (oc_genesis config) cells H in
     if hash_function g \<noteq> hash_function (oc_genesis config) \<or> genesis_id \<noteq> new_id then Inl GenesisMismatch
     else attempt (validate_state mem_ops H tx h cells) (\<lambda>tx.
       if oc_mode config = CreateNew then Inl AlreadyInitialized else Inr (open_info_new False h new_id, tx)) :: 'io open_error + _)"
proof -
  have head: "tx_get mem_ops tx SUPERBLOCK HEAD_KEY = Inr (Some (head_row h))"
    using mem.get_law [OF assms(1) superblock_tables(1), of HEAD_KEY] assms(2) by (simp add: head_at_def)
  have ids: "hash_id a = 1 \<or> hash_id a = 2" "hash_id a = hash_id b \<longleftrightarrow> a = b" for a b
    by (cases a; cases b; simp add: hash_id_def)+
  show ?thesis
    unfolding prepare_def using ids(1) [of "hash_function g"] ids(2) [of "hash_function g" "hash_function (oc_genesis config)"]
    by (cases "hash_function g = hash_function (oc_genesis config)")
      (auto simp: Let_def head metadata_law [OF assms(1,3,4)] mem.read_head_state_law [OF assms(1,2)])
qed

lemma open_idle:
  assumes "store_idle store"
  shows "begin_write store = Some (Inr (store\<lparr>writer_held := True\<rparr>, \<lparr>tx_state = memory_store.committed store\<rparr>))"
    "mem_abort (store\<lparr>writer_held := True\<rparr>) = store"
    "mem_commit (store\<lparr>writer_held := True\<rparr>) tx = Inr (store\<lparr>memory_store.committed := tx_state tx\<rparr>)"
  using assms by (cases store; simp add: begin_write_def begin_read_def store_idle_def mem_abort_def mem_commit_def)+

section \<open>Properties\<close>

abbreviation genesis_id :: "(hash_algorithm \<Rightarrow> bytes \<Rightarrow> hash) \<Rightarrow> genesis \<Rightarrow> hash" where
  "genesis_id Hs g \<equiv> identity g (initial_cells g) (Hs (hash_function g))"

abbreviation config_for :: "genesis \<Rightarrow> open_mode \<Rightarrow> open_config" where
  "config_for g mode \<equiv> \<lparr>oc_genesis = g, oc_mode = mode\<rparr>"

lemma open_creates_law:
  fixes R :: "('b, 't, 'io) roaring"
  assumes "hash_ok (Hs (hash_function g))" "genesis_validate g (- 1) (- 1) = (Inr () :: 'io open_error + _)"
    "no_collision (Hs (hash_function g)) (fst ` set (initial_cells g))" "mode \<noteq> ExistingOnly"
  shows "case open_store Hs new_store (config_for g mode) :: (('io open_error + _) \<times> _) option of
      Some (Inr info, store) \<Rightarrow> \<exists>v m. info = open_info_new True (v_head v) (genesis_id Hs g) \<and> v_id v = GENESIS \<and>
        opened R (Hs (hash_function g)) rset store n v m \<and> v_cells v = om_get (initial_cells g) \<and> v_iroot v = RootEmpty \<and>
        metadata_at mem_view (snapshot m) g (genesis_id Hs g)
    | Some (Inl e, store) \<Rightarrow> e = OpenCells (CellMerkle ConflictingBranch) \<and> store = new_store
    | None \<Rightarrow> False"
proof -
  let ?H = "Hs (hash_function g)" and ?config = "config_for g mode"
  have idle: "store_idle new_store" "memory_store.committed new_store = []"
    by (simp_all add: new_store_def store_idle_def)
  note law = prepare_creates [of ?H ?config R rset, OF assms(1)]
  have eq: "open_store Hs new_store ?config = Some (case prepare mem_ops ?H \<lparr>tx_state = []\<rparr> ?config :: 'io open_error + _ of
      Inl e \<Rightarrow> (Inl e, new_store)
    | Inr (info, tx) \<Rightarrow> if oi_created info then (Inr info, new_store\<lparr>memory_store.committed := tx_state tx\<rparr>) else (Inr info, new_store))"
    using assms(2) by (simp add: open_store_def open_idle [OF idle(1)] idle(2) cong: if_cong split: sum.split prod.split)
  show ?thesis
  proof (cases "prepare mem_ops ?H \<lparr>tx_state = []\<rparr> ?config :: 'io open_error + _")
    case (Inl e)
    then show ?thesis
      using law assms(3,4) by (simp add: eq)
  next
    case (Inr r)
    obtain info tx where r: "r = (info, tx)"
      by (cases r)
    obtain h croot where h: "info = open_info_new True h (genesis_id Hs g)" "hd_commit_id h = GENESIS" "mem_ok tx"
        "committed_at mem_view R ?H rset tx h (om_get (initial_cells g)) croot RootEmpty" "metadata_at mem_view tx g (genesis_id Hs g)"
      using law assms(3,4) by (auto simp: Inr r)
    let ?store = "new_store\<lparr>memory_store.committed := tx_state tx\<rparr>"
    let ?v = "\<lparr>v_head = h, v_cells = om_get (initial_cells g), v_croot = croot, v_iroot = RootEmpty\<rparr>"
    let ?m = "\<lparr>bm_store = ?store, bm_branches = [], bm_next_id = n\<rparr>"
    have tx: "\<lparr>tx_state = tx_state tx\<rparr> = tx"
      by simp
    have "head_at mem_view tx h"
      using h(4) by (simp add: committed_at_def)
    then have "branches_new ?store n = (Inr ?m :: 'io branch_error + _)"
      by (simp add: branches_new_def store_head_def begin_read_def new_store_def tx memr.read_head_law [OF h(3)])
    then have "opened R ?H rset ?store n ?v ?m"
      using h(3,4) by (simp add: opened_def version_at_def tx) (simp add: store_idle_def new_store_def)
    moreover have "open_store Hs new_store ?config = Some (Inr info :: 'io open_error + _, ?store)"
      using h(1) by (simp add: eq Inr r open_info_new_def)
    ultimately show ?thesis
      using h(1,2,5) by (auto simp: snapshot_def tx intro!: exI [of _ ?v] exI [of _ ?m])
  qed
qed

section \<open>A hash that tells the empty input apart\<close>

definition tag_hash :: "bytes \<Rightarrow> hash" where
  "tag_hash x = take 31 (rev x @ replicate 31 0) @ [if x = [] then 0 else 1]"

lemma tag_hash_laws: "hash_ok tag_hash" "x \<noteq> [] \<Longrightarrow> tag_hash x \<noteq> tag_hash []"
  by (auto simp: hash_ok_def tag_hash_def min_def)

lemma tag_paths: "distinct (map (cell_path tag_hash) (map fst (initial_cells demo_genesis)))"
  by code_simp

lemma tag_no_collision: "no_collision tag_hash (fst ` set (initial_cells demo_genesis))"
  using tag_paths unfolding no_collision_def distinct_map by (simp only: set_map)

lemma demo_genesis_valid: "genesis_validate demo_genesis (- 1) (- 1) = (Inr () :: 'io open_error + _)"
  by (simp add: genesis_validate_def demo_genesis_def Let_def)

text \<open>With two cells the root of the trie is a branch, whose digest is that of a nonempty input.\<close>

lemma branch_root_distinct:
  assumes "cells_at view tx H root c" "\<And>x. x \<noteq> [] \<Longrightarrow> H x \<noteq> H []" "no_collision H (dom c)" "c k = Some v" "c k' = Some v'" "k \<noteq> k'"
  shows "root_distinct view H tx CELL_TRIE root"
proof -
  obtain m where m: "commits H c m" "represents (cell_trie H) (branch_rows view (cell_trie H) tx) [] root m"
    using assms(1) by (auto simp: cells_at_def)
  have two: "m (cell_path H k) \<noteq> None" "m (cell_path H k') \<noteq> None" "cell_path H k \<noteq> cell_path H k'"
    using m(1) assms(3-6) by (auto simp: commits_def committed_def no_collision_def inj_on_def)
  obtain h where h: "root = RootBranch h"
    using m(2) two by (cases root) (auto elim: represents_EmptyE represents_LeafE split: if_splits)
  then obtain node where "node_hash H (tr_domain (cell_trie H)) node = h"
    using m(2) by (auto simp: represents_branch_iff holds_node_def cell_trie_def)
  then have "h \<noteq> H []"
    using assms(2) by (auto simp: node_hash_def hash_parts_def)
  then show ?thesis
    by (simp add: root_distinct_def h root_hash_def)
qed





end
