(* ===== verification/Spec2Isabelle.thy ===== *)
theory Spec2Isabelle
  imports Storage_System Cell_Store_Laws Merkle_Walk Index_Queries Branch_Replay Query_System Api_Open
begin

text \<open>
  GolemDB: a database whose state is a set of typed cells, committed by a Merkle trie and indexed
  by a second one. This development models its crates bottom up.

  \<^item> \<open>Prelude\<close>: the error monad, big-endian integers, ordered maps.
  \<^item> \<open>Storage\<close>, \<open>Storage_Scan\<close>, \<open>Storage_System\<close> (\<^verbatim>\<open>crates/storage\<close>): the transaction traits are the
    locales \<open>read_tx\<close> and \<open>write_tx\<close>, whose laws the memory backend proves; range and prefix scans are
    proved once inside \<open>read_tx\<close>. Interleavings of transactions are a step relation.
  \<^item> \<open>Merkle_*\<close> (\<^verbatim>\<open>crates/merkle\<close>): the compact node and its codec; lookup, insert, remove, batched apply and
    the walk of the trie. \<open>represents\<close> says which map of paths to digests a root stands for; every operation
    is proved against it inside \<open>write_tx\<close>.
  \<^item> \<open>Cell_*\<close> (\<^verbatim>\<open>crates/cells\<close>): types, order-preserving encodings, values, names, keys, and the cell store.
    \<open>cells_at\<close> says that the \<^verbatim>\<open>Cell\<close> table and a trie root agree on a map of cells.
  \<^item> \<open>Index_*\<close> (\<^verbatim>\<open>crates/index\<close>): terms and ranges, record-id containers, bitmap tries, the index trie.
    \<open>index_at\<close> says that the four index tables and a root agree on a set of record ids per term.
    \<open>Commitment\<close> holds what the two stores share.
  \<^item> \<open>Branch_Types\<close>, \<open>Branch_Journal\<close>, \<open>Branch_Scan\<close>, \<open>Branch_Overlay\<close> (\<^verbatim>\<open>crates/branch\<close>): the head row, the undo journal,
    the merged scan and the staged cells of a branch. A write callback is a \<open>cell_program\<close>, a tree of the calls it
    makes and of its continuations on their results. \<open>Layers\<close> has the lemmas on maps staged over maps.
  \<^item> \<open>Branch_Buffer\<close>, \<open>Branch_Seal\<close>, \<open>Branch_Commit\<close>, \<open>Branch_Replay\<close>: the buffered transaction, which is shown to meet
    \<open>write_tx\<close> over any \<open>read_tx\<close>, so that every law of the stores below applies to it; sealing and
    publishing a commit. \<open>committed_at\<close> says that head, cells, both roots and index of a store agree.
  \<^item> \<open>Branch_Manager\<close>, \<open>Branch_System\<close>, \<open>Branch_Runs\<close>: the registry and its operations, runs of any number of
    branches as a step relation with the invariant \<open>sys_inv\<close>, and what it gives: one chain of commits, one winner of
    a race, refusal of stale handles.
  \<^item> \<open>Record_State\<close>, \<open>Record_Ops\<close> (\<^verbatim>\<open>crates/record\<close>): the engine's own cells (allocator, bindings of keys to record ids, limits)
    and creation, patch, deletion and reads of records as cell programs. \<open>Record_Laws\<close> states the abstract database, a map of keys to
    records with a next id, and the relation \<open>records_at\<close> to the cells; \<open>Record_System\<close>, \<open>Record_Runs\<close> and \<open>Record_Reads\<close> show that the
    operations on a branch refine it, errors included, that a commit carries it, and that committed reads return it.
  \<^item> \<open>Api_Genesis\<close>, \<open>Api_Open\<close> (\<^verbatim>\<open>config.rs\<close>, \<^verbatim>\<open>genesis.rs\<close>, \<^verbatim>\<open>open.rs\<close>, \<^verbatim>\<open>open_error.rs\<close> of \<^verbatim>\<open>crates/api\<close>): the cells and identity of genesis,
    validation, and opening a store: creation gives an empty database, reopening changes nothing.
  \<^item> \<open>Query_Plan\<close>, \<open>Query_Laws\<close>, \<open>Query_System\<close> (\<^verbatim>\<open>crates/query\<close>): requests, admission of a filter, evaluation over the locale \<open>posting_source\<close>
    (the trait \<^verbatim>\<open>PostingSource\<close>), which the index of the memory store interprets, and queries and counts. \<open>record_matches\<close> says what a
    filter means for a record of the abstract database.

  Parameters: the hash provider is a function on bytes with 32-byte results (\<open>hash_ok\<close>); where a claim
  needs that two digests differ it names the digests. The roaring crate is the record \<open>roaring\<close>, with its
  documented behaviour as \<open>roaring_ok\<close>, met by \<open>list_roaring\<close>.

  Loops that depend on stored data are total functions: the trie operations decrease in the remaining
  depth, the walk in a multiset of remaining depths. Scans are partial functions in the option type, and
  the claims about them state that they return. The loop of the buffered cursor that skips shadowed
  rows has fuel: two more than the number of staged rows, since each row it skips is staged or is the
  current one.

  Sealing is correct as long as no two digests it meets are equal by accident; \<open>seal_distinct\<close> lists them.

  Not modelled: the MDBX backend (bindings), statistics, YAML configuration files, \<^verbatim>\<open>Display\<close> texts, poisoned
  branch locks, the facade of \<^verbatim>\<open>crates/api\<close> (request builders and dispatch).
\<close>

end
